(* ===== verification/Prelude.thy ===== *)
theory Prelude
  imports Main "HOL-Library.Word" "HOL-Library.Monad_Syntax"
begin

text \<open>
  Shared ground of the CrabOS development: machine integers, the Rust standard library
  operations the kernel sources use (slices, \<open>copy_within\<close>, ASCII classes, UTF-8), and the
  generic lemmas on lists and options the components share.

  Failure convention. A kernel operation that can panic (an array index out of range, a failed
  assertion, an \<open>unwrap\<close> of nothing, an arithmetic overflow with the debug profile's checks)
  returns an option: \<^term>\<open>None\<close> is the panic, after which the kernel halts, and
  \<^term>\<open>Some\<close> the normal return. A Rust \<open>Result\<close> is a sum, \<^term>\<open>Inl\<close> the error.

  A \<open>u8\<close> that holds text is a \<^typ>\<open>char\<close>, which is exactly an 8-bit value; a \<open>u8\<close> that
  holds bits is an \<open>8 word\<close>. \<open>usize\<close> counters and indices are \<^typ>\<open>nat\<close>; where a sum can
  reach \<open>2 ^ 64\<close> the operations \<open>usize_add\<close>, \<open>usize_sub\<close> below are used.
\<close>

unbundle bit_operations_syntax

named_theorems ascii_simps \<open>definitions of the ASCII classes\<close>
named_theorems panic_simps \<open>when a checked operation returns normally\<close>
named_theorems slice_simps \<open>definitions of the checked slice operations\<close>

declare Option.bind_cong [fundef_cong]

section \<open>Machine integers\<close>

type_synonym u8 = "8 word"
type_synonym u16 = "16 word"
type_synonym u32 = "32 word"
type_synonym u64 = "64 word"
type_synonym byte = char

text \<open>The checked operators of the debug profile on \<open>usize\<close>; they are also Rust's
  \<open>checked_add\<close> and \<open>checked_sub\<close>.\<close>

definition usize_add :: "nat \<Rightarrow> nat \<Rightarrow> nat option" where
  "usize_add a b = (if a + b < 2 ^ 64 then Some (a + b) else None)"

definition usize_sub :: "nat \<Rightarrow> nat \<Rightarrow> nat option" where
  "usize_sub a b = (if b \<le> a then Some (a - b) else None)"

text \<open>Rust's \<open>/\<close> and \<open>%\<close> on signed integers truncate towards zero.\<close>

definition trunc_div :: "int \<Rightarrow> int \<Rightarrow> int" where
  "trunc_div a b = sgn a * sgn b * (\<bar>a\<bar> div \<bar>b\<bar>)"

definition trunc_mod :: "int \<Rightarrow> int \<Rightarrow> int" where
  "trunc_mod a b = a - trunc_div a b * b"

definition clamp :: "int \<Rightarrow> int \<Rightarrow> int \<Rightarrow> int" where
  "clamp x lo hi = (if x < lo then lo else if x > hi then hi else x)"

text \<open>\<open>i16\<close> arithmetic with overflow checks.\<close>

definition i16 :: "int \<Rightarrow> int option" where
  "i16 x = (if - 32768 \<le> x \<and> x \<le> 32767 then Some x else None)"

section \<open>Slices and arrays\<close>

text \<open>Indexing, slicing \<open>&xs[a..b]\<close>, \<open>copy_within\<close> and assertions, with their panics.\<close>

definition arr_get :: "'a list \<Rightarrow> nat \<Rightarrow> 'a option" where
  [slice_simps]: "arr_get xs i = (if i < length xs then Some (xs ! i) else None)"

definition arr_set :: "'a list \<Rightarrow> nat \<Rightarrow> 'a \<Rightarrow> 'a list option" where
  [slice_simps]: "arr_set xs i v = (if i < length xs then Some (xs[i := v]) else None)"

definition slice :: "'a list \<Rightarrow> nat \<Rightarrow> nat \<Rightarrow> 'a list option" where
  [slice_simps]: "slice xs a b = (if a \<le> b \<and> b \<le> length xs then Some (drop a (take b xs)) else None)"

definition copy_within :: "'a list \<Rightarrow> nat \<Rightarrow> nat \<Rightarrow> nat \<Rightarrow> 'a list option" where
  [slice_simps]: "copy_within xs a b d =
     (if a \<le> b \<and> b \<le> length xs \<and> d + (b - a) \<le> length xs
      then Some (take d xs @ drop a (take b xs) @ drop (d + (b - a)) xs)
      else None)"

definition rust_assert :: "bool \<Rightarrow> unit option" where
  [slice_simps]: "rust_assert b = (if b then Some () else None)"

text \<open>\<open>iter().position(p)\<close>.\<close>

fun position :: "('a \<Rightarrow> bool) \<Rightarrow> 'a list \<Rightarrow> nat option" where
  "position p [] = None"
| "position p (x # xs) = (if p x then Some 0 else map_option Suc (position p xs))"

text \<open>\<open>for x in xs { s = f(x, s) }\<close>\<close>

fun for_each :: "('b \<Rightarrow> 's \<Rightarrow> 's option) \<Rightarrow> 'b list \<Rightarrow> 's \<Rightarrow> 's option" where
  "for_each f [] s = Some s"
| "for_each f (x # xs) s = do { s' \<leftarrow> f x s; for_each f xs s' }"

section \<open>ASCII and UTF-8\<close>

abbreviation code :: "char \<Rightarrow> nat" where
  "code c \<equiv> of_char c"

definition is_ascii :: "char \<Rightarrow> bool" where
  [ascii_simps]: "is_ascii c \<longleftrightarrow> code c < 128"

definition is_ascii_graphic :: "char \<Rightarrow> bool" where
  [ascii_simps]: "is_ascii_graphic c \<longleftrightarrow> 33 \<le> code c \<and> code c \<le> 126"

definition is_ascii_control :: "char \<Rightarrow> bool" where
  [ascii_simps]: "is_ascii_control c \<longleftrightarrow> code c < 32 \<or> code c = 127"

text \<open>\<open>u8::is_ascii_whitespace\<close>: space, tab, line feed, form feed, carriage return.\<close>

definition is_ascii_whitespace :: "char \<Rightarrow> bool" where
  [ascii_simps]: "is_ascii_whitespace c \<longleftrightarrow>
     code c = 32 \<or> code c = 9 \<or> code c = 10 \<or> code c = 12 \<or> code c = 13"

definition is_ascii_digit :: "char \<Rightarrow> bool" where
  [ascii_simps]: "is_ascii_digit c \<longleftrightarrow> 48 \<le> code c \<and> code c \<le> 57"

definition is_ascii_alphanumeric :: "char \<Rightarrow> bool" where
  [ascii_simps]: "is_ascii_alphanumeric c \<longleftrightarrow>
     48 \<le> code c \<and> code c \<le> 57 \<or> 65 \<le> code c \<and> code c \<le> 90 \<or> 97 \<le> code c \<and> code c \<le> 122"

definition to_ascii_lowercase :: "char \<Rightarrow> char" where
  "to_ascii_lowercase c = (if 65 \<le> code c \<and> code c \<le> 90 then char_of (code c + 32) else c)"

definition eq_ignore_ascii_case :: "char list \<Rightarrow> char list \<Rightarrow> bool" where
  "eq_ignore_ascii_case a b \<longleftrightarrow> map to_ascii_lowercase a = map to_ascii_lowercase b"

text \<open>The UTF-8 decoder behind \<open>core::str::from_utf8\<close> and \<open>str::chars\<close>: the code points of
  a byte string, nothing for an ill-formed one (RFC 3629: no overlong form, no surrogate,
  nothing above U+10FFFF).\<close>

definition utf8_cont :: "char \<Rightarrow> bool" where
  "utf8_cont c \<longleftrightarrow> 128 \<le> code c \<and> code c \<le> 191"

fun utf8_decode :: "char list \<Rightarrow> nat list option" where
  "utf8_decode [] = Some []"
| "utf8_decode (b0 # r0) =
     (if code b0 < 128 then map_option ((#) (code b0)) (utf8_decode r0)
      else case r0 of
        [] \<Rightarrow> None
      | b1 # r1 \<Rightarrow>
          if \<not> utf8_cont b1 then None
          else if 194 \<le> code b0 \<and> code b0 \<le> 223 then
            map_option ((#) ((code b0 - 192) * 64 + (code b1 - 128))) (utf8_decode r1)
          else (case r1 of
            [] \<Rightarrow> None
          | b2 # r2 \<Rightarrow>
              if \<not> utf8_cont b2 then None
              else if 224 \<le> code b0 \<and> code b0 \<le> 239 then
                (let p = (code b0 - 224) * 4096 + (code b1 - 128) * 64 + (code b2 - 128) in
                 if p < 2048 \<or> 55296 \<le> p \<and> p \<le> 57343 then None
                 else map_option ((#) p) (utf8_decode r2))
              else (case r2 of
                [] \<Rightarrow> None
              | b3 # r3 \<Rightarrow>
                  if \<not> utf8_cont b3 \<or> \<not> (240 \<le> code b0 \<and> code b0 \<le> 244) then None
                  else (let p = (code b0 - 240) * 262144 + (code b1 - 128) * 4096
                              + (code b2 - 128) * 64 + (code b3 - 128) in
                        if p < 65536 \<or> 1114111 < p then None
                        else map_option ((#) p) (utf8_decode r3)))))"

definition from_utf8 :: "char list \<Rightarrow> char list option" where
  "from_utf8 s = (if utf8_decode s = None then None else Some s)"

text \<open>\<open>str::chars\<close> on a string known to be well-formed, and \<open>char::is_whitespace\<close> (the
  Unicode property White\_Space) with the trimming functions on code points.\<close>

definition str_chars :: "char list \<Rightarrow> nat list" where
  "str_chars s = (case utf8_decode s of Some cs \<Rightarrow> cs | None \<Rightarrow> [])"

definition is_whitespace :: "nat \<Rightarrow> bool" where
  "is_whitespace c \<longleftrightarrow> 9 \<le> c \<and> c \<le> 13 \<or> c = 32 \<or> c = 133 \<or> c = 160 \<or> c = 5760
     \<or> 8192 \<le> c \<and> c \<le> 8202 \<or> c = 8232 \<or> c = 8233 \<or> c = 8239 \<or> c = 8287 \<or> c = 12288"

definition trim_matches :: "('a \<Rightarrow> bool) \<Rightarrow> 'a list \<Rightarrow> 'a list" where
  "trim_matches p s = rev (dropWhile p (rev (dropWhile p s)))"

text \<open>\<open>Display\<close> for unsigned integers.\<close>

fun show_nat :: "nat \<Rightarrow> char list" where
  "show_nat n = (if n < 10 then [char_of (48 + n)] else show_nat (n div 10) @ [char_of (48 + n mod 10)])"

declare show_nat.simps [simp del]

section \<open>Rings\<close>

text \<open>The contents of a ring: \<open>n\<close> slots of \<open>xs\<close> from \<open>s\<close>, modulo the length of \<open>xs\<close>; and
  the most recent \<open>n\<close> entries of a list.\<close>

definition ring :: "'a list \<Rightarrow> nat \<Rightarrow> nat \<Rightarrow> 'a list" where
  "ring xs s n = map (\<lambda>i. xs ! ((s + i) mod length xs)) [0..<n]"

definition keep_last :: "nat \<Rightarrow> 'a list \<Rightarrow> 'a list" where
  "keep_last n xs = drop (length xs - n) xs"

section \<open>Shared lemmas\<close>

subsection \<open>Options\<close>

lemma bind_eq_Some_iff [panic_simps]:
  "(m \<bind> f) = Some y \<longleftrightarrow> (\<exists>x. m = Some x \<and> f x = Some y)"
  by (cases m) auto

text \<open>A match on a \<open>Result\<close> with a known value, as a disjunction.\<close>

lemma case_sum_eq_iff:
  "(case r of Inl e \<Rightarrow> f e | Inr x \<Rightarrow> g x) = y \<longleftrightarrow> (\<exists>e. r = Inl e \<and> f e = y) \<or> (\<exists>x. r = Inr x \<and> g x = y)"
  by (cases r) auto

lemma bind_eq_None_iff:
  "(m \<bind> f) = None \<longleftrightarrow> m = None \<or> (\<exists>x. m = Some x \<and> f x = None)"
  by (cases m) auto

lemma usize_add_Some [panic_simps]: "usize_add a b = Some c \<longleftrightarrow> a + b < 2 ^ 64 \<and> c = a + b"
  by (auto simp: usize_add_def)

lemma usize_sub_Some [panic_simps]: "usize_sub a b = Some c \<longleftrightarrow> b \<le> a \<and> c = a - b"
  by (auto simp: usize_sub_def)

subsection \<open>Loops\<close>

lemma for_each_inv:
  assumes "P s" "\<And>x s. x \<in> set xs \<Longrightarrow> P s \<Longrightarrow> \<exists>s'. f x s = Some s' \<and> P s'"
  shows "\<exists>s'. for_each f xs s = Some s' \<and> P s'"
  using assms
proof (induction xs arbitrary: s)
  case (Cons x xs)
  obtain s1 where "f x s = Some s1" "P s1" using Cons.prems(2) [of x s] Cons.prems(1) by auto
  then show ?case using Cons.IH [of s1] Cons.prems(2) by simp
qed simp

lemma for_each_Nil [simp]: "for_each f [] = Some"
  by (rule ext) simp

lemma for_each_append: "for_each f (xs @ ys) s = do { s' \<leftarrow> for_each f xs s; for_each f ys s' }"
  by (induction xs arbitrary: s) (auto simp: bind_assoc intro!: Option.bind_cong)

text \<open>What one iteration establishes and the others keep holds in the end.\<close>

lemma for_each_sets:
  assumes I: "I s" and x: "x \<in> set xs"
    and est: "\<And>s. I s \<Longrightarrow> \<exists>s'. f x s = Some s' \<and> I s' \<and> P s'"
    and step: "\<And>y s. y \<in> set xs \<Longrightarrow> I s \<Longrightarrow> \<exists>s'. f y s = Some s' \<and> I s'"
    and keep: "\<And>y s s'. y \<in> set xs \<Longrightarrow> y \<noteq> x \<Longrightarrow> I s \<Longrightarrow> P s \<Longrightarrow> f y s = Some s' \<Longrightarrow> P s'"
  shows "\<exists>s'. for_each f xs s = Some s' \<and> I s' \<and> P s'"
proof -
  have rest: "\<exists>s'. for_each f ys s = Some s' \<and> I s' \<and> P s'"
    if "set ys \<subseteq> set xs" "I s" "P s" for ys s
    using for_each_inv [of "\<lambda>s. I s \<and> P s" s ys f] that est step keep by (metis subsetD)
  have "\<exists>s'. for_each f ys s = Some s' \<and> I s' \<and> P s'"
    if "set ys \<subseteq> set xs" "x \<in> set ys" "I s" for ys s
    using that
  proof (induction ys arbitrary: s)
    case (Cons y ys)
    show ?case
    proof (cases "y = x")
      case True
      then show ?thesis using est [of s] rest [of ys] Cons.prems by force
    next
      case False
      obtain s1 where "f y s = Some s1" "I s1" using step [of y s] Cons.prems by auto
      then show ?thesis using Cons.IH [of s1] Cons.prems False by auto
    qed
  qed simp
  then show ?thesis using I x by blast
qed

subsection \<open>Slices\<close>

lemma arr_get_Some [panic_simps]: "arr_get xs i = Some v \<longleftrightarrow> i < length xs \<and> v = xs ! i"
  by (auto simp: arr_get_def)

lemma arr_set_Some [panic_simps]: "arr_set xs i v = Some ys \<longleftrightarrow> i < length xs \<and> ys = xs[i := v]"
  by (auto simp: arr_set_def)

lemma slice_Some [panic_simps]:
  "slice xs a b = Some ys \<longleftrightarrow> a \<le> b \<and> b \<le> length xs \<and> ys = drop a (take b xs)"
  by (auto simp: slice_def)

lemma length_copy_within: "copy_within xs a b d = Some ys \<Longrightarrow> length ys = length xs"
  by (auto simp: copy_within_def split: if_splits)

text \<open>Opening a gap of one byte at \<open>i\<close> in the first \<open>n\<close> bytes and filling it is insertion;
  closing one is deletion.\<close>

lemma copy_within_insert:
  assumes "i \<le> n" "n < length xs"
  shows "\<exists>ys. copy_within xs i n (i + 1) = Some ys \<and> length ys = length xs \<and>
    take (Suc n) (ys[i := v]) = take i (take n xs) @ v # drop i (take n xs)"
proof -
  let ?ys = "take (i + 1) xs @ drop i (take n xs) @ drop (i + 1 + (n - i)) xs"
  have ys: "copy_within xs i n (i + 1) = Some ?ys"
    using assms by (simp add: copy_within_def)
  have "take (i + 1) xs = take i xs @ [xs ! i]"
    using assms by (simp add: take_Suc_conv_app_nth)
  then have upd: "?ys[i := v] = take i xs @ v # drop i (take n xs) @ drop (i + 1 + (n - i)) xs"
    using assms by (simp add: list_update_append)
  have "length (take i xs @ v # drop i (take n xs)) = Suc n"
    using assms by simp
  then have "take (Suc n) (?ys[i := v]) = take i xs @ v # drop i (take n xs)"
    unfolding upd using assms by (simp add: take_Cons')
  then show ?thesis
    using ys assms length_copy_within [OF ys] by (intro exI [of _ ?ys]) (simp add: min_def)
qed

lemma copy_within_delete:
  assumes "i < n" "n \<le> length xs"
  shows "\<exists>ys. copy_within xs (i + 1) n i = Some ys \<and> length ys = length xs \<and>
    take (n - 1) ys = take i (take n xs) @ drop (Suc i) (take n xs)"
proof -
  let ?ys = "take i xs @ drop (i + 1) (take n xs) @ drop (i + (n - (i + 1))) xs"
  have ys: "copy_within xs (i + 1) n i = Some ?ys"
    using assms by (simp add: copy_within_def)
  have "take (n - 1) ?ys = take i xs @ drop (Suc i) (take n xs)"
    using assms by simp
  then show ?thesis
    using ys assms length_copy_within [OF ys] by (intro exI [of _ ?ys]) (simp add: min_def)
qed

lemma position_Some_iff:
  "position p xs = Some i \<longleftrightarrow> i < length xs \<and> p (xs ! i) \<and> (\<forall>j<i. \<not> p (xs ! j))"
proof (induction xs arbitrary: i)
  case (Cons x xs)
  show ?case
    by (cases i) (auto simp: Cons.IH nth_Cons split: nat.splits)
qed simp

lemma position_None_iff: "position p xs = None \<longleftrightarrow> (\<forall>x\<in>set xs. \<not> p x)"
  by (induction xs) auto

lemma position_append:
  "\<forall>x\<in>set xs. \<not> p x \<Longrightarrow> position p (xs @ ys) = map_option (\<lambda>i. i + length xs) (position p ys)"
  by (induction xs) (simp_all add: option.map_comp comp_def option.map_ident)

lemma position_less: "position p xs = Some i \<Longrightarrow> i < length xs"
  by (simp add: position_Some_iff)

subsection \<open>Rings\<close>

lemma mod_eq_imp_eq:
  fixes a b n :: nat
  assumes "a mod n = b mod n" "a \<le> b" "b < a + n"
  shows "a = b"
proof -
  have "n dvd b - a"
    using assms(1,2) by (metis mod_eq_dvd_iff_nat)
  moreover have "b - a < n" using assms by linarith
  ultimately show ?thesis using assms(2) by (auto dest: dvd_imp_le)
qed

lemma mod_add_eq_iff:
  fixes s i j n :: nat
  assumes "i < n" "j < n"
  shows "(s + i) mod n = (s + j) mod n \<longleftrightarrow> i = j"
proof
  assume "(s + i) mod n = (s + j) mod n"
  then show "i = j"
    using assms mod_eq_imp_eq [of "s + i" n "s + j"] mod_eq_imp_eq [of "s + j" n "s + i"]
    by (cases "i \<le> j") auto
qed simp

lemma length_ring [simp]: "length (ring xs s n) = n"
  by (simp add: ring_def)

lemma ring_nth [simp]: "i < n \<Longrightarrow> ring xs s n ! i = xs ! ((s + i) mod length xs)"
  by (simp add: ring_def)

lemma ring_push:
  assumes "n < length xs"
  shows "ring (xs[(s + n) mod length xs := v]) s (Suc n) = ring xs s n @ [v]"
proof (rule nth_equalityI)
  fix i assume "i < length (ring (xs[(s + n) mod length xs := v]) s (Suc n))"
  then have i: "i \<le> n" by simp
  have "(s + n) mod length xs = (s + i) mod length xs \<longleftrightarrow> n = i"
    using i assms by (intro mod_add_eq_iff) auto
  moreover have "(s + i) mod length xs < length xs"
    using assms by (intro mod_less_divisor) linarith
  ultimately show "ring (xs[(s + n) mod length xs := v]) s (Suc n) ! i = (ring xs s n @ [v]) ! i"
    using i by (auto simp: nth_append nth_list_update less_Suc_eq_le)
qed simp

lemma ring_rotate:
  assumes "xs \<noteq> []" "s < length xs"
  shows "ring (xs[s := v]) ((s + 1) mod length xs) (length xs) = tl (ring xs s (length xs)) @ [v]"
proof (rule nth_equalityI)
  let ?n = "length xs"
  fix i assume "i < length (ring (xs[s := v]) ((s + 1) mod ?n) ?n)"
  then have i: "i < ?n" by simp
  have ix: "((s + 1) mod ?n + i) mod ?n = (s + Suc i) mod ?n"
    by (simp add: mod_add_left_eq)
  show "ring (xs[s := v]) ((s + 1) mod ?n) ?n ! i = (tl (ring xs s ?n) @ [v]) ! i"
  proof (cases "Suc i < ?n")
    case True
    then have "(s + Suc i) mod ?n \<noteq> s"
      using mod_add_eq_iff [of "Suc i" ?n 0 s] assms by auto
    then show ?thesis
      using True ix less_diff_conv [of i ?n 1] by (simp add: nth_append nth_tl)
  next
    case False
    then have "Suc i = ?n" using i by simp
    then have "(s + Suc i) mod ?n = s" using assms by simp
    then show ?thesis
      using i ix assms \<open>Suc i = ?n\<close> by (auto simp: nth_append)
  qed
qed (use assms in simp)
subsection \<open>Signed arithmetic\<close>

lemma trunc_div_mod: "a = trunc_div a b * b + trunc_mod a b"
  by (simp add: trunc_mod_def)

lemma trunc_mod_bound: "0 < b \<Longrightarrow> - b < trunc_mod a b \<and> trunc_mod a b < b"
proof -
  assume b: "0 < b"
  have "trunc_mod a b = sgn a * (\<bar>a\<bar> mod b)"
    using b by (cases "a \<ge> 0")
      (auto simp: trunc_mod_def trunc_div_def minus_div_mult_eq_mod [symmetric] sgn_if algebra_simps)
  moreover have "0 \<le> \<bar>a\<bar> mod b" "\<bar>a\<bar> mod b < b"
    using b by simp_all
  ultimately show ?thesis
    by (auto simp: sgn_if)
qed

lemma trunc_div_bound: "0 < b \<Longrightarrow> \<bar>trunc_div a b\<bar> \<le> \<bar>a\<bar>"
proof -
  assume b: "0 < b"
  have "\<bar>a\<bar> div b \<le> \<bar>a\<bar> div 1"
    using b by (intro zdiv_mono2) auto
  moreover have "0 \<le> \<bar>a\<bar> div b"
    using b by (simp add: pos_imp_zdiv_nonneg_iff)
  ultimately show ?thesis
    using b by (auto simp: trunc_div_def sgn_if)
qed

lemma clamp_bounds: "lo \<le> hi \<Longrightarrow> lo \<le> clamp x lo hi \<and> clamp x lo hi \<le> hi"
  by (auto simp: clamp_def)

lemma clamp_id [simp]: "lo \<le> x \<Longrightarrow> x \<le> hi \<Longrightarrow> clamp x lo hi = x"
  by (auto simp: clamp_def)

lemma i16_Some [panic_simps]: "i16 x = Some y \<longleftrightarrow> - 32768 \<le> x \<and> x \<le> 32767 \<and> y = x"
  by (auto simp: i16_def)

subsection \<open>ASCII\<close>

lemma code_less: "code c < 256"
  by (rule nat_of_char_less_256)

lemma code_space: "code c = 32 \<longleftrightarrow> c = CHR '' ''"
proof -
  have "code c = code (CHR '' '') \<longleftrightarrow> c = CHR '' ''" by (rule of_char_eq_iff)
  then show ?thesis by simp
qed

lemma graphic_is_ascii [simp]: "is_ascii_graphic c \<Longrightarrow> is_ascii c"
  by (simp add: ascii_simps)

lemma utf8_decode_ascii: "\<forall>c\<in>set s. is_ascii c \<Longrightarrow> utf8_decode s = Some (map code s)"
  by (induction s) (auto simp: is_ascii_def)

lemma from_utf8_ascii [simp]: "\<forall>c\<in>set s. is_ascii c \<Longrightarrow> from_utf8 s = Some s"
  by (simp add: from_utf8_def utf8_decode_ascii)

lemma str_chars_ascii: "\<forall>c\<in>set s. is_ascii c \<Longrightarrow> str_chars s = map code s"
  by (simp add: str_chars_def utf8_decode_ascii)

end
