(* ===== verification/Alloc_Base.thy ===== *)
theory Alloc_Base
  imports Prelude "HOL-Library.Multiset"
begin

text \<open>
  Shared ground of the heap allocators (\<^verbatim>\<open>src/src/allocator.rs\<close>): layouts, \<open>align_up\<close> with its bit
  trick and overflow checks, address intervals, and the contract of \<open>GlobalAlloc\<close> as the locale
  \<open>heap_allocator\<close>. A pointer is its address, 0 the null pointer. The contract is stated with a
  ghost multiset of the live blocks and for the layouts an allocator accepts; any client that frees only what it holds then never makes
  the allocator panic, and its blocks stay aligned, inside the heap and disjoint.
\<close>

section \<open>Layouts and alignment\<close>

record Layout =
  lay_size :: nat
  lay_align :: nat

text \<open>\<open>core::alloc::Layout\<close>: the alignment is a power of two and the size rounded up to it is at
  most \<open>isize::MAX\<close>; \<open>GlobalAlloc\<close> excludes zero-sized layouts.\<close>

definition layout_ok :: "Layout \<Rightarrow> bool" where
  "layout_ok l \<longleftrightarrow> (\<exists>k\<in>{0..<63}. lay_align l = 2 ^ k) \<and> 0 < lay_size l
     \<and> lay_size l + (lay_align l - 1) \<le> 2 ^ 63 - 1"

definition HEAP_START :: nat where
  "HEAP_START = 0x444444440000"

definition HEAP_SIZE :: nat where
  "HEAP_SIZE = 100 * 1024"

definition align_up :: "nat \<Rightarrow> nat \<Rightarrow> nat option" where
  "align_up addr align = do {
     s \<leftarrow> usize_add addr align;
     s \<leftarrow> usize_sub s 1;
     m \<leftarrow> usize_sub align 1;
     Some (unat ((of_nat s :: u64) AND NOT (of_nat m)))
   }"

lemma and_not_mask: "w AND NOT (mask k) = push_bit k (drop_bit k w)" for w :: u64
  by (rule bit_eqI) (auto simp: bit_simps)

lemma unat_and_not_mask: "unat (w AND NOT (mask k)) = unat w div 2 ^ k * 2 ^ k" for w :: u64
proof -
  have "unat w div 2 ^ k * 2 ^ k \<le> unat w" by simp
  also have "unat w < 2 ^ 64" using unsigned_less [of w] by simp
  finally have "take_bit 64 (unat w div 2 ^ k * 2 ^ k) = unat w div 2 ^ k * 2 ^ k"
    by (rule take_bit_nat_eq_self)
  moreover have "unat (push_bit k (drop_bit k w)) = take_bit 64 (push_bit k (drop_bit k (unat w)))"
  proof -
    have "take_bit 64 (unat w) = unat w"
      using \<open>unat w < 2 ^ 64\<close> by (rule take_bit_nat_eq_self)
    then show ?thesis
      unfolding unsigned_push_bit_eq unsigned_drop_bit_eq by simp
  qed
  ultimately show ?thesis
    unfolding and_not_mask by (simp add: push_bit_eq_mult drop_bit_eq_div)
qed

lemma of_nat_mask: "(of_nat (2 ^ k - 1) :: u64) = mask k"
  by (simp add: mask_eq_exp_minus_1 of_nat_diff)

text \<open>\<open>align_up\<close> returns the least multiple of the alignment not below the address.\<close>

lemma align_up_spec:
  assumes "addr + 2 ^ k < 2 ^ 64"
  shows "align_up addr (2 ^ k) = Some ((addr + 2 ^ k - 1) div 2 ^ k * 2 ^ k)"
proof -
  have "unat (of_nat (addr + 2 ^ k - 1) :: u64) = addr + 2 ^ k - 1"
    using assms by (simp add: unat_of_nat)
  then have "unat ((of_nat (addr + 2 ^ k - 1) :: u64) AND NOT (of_nat (2 ^ k - 1))) = (addr + 2 ^ k - 1) div 2 ^ k * 2 ^ k"
    unfolding of_nat_mask unat_and_not_mask by simp
  moreover have "usize_add addr (2 ^ k) = Some (addr + 2 ^ k)" "usize_sub (addr + 2 ^ k) 1 = Some (addr + 2 ^ k - 1)"
    "usize_sub (2 ^ k) 1 = Some (2 ^ k - 1)"
    using assms by (simp_all add: usize_add_def usize_sub_def le_add2 trans_le_add2)
  ultimately show ?thesis
    unfolding align_up_def by simp
qed

lemmas align_up_eval = align_up_spec [where k = 3, simplified] align_up_spec [where k = 4, simplified]
  align_up_spec [where k = 5, simplified]

lemma align_up_props:
  assumes "addr + 2 ^ k < 2 ^ 64"
  shows "\<exists>r. align_up addr (2 ^ k) = Some r \<and> 2 ^ k dvd r \<and> addr \<le> r \<and> r < addr + 2 ^ k"
proof -
  let ?n = "(2::nat) ^ k"
  have "addr \<le> (addr + ?n - 1) div ?n * ?n"
  proof -
    have "addr + ?n - 1 = (addr + ?n - 1) div ?n * ?n + (addr + ?n - 1) mod ?n"
      by (rule div_mult_mod_eq [symmetric])
    moreover have "(addr + ?n - 1) mod ?n < ?n" by simp
    ultimately show ?thesis by linarith
  qed
  moreover have "(addr + ?n - 1) div ?n * ?n \<le> addr + ?n - 1" by simp
  moreover have "0 < ?n" by simp
  ultimately show ?thesis
    unfolding align_up_spec [OF assms]
    by (intro exI [of _ "(addr + ?n - 1) div ?n * ?n"] conjI refl dvd_triv_right) linarith+
qed

lemma align_up_aligned:
  assumes "addr + 2 ^ k < 2 ^ 64" "2 ^ k dvd addr"
  shows "align_up addr (2 ^ k) = Some addr"
proof -
  obtain m where m: "addr = 2 ^ k * m" using assms(2) by (rule dvdE)
  have "(addr + 2 ^ k - 1) div 2 ^ k = m"
  proof (rule div_nat_eqI)
    have "1 \<le> (2::nat) ^ k" by simp
    then show "2 ^ k * m \<le> addr + 2 ^ k - 1" unfolding m by linarith
    have "1 \<le> (2::nat) ^ k" by simp
    then show "addr + 2 ^ k - 1 < 2 ^ k * Suc m" unfolding m by (simp only: mult_Suc_right)
  qed
  then show ?thesis
    using align_up_spec [OF assms(1)] m by (simp only: mult.commute)
qed

lemma layout_align:
  assumes "layout_ok l"
  obtains k where "lay_align l = 2 ^ k" "(2::nat) ^ k \<le> 2 ^ 62" "0 < lay_size l" "lay_size l + 2 ^ k \<le> 2 ^ 63"
proof -
  obtain k where k: "k < 63" "lay_align l = 2 ^ k"
    using assms by (auto simp: layout_ok_def)
  have "(2::nat) ^ k \<le> 2 ^ 62"
    by (rule power_increasing) (use k in auto)
  moreover have "0 < lay_size l" "lay_size l + (2 ^ k - 1) \<le> 2 ^ 63 - 1"
    using assms k(2) unfolding layout_ok_def by auto
  moreover from this(2) have "lay_size l + 2 ^ k \<le> 2 ^ 63"
    using one_le_power [of "2::nat" k] by simp
  ultimately show thesis using that k(2) by blast
qed

section \<open>Intervals\<close>

text \<open>A block as start and length; two non-empty blocks are apart when they do not overlap.\<close>

type_synonym ivl = "nat \<times> nat"

definition apart2 :: "ivl \<Rightarrow> ivl \<Rightarrow> bool" where
  "apart2 x y \<longleftrightarrow> fst x + snd x \<le> fst y \<or> fst y + snd y \<le> fst x"

definition within :: "ivl \<Rightarrow> nat \<Rightarrow> nat \<Rightarrow> bool" where
  "within x lo hi \<longleftrightarrow> lo \<le> fst x \<and> fst x + snd x \<le> hi"

definition apart :: "ivl multiset \<Rightarrow> bool" where
  "apart M \<longleftrightarrow> (\<forall>x\<in>#M. \<forall>y\<in>#M - {#x#}. apart2 x y)"

lemma apart2_sym: "apart2 x y \<longleftrightarrow> apart2 y x"
  by (auto simp: apart2_def)

lemma apart2_within: "apart2 x y \<Longrightarrow> within z (fst x) (fst x + snd x) \<Longrightarrow> apart2 z y"
  by (auto simp: apart2_def within_def)

lemma apart_empty [simp]: "apart {#}"
  by (simp add: apart_def)

lemma apart_add [simp]: "apart (add_mset x M) \<longleftrightarrow> (\<forall>y\<in>#M. apart2 x y) \<and> apart M"
proof
  assume a: "apart (add_mset x M)"
  have "apart2 y z" if y: "y \<in># M" and z: "z \<in># M - {#y#}" for y z
  proof -
    have "z \<in># add_mset x M - {#y#}"
      using z by (auto simp: in_diff_count split: if_splits)
    then show ?thesis using a y by (auto simp: apart_def)
  qed
  then show "(\<forall>y\<in>#M. apart2 x y) \<and> apart M"
    using a by (auto simp: apart_def)
next
  assume a: "(\<forall>y\<in>#M. apart2 x y) \<and> apart M"
  have "apart2 y z" if y: "y \<in># add_mset x M" and z: "z \<in># add_mset x M - {#y#}" for y z
  proof (cases "y = x")
    case True
    then show ?thesis using a z by auto
  next
    case False
    then have "z = x \<or> z \<in># M - {#y#}" using y z by (auto simp: diff_add_mset_swap)
    then show ?thesis using a y False by (auto simp: apart_def apart2_sym [of y x])
  qed
  then show "apart (add_mset x M)" by (simp add: apart_def)
qed

lemma apart_right: "apart (N + M) \<Longrightarrow> apart M"
  by (induction N) auto

lemma apart_between: "apart (N + M) \<Longrightarrow> x \<in># N \<Longrightarrow> y \<in># M \<Longrightarrow> apart2 x y"
  by (induction N) auto

lemma apart_mono:
  "apart (N + image_mset f M) \<Longrightarrow> (\<And>x. x \<in># M \<Longrightarrow> within (g x) (fst (f x)) (fst (f x) + snd (f x))) \<Longrightarrow>
    apart (N + image_mset g M)"
proof (induction M)
  case (add x M)
  have sub: "within (g x) (fst (f x)) (fst (f x) + snd (f x))"
    and subM: "\<And>y. y \<in># M \<Longrightarrow> within (g y) (fst (f y)) (fst (f y) + snd (f y))"
    using add.prems(2) by auto
  have N: "apart2 (g x) y" if "y \<in># N" for y
    using add.prems(1) that apart2_within [OF _ sub] by simp
  have M: "apart2 (g x) (g y)" if y: "y \<in># M" for y
  proof -
    have "apart2 (f x) (f y)" using add.prems(1) y by auto
    then have "apart2 (g x) (f y)" using sub by (rule apart2_within)
    then show ?thesis using apart2_within [of "f y" "g x" "g y"] subM [OF y] apart2_sym by blast
  qed
  show ?case
    using add.IH add.prems(1) subM N M by auto
qed simp

text \<open>Disjoint blocks of a range have at most its length in total.\<close>

definition cells :: "ivl \<Rightarrow> nat set" where
  "cells x = {fst x..<fst x + snd x}"

lemma apart2_cells: "apart2 x y \<Longrightarrow> cells x \<inter> cells y = {}"
  by (auto simp: apart2_def cells_def)

lemma apart_total:
  "apart M \<Longrightarrow> card (\<Union>x\<in>set_mset M. cells x) = (\<Sum>x\<in>#M. snd x)"
proof (induction M)
  case (add x M)
  have "cells x \<inter> (\<Union>y\<in>set_mset M. cells y) = {}"
    using add.prems apart2_cells by fastforce
  moreover have "finite (\<Union>y\<in>set_mset M. cells y)" "finite (cells x)"
    by (auto simp: cells_def)
  ultimately show ?case
    using add by (simp add: card_Un_disjoint) (simp add: cells_def)
qed simp

lemma apart_total_le:
  assumes "apart M" "\<And>x. x \<in># M \<Longrightarrow> within x lo hi"
  shows "(\<Sum>x\<in>#M. snd x) \<le> hi - lo"
proof -
  have "(\<Union>x\<in>set_mset M. cells x) \<subseteq> {lo..<hi}"
    using assms(2) by (auto simp: cells_def within_def) (fastforce+)
  then have "card (\<Union>x\<in>set_mset M. cells x) \<le> card {lo..<hi}"
    by (intro card_mono) auto
  then show ?thesis using apart_total [OF assms(1)] by simp
qed

section \<open>The allocator contract\<close>

type_synonym heap_block = "nat \<times> Layout"

definition block_ivl :: "heap_block \<Rightarrow> ivl" where
  "block_ivl b = (fst b, lay_size (snd b))"

definition block_ok :: "nat \<Rightarrow> nat \<Rightarrow> heap_block \<Rightarrow> bool" where
  "block_ok lo hi b \<longleftrightarrow> layout_ok (snd b) \<and> within (block_ivl b) lo hi \<and> lay_align (snd b) dvd fst b"

definition blocks_ok :: "nat \<Rightarrow> nat \<Rightarrow> heap_block multiset \<Rightarrow> bool" where
  "blocks_ok lo hi L \<longleftrightarrow> (\<forall>b\<in>#L. block_ok lo hi b) \<and> apart (image_mset block_ivl L)"

lemma blocks_ok_mono: "blocks_ok lo hi L \<Longrightarrow> hi \<le> hi' \<Longrightarrow> blocks_ok lo hi' L"
  by (fastforce simp: blocks_ok_def block_ok_def within_def)

lemma blocks_ok_remove: "blocks_ok lo hi L \<Longrightarrow> blocks_ok lo hi (L - {#b#})"
proof (cases "b \<in># L")
  case True
  assume ok: "blocks_ok lo hi L"
  obtain M where "L = add_mset b M" using True by (auto dest: multi_member_split)
  then show ?thesis using ok by (auto simp: blocks_ok_def)
qed (auto simp: diff_single_trivial)

text \<open>What a client does: request a block, or free one it holds (by its position in the list of
  the blocks it holds; nothing if there is no such block).\<close>

datatype heap_request = Request Layout | Free nat

fun heap_step :: "('a \<Rightarrow> Layout \<Rightarrow> ('a \<times> nat) option) \<Rightarrow> ('a \<Rightarrow> nat \<Rightarrow> Layout \<Rightarrow> 'a option) \<Rightarrow>
    'a \<times> heap_block list \<Rightarrow> heap_request \<Rightarrow> ('a \<times> heap_block list) option" where
  "heap_step alloc dealloc (h, held) (Request l) = do {
     (h', p) \<leftarrow> alloc h l;
     Some (h', if p = 0 then held else (p, l) # held)
   }"
| "heap_step alloc dealloc (h, held) (Free i) =
     (if i < length held then do {
        h' \<leftarrow> dealloc h (fst (held ! i)) (snd (held ! i));
        Some (h', take i held @ drop (Suc i) held)
      } else Some (h, held))"

fun heap_run :: "('a \<Rightarrow> Layout \<Rightarrow> ('a \<times> nat) option) \<Rightarrow> ('a \<Rightarrow> nat \<Rightarrow> Layout \<Rightarrow> 'a option) \<Rightarrow>
    'a \<times> heap_block list \<Rightarrow> heap_request list \<Rightarrow> ('a \<times> heap_block list) option" where
  "heap_run alloc dealloc s [] = Some s"
| "heap_run alloc dealloc s (r # rs) = do { s' \<leftarrow> heap_step alloc dealloc s r; heap_run alloc dealloc s' rs }"

definition request_ok :: "(Layout \<Rightarrow> bool) \<Rightarrow> heap_request \<Rightarrow> bool" where
  "request_ok accepts r = (case r of Request l \<Rightarrow> accepts l | Free _ \<Rightarrow> True)"

lemma mset_delete_nth:
  assumes "i < length xs"
  shows "mset (take i xs @ drop (Suc i) xs) = mset xs - {#xs ! i#}"
proof -
  have "mset xs = mset (take i xs @ xs ! i # drop (Suc i) xs)"
    using assms by (simp flip: id_take_nth_drop)
  then show ?thesis by simp
qed

locale heap_allocator =
  fixes lo hi :: nat
    and hinv :: "'a \<Rightarrow> heap_block multiset \<Rightarrow> bool"
    and alloc :: "'a \<Rightarrow> Layout \<Rightarrow> ('a \<times> nat) option"
    and dealloc :: "'a \<Rightarrow> nat \<Rightarrow> Layout \<Rightarrow> 'a option"
    and accepts :: "Layout \<Rightarrow> bool"
  assumes live_ok: "hinv h L \<Longrightarrow> blocks_ok lo hi L"
    and alloc_ok: "\<lbrakk>hinv h L; accepts l\<rbrakk> \<Longrightarrow>
      \<exists>h' p. alloc h l = Some (h', p) \<and> hinv h' (if p = 0 then L else add_mset (p, l) L)"
    and dealloc_ok: "\<lbrakk>hinv h L; (p, l) \<in># L\<rbrakk> \<Longrightarrow>
      \<exists>h'. dealloc h p l = Some h' \<and> hinv h' (L - {#(p, l)#})"
begin

lemma heap_step_ok:
  assumes "hinv h (mset held)" "request_ok accepts r"
  shows "\<exists>h' held'. heap_step alloc dealloc (h, held) r = Some (h', held') \<and> hinv h' (mset held')"
proof (cases r)
  case (Request l)
  then obtain h' p where "alloc h l = Some (h', p)" "hinv h' (if p = 0 then mset held else add_mset (p, l) (mset held))"
    using alloc_ok [OF assms(1), of l] assms(2) by (auto simp: request_ok_def)
  then show ?thesis using Request by (cases "p = 0") auto
next
  case (Free i)
  show ?thesis
  proof (cases "i < length held")
    case True
    then obtain h' where "dealloc h (fst (held ! i)) (snd (held ! i)) = Some h'" "hinv h' (mset held - {#held ! i#})"
      using dealloc_ok [OF assms(1), of "fst (held ! i)" "snd (held ! i)"] by auto
    then show ?thesis using Free True by (simp add: mset_delete_nth [OF True, simplified])
  qed (use Free assms in simp)
qed

lemma heap_run_ok:
  assumes "hinv h (mset held)" "list_all (request_ok accepts) rs"
  shows "\<exists>h' held'. heap_run alloc dealloc (h, held) rs = Some (h', held') \<and> hinv h' (mset held')
    \<and> blocks_ok lo hi (mset held')"
  using assms
proof (induction rs arbitrary: h held)
  case Nil
  then show ?case using live_ok by auto
next
  case (Cons r rs)
  obtain h1 held1 where "heap_step alloc dealloc (h, held) r = Some (h1, held1)" "hinv h1 (mset held1)"
    using heap_step_ok [OF Cons.prems(1), of r] Cons.prems(2) by auto
  then show ?case using Cons.IH [of h1 held1] Cons.prems(2) by simp
qed

end

section \<open>The allocator that has no memory\<close>

text \<open>\<open>Dummy\<close> answers every request with null and panics when asked to free; since it never hands out a
  block, it keeps the contract.\<close>

definition dummy_alloc :: "unit \<Rightarrow> Layout \<Rightarrow> (unit \<times> nat) option" where
  "dummy_alloc h layout = Some (h, 0)"

definition dummy_dealloc :: "unit \<Rightarrow> nat \<Rightarrow> Layout \<Rightarrow> unit option" where
  "dummy_dealloc h p layout = None"

interpretation dummy: heap_allocator lo hi "\<lambda>_ L. L = {#}" dummy_alloc dummy_dealloc "\<lambda>_. True"
  by unfold_locales (simp_all add: dummy_alloc_def blocks_ok_def)

end
