(* ===== verification/Alloc_Bump.thy ===== *)
theory Alloc_Bump
  imports Alloc_Base
begin

text \<open>
  The bump allocator of \<^verbatim>\<open>src/src/allocator/bump.rs\<close>. It satisfies the allocator contract: the bytes
  below \<open>next\<close> hold all live blocks, and the counter of allocations is their number, so \<open>next\<close> is
  reset exactly when the last of them is freed.
\<close>

record BumpAllocator =
  heap_start :: nat
  heap_end :: nat
  bump_next :: nat
  allocations :: nat

definition bump_new :: BumpAllocator where
  "bump_new = \<lparr>heap_start = 0, heap_end = 0, bump_next = 0, allocations = 0\<rparr>"

definition bump_init :: "BumpAllocator \<Rightarrow> nat \<Rightarrow> nat \<Rightarrow> BumpAllocator option" where
  "bump_init b start size' = do {
     e \<leftarrow> usize_add start size';
     Some (b\<lparr>heap_start := start, heap_end := e, bump_next := start\<rparr>)
   }"

definition bump_alloc :: "BumpAllocator \<Rightarrow> Layout \<Rightarrow> (BumpAllocator \<times> nat) option" where
  "bump_alloc b l = do {
     alloc_start \<leftarrow> align_up (bump_next b) (lay_align l);
     (case usize_add alloc_start (lay_size l) of
        None \<Rightarrow> Some (b, 0)
      | Some alloc_end \<Rightarrow>
          if alloc_end > heap_end b then Some (b, 0)
          else do {
            n \<leftarrow> usize_add (allocations b) 1;
            Some (b\<lparr>bump_next := alloc_end, allocations := n\<rparr>, alloc_start)
          })
   }"

definition bump_dealloc :: "BumpAllocator \<Rightarrow> nat \<Rightarrow> Layout \<Rightarrow> BumpAllocator option" where
  "bump_dealloc b p l = do {
     n \<leftarrow> usize_sub (allocations b) 1;
     Some (if n = 0 then b\<lparr>allocations := n, bump_next := heap_start b\<rparr> else b\<lparr>allocations := n\<rparr>)
   }"

section \<open>The contract\<close>

definition bump_inv :: "nat \<Rightarrow> nat \<Rightarrow> BumpAllocator \<Rightarrow> heap_block multiset \<Rightarrow> bool" where
  "bump_inv lo hi b L \<longleftrightarrow> heap_start b = lo \<and> heap_end b = hi \<and> 0 < lo \<and> hi \<le> 2 ^ 63
     \<and> lo \<le> bump_next b \<and> bump_next b \<le> hi \<and> allocations b = size L \<and> size L \<le> bump_next b - lo
     \<and> blocks_ok lo (bump_next b) L"

text \<open>A block placed at or above the end of the others.\<close>

lemma blocks_ok_push:
  assumes "blocks_ok lo n L" "layout_ok l" "lay_align l dvd p" "lo \<le> n" "n \<le> p"
  shows "blocks_ok lo (p + lay_size l) (add_mset (p, l) L)"
  using assms
  by (fastforce simp: blocks_ok_def block_ok_def within_def block_ivl_def apart2_def)

lemma bump_alloc_ok:
  assumes inv: "bump_inv lo hi b L" and l: "layout_ok l"
  shows "\<exists>b' p. bump_alloc b l = Some (b', p) \<and> bump_inv lo hi b' (if p = 0 then L else add_mset (p, l) L)"
proof -
  note i = inv [unfolded bump_inv_def]
  obtain k where k: "lay_align l = 2 ^ k" "(2::nat) ^ k \<le> 2 ^ 62" "0 < lay_size l" "lay_size l + 2 ^ k \<le> 2 ^ 63"
    using layout_align [OF l] .
  have "bump_next b + 2 ^ k < 2 ^ 64" using i k(2) by simp
  from align_up_props [OF this] obtain p where p: "align_up (bump_next b) (2 ^ k) = Some p"
    "2 ^ k dvd p" "bump_next b \<le> p" "p < bump_next b + 2 ^ k" by blast
  have add: "usize_add p (lay_size l) = Some (p + lay_size l)"
    using p(4) i k by (simp add: usize_add_def)
  show ?thesis
  proof (cases "p + lay_size l > hi")
    case True
    then have "bump_alloc b l = Some (b, 0)"
      using p(1) k(1) add i by (simp add: bump_alloc_def)
    then show ?thesis using inv by simp
  next
    case False
    let ?b = "b\<lparr>bump_next := p + lay_size l, allocations := size L + 1\<rparr>"
    have "size L \<le> 2 ^ 63" using i by linarith
    then have "usize_add (size L) 1 = Some (size L + 1)" by (simp add: usize_add_def)
    then have "bump_alloc b l = Some (?b, p)"
      using p(1) k(1) add i False by (simp add: bump_alloc_def)
    moreover have "blocks_ok lo (p + lay_size l) (add_mset (p, l) L)"
      using i p k l by (intro blocks_ok_push [where n = "bump_next b"]) auto
    moreover have "p \<noteq> 0" using i p(3) by simp
    moreover have "size L + 1 \<le> p + lay_size l - lo" using i p(3) k(3) by linarith
    ultimately show ?thesis
      using i p(3) k(3) False by (simp add: bump_inv_def)
  qed
qed

lemma bump_dealloc_ok:
  assumes inv: "bump_inv lo hi b L" and m: "(p, l) \<in># L"
  shows "\<exists>b'. bump_dealloc b p l = Some b' \<and> bump_inv lo hi b' (L - {#(p, l)#})"
proof -
  note i = inv [unfolded bump_inv_def]
  obtain M where M: "L = add_mset (p, l) M" using m by (auto dest: multi_member_split)
  let ?b = "if size M = 0 then b\<lparr>allocations := size M, bump_next := heap_start b\<rparr> else b\<lparr>allocations := size M\<rparr>"
  have "bump_dealloc b p l = Some ?b"
    using i M by (simp add: bump_dealloc_def usize_sub_def)
  moreover have "bump_inv lo hi ?b M"
    using i M blocks_ok_remove [of lo "bump_next b" L "(p, l)"]
    by (cases "size M = 0") (auto simp: bump_inv_def blocks_ok_def)
  ultimately show ?thesis using M by auto
qed

interpretation bump: heap_allocator lo hi "bump_inv lo hi" bump_alloc bump_dealloc layout_ok for lo hi
proof unfold_locales
  fix b L
  assume "bump_inv lo hi b L"
  then show "blocks_ok lo hi L"
    using blocks_ok_mono [of lo "bump_next b" L hi] by (simp add: bump_inv_def)
qed (use bump_alloc_ok bump_dealloc_ok in blast)+

lemma bump_init_inv:
  assumes "0 < start" "start + size' \<le> 2 ^ 63"
  shows "\<exists>b. bump_init bump_new start size' = Some b \<and> bump_inv start (start + size') b {#}"
  using assms by (simp add: bump_init_def bump_new_def usize_add_def bump_inv_def blocks_ok_def)

section \<open>Properties\<close>

text \<open>The bump allocator initialised on the kernel's heap serves every sequence of valid
  requests, and of releases of held blocks, without a panic or a counter overflow, and the blocks
  held at the end are aligned, inside the heap and pairwise disjoint.\<close>

theorem bump_allocator_safe:
  assumes "list_all (request_ok layout_ok) rs"
  shows "\<exists>b b' held. bump_init bump_new HEAP_START HEAP_SIZE = Some b
    \<and> heap_run bump_alloc bump_dealloc (b, []) rs = Some (b', held)
    \<and> blocks_ok HEAP_START (HEAP_START + HEAP_SIZE) (mset held) \<and> allocations b' = length held"
proof -
  obtain b where b: "bump_init bump_new HEAP_START HEAP_SIZE = Some b"
    "bump_inv HEAP_START (HEAP_START + HEAP_SIZE) b {#}"
    using bump_init_inv [of HEAP_START HEAP_SIZE] by (auto simp: HEAP_START_def HEAP_SIZE_def)
  show ?thesis
    using bump.heap_run_ok [of HEAP_START "HEAP_START + HEAP_SIZE" b "[]" rs] b assms
    by (auto simp: bump_inv_def)
qed

theorem bump_allocator_safe_witness:
  "\<exists>b b' held. bump_init bump_new HEAP_START HEAP_SIZE = Some b
    \<and> heap_run bump_alloc bump_dealloc (b, []) [Request \<lparr>lay_size = 24, lay_align = 8\<rparr>, Free 0] = Some (b', held)
    \<and> blocks_ok HEAP_START (HEAP_START + HEAP_SIZE) (mset held) \<and> allocations b' = length held"
  by (rule bump_allocator_safe) (simp add: request_ok_def layout_ok_def bexI [of _ 3])

end
