(* ===== verification/Alloc_List.thy ===== *)
theory Alloc_List
  imports Alloc_Base
begin

text \<open>
  The linked-list allocator of \<^verbatim>\<open>src/src/allocator/linked_list.rs\<close>. The list of free regions is the
  list of the nodes' addresses and sizes, in list order; each node lives in the first 16 bytes of
  its own region, so it is not touched by a client as long as live blocks and free regions are
  disjoint, which is part of the invariant. The allocator satisfies the allocator contract for
  every layout whose size can be rounded up to the alignment of a node.
\<close>

type_synonym region = "nat \<times> nat"

abbreviation NODE_SIZE :: nat where "NODE_SIZE \<equiv> 16"
abbreviation NODE_ALIGN :: nat where "NODE_ALIGN \<equiv> 8"

section \<open>Operations\<close>

text \<open>\<open>Layout::align_to(8)\<close> followed by \<open>pad_to_align\<close>; the former fails, and the \<open>expect\<close> panics,
  when the rounded size exceeds \<open>isize::MAX\<close>.\<close>

definition sa_align :: "Layout \<Rightarrow> nat" where
  "sa_align l = max (lay_align l) NODE_ALIGN"

definition sa_size :: "Layout \<Rightarrow> nat" where
  "sa_size l = max ((lay_size l + sa_align l - 1) div sa_align l * sa_align l) NODE_SIZE"

definition size_align :: "Layout \<Rightarrow> (nat \<times> nat) option" where
  "size_align l =
     (if lay_size l + (sa_align l - 1) \<le> 2 ^ 63 - 1 then Some (sa_size l, sa_align l) else None)"

definition end_addr :: "region \<Rightarrow> nat option" where
  "end_addr r = usize_add (fst r) (snd r)"

definition add_free_region :: "region list \<Rightarrow> nat \<Rightarrow> nat \<Rightarrow> region list option" where
  "add_free_region fl addr size' = do {
     a \<leftarrow> align_up addr NODE_ALIGN;
     rust_assert (a = addr);
     rust_assert (size' \<ge> NODE_SIZE);
     Some ((addr, size') # fl)
   }"

definition list_new :: "region list" where
  "list_new = []"

definition list_init :: "region list \<Rightarrow> nat \<Rightarrow> nat \<Rightarrow> region list option" where
  "list_init fl start size' = add_free_region fl start size'"

definition alloc_from_region :: "region \<Rightarrow> nat \<Rightarrow> nat \<Rightarrow> (unit + nat) option" where
  "alloc_from_region r size' align = do {
     alloc_start \<leftarrow> align_up (fst r) align;
     (case usize_add alloc_start size' of
        None \<Rightarrow> Some (Inl ())
      | Some alloc_end \<Rightarrow> do {
          e \<leftarrow> end_addr r;
          if alloc_end > e then Some (Inl ())
          else do {
            excess \<leftarrow> usize_sub e alloc_end;
            Some (if excess > 0 \<and> excess < NODE_SIZE then Inl () else Inr alloc_start)
          }
        })
   }"

text \<open>The first region that fits is unlinked and returned with the allocation's address; the other
  nodes keep their order.\<close>

fun find_region :: "region list \<Rightarrow> nat \<Rightarrow> nat \<Rightarrow> (region \<times> nat \<times> region list) option option" where
  "find_region [] size' align = Some None"
| "find_region (r # rs) size' align = do {
     x \<leftarrow> alloc_from_region r size' align;
     (case x of
        Inr alloc_start \<Rightarrow> Some (Some (r, alloc_start, rs))
      | Inl _ \<Rightarrow> do {
          y \<leftarrow> find_region rs size' align;
          Some (map_option (\<lambda>(r', alloc_start, rs'). (r', alloc_start, r # rs')) y)
        })
   }"

definition list_alloc :: "region list \<Rightarrow> Layout \<Rightarrow> (region list \<times> nat) option" where
  "list_alloc fl l = do {
     (size', align) \<leftarrow> size_align l;
     f \<leftarrow> find_region fl size' align;
     (case f of
        None \<Rightarrow> Some (fl, 0)
      | Some (r, alloc_start, fl') \<Rightarrow> do {
          alloc_end \<leftarrow> usize_add alloc_start size';
          e \<leftarrow> end_addr r;
          excess \<leftarrow> usize_sub e alloc_end;
          fl'' \<leftarrow> (if excess > 0 then add_free_region fl' alloc_end excess else Some fl');
          Some (fl'', alloc_start)
        })
   }"

definition list_dealloc :: "region list \<Rightarrow> nat \<Rightarrow> Layout \<Rightarrow> region list option" where
  "list_dealloc fl p l = do {
     (size', _) \<leftarrow> size_align l;
     add_free_region fl p size'
   }"

lemmas list_eval = list_alloc_def list_dealloc_def size_align_def sa_size_def sa_align_def
  alloc_from_region_def add_free_region_def end_addr_def rust_assert_def usize_add_def usize_sub_def align_up_eval

section \<open>The contract\<close>

definition list_accepts :: "Layout \<Rightarrow> bool" where
  "list_accepts l \<longleftrightarrow> layout_ok l \<and> lay_size l + (sa_align l - 1) \<le> 2 ^ 63 - 1"

text \<open>The extent of a live block is its rounded size.\<close>

definition extent :: "heap_block \<Rightarrow> ivl" where
  "extent b = (fst b, sa_size (snd b))"

definition region_ok :: "nat \<Rightarrow> nat \<Rightarrow> region \<Rightarrow> bool" where
  "region_ok lo hi r \<longleftrightarrow> 8 dvd fst r \<and> 16 \<le> snd r \<and> within r lo hi"

definition list_inv :: "nat \<Rightarrow> nat \<Rightarrow> region list \<Rightarrow> heap_block multiset \<Rightarrow> bool" where
  "list_inv lo hi fl L \<longleftrightarrow> 0 < lo \<and> hi \<le> 2 ^ 63 \<and> list_all (region_ok lo hi) fl
     \<and> (\<forall>b\<in>#L. list_accepts (snd b) \<and> sa_align (snd b) dvd fst b \<and> within (extent b) lo hi)
     \<and> apart (mset fl + image_mset extent L)"

lemma sa_align_pow:
  assumes "layout_ok l"
  obtains k where "sa_align l = 2 ^ k" "(2::nat) ^ k \<le> 2 ^ 62" "8 dvd (2::nat) ^ k"
proof -
  obtain k where k: "lay_align l = 2 ^ k" "(2::nat) ^ k \<le> 2 ^ 62"
    using layout_align [OF assms] by blast
  show thesis
  proof (cases "k \<le> 3")
    case True
    then have "(2::nat) ^ k \<le> 2 ^ 3" by (intro power_increasing) auto
    then have "sa_align l = 2 ^ 3" by (simp add: sa_align_def k)
    then show ?thesis by (rule that) auto
  next
    case False
    then have "(2::nat) ^ 3 dvd 2 ^ k" by (intro le_imp_power_dvd) auto
    moreover have "(2::nat) ^ 3 \<le> 2 ^ k" using False by (intro power_increasing) auto
    ultimately show ?thesis using that [of k] k by (simp add: sa_align_def)
  qed
qed

lemma round_up_props:
  fixes n a :: nat
  assumes "0 < a"
  shows "n \<le> (n + a - 1) div a * a" "(n + a - 1) div a * a \<le> n + a - 1"
proof -
  have "n + a - 1 = (n + a - 1) div a * a + (n + a - 1) mod a" by (rule div_mult_mod_eq [symmetric])
  moreover have "(n + a - 1) mod a < a" using assms by simp
  ultimately show "n \<le> (n + a - 1) div a * a" by linarith
qed simp

lemma sa_size_props:
  assumes "list_accepts l"
  shows "lay_size l \<le> sa_size l" "16 \<le> sa_size l" "8 dvd sa_size l" "sa_size l < 2 ^ 63"
proof -
  have ok: "layout_ok l" "lay_size l + (sa_align l - 1) \<le> 2 ^ 63 - 1"
    using assms by (auto simp: list_accepts_def)
  obtain k where k: "sa_align l = 2 ^ k" "8 dvd (2::nat) ^ k" using sa_align_pow [OF ok(1)] by metis
  have pos: "0 < sa_align l" by (simp add: k(1))
  let ?r = "(lay_size l + sa_align l - 1) div sa_align l * sa_align l"
  show "lay_size l \<le> sa_size l" using round_up_props(1) [OF pos, of "lay_size l"] by (simp add: sa_size_def)
  show "16 \<le> sa_size l" by (simp add: sa_size_def)
  have "8 dvd ?r" using k by (simp add: dvd_mult)
  then show "8 dvd sa_size l" by (simp add: sa_size_def max_def)
  have "?r \<le> 2 ^ 63 - 1" using round_up_props(2) [OF pos, of "lay_size l"] ok(2) pos by linarith
  then show "sa_size l < 2 ^ 63" unfolding sa_size_def by simp
qed

lemma add_free_region_ok:
  assumes "8 dvd a" "16 \<le> n" "a + 8 < 2 ^ 64"
  shows "add_free_region fl a n = Some ((a, n) # fl)"
  using align_up_aligned [of a 3] assms by (simp add: add_free_region_def rust_assert_def)

text \<open>A region that fits contains the block, and what is left behind it is empty or a region.\<close>

lemma alloc_from_region_ok:
  assumes r: "region_ok lo hi r" and hi: "hi \<le> 2 ^ 63" and l: "list_accepts l"
  shows "\<exists>x. alloc_from_region r (sa_size l) (sa_align l) = Some x \<and>
    (\<forall>p. x = Inr p \<longrightarrow> sa_align l dvd p \<and> within (p, sa_size l) (fst r) (fst r + snd r)
       \<and> (p + sa_size l < fst r + snd r \<longrightarrow> p + sa_size l + 16 \<le> fst r + snd r))"
proof -
  have lok: "layout_ok l" using l by (simp add: list_accepts_def)
  obtain k where k: "sa_align l = 2 ^ k" "(2::nat) ^ k \<le> 2 ^ 62" using sa_align_pow [OF lok] by metis
  have hr: "fst r + snd r \<le> 2 ^ 63" using r hi by (simp add: region_ok_def within_def)
  then have "fst r + 2 ^ k < 2 ^ 64" using k(2) by simp
  from align_up_props [OF this] obtain p where p: "align_up (fst r) (2 ^ k) = Some p"
    "2 ^ k dvd p" "fst r \<le> p" by blast
  have e: "end_addr r = Some (fst r + snd r)" using hr by (simp add: end_addr_def usize_add_def)
  let ?n = "sa_size l"
  consider "usize_add p ?n = None" | "usize_add p ?n = Some (p + ?n)" "p + ?n > fst r + snd r"
    | "usize_add p ?n = Some (p + ?n)" "p + ?n \<le> fst r + snd r"
    by (cases "p + ?n < 2 ^ 64"; cases "p + ?n > fst r + snd r") (simp_all add: usize_add_def)
  then show ?thesis
  proof cases
    case 3
    then have "alloc_from_region r ?n (sa_align l) =
        Some (if fst r + snd r - (p + ?n) > 0 \<and> fst r + snd r - (p + ?n) < NODE_SIZE then Inl () else Inr p)"
      using p(1) k(1) e by (simp add: alloc_from_region_def usize_sub_def)
    then show ?thesis using p k(1) 3(2) by (auto simp: within_def)
  qed (use p(1) k(1) e in \<open>simp_all add: alloc_from_region_def\<close>)
qed

lemma find_region_ok:
  assumes "list_all (region_ok lo hi) fl" "hi \<le> 2 ^ 63" "list_accepts l"
  shows "\<exists>x. find_region fl (sa_size l) (sa_align l) = Some x \<and>
    (\<forall>r p fl'. x = Some (r, p, fl') \<longrightarrow> mset fl = add_mset r (mset fl') \<and> sa_align l dvd p
       \<and> within (p, sa_size l) (fst r) (fst r + snd r)
       \<and> (p + sa_size l < fst r + snd r \<longrightarrow> p + sa_size l + 16 \<le> fst r + snd r))"
  using assms(1)
proof (induction fl)
  case (Cons r fl)
  obtain x where x: "alloc_from_region r (sa_size l) (sa_align l) = Some x"
    "\<And>p. x = Inr p \<Longrightarrow> sa_align l dvd p \<and> within (p, sa_size l) (fst r) (fst r + snd r)
       \<and> (p + sa_size l < fst r + snd r \<longrightarrow> p + sa_size l + 16 \<le> fst r + snd r)"
    using alloc_from_region_ok [OF _ assms(2,3), of lo r] Cons.prems by (auto simp del: split_paired_All)
  obtain y where y: "find_region fl (sa_size l) (sa_align l) = Some y"
    "\<And>r p fl'. y = Some (r, p, fl') \<Longrightarrow> mset fl = add_mset r (mset fl') \<and> sa_align l dvd p
       \<and> within (p, sa_size l) (fst r) (fst r + snd r)
       \<and> (p + sa_size l < fst r + snd r \<longrightarrow> p + sa_size l + 16 \<le> fst r + snd r)"
    using Cons by (auto simp del: split_paired_All)
  show ?case
  proof (cases x)
    case (Inr p)
    then show ?thesis using x by (cases r) simp
  next
    case (Inl u)
    have "find_region (r # fl) (sa_size l) (sa_align l) =
        Some (map_option (\<lambda>(r', alloc_start, rs'). (r', alloc_start, r # rs')) y)"
      using x(1) y(1) Inl by simp
    then show ?thesis using y(2) by (cases y) auto
  qed
qed simp

lemma list_alloc_ok:
  assumes inv: "list_inv lo hi fl L" and l: "list_accepts l"
  shows "\<exists>fl' p. list_alloc fl l = Some (fl', p) \<and> list_inv lo hi fl' (if p = 0 then L else add_mset (p, l) L)"
proof -
  note i = inv [unfolded list_inv_def]
  have sa: "size_align l = Some (sa_size l, sa_align l)" using l by (simp add: size_align_def list_accepts_def)
  obtain x where x: "find_region fl (sa_size l) (sa_align l) = Some x"
    "\<And>r p fl'. x = Some (r, p, fl') \<Longrightarrow> mset fl = add_mset r (mset fl') \<and> sa_align l dvd p
       \<and> within (p, sa_size l) (fst r) (fst r + snd r)
       \<and> (p + sa_size l < fst r + snd r \<longrightarrow> p + sa_size l + 16 \<le> fst r + snd r)"
    using find_region_ok [of lo hi fl l] i l by (auto simp del: split_paired_All)
  show ?thesis
  proof (cases x)
    case None
    then have "list_alloc fl l = Some (fl, 0)" using x(1) sa by (simp add: list_alloc_def)
    then show ?thesis using inv by simp
  next
    case (Some t)
    then obtain r p fl' where xe: "x = Some (r, p, fl')" by (cases t) auto
    note f = x(2) [OF xe]
    let ?n = "sa_size l" and ?e = "fst r + snd r"
    have rok: "region_ok lo hi r" and rest: "list_all (region_ok lo hi) fl'"
    proof -
      have "set fl = insert r (set fl')" using f by (metis set_mset_add_mset_insert set_mset_mset)
      then show "region_ok lo hi r" "list_all (region_ok lo hi) fl'" using i by (auto simp: list_all_iff)
    qed
    have b: "p + ?n \<le> ?e" "fst r \<le> p" "?e \<le> 2 ^ 63" "lo \<le> fst r" "?e \<le> hi"
      using f rok i by (auto simp: within_def region_ok_def)
    have eqs: "usize_add p ?n = Some (p + ?n)" "end_addr r = Some ?e" "usize_sub ?e (p + ?n) = Some (?e - (p + ?n))"
      using b by (simp_all add: usize_add_def end_addr_def usize_sub_def)
    have d8: "8 dvd p" "8 dvd p + ?n"
    proof -
      obtain k where "sa_align l = 2 ^ k" "8 dvd (2::nat) ^ k"
        using sa_align_pow l by (metis list_accepts_def)
      then show "8 dvd p" using f dvd_trans by metis
      then show "8 dvd p + ?n" using sa_size_props(3) [OF l] by simp
    qed
    have ap: "apart (add_mset r (mset fl' + image_mset extent L))" using i f by simp
    have sub: "apart2 z y" if "within z (fst r) ?e" "y \<in># mset fl' + image_mset extent L" for z y
      using ap that(2) apart2_within [OF _ that(1)] by auto
    have p0: "p \<noteq> 0" using b i by linarith
    have ext: "extent (p, l) = (p, ?n)" by (simp add: extent_def)
    let ?fl = "if ?e - (p + ?n) > 0 then (p + ?n, ?e - (p + ?n)) # fl' else fl'"
    have "(if ?e - (p + ?n) > 0 then add_free_region fl' (p + ?n) (?e - (p + ?n)) else Some fl') = Some ?fl"
      using add_free_region_ok [OF d8(2), of "?e - (p + ?n)" fl'] f b by auto
    then have "list_alloc fl l = Some (?fl, p)"
      unfolding list_alloc_def sa bind.bind_lunit prod.case x(1) xe option.case eqs by simp
    moreover have "list_inv lo hi ?fl (add_mset (p, l) L)"
    proof -
      have "list_all (region_ok lo hi) ?fl"
        using rest d8(2) f b by (auto simp: region_ok_def within_def)
      moreover have "apart (mset ?fl + image_mset extent (add_mset (p, l) L))"
      proof -
        let ?N = "mset fl' + image_mset extent L"
        have N: "apart ?N" and "\<forall>y\<in>#?N. apart2 (p, ?n) y"
          "\<forall>y\<in>#?N. apart2 (p + ?n, ?e - (p + ?n)) y"
          using ap sub [of "(p, ?n)"] sub [of "(p + ?n, ?e - (p + ?n))"] b by (auto simp: within_def)
        moreover have "apart2 (p + ?n, ?e - (p + ?n)) (p, ?n)" by (simp add: apart2_def)
        ultimately have "apart (add_mset (p, ?n) ?N)"
          "apart (add_mset (p + ?n, ?e - (p + ?n)) (add_mset (p, ?n) ?N))"
          by simp_all
        then show ?thesis by (auto simp: ext apart2_sym)
      qed
      ultimately show ?thesis
        using i l f b by (auto simp: list_inv_def ext within_def)
    qed
    ultimately show ?thesis using p0 by auto
  qed
qed

lemma list_dealloc_ok:
  assumes inv: "list_inv lo hi fl L" and m: "(p, l) \<in># L"
  shows "\<exists>fl'. list_dealloc fl p l = Some fl' \<and> list_inv lo hi fl' (L - {#(p, l)#})"
proof -
  note i = inv [unfolded list_inv_def]
  obtain M where M: "L = add_mset (p, l) M" using m by (auto dest: multi_member_split)
  have b: "list_accepts l" "sa_align l dvd p" "within (p, sa_size l) lo hi"
    using i m by (auto simp: extent_def)
  obtain k where "sa_align l = 2 ^ k" "8 dvd (2::nat) ^ k"
    using sa_align_pow b(1) by (metis list_accepts_def)
  then have d8: "8 dvd p" using b(2) dvd_trans by metis
  have "list_dealloc fl p l = Some ((p, sa_size l) # fl)"
    using add_free_region_ok [OF d8 sa_size_props(2) [OF b(1)]] b i
    by (simp add: list_dealloc_def size_align_def list_accepts_def within_def)
  moreover have "list_inv lo hi ((p, sa_size l) # fl) M"
    using i b d8 sa_size_props(2) [OF b(1)] by (auto simp: list_inv_def M region_ok_def extent_def)
  ultimately show ?thesis using M by simp
qed

lemma list_inv_live:
  assumes "list_inv lo hi fl L"
  shows "blocks_ok lo hi L"
proof -
  note i = assms [unfolded list_inv_def]
  have w: "within (block_ivl b) (fst (extent b)) (fst (extent b) + snd (extent b))" if "b \<in># L" for b
    using i that sa_size_props(1) by (auto simp: within_def extent_def block_ivl_def)
  have "apart (mset fl + image_mset block_ivl L)"
    using apart_mono [of "mset fl" extent L block_ivl] i w by blast
  moreover have "block_ok lo hi b" if b: "b \<in># L" for b
  proof -
    have "lay_align (snd b) dvd sa_align (snd b)"
    proof -
      obtain k where k: "lay_align (snd b) = 2 ^ k"
        using i b layout_align by (metis list_accepts_def)
      have "(2::nat) ^ k dvd 2 ^ 3" if "(2::nat) ^ k \<le> 2 ^ 3"
      proof (rule le_imp_power_dvd)
        show "k \<le> 3" using that power_le_imp_le_exp [of "2::nat" k 3] by simp
      qed
      then show ?thesis by (auto simp: sa_align_def k max_def)
    qed
    then show ?thesis
      using i b w [OF b] dvd_trans by (fastforce simp: block_ok_def list_accepts_def within_def)
  qed
  moreover have "apart (image_mset block_ivl L)"
    using calculation(1) by (induction fl) auto
  ultimately show ?thesis by (simp add: blocks_ok_def)
qed

interpretation llist: heap_allocator lo hi "list_inv lo hi" list_alloc list_dealloc list_accepts for lo hi
  by unfold_locales (use list_inv_live list_alloc_ok list_dealloc_ok in blast)+

lemma list_init_inv:
  assumes "0 < lo" "8 dvd lo" "16 \<le> n" "lo + n \<le> 2 ^ 63"
  shows "list_init list_new lo n = Some [(lo, n)] \<and> list_inv lo (lo + n) [(lo, n)] {#}"
  using add_free_region_ok [of lo n "[]"] assms
  by (simp add: list_init_def list_new_def list_inv_def region_ok_def within_def)

section \<open>Conservation of memory\<close>

text \<open>The bytes in free regions and in the extents of live blocks. A request with an alignment of
  at most 8 loses none of them.\<close>

definition accounted :: "region list \<Rightarrow> heap_block multiset \<Rightarrow> nat" where
  "accounted fl L = sum_list (map snd fl) + (\<Sum>b\<in>#L. snd (extent b))"

lemma accounted_le:
  assumes "list_inv lo hi fl L"
  shows "accounted fl L \<le> hi - lo"
proof -
  have "(\<Sum>x\<in>#mset fl + image_mset extent L. snd x) \<le> hi - lo"
    using assms by (intro apart_total_le) (auto simp: list_inv_def list_all_iff region_ok_def)
  moreover have "(\<Sum>x\<in>#mset fl. snd x) = sum_list (map snd fl)"
    by (metis mset_map sum_mset_sum_list)
  ultimately show ?thesis by (simp add: accounted_def image_mset.compositionality comp_def)
qed

lemma list_dealloc_accounted:
  assumes "list_dealloc fl p l = Some fl'" "(p, l) \<in># L"
  shows "accounted fl' (L - {#(p, l)#}) = accounted fl L"
proof -
  obtain M where "L = add_mset (p, l) M" using assms(2) by (auto dest: multi_member_split)
  then show ?thesis
    using assms(1) by (auto simp: list_dealloc_def size_align_def add_free_region_def rust_assert_def
        panic_simps accounted_def extent_def split: if_splits)
qed

lemma alloc_from_region_start:
  assumes "region_ok lo hi r" "hi \<le> 2 ^ 63" "lay_align l \<le> 8"
    "alloc_from_region r (sa_size l) (sa_align l) = Some (Inr p)"
  shows "p = fst r"
proof -
  have "fst r \<le> hi" using assms(1) by (simp add: region_ok_def within_def)
  then have "fst r + 2 ^ 3 < 2 ^ 64" using assms(2) by simp
  moreover have "2 ^ 3 dvd fst r" using assms(1) by (simp add: region_ok_def)
  ultimately have "align_up (fst r) (2 ^ 3) = Some (fst r)" by (rule align_up_aligned)
  then show ?thesis
    using assms(3,4) by (auto simp: alloc_from_region_def sa_align_def panic_simps
        split: option.splits if_splits)
qed

lemma find_region_start:
  assumes "list_all (region_ok lo hi) fl" "hi \<le> 2 ^ 63" "lay_align l \<le> 8"
    "find_region fl (sa_size l) (sa_align l) = Some (Some (r, p, fl'))"
  shows "p = fst r \<and> sum_list (map snd fl) = snd r + sum_list (map snd fl')"
  using assms(1,4)
proof (induction fl arbitrary: fl')
  case (Cons a fl)
  obtain x where x: "alloc_from_region a (sa_size l) (sa_align l) = Some x"
    using Cons.prems(2) by (auto simp: panic_simps)
  show ?case
  proof (cases x)
    case (Inr q)
    then show ?thesis
      using Cons.prems x alloc_from_region_start [OF _ assms(2,3), of lo a q] by auto
  next
    case (Inl u)
    then obtain fl2 where fl2: "find_region fl (sa_size l) (sa_align l) = Some (Some (r, p, fl2))" "fl' = a # fl2"
      using Cons.prems(2) x by (auto simp: panic_simps map_option_case split: option.splits)
    then show ?thesis using Cons.IH [OF _ fl2(1)] Cons.prems(1) by simp
  qed
qed simp

lemma list_alloc_accounted:
  assumes inv: "list_inv lo hi fl L" and l: "list_accepts l" "lay_align l \<le> 8"
    and a: "list_alloc fl l = Some (fl', p)" and p: "p \<noteq> 0"
  shows "accounted fl' (add_mset (p, l) L) = accounted fl L"
proof -
  have sa: "size_align l = Some (sa_size l, sa_align l)" using l by (simp add: size_align_def list_accepts_def)
  obtain r rest where f: "find_region fl (sa_size l) (sa_align l) = Some (Some (r, p, rest))"
    and e: "usize_add p (sa_size l) = Some (p + sa_size l)" "end_addr r = Some (fst r + snd r)"
      "p + sa_size l \<le> fst r + snd r"
    and fl': "(if fst r + snd r - (p + sa_size l) > 0
      then add_free_region rest (p + sa_size l) (fst r + snd r - (p + sa_size l)) else Some rest) = Some fl'"
    using a p sa by (auto simp: list_alloc_def panic_simps end_addr_def split: option.splits)
  have s: "p = fst r" "sum_list (map snd fl) = snd r + sum_list (map snd rest)"
    using find_region_start [OF _ _ l(2) f] inv by (auto simp: list_inv_def)
  have "sum_list (map snd fl') = fst r + snd r - (p + sa_size l) + sum_list (map snd rest)"
    using fl' by (auto simp: add_free_region_def panic_simps rust_assert_def split: if_splits)
  then show ?thesis using s e(3) by (simp add: accounted_def extent_def)
qed

section \<open>Properties\<close>

text \<open>The linked-list allocator initialised on the kernel's heap serves every sequence of
  requests with layouts that can be rounded up, and of releases of held blocks, without a panic
  (neither its two assertions nor an overflow), and the held blocks are aligned, inside the heap,
  pairwise disjoint and disjoint from every node of the free list.\<close>

theorem list_allocator_safe:
  assumes "list_all (request_ok list_accepts) rs"
  shows "\<exists>fl fl' held. list_init list_new HEAP_START HEAP_SIZE = Some fl
    \<and> heap_run list_alloc list_dealloc (fl, []) rs = Some (fl', held)
    \<and> blocks_ok HEAP_START (HEAP_START + HEAP_SIZE) (mset held)
    \<and> apart (mset fl' + image_mset extent (mset held))"
proof -
  have i: "list_init list_new HEAP_START HEAP_SIZE = Some [(HEAP_START, HEAP_SIZE)]"
    "list_inv HEAP_START (HEAP_START + HEAP_SIZE) [(HEAP_START, HEAP_SIZE)] {#}"
    using list_init_inv [of HEAP_START HEAP_SIZE] by (auto simp: HEAP_START_def HEAP_SIZE_def)
  show ?thesis
    using llist.heap_run_ok [of HEAP_START "HEAP_START + HEAP_SIZE" "[(HEAP_START, HEAP_SIZE)]" "[]" rs] i assms
    by (auto simp: list_inv_def)
qed

theorem list_allocator_safe_witness:
  "\<exists>fl fl' held. list_init list_new HEAP_START HEAP_SIZE = Some fl
    \<and> heap_run list_alloc list_dealloc (fl, []) [Request \<lparr>lay_size = 24, lay_align = 32\<rparr>, Free 0] = Some (fl', held)
    \<and> blocks_ok HEAP_START (HEAP_START + HEAP_SIZE) (mset held)
    \<and> apart (mset fl' + image_mset extent (mset held))"
  by (rule list_allocator_safe)
    (simp add: request_ok_def list_accepts_def sa_align_def layout_ok_def bexI [of _ 5])

text \<open>Requests with an alignment of at most 8 never lose memory: the bytes of free regions and
  live blocks stay constant through an allocation and through a release.\<close>

theorem list_allocator_conserves:
  assumes "list_inv lo hi fl L" "list_accepts l" "lay_align l \<le> 8"
    "list_alloc fl l = Some (fl1, p)" "p \<noteq> 0" "list_dealloc fl1 p l = Some fl2"
  shows "accounted fl1 (add_mset (p, l) L) = accounted fl L \<and> accounted fl2 L = accounted fl L"
  using list_alloc_accounted [OF assms(1-5)] list_dealloc_accounted [OF assms(6), of "add_mset (p, l) L"] by simp

theorem list_allocator_conserves_witness:
  "\<exists>fl1 fl2. list_alloc [(4096, 64)] \<lparr>lay_size = 24, lay_align = 8\<rparr> = Some (fl1, 4096)
    \<and> list_dealloc fl1 4096 \<lparr>lay_size = 24, lay_align = 8\<rparr> = Some fl2
    \<and> accounted fl1 (add_mset (4096, \<lparr>lay_size = 24, lay_align = 8\<rparr>) {#}) = accounted [(4096, 64)] {#}
    \<and> accounted fl2 {#} = accounted [(4096, 64)] {#}"
proof -
  let ?l = "\<lparr>lay_size = 24, lay_align = 8\<rparr>"
  have inv: "list_inv 4096 4160 [(4096, 64)] {#}"
    by (simp add: list_inv_def region_ok_def within_def)
  have acc: "list_accepts ?l" by (simp add: list_accepts_def sa_align_def layout_ok_def bexI [of _ 3])
  have a: "list_alloc [(4096, 64)] ?l = Some ([(4120, 40)], 4096)" by (simp add: list_eval)
  have d: "list_dealloc [(4120, 40)] 4096 ?l = Some [(4096, 24), (4120, 40)]" by (simp add: list_eval)
  show ?thesis
    using list_allocator_conserves [OF inv acc _ a _ d] a d by simp
qed

text \<open>A block aligned to more than 8 bytes can lose memory for good: the bytes skipped at the
  front of the chosen region are returned to no list, so allocating and freeing two blocks on a
  fresh region of 128 bytes leaves 112 bytes accounted for.\<close>

theorem list_allocator_leaks_padding:
  "\<exists>fl. heap_run list_alloc list_dealloc ([(4096, 128)], [])
      [Request \<lparr>lay_size = 16, lay_align = 8\<rparr>, Request \<lparr>lay_size = 32, lay_align = 32\<rparr>, Free 0, Free 0] = Some (fl, [])
    \<and> accounted fl {#} + 16 = accounted [(4096, 128)] {#}"
proof -
  have "heap_run list_alloc list_dealloc ([(4096, 128)], [])
      [Request \<lparr>lay_size = 16, lay_align = 8\<rparr>, Request \<lparr>lay_size = 32, lay_align = 32\<rparr>, Free 0, Free 0]
      = Some ([(4096, 16), (4128, 32), (4160, 64)], [])"
    by (simp add: list_eval)
  then show ?thesis by (simp add: accounted_def)
qed

text \<open>A request whose size cannot be rounded up to a multiple of 8 below \<open>isize::MAX\<close> makes the
  allocator panic instead of returning a null pointer.\<close>

theorem list_allocator_huge_request_panics:
  "list_alloc fl \<lparr>lay_size = 2 ^ 63 - 1, lay_align = 1\<rparr> = None"
  by (simp add: list_alloc_def size_align_def sa_align_def)

end
