(* ===== verification/Alloc_Fixed.thy ===== *)
theory Alloc_Fixed
  imports Alloc_List
begin

text \<open>
  The kernel's global allocator, \<^verbatim>\<open>src/src/allocator/fixed_size_block.rs\<close>: nine free lists of blocks of
  8 to 2048 bytes in front of a fallback heap, and the counter of requested bytes. The fallback
  heap (\<open>linked_list_allocator::Heap\<close>, a crate) is a parameter of the operations: \<open>first_fit\<close> and
  \<open>deallocate\<close>. If it satisfies the allocator contract, so does the fixed-size-block allocator
  (a \<open>sublocale\<close>), and the counter is the number of bytes of the live blocks. The contract of the
  fallback is instantiated with the kernel's own linked-list allocator.
\<close>

section \<open>Operations\<close>

definition BLOCK_SIZES :: "nat list" where
  "BLOCK_SIZES = [8, 16, 32, 64, 128, 256, 512, 1024, 2048]"

text \<open>The allocator with the static counter \<open>REQUESTED_BYTES\<close>; a list of nodes is the list of their
  addresses.\<close>

record 'h FixedSizeBlockAllocator =
  list_heads :: "nat list list"
  fallback_allocator :: 'h
  REQUESTED_BYTES :: u64

definition list_index :: "Layout \<Rightarrow> nat option" where
  "list_index l = (let required_block_size = max (lay_size l) (lay_align l) in
     position (\<lambda>s. s \<ge> required_block_size) BLOCK_SIZES)"

definition fixed_new :: "'h \<Rightarrow> 'h FixedSizeBlockAllocator" where
  "fixed_new empty_heap = \<lparr>list_heads = replicate (length BLOCK_SIZES) [],
     fallback_allocator = empty_heap, REQUESTED_BYTES = 0\<rparr>"

definition fixed_init :: "('h \<Rightarrow> nat \<Rightarrow> nat \<Rightarrow> 'h option) \<Rightarrow> 'h FixedSizeBlockAllocator \<Rightarrow> nat \<Rightarrow> nat \<Rightarrow>
    'h FixedSizeBlockAllocator option" where
  "fixed_init heap_init g start size' = do {
     h \<leftarrow> heap_init (fallback_allocator g) start size';
     Some (g\<lparr>fallback_allocator := h\<rparr>)
   }"

definition heap_pointer :: "('h \<Rightarrow> Layout \<Rightarrow> ('h \<times> (unit + nat)) option) \<Rightarrow> 'h \<Rightarrow> Layout \<Rightarrow> ('h \<times> nat) option" where
  "heap_pointer first_fit h l = do {
     (h', r) \<leftarrow> first_fit h l;
     Some (h', case r of Inr p \<Rightarrow> p | Inl _ \<Rightarrow> 0)
   }"

definition fallback_alloc :: "('h \<Rightarrow> Layout \<Rightarrow> ('h \<times> (unit + nat)) option) \<Rightarrow> 'h FixedSizeBlockAllocator \<Rightarrow> Layout \<Rightarrow>
    ('h FixedSizeBlockAllocator \<times> nat) option" where
  "fallback_alloc first_fit g l = do {
     (h, p) \<leftarrow> heap_pointer first_fit (fallback_allocator g) l;
     Some (g\<lparr>fallback_allocator := h\<rparr>, p)
   }"

definition fixed_alloc :: "('h \<Rightarrow> Layout \<Rightarrow> ('h \<times> (unit + nat)) option) \<Rightarrow> 'h FixedSizeBlockAllocator \<Rightarrow> Layout \<Rightarrow>
    ('h FixedSizeBlockAllocator \<times> nat) option" where
  "fixed_alloc first_fit g l = do {
     (g', p) \<leftarrow> (case list_index l of
        Some index \<Rightarrow> do {
          nodes \<leftarrow> arr_get (list_heads g) index;
          (case nodes of
             node # next_nodes \<Rightarrow> do {
               hs \<leftarrow> arr_set (list_heads g) index next_nodes;
               Some (g\<lparr>list_heads := hs\<rparr>, node)
             }
           | [] \<Rightarrow> do {
               block_size \<leftarrow> arr_get BLOCK_SIZES index;
               fallback_alloc first_fit g \<lparr>lay_size = block_size, lay_align = block_size\<rparr>
             })
        }
      | None \<Rightarrow> fallback_alloc first_fit g l);
     Some (if p \<noteq> 0 then g'\<lparr>REQUESTED_BYTES := REQUESTED_BYTES g' + of_nat (lay_size l)\<rparr> else g', p)
   }"

definition fixed_dealloc :: "('h \<Rightarrow> nat \<Rightarrow> Layout \<Rightarrow> 'h option) \<Rightarrow> 'h FixedSizeBlockAllocator \<Rightarrow> nat \<Rightarrow> Layout \<Rightarrow>
    'h FixedSizeBlockAllocator option" where
  "fixed_dealloc deallocate g0 p l = do {
     let g = g0\<lparr>REQUESTED_BYTES := REQUESTED_BYTES g0 - of_nat (lay_size l)\<rparr>;
     (case list_index l of
        Some index \<Rightarrow> do {
          nodes \<leftarrow> arr_get (list_heads g) index;
          block_size \<leftarrow> arr_get BLOCK_SIZES index;
          rust_assert (8 \<le> block_size);
          rust_assert (8 \<le> block_size);
          hs \<leftarrow> arr_set (list_heads g) index (p # nodes);
          Some (g\<lparr>list_heads := hs\<rparr>)
        }
      | None \<Rightarrow> do {
          rust_assert (p \<noteq> 0);
          h \<leftarrow> deallocate (fallback_allocator g) p l;
          Some (g\<lparr>fallback_allocator := h\<rparr>)
        })
   }"

section \<open>Size classes\<close>

definition class_layout :: "nat \<Rightarrow> Layout" where
  "class_layout i = \<lparr>lay_size = BLOCK_SIZES ! i, lay_align = BLOCK_SIZES ! i\<rparr>"

text \<open>The block of the fallback heap behind a block of the allocator.\<close>

definition backing :: "heap_block \<Rightarrow> heap_block" where
  "backing b = (fst b, case list_index (snd b) of Some i \<Rightarrow> class_layout i | None \<Rightarrow> snd b)"

definition cached :: "nat list list \<Rightarrow> heap_block multiset" where
  "cached hs = (\<Sum>i<length hs. image_mset (\<lambda>a. (a, class_layout i)) (mset (hs ! i)))"

lemma block_sizes [simp]: "length BLOCK_SIZES = 9"
  by (simp add: BLOCK_SIZES_def)

lemma block_size_pow: "i < 9 \<Longrightarrow> BLOCK_SIZES ! i = 2 ^ (i + 3)"
  by (simp add: BLOCK_SIZES_def less_Suc_eq numeral_eq_Suc) auto

lemma list_index_Some:
  assumes "list_index l = Some i"
  shows "i < 9" "lay_size l \<le> BLOCK_SIZES ! i" "lay_align l \<le> BLOCK_SIZES ! i"
  using assms by (auto simp: list_index_def position_Some_iff Let_def)

lemma cached_update:
  assumes "i < length hs"
  shows "cached (hs[i := xs]) + image_mset (\<lambda>a. (a, class_layout i)) (mset (hs ! i))
    = cached hs + image_mset (\<lambda>a. (a, class_layout i)) (mset xs)"
proof -
  have i: "i \<in> {..<length hs}" using assms by simp
  have "(\<Sum>j\<in>{..<length hs} - {i}. image_mset (\<lambda>a. (a, class_layout j)) (mset (hs[i := xs] ! j)))
      = (\<Sum>j\<in>{..<length hs} - {i}. image_mset (\<lambda>a. (a, class_layout j)) (mset (hs ! j)))"
    by (rule sum.cong) auto
  then show ?thesis
    using assms by (simp add: cached_def sum.remove [OF _ i] ac_simps)
qed

lemma cached_push:
  assumes "i < length hs"
  shows "cached (hs[i := a # hs ! i]) = add_mset (a, class_layout i) (cached hs)"
  using cached_update [OF assms, of "a # hs ! i"] by simp

lemma cached_pop:
  assumes "i < length hs" "hs ! i = a # xs"
  shows "cached hs = add_mset (a, class_layout i) (cached (hs[i := xs]))"
  using cached_update [OF assms(1), of xs] assms(2) by simp

section \<open>The contract\<close>

definition fixed_inv :: "('h \<Rightarrow> heap_block multiset \<Rightarrow> bool) \<Rightarrow> nat \<Rightarrow> nat \<Rightarrow> 'h FixedSizeBlockAllocator \<Rightarrow>
    heap_block multiset \<Rightarrow> bool" where
  "fixed_inv finv lo hi g L \<longleftrightarrow> 0 < lo \<and> hi < 2 ^ 64 \<and> length (list_heads g) = 9
     \<and> finv (fallback_allocator g) (cached (list_heads g) + image_mset backing L)
     \<and> (\<forall>b\<in>#L. layout_ok (snd b)) \<and> REQUESTED_BYTES g = of_nat (\<Sum>b\<in>#L. lay_size (snd b))"

definition fixed_accepts :: "(Layout \<Rightarrow> bool) \<Rightarrow> Layout \<Rightarrow> bool" where
  "fixed_accepts accepts l \<longleftrightarrow> layout_ok l \<and> (list_index l = None \<longrightarrow> accepts l)"

lemma backing_covers:
  assumes "layout_ok (snd b)" "block_ok lo hi (backing b)"
  shows "block_ok lo hi b"
    "within (block_ivl b) (fst (block_ivl (backing b))) (fst (block_ivl (backing b)) + snd (block_ivl (backing b)))"
proof -
  have sz: "lay_size (snd b) \<le> lay_size (snd (backing b))"
    by (auto simp: backing_def class_layout_def list_index_Some split: option.splits)
  have al: "lay_align (snd b) dvd lay_align (snd (backing b))"
  proof (cases "list_index (snd b)")
    case (Some i)
    obtain k where k: "lay_align (snd b) = 2 ^ k" using layout_align [OF assms(1)] by blast
    have "(2::nat) ^ k \<le> 2 ^ (i + 3)"
      using list_index_Some [OF Some] k by (simp add: block_size_pow)
    then have "k \<le> i + 3" by (rule power_le_imp_le_exp [rotated]) simp
    then have "(2::nat) ^ k dvd 2 ^ (i + 3)" by (rule le_imp_power_dvd)
    then show ?thesis
      using Some list_index_Some(1) [OF Some] k by (simp add: backing_def class_layout_def block_size_pow)
  qed (simp add: backing_def)
  have p: "fst (backing b) = fst b" by (simp add: backing_def)
  show "block_ok lo hi b"
    using assms sz dvd_trans [OF al] by (auto simp: block_ok_def within_def block_ivl_def p)
  show "within (block_ivl b) (fst (block_ivl (backing b))) (fst (block_ivl (backing b)) + snd (block_ivl (backing b)))"
    using sz by (auto simp: within_def block_ivl_def p)
qed

lemma backing_blocks_ok:
  assumes ok: "blocks_ok lo hi (C + image_mset backing L)" and l: "\<forall>b\<in>#L. layout_ok (snd b)"
  shows "blocks_ok lo hi L"
proof -
  have b: "block_ok lo hi (backing b)" if "b \<in># L" for b
    using ok that by (auto simp: blocks_ok_def)
  have "apart (image_mset block_ivl C + image_mset (\<lambda>b. block_ivl (backing b)) L)"
    using ok by (simp add: blocks_ok_def image_mset.compositionality comp_def)
  then have "apart (image_mset block_ivl C + image_mset block_ivl L)"
    by (rule apart_mono) (use backing_covers(2) b l in blast)
  then show ?thesis
    using backing_covers(1) b l apart_right by (fastforce simp: blocks_ok_def)
qed

locale fixed_block =
  fb: heap_allocator lo hi finv "heap_pointer first_fit" deallocate accepts
  for lo hi :: nat
    and finv :: "'h \<Rightarrow> heap_block multiset \<Rightarrow> bool"
    and first_fit :: "'h \<Rightarrow> Layout \<Rightarrow> ('h \<times> (unit + nat)) option"
    and deallocate :: "'h \<Rightarrow> nat \<Rightarrow> Layout \<Rightarrow> 'h option"
    and accepts :: "Layout \<Rightarrow> bool" +
  assumes classes: "i < 9 \<Longrightarrow> accepts (class_layout i)"
begin

lemma fallback_alloc_ok:
  assumes "fixed_inv finv lo hi g L" "accepts (snd (backing (0, l)))" "layout_ok l"
  shows "\<exists>g' p. fallback_alloc first_fit g (snd (backing (0, l))) = Some (g', p)
    \<and> list_heads g' = list_heads g \<and> REQUESTED_BYTES g' = REQUESTED_BYTES g
    \<and> finv (fallback_allocator g') (cached (list_heads g) + image_mset backing (if p = 0 then L else add_mset (p, l) L))"
proof -
  obtain h p where h: "heap_pointer first_fit (fallback_allocator g) (snd (backing (0, l))) = Some (h, p)"
    "finv h (if p = 0 then cached (list_heads g) + image_mset backing L
       else add_mset (p, snd (backing (0, l))) (cached (list_heads g) + image_mset backing L))"
    using fb.alloc_ok [OF _ assms(2)] assms(1) unfolding fixed_inv_def by blast
  have "(p, snd (backing (0, l))) = backing (p, l)" by (simp add: backing_def split: option.split)
  then show ?thesis
    using h by (simp add: fallback_alloc_def split: if_splits)
qed

lemma alloc_ok:
  assumes inv: "fixed_inv finv lo hi g L" and acc: "fixed_accepts accepts l"
  shows "\<exists>g' p. fixed_alloc first_fit g l = Some (g', p)
    \<and> fixed_inv finv lo hi g' (if p = 0 then L else add_mset (p, l) L)"
proof -
  note i = inv [unfolded fixed_inv_def]
  have l: "layout_ok l" using acc by (simp add: fixed_accepts_def)
  have accb: "accepts (snd (backing (0, l)))"
    using acc classes list_index_Some(1) by (auto simp: backing_def fixed_accepts_def split: option.splits)
  define body where "body = (case list_index l of
        Some index \<Rightarrow> do {
          nodes \<leftarrow> arr_get (list_heads g) index;
          (case nodes of
             node # next_nodes \<Rightarrow> do {
               hs \<leftarrow> arr_set (list_heads g) index next_nodes;
               Some (g\<lparr>list_heads := hs\<rparr>, node)
             }
           | [] \<Rightarrow> do {
               block_size \<leftarrow> arr_get BLOCK_SIZES index;
               fallback_alloc first_fit g \<lparr>lay_size = block_size, lay_align = block_size\<rparr>
             })
        }
      | None \<Rightarrow> fallback_alloc first_fit g l)"
  have "\<exists>g' p. body = Some (g', p) \<and> length (list_heads g') = 9 \<and> REQUESTED_BYTES g' = REQUESTED_BYTES g
    \<and> finv (fallback_allocator g') (cached (list_heads g') + image_mset backing (if p = 0 then L else add_mset (p, l) L))"
  proof (cases "list_index l")
    case None
    then have "snd (backing (0, l)) = l" "body = fallback_alloc first_fit g l"
      by (simp_all add: backing_def body_def)
    then show ?thesis using fallback_alloc_ok [OF inv accb l] i by fastforce
  next
    case (Some k)
    then have k: "k < 9" "k < length (list_heads g)" using list_index_Some(1) i by auto
    show ?thesis
    proof (cases "list_heads g ! k")
      case Nil
      have "snd (backing (0, l)) = \<lparr>lay_size = BLOCK_SIZES ! k, lay_align = BLOCK_SIZES ! k\<rparr>"
        using Some by (simp add: backing_def class_layout_def)
      moreover have "body = fallback_alloc first_fit g \<lparr>lay_size = BLOCK_SIZES ! k, lay_align = BLOCK_SIZES ! k\<rparr>"
        using Some Nil k by (simp add: body_def arr_get_def)
      ultimately show ?thesis using fallback_alloc_ok [OF inv accb l] i by fastforce
    next
      case (Cons a xs)
      have "body = Some (g\<lparr>list_heads := (list_heads g)[k := xs]\<rparr>, a)"
        using Some Cons k by (simp add: body_def arr_get_def arr_set_def)
      moreover have "a \<noteq> 0"
      proof -
        have "(a, class_layout k) \<in># cached (list_heads g) + image_mset backing L"
          using cached_pop [OF k(2) Cons] by simp
        then have "block_ok lo hi (a, class_layout k)"
          using fb.live_ok i unfolding blocks_ok_def by blast
        then show ?thesis using i by (auto simp: block_ok_def within_def block_ivl_def)
      qed
      moreover have "backing (a, l) = (a, class_layout k)" using Some by (simp add: backing_def)
      ultimately show ?thesis
        using i cached_pop [OF k(2) Cons] by simp
    qed
  qed
  then obtain g' p where b: "body = Some (g', p)" "length (list_heads g') = 9" "REQUESTED_BYTES g' = REQUESTED_BYTES g"
    "finv (fallback_allocator g') (cached (list_heads g') + image_mset backing (if p = 0 then L else add_mset (p, l) L))"
    by blast
  have "fixed_alloc first_fit g l =
      Some (if p \<noteq> 0 then g'\<lparr>REQUESTED_BYTES := REQUESTED_BYTES g' + of_nat (lay_size l)\<rparr> else g', p)"
    unfolding fixed_alloc_def body_def [symmetric] b(1) by simp
  then show ?thesis
    using b i l by (auto simp: fixed_inv_def)
qed

lemma dealloc_ok:
  assumes inv: "fixed_inv finv lo hi g L" and m: "(p, l) \<in># L"
  shows "\<exists>g'. fixed_dealloc deallocate g p l = Some g' \<and> fixed_inv finv lo hi g' (L - {#(p, l)#})"
proof -
  note i = inv [unfolded fixed_inv_def]
  obtain M where M: "L = add_mset (p, l) M" using m by (auto dest: multi_member_split)
  let ?g = "g\<lparr>REQUESTED_BYTES := REQUESTED_BYTES g - of_nat (lay_size l)\<rparr>"
  have req: "REQUESTED_BYTES ?g = of_nat (\<Sum>b\<in>#M. lay_size (snd b))" using i M by simp
  show ?thesis
  proof (cases "list_index l")
    case (Some k)
    then have k: "k < 9" "k < length (list_heads g)" using list_index_Some(1) i by auto
    have "8 \<le> BLOCK_SIZES ! k" using k(1) by (simp add: block_size_pow power_add)
    then have "fixed_dealloc deallocate g p l = Some (?g\<lparr>list_heads := (list_heads g)[k := p # list_heads g ! k]\<rparr>)"
      using Some k by (simp add: fixed_dealloc_def arr_get_def arr_set_def rust_assert_def Let_def)
    moreover have "backing (p, l) = (p, class_layout k)" using Some by (simp add: backing_def)
    ultimately show ?thesis
      using i M req cached_push [OF k(2), of p] by (simp add: fixed_inv_def)
  next
    case None
    then have bk: "backing (p, l) = (p, l)" by (simp add: backing_def)
    let ?F = "cached (list_heads g) + image_mset backing L"
    have "(p, l) \<in># ?F" using M bk by simp
    then obtain h where h: "deallocate (fallback_allocator g) p l = Some h" "finv h (?F - {#(p, l)#})"
      using fb.dealloc_ok i by blast
    have "block_ok lo hi (p, l)"
      using fb.live_ok i \<open>(p, l) \<in># ?F\<close> unfolding blocks_ok_def by blast
    then have "p \<noteq> 0" using i by (auto simp: block_ok_def within_def block_ivl_def)
    then have "fixed_dealloc deallocate g p l = Some (?g\<lparr>fallback_allocator := h\<rparr>)"
      using None h(1) by (simp add: fixed_dealloc_def rust_assert_def Let_def)
    then show ?thesis
      using i M req h(2) bk by (simp add: fixed_inv_def)
  qed
qed

lemma live_blocks_ok: "fixed_inv finv lo hi g L \<Longrightarrow> blocks_ok lo hi L"
  using backing_blocks_ok [of lo hi] fb.live_ok by (auto simp: fixed_inv_def)

lemma fixed_allocator:
  "heap_allocator lo hi (fixed_inv finv lo hi) (fixed_alloc first_fit) (fixed_dealloc deallocate) (fixed_accepts accepts)"
  by unfold_locales (use live_blocks_ok alloc_ok dealloc_ok in blast)+

text \<open>The counter of requested bytes does not wrap.\<close>

lemma requested_exact:
  assumes "fixed_inv finv lo hi g L"
  shows "unat (REQUESTED_BYTES g) = (\<Sum>b\<in>#L. lay_size (snd b))"
proof -
  have ok: "blocks_ok lo hi L" by (rule live_blocks_ok [OF assms])
  have "(\<Sum>x\<in>#image_mset block_ivl L. snd x) \<le> hi - lo"
    using ok by (intro apart_total_le) (auto simp: blocks_ok_def block_ok_def)
  moreover have "(\<Sum>x\<in>#image_mset block_ivl L. snd x) = (\<Sum>b\<in>#L. lay_size (snd b))"
    by (simp add: image_mset.compositionality comp_def block_ivl_def)
  ultimately have "(\<Sum>b\<in>#L. lay_size (snd b)) < 2 ^ 64"
    using assms unfolding fixed_inv_def by linarith
  then have "unat (of_nat (\<Sum>b\<in>#L. lay_size (snd b)) :: u64) = (\<Sum>b\<in>#L. lay_size (snd b))"
    by (simp only: unat_of_nat) simp
  then show ?thesis using assms unfolding fixed_inv_def by metis
qed

end

sublocale fixed_block \<subseteq> fixed: heap_allocator lo hi "fixed_inv finv lo hi" "fixed_alloc first_fit" "fixed_dealloc deallocate" "fixed_accepts accepts"
  by (rule fixed_allocator)

section \<open>The fallback instantiated with the kernel's linked-list allocator\<close>

definition list_first_fit :: "region list \<Rightarrow> Layout \<Rightarrow> (region list \<times> (unit + nat)) option" where
  "list_first_fit fl l = do {
     (fl', p) \<leftarrow> list_alloc fl l;
     Some (fl', if p = 0 then Inl () else Inr p)
   }"

lemma list_pointer: "heap_pointer list_first_fit fl l = list_alloc fl l"
  by (cases "list_alloc fl l") (auto simp: heap_pointer_def list_first_fit_def)

lemma class_accepted: "i < 9 \<Longrightarrow> list_accepts (class_layout i)"
proof -
  assume i: "i < 9"
  have "(2::nat) ^ (i + 3) \<le> 2 ^ 11" using i by (intro power_increasing) auto
  then show ?thesis
    using i by (auto simp: list_accepts_def layout_ok_def class_layout_def block_size_pow sa_align_def
        intro: bexI [of _ "i + 3"])
qed

interpretation fixed_list: fixed_block lo hi "list_inv lo hi" list_first_fit list_dealloc list_accepts for lo hi
proof unfold_locales
  show "\<And>h L l. list_inv lo hi h L \<Longrightarrow> list_accepts l \<Longrightarrow>
      \<exists>h' p. heap_pointer list_first_fit h l = Some (h', p) \<and> list_inv lo hi h' (if p = 0 then L else add_mset (p, l) L)"
    unfolding list_pointer by (rule llist.alloc_ok)
qed (use llist.live_ok llist.dealloc_ok class_accepted in blast)+

lemma fixed_new_inv:
  assumes "finv h {#}" "0 < lo" "hi < 2 ^ 64"
  shows "fixed_inv finv lo hi ((fixed_new e)\<lparr>fallback_allocator := h\<rparr>) {#}"
  using assms by (simp add: fixed_inv_def fixed_new_def cached_def)

lemma fixed_reuse:
  assumes d: "fixed_dealloc deallocate g p l = Some g'" and i: "list_index l = Some i" "list_index l' = Some i"
    and len: "length (list_heads g) = 9" and p: "p \<noteq> 0"
  shows "fixed_alloc first_fit g' l' = Some (g\<lparr>REQUESTED_BYTES :=
      REQUESTED_BYTES g - of_nat (lay_size l) + of_nat (lay_size l')\<rparr>, p)"
proof -
  have k: "i < 9" by (rule list_index_Some(1) [OF i(1)])
  have "g' = g\<lparr>REQUESTED_BYTES := REQUESTED_BYTES g - of_nat (lay_size l),
      list_heads := (list_heads g)[i := p # list_heads g ! i]\<rparr>"
    using d i k len by (auto simp: fixed_dealloc_def panic_simps Let_def rust_assert_def split: if_splits)
  then show ?thesis
    using i k len p by (simp add: fixed_alloc_def arr_get_def arr_set_def)
qed

section \<open>Properties\<close>

text \<open>With any fallback heap that satisfies the allocator contract and accepts the nine size
  classes, the kernel's global allocator serves every sequence of valid requests, and of releases
  of held blocks, without a panic; the held blocks are aligned, inside the heap and disjoint, and
  \<open>requested_bytes\<close> is exactly the sum of their sizes, with no wrap-around.\<close>

theorem global_allocator_safe:
  assumes "fixed_block HEAP_START (HEAP_START + HEAP_SIZE) finv first_fit deallocate accepts"
    "finv h0 {#}" "list_all (request_ok (fixed_accepts accepts)) rs"
  shows "\<exists>g held. heap_run (fixed_alloc first_fit) (fixed_dealloc deallocate)
      ((fixed_new e)\<lparr>fallback_allocator := h0\<rparr>, []) rs = Some (g, held)
    \<and> blocks_ok HEAP_START (HEAP_START + HEAP_SIZE) (mset held)
    \<and> unat (REQUESTED_BYTES g) = sum_list (map (\<lambda>b. lay_size (snd b)) held)"
proof -
  have new: "fixed_inv finv HEAP_START (HEAP_START + HEAP_SIZE) ((fixed_new e)\<lparr>fallback_allocator := h0\<rparr>) {#}"
    by (rule fixed_new_inv) (use assms(2) in \<open>simp_all add: HEAP_START_def HEAP_SIZE_def\<close>)
  have fixed: "heap_allocator HEAP_START (HEAP_START + HEAP_SIZE) (fixed_inv finv HEAP_START (HEAP_START + HEAP_SIZE))
      (fixed_alloc first_fit) (fixed_dealloc deallocate) (fixed_accepts accepts)"
    using fixed_block.fixed_allocator [OF assms(1)] .
  obtain g held where run: "heap_run (fixed_alloc first_fit) (fixed_dealloc deallocate)
      ((fixed_new e)\<lparr>fallback_allocator := h0\<rparr>, []) rs = Some (g, held)"
    "fixed_inv finv HEAP_START (HEAP_START + HEAP_SIZE) g (mset held)"
    "blocks_ok HEAP_START (HEAP_START + HEAP_SIZE) (mset held)"
    using heap_allocator.heap_run_ok [OF fixed, of "(fixed_new e)\<lparr>fallback_allocator := h0\<rparr>" "[]" rs] new assms(3) by auto
  moreover have "unat (REQUESTED_BYTES g) = (\<Sum>b\<in>#mset held. lay_size (snd b))"
    by (rule fixed_block.requested_exact [OF assms(1) run(2)])
  moreover have "(\<Sum>b\<in>#mset held. lay_size (snd b)) = sum_list (map (\<lambda>b. lay_size (snd b)) held)"
    by (metis mset_map sum_mset_sum_list)
  ultimately show ?thesis by auto
qed

theorem global_allocator_safe_witness:
  "\<exists>g held. heap_run (fixed_alloc list_first_fit) (fixed_dealloc list_dealloc)
      ((fixed_new list_new)\<lparr>fallback_allocator := [(HEAP_START, HEAP_SIZE)]\<rparr>, [])
      [Request \<lparr>lay_size = 24, lay_align = 8\<rparr>, Request \<lparr>lay_size = 4096, lay_align = 16\<rparr>, Free 1] = Some (g, held)
    \<and> blocks_ok HEAP_START (HEAP_START + HEAP_SIZE) (mset held)
    \<and> unat (REQUESTED_BYTES g) = sum_list (map (\<lambda>b. lay_size (snd b)) held)"
proof (rule global_allocator_safe [OF fixed_list.fixed_block_axioms])
  show "list_inv HEAP_START (HEAP_START + HEAP_SIZE) [(HEAP_START, HEAP_SIZE)] {#}"
    using list_init_inv [of HEAP_START HEAP_SIZE] by (simp add: HEAP_START_def HEAP_SIZE_def)
  have "list_accepts \<lparr>lay_size = 4096, lay_align = 16\<rparr>" "layout_ok \<lparr>lay_size = 24, lay_align = 8\<rparr>"
    by (simp_all add: list_accepts_def sa_align_def layout_ok_def bexI [of _ 4] bexI [of _ 3])
  moreover have "list_index \<lparr>lay_size = 24, lay_align = 8\<rparr> = Some 2" by (simp add: list_index_def BLOCK_SIZES_def Let_def)
  ultimately show "list_all (request_ok (fixed_accepts list_accepts))
      [Request \<lparr>lay_size = 24, lay_align = 8\<rparr>, Request \<lparr>lay_size = 4096, lay_align = 16\<rparr>, Free 1]"
    by (simp add: request_ok_def fixed_accepts_def list_accepts_def)
qed

text \<open>A released block is handed out again at once: the next request of the same size class
  gets the same address, whatever its exact size, without involving the fallback heap, and the
  free lists are back to what they were.\<close>

theorem global_allocator_reuses_block:
  assumes "fixed_dealloc deallocate g p l = Some g'" "list_index l = Some i" "list_index l' = Some i"
    "length (list_heads g) = 9" "p \<noteq> 0"
  shows "fixed_alloc first_fit g' l' = Some (g\<lparr>REQUESTED_BYTES :=
      REQUESTED_BYTES g - of_nat (lay_size l) + of_nat (lay_size l')\<rparr>, p)"
  by (rule fixed_reuse [OF assms])

theorem global_allocator_reuses_block_witness:
  "\<exists>g'. fixed_dealloc list_dealloc (fixed_new list_new) 4096 \<lparr>lay_size = 24, lay_align = 8\<rparr> = Some g'
    \<and> fixed_alloc list_first_fit g' \<lparr>lay_size = 32, lay_align = 16\<rparr> = Some ((fixed_new list_new)\<lparr>REQUESTED_BYTES :=
      REQUESTED_BYTES (fixed_new list_new) - of_nat 24 + of_nat 32\<rparr>, 4096)"
proof -
  have ix: "list_index \<lparr>lay_size = 24, lay_align = 8\<rparr> = Some 2" "list_index \<lparr>lay_size = 32, lay_align = 16\<rparr> = Some 2"
    by (simp_all add: list_index_def BLOCK_SIZES_def Let_def)
  obtain g' where d: "fixed_dealloc list_dealloc (fixed_new list_new) 4096 \<lparr>lay_size = 24, lay_align = 8\<rparr> = Some g'"
    by (simp add: fixed_dealloc_def ix arr_get_def arr_set_def rust_assert_def fixed_new_def BLOCK_SIZES_def Let_def)
  show ?thesis
    using global_allocator_reuses_block [OF d ix] d by (simp add: fixed_new_def)
qed

end
