(* ===== verification/Heap_Memory.thy ===== *)
theory Heap_Memory
  imports Alloc_Base
begin

text \<open>
  The bytes behind the heap allocators. The free lists of the allocators are intrusive: a node
  lives in the first bytes of the block it describes, so the allocator's own data and its
  clients' data share one memory. This theory holds that memory, the reading and writing of a
  \<open>usize\<close> and of an \<open>Option<&'static mut ListNode>\<close> in it, lists threaded through it (the locale
  \<open>intrusive_list\<close>), and the contract of an allocator on memory (the locale \<open>memory_allocator\<close>, an
  extension of \<open>heap_allocator\<close>): the allocator touches no byte of a block a client holds, and no
  byte the client writes into a block it holds touches the allocator. It follows that the held
  blocks behave as independent arrays of bytes.
\<close>

section \<open>Bytes and words\<close>

type_synonym memory = "nat \<Rightarrow> u8"

text \<open>Little-endian reads and writes of \<open>n\<close> bytes.\<close>

primrec load_le :: "nat \<Rightarrow> memory \<Rightarrow> nat \<Rightarrow> nat" where
  "load_le 0 m a = 0"
| "load_le (Suc n) m a = unat (m a) + 256 * load_le n m (Suc a)"

primrec store_le :: "nat \<Rightarrow> nat \<Rightarrow> nat \<Rightarrow> memory \<Rightarrow> memory" where
  "store_le 0 a v m = m"
| "store_le (Suc n) a v m = (store_le n (Suc a) (v div 256) m)(a := of_nat v)"

lemma store_le_outside [simp]: "b \<notin> cells (a, n) \<Longrightarrow> store_le n a v m b = m b"
  by (induction n arbitrary: a v) (auto simp: cells_def)

lemma load_le_cong: "(\<And>b. b \<in> cells (a, n) \<Longrightarrow> m b = m' b) \<Longrightarrow> load_le n m a = load_le n m' a"
proof (induction n arbitrary: a)
  case (Suc n)
  then have "m a = m' a" "load_le n m (Suc a) = load_le n m' (Suc a)"
    by (auto simp: cells_def intro!: Suc.IH)
  then show ?case by simp
qed simp

lemma load_store_le [simp]: "v < 256 ^ n \<Longrightarrow> load_le n (store_le n a v m) a = v"
proof (induction n arbitrary: a v)
  case (Suc n)
  have "load_le n ((store_le n (Suc a) (v div 256) m)(a := of_nat v)) (Suc a)
      = load_le n (store_le n (Suc a) (v div 256) m) (Suc a)"
    by (rule load_le_cong) (simp add: cells_def)
  also have "\<dots> = v div 256"
    by (rule Suc.IH) (use Suc.prems in \<open>simp add: less_mult_imp_div_less mult.commute\<close>)
  finally have "load_le (Suc n) (store_le (Suc n) a v m) a = unat (of_nat v :: u8) + 256 * (v div 256)"
    by (simp only: load_le.simps store_le.simps fun_upd_same)
  also have "\<dots> = v" by (simp add: unat_of_nat)
  finally show ?case .
qed simp

lemma load_store_other:
  assumes "apart2 (a, n) (b, k)"
  shows "load_le n (store_le k b v m) a = load_le n m a"
  using apart2_cells [OF assms] by (intro load_le_cong store_le_outside) blast

text \<open>\<open>Option<&mut T>\<close> is stored as an address with the null pointer for \<open>None\<close>.\<close>

definition reference :: "nat \<Rightarrow> nat option" where
  "reference w = (if w = 0 then None else Some w)"

definition address :: "nat option \<Rightarrow> nat" where
  "address p = (case p of None \<Rightarrow> 0 | Some a \<Rightarrow> a)"

definition ref_ok :: "nat option \<Rightarrow> bool" where
  "ref_ok p \<longleftrightarrow> (case p of None \<Rightarrow> True | Some a \<Rightarrow> 0 < a \<and> a < 2 ^ 64)"

lemma reference_address [simp]: "ref_ok p \<Longrightarrow> reference (address p) = p"
  by (auto simp: reference_def address_def ref_ok_def split: option.splits)

lemma address_bound [simp]: "ref_ok p \<Longrightarrow> address p < 256 ^ 8"
  by (auto simp: address_def ref_ok_def split: option.splits)

lemma ref_ok_simps [simp]: "ref_ok None" "ref_ok (Some a) \<longleftrightarrow> 0 < a \<and> a < 2 ^ 64"
  by (simp_all add: ref_ok_def)

section \<open>Intrusive lists\<close>

text \<open>The nodes \<open>as\<close> are reached, in this order, from the reference \<open>p\<close>; \<open>nx\<close> reads the reference to
  the next node out of a node.\<close>

primrec chain :: "(memory \<Rightarrow> nat \<Rightarrow> nat option) \<Rightarrow> memory \<Rightarrow> nat option \<Rightarrow> nat list \<Rightarrow> bool" where
  "chain nx m p [] \<longleftrightarrow> p = None"
| "chain nx m p (a # as) \<longleftrightarrow> p = Some a \<and> ref_ok p \<and> chain nx m (nx m a) as"

lemma chain_ref_ok [simp]: "chain nx m p as \<Longrightarrow> ref_ok p"
  by (cases as) auto

locale intrusive_list =
  fixes node_size :: nat
    and nx :: "memory \<Rightarrow> nat \<Rightarrow> nat option"
    and set_nx :: "nat \<Rightarrow> nat option \<Rightarrow> memory \<Rightarrow> memory"
  assumes nx_set: "ref_ok p \<Longrightarrow> nx (set_nx a p m) a = p"
    and set_outside: "b \<notin> cells (a, node_size) \<Longrightarrow> set_nx a p m b = m b"
    and nx_cong: "(\<And>b. b \<in> cells (a, node_size) \<Longrightarrow> m b = m' b) \<Longrightarrow> nx m a = nx m' a"
begin

lemma nx_other: "apart2 (a, node_size) (b, node_size) \<Longrightarrow> nx (set_nx b p m) a = nx m a"
  using apart2_cells by (intro nx_cong set_outside) blast

lemma chain_cong:
  assumes "chain nx m p as" "\<And>a b. a \<in> set as \<Longrightarrow> b \<in> cells (a, node_size) \<Longrightarrow> m' b = m b"
  shows "chain nx m' p as"
  using assms
proof (induction as arbitrary: p)
  case (Cons a as)
  have "nx m' a = nx m a" using Cons.prems(2) [of a] by (intro nx_cong) simp
  moreover have "chain nx m' (nx m a) as"
    using Cons.prems(1) by (intro Cons.IH Cons.prems(2)) auto
  ultimately show ?case using Cons.prems(1) by auto
qed simp

lemma chain_outside:
  assumes "chain nx m p as" "\<And>a. a \<in> set as \<Longrightarrow> apart2 (a, node_size) x" "\<And>b. b \<notin> cells x \<Longrightarrow> m' b = m b"
  shows "chain nx m' p as"
  by (rule chain_cong [OF assms(1)]) (use assms(2,3) apart2_cells in blast)

lemma chain_push:
  assumes "chain nx m p as" "ref_ok (Some a)" "\<And>b. b \<in> set as \<Longrightarrow> apart2 (b, node_size) (a, node_size)"
  shows "chain nx (set_nx a p m) (Some a) (a # as)"
  using assms(2) nx_set [OF chain_ref_ok [OF assms(1)]]
    chain_outside [OF assms(1), of "(a, node_size)"] assms(3) set_outside by simp

end

section \<open>Allocators on memory\<close>

locale memory_allocator = heap_allocator lo hi hinv alloc dealloc accepts
  for lo hi :: nat
    and hinv :: "memory \<times> 's \<Rightarrow> heap_block multiset \<Rightarrow> bool"
    and alloc :: "memory \<times> 's \<Rightarrow> Layout \<Rightarrow> ((memory \<times> 's) \<times> nat) option"
    and dealloc :: "memory \<times> 's \<Rightarrow> nat \<Rightarrow> Layout \<Rightarrow> (memory \<times> 's) option"
    and accepts :: "Layout \<Rightarrow> bool" +
  assumes alloc_frame: "\<lbrakk>hinv (m, s) L; accepts l; alloc (m, s) l = Some ((m', s'), p); b \<in># L;
      x \<in> cells (block_ivl b)\<rbrakk> \<Longrightarrow> m' x = m x"
    and dealloc_frame: "\<lbrakk>hinv (m, s) L; (q, l) \<in># L; dealloc (m, s) q l = Some (m', s');
      b \<in># L - {#(q, l)#}; x \<in> cells (block_ivl b)\<rbrakk> \<Longrightarrow> m' x = m x"
    and client_writes: "\<lbrakk>hinv (m, s) L; \<And>x. (\<And>b. b \<in># L \<Longrightarrow> x \<notin> cells (block_ivl b)) \<Longrightarrow> m' x = m x\<rbrakk> \<Longrightarrow>
      hinv (m', s) L"

text \<open>A client requests and frees blocks, and writes a byte at an offset into a block it holds. With
  each held block goes what the client has written into it.\<close>

datatype heap_use = Ask Layout | Give_Back nat | Write nat nat u8

type_synonym held_block = "heap_block \<times> (nat \<rightharpoonup> u8)"

fun use_step :: "(memory \<times> 's \<Rightarrow> Layout \<Rightarrow> ((memory \<times> 's) \<times> nat) option) \<Rightarrow>
    (memory \<times> 's \<Rightarrow> nat \<Rightarrow> Layout \<Rightarrow> (memory \<times> 's) option) \<Rightarrow>
    (memory \<times> 's) \<times> held_block list \<Rightarrow> heap_use \<Rightarrow> ((memory \<times> 's) \<times> held_block list) option" where
  "use_step alloc dealloc (h, held) (Ask l) = do {
     (h', p) \<leftarrow> alloc h l;
     Some (h', if p = 0 then held else ((p, l), Map.empty) # held)
   }"
| "use_step alloc dealloc (h, held) (Give_Back i) =
     (if i < length held then do {
        h' \<leftarrow> dealloc h (fst (fst (held ! i))) (snd (fst (held ! i)));
        Some (h', take i held @ drop (Suc i) held)
      } else Some (h, held))"
| "use_step alloc dealloc ((m, s), held) (Write i off v) =
     (if i < length held \<and> off < lay_size (snd (fst (held ! i)))
      then Some ((m(fst (fst (held ! i)) + off := v), s),
        held[i := (fst (held ! i), (snd (held ! i))(off \<mapsto> v))])
      else Some ((m, s), held))"

fun use_run :: "(memory \<times> 's \<Rightarrow> Layout \<Rightarrow> ((memory \<times> 's) \<times> nat) option) \<Rightarrow>
    (memory \<times> 's \<Rightarrow> nat \<Rightarrow> Layout \<Rightarrow> (memory \<times> 's) option) \<Rightarrow>
    (memory \<times> 's) \<times> held_block list \<Rightarrow> heap_use list \<Rightarrow> ((memory \<times> 's) \<times> held_block list) option" where
  "use_run alloc dealloc s [] = Some s"
| "use_run alloc dealloc s (u # us) = do { s' \<leftarrow> use_step alloc dealloc s u; use_run alloc dealloc s' us }"

definition use_ok :: "(Layout \<Rightarrow> bool) \<Rightarrow> heap_use \<Rightarrow> bool" where
  "use_ok accepts u = (case u of Ask l \<Rightarrow> accepts l | _ \<Rightarrow> True)"

text \<open>Every byte written into a held block and not overwritten since is still there.\<close>

definition keeps_data :: "memory \<Rightarrow> held_block list \<Rightarrow> bool" where
  "keeps_data m held \<longleftrightarrow> (\<forall>(b, c)\<in>set held. \<forall>off v. c off = Some v \<longrightarrow>
     off < lay_size (snd b) \<and> m (fst b + off) = v)"

lemma keeps_data_mono:
  assumes "keeps_data m held" "set held' \<subseteq> set held"
    "\<And>b x. b \<in> fst ` set held' \<Longrightarrow> x \<in> cells (block_ivl b) \<Longrightarrow> m' x = m x"
  shows "keeps_data m' held'"
  unfolding keeps_data_def
proof (intro ballI allI impI, clarify, intro conjI)
  fix p l c off v
  assume h: "((p, l), c) \<in> set held'" and c: "c off = Some v"
  then have "off < lay_size l \<and> m (p + off) = v" using assms(1,2) by (fastforce simp: keeps_data_def)
  moreover from this have "m' (p + off) = m (p + off)"
    using assms(3) [of "(p, l)"] h by (force simp: cells_def block_ivl_def)
  ultimately show "off < lay_size (snd (p, l))" "m' (fst (p, l) + off) = v" by simp_all
qed

lemma mset_fst_delete:
  "i < length xs \<Longrightarrow> mset (map fst (take i xs @ drop (Suc i) xs)) = mset (map fst xs) - {#fst (xs ! i)#}"
  using mset_delete_nth [of i "map fst xs"] by (simp add: take_map drop_map)

text \<open>A byte of one of several disjoint blocks is in no other of them.\<close>

lemma held_apart:
  assumes "apart (image_mset block_ivl (mset (map fst held)))" "i < length held" "j < length held" "i \<noteq> j"
    "x \<in> cells (block_ivl (fst (held ! i)))"
  shows "x \<notin> cells (block_ivl (fst (held ! j)))"
proof -
  let ?xs = "map fst held" and ?M = "mset (map fst held) - {#map fst held ! i#}"
  have "?xs ! j \<in> set (take i ?xs @ drop (Suc i) ?xs)"
  proof (cases "j < i")
    case True
    then have "take i ?xs ! j = ?xs ! j" "j < length (take i ?xs)" using assms by auto
    then show ?thesis by (metis nth_mem Un_iff set_append)
  next
    case False
    then have "drop (Suc i) ?xs ! (j - Suc i) = ?xs ! j" "j - Suc i < length (drop (Suc i) ?xs)"
      using assms by auto
    then show ?thesis by (metis nth_mem Un_iff set_append)
  qed
  then have j: "?xs ! j \<in># ?M"
    using assms(2) mset_delete_nth [of i ?xs] by (metis length_map set_mset_mset)
  have "?xs ! i \<in># mset ?xs" using assms(2) by (intro nth_mem_mset) simp
  then have "add_mset (?xs ! i) ?M = mset ?xs" by (rule insert_DiffM)
  then have "apart (image_mset block_ivl (add_mset (?xs ! i) ?M))" using assms(1) by metis
  then have "\<forall>y\<in>#image_mset block_ivl ?M. apart2 (block_ivl (?xs ! i)) y"
    unfolding image_mset_add_mset apart_add by (rule conjunct1)
  then have "apart2 (block_ivl (?xs ! i)) (block_ivl (?xs ! j))"
    by (rule bspec) (use j in \<open>simp only: set_image_mset imageI\<close>)
  then have "apart2 (block_ivl (fst (held ! i))) (block_ivl (fst (held ! j)))"
    using assms(2,3) by simp
  then show ?thesis using apart2_cells assms(5) by blast
qed

lemma keeps_data_write:
  assumes d: "keeps_data m held" and ap: "apart (image_mset block_ivl (mset (map fst held)))"
    and i: "i < length held" "off < lay_size (snd (fst (held ! i)))"
  shows "keeps_data (m(fst (fst (held ! i)) + off := v)) (held[i := (fst (held ! i), (snd (held ! i))(off \<mapsto> v))])"
    (is "keeps_data (m(?x := v)) (held[i := ?e])")
  unfolding keeps_data_def
proof (intro ballI allI impI, clarify)
  fix p l c o' w
  assume e: "((p, l), c) \<in> set (held[i := ?e])" and c: "c o' = Some w"
  then obtain j where j: "j < length held" "held[i := ?e] ! j = ((p, l), c)"
    by (auto simp: in_set_conv_nth)
  show "o' < lay_size (snd (p, l)) \<and> (m(?x := v)) (fst (p, l) + o') = w"
  proof (cases "j = i")
    case True
    then have "(p, l) = fst (held ! i)" "c = (snd (held ! i))(off \<mapsto> v)" using j by simp_all
    moreover have "held ! i \<in> set held" using i(1) by simp
    ultimately show ?thesis
      using c d i unfolding keeps_data_def by (cases "held ! i") (fastforce split: if_splits)
  next
    case False
    then have jj: "held ! j = ((p, l), c)" "held ! j \<in> set held" using j nth_mem [OF j(1)] by simp_all
    have "?x \<in> cells (block_ivl (fst (held ! i)))" using i by (simp add: cells_def block_ivl_def)
    then have n: "?x \<notin> cells (block_ivl (p, l))"
      using held_apart [OF ap i(1) j(1)] False jj by fastforce
    have k: "o' < lay_size l" "m (p + o') = w" using d jj c by (fastforce simp: keeps_data_def)+
    then have "p + o' \<noteq> ?x" using n by (auto simp: cells_def block_ivl_def)
    then show ?thesis using k by simp
  qed
qed

context memory_allocator
begin

lemma ask_ok:
  assumes "hinv (m, s) (mset (map fst held))" "keeps_data m held" "accepts l"
  shows "\<exists>m' s' held'. use_step alloc dealloc ((m, s), held) (Ask l) = Some ((m', s'), held')
    \<and> hinv (m', s') (mset (map fst held')) \<and> keeps_data m' held'"
proof -
  obtain m' s' p where a: "alloc (m, s) l = Some ((m', s'), p)"
    "hinv (m', s') (if p = 0 then mset (map fst held) else add_mset (p, l) (mset (map fst held)))"
    using alloc_ok [OF assms(1,3)] by auto
  have "keeps_data m' held"
    by (rule keeps_data_mono [OF assms(2) order_refl])
      (use alloc_frame [OF assms(1,3) a(1)] in auto)
  then show ?thesis using a by (cases "p = 0") (auto simp: keeps_data_def)
qed

lemma give_back_ok:
  assumes inv: "hinv (m, s) (mset (map fst held))" and d: "keeps_data m held"
  shows "\<exists>m' s' held'. use_step alloc dealloc ((m, s), held) (Give_Back i) = Some ((m', s'), held')
    \<and> hinv (m', s') (mset (map fst held')) \<and> keeps_data m' held'"
proof (cases "i < length held")
  case True
  let ?held = "take i held @ drop (Suc i) held"
  obtain q l where ql: "fst (held ! i) = (q, l)" by fastforce
  have m: "(q, l) \<in># mset (map fst held)" using True ql by (metis in_set_conv_nth length_map nth_map set_mset_mset)
  obtain m' s' where r: "dealloc (m, s) q l = Some (m', s')" "hinv (m', s') (mset (map fst held) - {#(q, l)#})"
    using dealloc_ok [OF inv m] by auto
  have eq: "mset (map fst ?held) = mset (map fst held) - {#(q, l)#}"
    using mset_fst_delete [OF True] ql by metis
  have "keeps_data m' ?held"
  proof (rule keeps_data_mono [OF d])
    show "set ?held \<subseteq> set held" using set_take_subset set_drop_subset by fastforce
    fix b x assume b: "b \<in> fst ` set ?held" and x: "x \<in> cells (block_ivl b)"
    have "b \<in># mset (map fst held) - {#(q, l)#}" using b eq by (metis image_set set_mset_mset)
    then show "m' x = m x" using dealloc_frame [OF inv m r(1)] x by blast
  qed
  moreover have "use_step alloc dealloc ((m, s), held) (Give_Back i) = Some ((m', s'), ?held)"
    using True ql r(1) by simp
  ultimately show ?thesis using r(2) eq by metis
qed (use assms in simp)

lemma write_ok:
  assumes inv: "hinv (m, s) (mset (map fst held))" and d: "keeps_data m held"
  shows "\<exists>m' s' held'. use_step alloc dealloc ((m, s), held) (Write i off v) = Some ((m', s'), held')
    \<and> hinv (m', s') (mset (map fst held')) \<and> keeps_data m' held'"
proof (cases "i < length held \<and> off < lay_size (snd (fst (held ! i)))")
  case True
  let ?x = "fst (fst (held ! i)) + off" and ?e = "(fst (held ! i), (snd (held ! i))(off \<mapsto> v))"
  have x: "?x \<in> cells (block_ivl (fst (held ! i)))" using True by (simp add: cells_def block_ivl_def)
  have same: "map fst (held[i := ?e]) = map fst held"
    using True by (metis fst_conv list_update_id map_update nth_map)
  have "hinv (m(?x := v), s) (mset (map fst held))"
  proof (rule client_writes [OF inv])
    fix y assume "\<And>b. b \<in># mset (map fst held) \<Longrightarrow> y \<notin> cells (block_ivl b)"
    then have "y \<noteq> ?x" using x True by (metis in_set_conv_nth length_map nth_map set_mset_mset)
    then show "(m(?x := v)) y = m y" by simp
  qed
  moreover have "keeps_data (m(?x := v)) (held[i := ?e])"
    using live_ok [OF inv] True by (intro keeps_data_write [OF d]) (simp_all add: blocks_ok_def)
  moreover have "use_step alloc dealloc ((m, s), held) (Write i off v) = Some ((m(?x := v), s), held[i := ?e])"
    using True by simp
  ultimately show ?thesis using same by metis
qed (use assms in auto)

theorem use_run_ok:
  assumes "hinv (m, s) (mset (map fst held))" "keeps_data m held" "list_all (use_ok accepts) us"
  shows "\<exists>m' s' held'. use_run alloc dealloc ((m, s), held) us = Some ((m', s'), held')
    \<and> hinv (m', s') (mset (map fst held')) \<and> keeps_data m' held'"
  using assms
proof (induction us arbitrary: m s held)
  case (Cons u us)
  have "\<exists>m' s' held'. use_step alloc dealloc ((m, s), held) u = Some ((m', s'), held')
    \<and> hinv (m', s') (mset (map fst held')) \<and> keeps_data m' held'"
  proof (cases u)
    case (Ask l)
    then show ?thesis using ask_ok Cons.prems by (auto simp: use_ok_def)
  qed (use Cons.prems give_back_ok write_ok in blast)+
  then obtain m' s' held' where "use_step alloc dealloc ((m, s), held) u = Some ((m', s'), held')"
    "hinv (m', s') (mset (map fst held'))" "keeps_data m' held'" by blast
  then show ?case using Cons.IH [of m' s' held'] Cons.prems(3) by simp
qed auto

end

end
