(* ===== verification/Alloc_List_Heap.thy ===== *)
theory Alloc_List_Heap
  imports Alloc_List Heap_Memory
begin

text \<open>
  The linked-list allocator of \<^verbatim>\<open>src/src/allocator/linked_list.rs\<close> on memory: the nodes are read from and
  written to the bytes of the free regions, and the list is followed by its references, as the
  code does it. \<open>Alloc_List\<close> has the same operations on the list of the regions; here the two are
  shown to agree (every operation on memory simulates the one on the list), so that the contract
  of the allocator carries over, together with what only memory can say: no operation touches a
  byte of a block that is in use, and nothing a client writes into its blocks damages the free list.

  A \<open>ListNode\<close> is taken to have its size in its first eight bytes and the reference in the next
  eight; the compiler is free to choose the other order, and nothing here depends on it beyond
  the definitions of \<open>list_next\<close>, \<open>list_set_next\<close> and \<open>read_node\<close>.
\<close>

section \<open>Nodes in memory\<close>

record ListNode =
  ln_size :: nat
  ln_next :: "nat option"

definition list_node_new :: "nat \<Rightarrow> ListNode" where
  "list_node_new size' = \<lparr>ln_size = size', ln_next = None\<rparr>"

record LinkedListAllocator =
  head :: ListNode

definition list_next :: "memory \<Rightarrow> nat \<Rightarrow> nat option" where
  "list_next m a = reference (load_le 8 m (a + 8))"

definition list_set_next :: "nat \<Rightarrow> nat option \<Rightarrow> memory \<Rightarrow> memory" where
  "list_set_next a p m = store_le 8 (a + 8) (address p) m"

definition read_node :: "memory \<Rightarrow> nat \<Rightarrow> ListNode" where
  "read_node m a = \<lparr>ln_size = load_le 8 m a, ln_next = list_next m a\<rparr>"

definition write_node :: "nat \<Rightarrow> ListNode \<Rightarrow> memory \<Rightarrow> memory" where
  "write_node a n m = list_set_next a (ln_next n) (store_le 8 a (ln_size n) m)"

text \<open>What a \<open>&mut ListNode\<close> points to: the allocator's own head, or a node in memory.\<close>

datatype node_ref = Head | At nat

type_synonym list_heap = "memory \<times> LinkedListAllocator"

fun get_next :: "node_ref \<Rightarrow> list_heap \<Rightarrow> nat option" where
  "get_next Head (m, g) = ln_next (head g)"
| "get_next (At a) (m, g) = ln_next (read_node m a)"

fun put_next :: "node_ref \<Rightarrow> nat option \<Rightarrow> list_heap \<Rightarrow> list_heap" where
  "put_next Head p (m, g) = (m, g\<lparr>head := (head g)\<lparr>ln_next := p\<rparr>\<rparr>)"
| "put_next (At a) p (m, g) = (list_set_next a p m, g)"

section \<open>Operations\<close>

definition linked_list_new :: LinkedListAllocator where
  "linked_list_new = \<lparr>head = list_node_new 0\<rparr>"

definition push_free_region :: "list_heap \<Rightarrow> nat \<Rightarrow> nat \<Rightarrow> list_heap option" where
  "push_free_region h addr size' = do {
     a \<leftarrow> align_up addr NODE_ALIGN;
     rust_assert (a = addr);
     rust_assert (size' \<ge> NODE_SIZE);
     let node = list_node_new size';
     let node = node\<lparr>ln_next := get_next Head h\<rparr>;
     let (m, g) = put_next Head None h;
     Some (put_next Head (Some addr) (write_node addr node m, g))
   }"

definition linked_list_init :: "list_heap \<Rightarrow> nat \<Rightarrow> nat \<Rightarrow> list_heap option" where
  "linked_list_init h start size' = push_free_region h start size'"

definition fits_region :: "memory \<Rightarrow> nat \<Rightarrow> nat \<Rightarrow> nat \<Rightarrow> (unit + nat) option" where
  "fits_region m region size' align = alloc_from_region (region, ln_size (read_node m region)) size' align"

text \<open>The loop of \<open>find_region\<close>; a list with a cycle would make it run forever.\<close>

partial_function (option) find_from ::
    "nat \<Rightarrow> nat \<Rightarrow> node_ref \<Rightarrow> list_heap \<Rightarrow> ((nat \<times> nat) option \<times> list_heap) option" where
  "find_from size' align current h = (case get_next current h of
     None \<Rightarrow> Some (None, h)
   | Some region \<Rightarrow> do {
       x \<leftarrow> fits_region (fst h) region size' align;
       (case x of
          Inr alloc_start \<Rightarrow>
            let next' = get_next (At region) h;
                h = put_next (At region) None h;
                h = put_next current None h;
                h = put_next current next' h
            in Some (Some (region, alloc_start), h)
        | Inl _ \<Rightarrow> find_from size' align (At region) h)
     })"

definition linked_list_alloc :: "list_heap \<Rightarrow> Layout \<Rightarrow> (list_heap \<times> nat) option" where
  "linked_list_alloc h l = do {
     (size', align) \<leftarrow> size_align l;
     (f, h) \<leftarrow> find_from size' align Head h;
     (case f of
        None \<Rightarrow> Some (h, 0)
      | Some (region, alloc_start) \<Rightarrow> do {
          alloc_end \<leftarrow> usize_add alloc_start size';
          e \<leftarrow> end_addr (region, ln_size (read_node (fst h) region));
          excess \<leftarrow> usize_sub e alloc_end;
          h \<leftarrow> (if excess > 0 then push_free_region h alloc_end excess else Some h);
          Some (h, alloc_start)
        })
   }"

definition linked_list_dealloc :: "list_heap \<Rightarrow> nat \<Rightarrow> Layout \<Rightarrow> list_heap option" where
  "linked_list_dealloc h p l = do {
     (size', _) \<leftarrow> size_align l;
     push_free_region h p size'
   }"

section \<open>The list in memory\<close>

lemma apart2_next: "apart2 (a, 16) (b, 16) \<Longrightarrow> apart2 (a + 8, 8) (b + 8, 8)"
  by (auto simp: apart2_def)

lemma list_next_cong: "(\<And>b. b \<in> cells (a + 8, 8) \<Longrightarrow> m b = m' b) \<Longrightarrow> list_next m a = list_next m' a"
  unfolding list_next_def by (simp only: load_le_cong [of "a + 8" 8 m m'])

interpretation ll: intrusive_list 16 list_next list_set_next
proof unfold_locales
  show "list_next (list_set_next a p m) a = p" if "ref_ok p" for p a m
    using that by (simp only: list_next_def list_set_next_def load_store_le address_bound reference_address)
  show "list_set_next a p m b = m b" if "b \<notin> cells (a, 16)" for b a p m
    unfolding list_set_next_def by (rule store_le_outside) (use that in \<open>auto simp: cells_def\<close>)
  show "list_next m a = list_next m' a" if "\<And>b. b \<in> cells (a, 16) \<Longrightarrow> m b = m' b" for a m m'
    by (rule list_next_cong) (use that in \<open>auto simp: cells_def\<close>)
qed

text \<open>The regions \<open>fl\<close> are threaded through memory, starting at \<open>p\<close>.\<close>

definition regions_at :: "memory \<Rightarrow> nat option \<Rightarrow> region list \<Rightarrow> bool" where
  "regions_at m p fl \<longleftrightarrow> chain list_next m p (map fst fl) \<and> (\<forall>r\<in>set fl. load_le 8 m (fst r) = snd r)"

definition list_repr :: "list_heap \<Rightarrow> region list \<Rightarrow> bool" where
  "list_repr h fl \<longleftrightarrow> regions_at (fst h) (get_next Head h) fl"

lemma regions_at_simps [simp]:
  "regions_at m p [] \<longleftrightarrow> p = None"
  "regions_at m p (r # fl) \<longleftrightarrow> p = Some (fst r) \<and> ref_ok p \<and> load_le 8 m (fst r) = snd r
     \<and> regions_at m (list_next m (fst r)) fl"
  by (auto simp: regions_at_def)

lemma regions_at_cong:
  assumes "regions_at m p fl" "\<And>r b. r \<in> set fl \<Longrightarrow> b \<in> cells (fst r, 16) \<Longrightarrow> m' b = m b"
  shows "regions_at m' p fl"
proof -
  have "load_le 8 m' (fst r) = load_le 8 m (fst r)" if "r \<in> set fl" for r
    by (rule load_le_cong) (use assms(2) [OF that] in \<open>auto simp: cells_def\<close>)
  moreover have "chain list_next m' p (map fst fl)"
    by (rule ll.chain_cong [of m]) (use assms in \<open>auto simp: regions_at_def\<close>)
  ultimately show ?thesis using assms(1) by (simp add: regions_at_def)
qed

lemma regions_at_outside:
  assumes "regions_at m p fl" "\<And>r. r \<in> set fl \<Longrightarrow> apart2 (fst r, 16) x" "\<And>b. b \<notin> cells x \<Longrightarrow> m' b = m b"
  shows "regions_at m' p fl"
  by (rule regions_at_cong [OF assms(1)]) (use assms(2,3) apart2_cells in blast)

lemma read_write_node:
  assumes "ref_ok (ln_next n)" "ln_size n < 2 ^ 64"
  shows "load_le 8 (write_node a n m) a = ln_size n" "list_next (write_node a n m) a = ln_next n"
proof -
  have "apart2 (a, 8) (a + 8, 8)" by (simp add: apart2_def)
  then show "load_le 8 (write_node a n m) a = ln_size n"
    using assms(2) by (simp add: write_node_def list_set_next_def load_store_other)
  show "list_next (write_node a n m) a = ln_next n"
    unfolding write_node_def by (rule ll.nx_set [OF assms(1)])
qed

lemma write_node_outside: "b \<notin> cells (a, 16) \<Longrightarrow> write_node a n m b = m b"
  unfolding write_node_def
  by (subst ll.set_outside, assumption, rule store_le_outside) (auto simp: cells_def)

section \<open>The search\<close>

text \<open>The bytes of the reference a \<open>node_ref\<close> holds, and its distance from the nodes of a list.\<close>

fun next_cells :: "node_ref \<Rightarrow> nat set" where
  "next_cells Head = {}"
| "next_cells (At a) = cells (a + 8, 8)"

fun ref_apart :: "node_ref \<Rightarrow> region list \<Rightarrow> bool" where
  "ref_apart Head fl \<longleftrightarrow> True"
| "ref_apart (At a) fl \<longleftrightarrow> (\<forall>r\<in>set fl. apart2 (a, 16) (fst r, 16))"

definition nodes_apart :: "region list \<Rightarrow> bool" where
  "nodes_apart fl \<longleftrightarrow> apart (mset (map (\<lambda>r. (fst r, 16)) fl))"

lemma nodes_apart_simps [simp]:
  "nodes_apart []"
  "nodes_apart (r # fl) \<longleftrightarrow> ref_apart (At (fst r)) fl \<and> nodes_apart fl"
  by (auto simp: nodes_apart_def)

lemma get_put_next [simp]: "ref_ok p \<Longrightarrow> get_next c (put_next c p h) = p"
  by (cases c; cases h) (simp_all add: read_node_def ll.nx_set)

lemma put_next_outside: "b \<notin> next_cells c \<Longrightarrow> fst (put_next c p h) b = fst h b"
  by (cases c; cases h) (simp_all add: list_set_next_def)

lemma put_next_state: "c \<noteq> Head \<Longrightarrow> snd (put_next c p h) = snd h"
  by (cases c; cases h) simp_all

text \<open>A reference that is not written to keeps its value.\<close>

lemma get_next_frame:
  assumes "\<And>b. b \<in> next_cells c \<Longrightarrow> m' b = m b" "c = Head \<Longrightarrow> g' = g"
  shows "get_next c (m', g') = get_next c (m, g)"
  using assms by (cases c) (auto simp: read_node_def intro: list_next_cong)

lemma ref_apart_cells:
  assumes "ref_apart c fl" "r \<in> set fl"
  shows "next_cells c \<inter> cells (fst r, 16) = {}"
proof (cases c)
  case (At a)
  then have "apart2 (a, 16) (fst r, 16)" using assms by simp
  then show ?thesis using apart2_cells [of "(a, 16)" "(fst r, 16)"] At by (auto simp: cells_def)
qed simp

lemma unlink_region:
  assumes "regions_at m (get_next c (m, g)) (r # fl)" "ref_apart c (r # fl)" "nodes_apart (r # fl)"
  defines "h' \<equiv> put_next c (get_next (At (fst r)) (m, g)) (put_next c None (put_next (At (fst r)) None (m, g)))"
  shows "regions_at (fst h') (get_next c h') fl"
    "\<And>b. b \<notin> next_cells c \<Longrightarrow> b \<notin> cells (fst r + 8, 8) \<Longrightarrow> fst h' b = m b"
    "c \<noteq> Head \<Longrightarrow> snd h' = g"
proof -
  have nx: "get_next (At (fst r)) (m, g) = list_next m (fst r)" by (simp add: read_node_def)
  have reg: "regions_at m (list_next m (fst r)) fl" using assms(1) by simp
  then have ok: "ref_ok (list_next m (fst r))" by (auto simp: regions_at_def)
  show fr: "fst h' b = m b" if "b \<notin> next_cells c" "b \<notin> cells (fst r + 8, 8)" for b
    using that put_next_outside [of b "At (fst r)" None "(m, g)"] by (simp add: h'_def put_next_outside)
  have "get_next c h' = list_next m (fst r)" unfolding h'_def nx by (rule get_put_next [OF ok])
  moreover have "regions_at (fst h') (list_next m (fst r)) fl"
  proof (rule regions_at_cong [OF reg])
    fix x b assume x: "x \<in> set fl" "b \<in> cells (fst x, 16)"
    have "next_cells c \<inter> cells (fst x, 16) = {}" "next_cells (At (fst r)) \<inter> cells (fst x, 16) = {}"
      using ref_apart_cells [of c "r # fl" x] ref_apart_cells [of "At (fst r)" fl x] assms(2,3) x by auto
    then show "fst h' b = m b" using x by (intro fr) auto
  qed
  ultimately show "regions_at (fst h') (get_next c h') fl" by simp
  show "c \<noteq> Head \<Longrightarrow> snd h' = g" by (simp add: h'_def put_next_state)
qed

text \<open>What is done to the list behind a node leaves the reference to the node and its size alone.\<close>

lemma regions_past:
  assumes reg: "regions_at m (get_next c (m, g)) (r # fl)" and ap: "ref_apart c (r # fl)" "nodes_apart (r # fl)"
    and m': "regions_at m' (list_next m' (fst r)) fl'"
      "\<And>b. b \<notin> cells (fst r + 8, 8) \<Longrightarrow> \<forall>r\<in>set fl. b \<notin> cells (fst r + 8, 8) \<Longrightarrow> m' b = m b"
  shows "regions_at m' (get_next c (m', g)) (r # fl')"
proof -
  have "get_next c (m', g) = get_next c (m, g)"
    by (rule get_next_frame)
      (use ref_apart_cells [OF ap(1)] in \<open>fastforce intro!: m'(2) simp: cells_def\<close>)+
  moreover have "load_le 8 m' (fst r) = load_le 8 m (fst r)"
  proof (rule load_le_cong)
    fix b assume b: "b \<in> cells (fst r, 8)"
    have "b \<notin> cells (fst s + 8, 8)" if "s \<in> set fl" for s
      using ap(2) that b by (auto simp: cells_def apart2_def)
    then show "m' b = m b" using b by (intro m'(2)) (auto simp: cells_def)
  qed
  ultimately show ?thesis using m'(1) reg by auto
qed

text \<open>The loop ends on every list in memory, and finds and unlinks what \<open>find_region\<close> does; of the
  memory it writes only references.\<close>

lemma find_from_refines:
  assumes "regions_at m (get_next c (m, g)) fl" "ref_apart c fl" "nodes_apart fl"
    "find_region fl size' align = Some x"
  shows "(case x of None \<Rightarrow> find_from size' align c (m, g) = Some (None, m, g)
    | Some (r, p, fl') \<Rightarrow> \<exists>m' g'. find_from size' align c (m, g) = Some (Some (fst r, p), m', g')
        \<and> regions_at m' (get_next c (m', g')) fl' \<and> (c \<noteq> Head \<longrightarrow> g' = g)
        \<and> (\<forall>b. b \<notin> next_cells c \<longrightarrow> (\<forall>r\<in>set fl. b \<notin> cells (fst r + 8, 8)) \<longrightarrow> m' b = m b))"
  using assms
proof (induction fl arbitrary: c x)
  case Nil
  then show ?case by (simp add: find_from.simps)
next
  case (Cons r fl)
  note nx = Cons.prems(1) [unfolded regions_at_simps]
  obtain y where y: "alloc_from_region r size' align = Some y" using Cons.prems(4) by (auto simp: panic_simps)
  have fit: "fits_region m (fst r) size' align = Some y" using nx y by (simp add: fits_region_def read_node_def)
  show ?case
  proof (cases y)
    case (Inr p)
    let ?h = "put_next c (get_next (At (fst r)) (m, g)) (put_next c None (put_next (At (fst r)) None (m, g)))"
    note u = unlink_region [OF Cons.prems(1-3)]
    have "find_from size' align c (m, g) = Some (Some (fst r, p), ?h)"
      using nx fit Inr by (subst find_from.simps) (simp add: Let_def del: get_next.simps put_next.simps)
    moreover obtain m' g' where h: "?h = (m', g')" by fastforce
    moreover have "x = Some (r, p, fl)" using Cons.prems(4) y Inr by simp
    ultimately show ?thesis using u [unfolded h] by auto
  next
    case (Inl z)
    have step: "find_from size' align c (m, g) = find_from size' align (At (fst r)) (m, g)"
      using nx fit Inl by (subst find_from.simps) (simp del: get_next.simps)
    obtain x' where x': "find_region fl size' align = Some x'" "x = map_option (\<lambda>(r', p, fl'). (r', p, r # fl')) x'"
      using Cons.prems(4) y Inl by (auto simp: panic_simps)
    have "regions_at m (get_next (At (fst r)) (m, g)) fl" using nx by (simp add: read_node_def)
    note ih = Cons.IH [OF this _ _ x'(1)]
    show ?thesis
    proof (cases x')
      case None
      then show ?thesis using ih Cons.prems(3) x'(2) step by simp
    next
      case (Some t)
      obtain r' p fl' where t: "t = (r', p, fl')" by (cases t)
      obtain m' where m': "find_from size' align c (m, g) = Some (Some (fst r', p), m', g)"
        "regions_at m' (list_next m' (fst r)) fl'"
        "\<And>b. b \<notin> cells (fst r + 8, 8) \<Longrightarrow> \<forall>r\<in>set fl. b \<notin> cells (fst r + 8, 8) \<Longrightarrow> m' b = m b"
        using ih Cons.prems(3) Some t step by (auto simp: read_node_def)
      have "regions_at m' (get_next c (m', g)) (r # fl')"
        by (rule regions_past [OF Cons.prems(1-3) m'(2,3)])
      then show ?thesis using m' Some t x'(2) by auto
    qed
  qed
qed

section \<open>Simulation of the operations\<close>

lemma push_refines:
  assumes rep: "list_repr (m, g) fl" and add: "add_free_region fl a n = Some fl'"
    and bd: "0 < a" "a < 2 ^ 64" "n < 2 ^ 64" and ap: "\<And>r. r \<in> set fl \<Longrightarrow> apart2 (fst r, 16) (a, 16)"
  shows "\<exists>m' g'. push_free_region (m, g) a n = Some (m', g') \<and> list_repr (m', g') fl'
    \<and> (\<forall>b. b \<notin> cells (a, 16) \<longrightarrow> m' b = m b)"
proof -
  let ?p = "ln_next (head g)"
  let ?m = "write_node a \<lparr>ln_size = n, ln_next = ?p\<rparr> m"
  have reg: "regions_at m ?p fl" using rep by (simp add: list_repr_def)
  then have ok: "ref_ok ?p" by (auto simp: regions_at_def)
  have A: "align_up a NODE_ALIGN = Some a" "NODE_SIZE \<le> n" "fl' = (a, n) # fl"
    using add by (auto simp: add_free_region_def panic_simps rust_assert_def split: if_splits)
  have "push_free_region (m, g) a n = Some (?m, g\<lparr>head := (head g)\<lparr>ln_next := Some a\<rparr>\<rparr>)"
    using A(1,2) by (simp add: push_free_region_def rust_assert_def list_node_new_def)
  moreover have "regions_at ?m ?p fl"
    by (rule regions_at_outside [OF reg ap]) (simp_all add: write_node_outside)
  then have "list_repr (?m, g\<lparr>head := (head g)\<lparr>ln_next := Some a\<rparr>\<rparr>) fl'"
    using read_write_node [of "\<lparr>ln_size = n, ln_next = ?p\<rparr>" a m] ok bd A(3) by (simp add: list_repr_def)
  ultimately show ?thesis using write_node_outside by fastforce
qed

lemma list_inv_nodes:
  assumes "list_inv lo hi fl L"
  shows "nodes_apart fl"
proof -
  have "apart (mset fl)" "list_all (region_ok lo hi) fl"
    using assms apart_right [of "image_mset extent L" "mset fl"] by (auto simp: list_inv_def ac_simps)
  then show ?thesis
    by (induction fl) (simp, fastforce simp: region_ok_def apart2_def list_all_iff)
qed

text \<open>The bytes the allocator may write: those of the free regions.\<close>

definition free_cells :: "region list \<Rightarrow> nat set" where
  "free_cells fl = (\<Union>r\<in>set fl. cells r)"

lemma region_cells:
  assumes "list_all (region_ok lo hi) fl" "r \<in> set fl"
  shows "cells (fst r, 16) \<subseteq> cells r" "cells (fst r + 8, 8) \<subseteq> cells r" "cells r \<subseteq> free_cells fl"
  using assms by (auto simp: list_all_iff region_ok_def cells_def free_cells_def)

lemma nodes_apartD:
  "nodes_apart fl \<Longrightarrow> r \<in> set fl \<Longrightarrow> s \<in> set fl \<Longrightarrow> r \<noteq> s \<Longrightarrow> apart2 (fst r, 16) (fst s, 16)"
  by (induction fl) (auto simp: apart2_sym)

lemma found_size:
  assumes "nodes_apart fl" "regions_at m p fl" "r \<in> set fl"
    "\<And>b. \<forall>s\<in>set fl. b \<notin> cells (fst s + 8, 8) \<Longrightarrow> m' b = m b"
  shows "load_le 8 m' (fst r) = snd r"
proof -
  have "load_le 8 m' (fst r) = load_le 8 m (fst r)"
  proof (rule load_le_cong, rule assms(4), rule ballI)
    fix b s assume b: "b \<in> cells (fst r, 8)" and s: "s \<in> set fl"
    show "b \<notin> cells (fst s + 8, 8)"
      using nodes_apartD [OF assms(1,3) s] b by (cases "r = s") (auto simp: cells_def apart2_def)
  qed
  then show ?thesis using assms(2,3) by (simp add: regions_at_def)
qed

text \<open>What is left behind the new block becomes a region, inside the one that was found.\<close>

lemma push_rest_refines:
  assumes rep: "list_repr (m, g) rest" and r: "region_ok lo hi r" "0 < lo" "hi \<le> 2 ^ 63"
    and q: "within (q, n) (fst r) (fst r + snd r)" and ap: "\<And>s. s \<in> set rest \<Longrightarrow> apart2 (fst s, 16) r"
    and e: "e = fst r + snd r - (q + n)"
    and add: "(if e > 0 then add_free_region rest (q + n) e else Some rest) = Some fl'"
  shows "\<exists>m' g'. (if e > 0 then push_free_region (m, g) (q + n) e else Some (m, g)) = Some (m', g')
    \<and> list_repr (m', g') fl' \<and> (\<forall>b. b \<notin> cells r \<longrightarrow> m' b = m b)"
proof (cases "e > 0")
  case True
  then have ad: "add_free_region rest (q + n) e = Some fl'" using add by simp
  then have "16 \<le> e" by (auto simp: add_free_region_def panic_simps rust_assert_def split: if_splits)
  then have w: "within (q + n, 16) (fst r) (fst r + snd r)" using q e by (auto simp: within_def)
  have bd: "0 < q + n" "q + n < 2 ^ 64" "e < 2 ^ 64" using w r e by (auto simp: within_def region_ok_def)
  have "apart2 (fst s, 16) (q + n, 16)" if "s \<in> set rest" for s
    using apart2_within [OF _ w] ap [OF that] apart2_sym by metis
  from push_refines [OF rep ad bd this] obtain m' g' where
    "push_free_region (m, g) (q + n) e = Some (m', g')" "list_repr (m', g') fl'"
    "\<And>b. b \<notin> cells (q + n, 16) \<Longrightarrow> m' b = m b" by blast
  moreover have "cells (q + n, 16) \<subseteq> cells r" using w by (auto simp: cells_def within_def)
  ultimately show ?thesis using True by auto
qed (use rep add in auto)

text \<open>The search from the head of the list, on a state that satisfies the invariant.\<close>

lemma find_refines:
  assumes inv: "list_inv lo hi fl L" and rep: "list_repr (m, g) fl"
    and x: "find_region fl size' align = Some x"
  shows "x = None \<Longrightarrow> find_from size' align Head (m, g) = Some (None, m, g)"
    "x = Some (r, q, rest) \<Longrightarrow> r \<in> set fl \<Longrightarrow> \<exists>m' g'. find_from size' align Head (m, g) = Some (Some (fst r, q), m', g')
       \<and> list_repr (m', g') rest \<and> load_le 8 m' (fst r) = snd r \<and> (\<forall>b. b \<notin> free_cells fl \<longrightarrow> m' b = m b)"
proof -
  note na = list_inv_nodes [OF inv]
  have reg: "regions_at m (get_next Head (m, g)) fl" using rep by (simp add: list_repr_def)
  note fr = find_from_refines [OF reg _ na x]
  show "find_from size' align Head (m, g) = Some (None, m, g)" if "x = None" using fr that by simp
  assume t: "x = Some (r, q, rest)" and r: "r \<in> set fl"
  obtain m' g' where f: "find_from size' align Head (m, g) = Some (Some (fst r, q), m', g')"
    "list_repr (m', g') rest" "\<And>b. \<forall>r\<in>set fl. b \<notin> cells (fst r + 8, 8) \<Longrightarrow> m' b = m b"
    using fr t by (auto simp: list_repr_def)
  have "m' b = m b" if "b \<notin> free_cells fl" for b
  proof (rule f(3), rule ballI)
    fix s assume "s \<in> set fl"
    then have "cells (fst s + 8, 8) \<subseteq> free_cells fl"
      using region_cells(2,3) [of lo hi fl s] inv unfolding list_inv_def by blast
    then show "b \<notin> cells (fst s + 8, 8)" using that by blast
  qed
  then show "\<exists>m' g'. find_from size' align Head (m, g) = Some (Some (fst r, q), m', g')
       \<and> list_repr (m', g') rest \<and> load_le 8 m' (fst r) = snd r \<and> (\<forall>b. b \<notin> free_cells fl \<longrightarrow> m' b = m b)"
    using f(1,2) found_size [OF na reg r f(3)] by blast
qed

lemma alloc_refines:
  assumes inv: "list_inv lo hi fl L" and acc: "list_accepts l" and rep: "list_repr (m, g) fl"
    and a: "list_alloc fl l = Some (fl', p)"
  shows "\<exists>m' g'. linked_list_alloc (m, g) l = Some ((m', g'), p) \<and> list_repr (m', g') fl'
    \<and> (\<forall>b. b \<notin> free_cells fl \<longrightarrow> m' b = m b)"
proof -
  note i = inv [unfolded list_inv_def]
  let ?n = "sa_size l"
  have sa: "size_align l = Some (?n, sa_align l)" using acc by (simp add: size_align_def list_accepts_def)
  obtain x where x: "find_region fl ?n (sa_align l) = Some x" using a sa by (auto simp: list_alloc_def panic_simps)
  note fr = find_refines [OF inv rep x]
  show ?thesis
  proof (cases x)
    case None
    then show ?thesis using fr(1) a sa x rep by (auto simp: linked_list_alloc_def list_alloc_def)
  next
    case (Some t)
    obtain r q rest where t: "x = Some (r, q, rest)" using Some by (cases t) auto
    have fo: "mset fl = add_mset r (mset rest)" "within (q, ?n) (fst r) (fst r + snd r)"
      using find_region_ok [of lo hi fl l] i acc x t by (cases r; auto)+
    have s: "set fl = insert r (set rest)" using fo(1) by (metis set_mset_add_mset_insert set_mset_mset)
    then have rok: "region_ok lo hi r" "\<And>s. s \<in> set rest \<Longrightarrow> region_ok lo hi s"
      using i by (auto simp: list_all_iff)
    obtain m1 g1 where f: "find_from ?n (sa_align l) Head (m, g) = Some (Some (fst r, q), m1, g1)"
      "list_repr (m1, g1) rest" "load_le 8 m1 (fst r) = snd r" "\<And>b. b \<notin> free_cells fl \<Longrightarrow> m1 b = m b"
      using fr(2) [OF t] s by auto
    have ap: "apart2 (fst s, 16) r" if "s \<in> set rest" for s
      using i fo(1) rok(2) [OF that] that by (fastforce simp: region_ok_def apart2_def)
    let ?e = "fst r + snd r - (q + ?n)"
    have eqs: "usize_add q ?n = Some (q + ?n)" "end_addr r = Some (fst r + snd r)"
      "usize_sub (fst r + snd r) (q + ?n) = Some ?e"
      using fo(2) rok(1) i by (auto simp: usize_add_def end_addr_def usize_sub_def within_def region_ok_def)
    have ad: "(if ?e > 0 then add_free_region rest (q + ?n) ?e else Some rest) = Some fl'" "p = q"
      using a sa x t eqs by (auto simp: list_alloc_def panic_simps)
    obtain m' g' where m': "(if ?e > 0 then push_free_region (m1, g1) (q + ?n) ?e else Some (m1, g1)) = Some (m', g')"
      "list_repr (m', g') fl'" "\<And>b. b \<notin> cells r \<Longrightarrow> m' b = m1 b"
      using push_rest_refines [OF f(2) rok(1) _ _ fo(2) ap refl ad(1)] i by blast
    have "linked_list_alloc (m, g) l = Some ((m', g'), q)"
      using f(1,3) sa eqs m'(1) by (simp add: linked_list_alloc_def read_node_def)
    moreover have "m' b = m b" if "b \<notin> free_cells fl" for b
      using m'(3) f(4) that s by (auto simp: free_cells_def)
    ultimately show ?thesis using m'(2) ad(2) by blast
  qed
qed

lemma live_block:
  assumes "list_inv lo hi fl L" "(p, l) \<in># L"
  shows "list_accepts l" "8 dvd p" "within (p, sa_size l) lo hi" "\<And>r. r \<in> set fl \<Longrightarrow> apart2 r (p, sa_size l)"
proof -
  note i = assms(1) [unfolded list_inv_def]
  show acc: "list_accepts l" "within (p, sa_size l) lo hi" using i assms(2) by (auto simp: extent_def)
  obtain k where "sa_align l = 2 ^ k" "8 dvd (2::nat) ^ k" using sa_align_pow acc(1) by (metis list_accepts_def)
  then show "8 dvd p" using i assms(2) dvd_trans by fastforce
  have "(p, sa_size l) \<in># image_mset extent L"
    using assms(2) by (force simp: extent_def)
  then show "apart2 r (p, sa_size l)" if "r \<in> set fl" for r
    using apart_between [of "mset fl" "image_mset extent L" r] i that by simp
qed

lemma dealloc_refines:
  assumes inv: "list_inv lo hi fl L" and m: "(p, l) \<in># L" and rep: "list_repr (m, g) fl"
    and d: "list_dealloc fl p l = Some fl'"
  shows "\<exists>m' g'. linked_list_dealloc (m, g) p l = Some (m', g') \<and> list_repr (m', g') fl'
    \<and> (\<forall>b. b \<notin> cells (extent (p, l)) \<longrightarrow> m' b = m b)"
proof -
  note b = live_block [OF inv m] and i = inv [unfolded list_inv_def]
  note sz = sa_size_props [OF b(1)]
  have sa: "size_align l = Some (sa_size l, sa_align l)" using b(1) by (simp add: size_align_def list_accepts_def)
  have ad: "add_free_region fl p (sa_size l) = Some fl'" using d sa by (simp add: list_dealloc_def)
  have "apart2 (fst r, 16) (p, 16)" if "r \<in> set fl" for r
    using b(4) [OF that] that i sz(2) by (auto simp: apart2_def region_ok_def list_all_iff)
  moreover have "0 < p" "p < 2 ^ 64" "sa_size l < 2 ^ 64" using b(3) i sz(4) by (auto simp: within_def)
  ultimately obtain m' g' where "push_free_region (m, g) p (sa_size l) = Some (m', g')" "list_repr (m', g') fl'"
    "\<And>b. b \<notin> cells (p, 16) \<Longrightarrow> m' b = m b"
    using push_refines [OF rep ad] by blast
  moreover have "cells (p, 16) \<subseteq> cells (extent (p, l))" using sz(2) by (auto simp: cells_def extent_def)
  ultimately show ?thesis using sa by (auto simp: linked_list_dealloc_def)
qed

section \<open>The contract on memory\<close>

definition linked_inv :: "nat \<Rightarrow> nat \<Rightarrow> list_heap \<Rightarrow> heap_block multiset \<Rightarrow> bool" where
  "linked_inv lo hi h L \<longleftrightarrow> (\<exists>fl. list_inv lo hi fl L \<and> list_repr h fl)"

lemma block_cells:
  assumes "list_inv lo hi fl L" "b \<in># L" "x \<in> cells (block_ivl b)"
  shows "x \<in> cells (extent b)" "x \<notin> free_cells fl"
proof -
  obtain p l where b: "b = (p, l)" by fastforce
  note lb = live_block [OF assms(1), of p l]
  show e: "x \<in> cells (extent b)"
    using sa_size_props(1) [OF lb(1)] assms(2,3) b by (auto simp: cells_def block_ivl_def extent_def)
  then show "x \<notin> free_cells fl"
    using apart2_cells [OF lb(4)] assms(2) b by (fastforce simp: free_cells_def extent_def)
qed

lemma other_extent:
  assumes "list_inv lo hi fl L" "a \<in># L" "b \<in># L - {#a#}"
  shows "cells (extent b) \<inter> cells (extent a) = {}"
proof -
  obtain M where "L = add_mset a M" using assms(2) by (auto dest: multi_member_split)
  then have "apart2 (extent a) (extent b)"
    using assms apart_right [of "mset fl" "image_mset extent L"] by (auto simp: list_inv_def)
  then show ?thesis using apart2_cells by blast
qed

interpretation linked: memory_allocator lo hi "linked_inv lo hi" linked_list_alloc linked_list_dealloc list_accepts for lo hi
proof unfold_locales
  fix h L l p
  show "linked_inv lo hi h L \<Longrightarrow> blocks_ok lo hi L" using llist.live_ok by (auto simp: linked_inv_def)
  obtain m g where h: "h = (m, g)" by fastforce
  show "\<exists>h' p. linked_list_alloc h l = Some (h', p) \<and> linked_inv lo hi h' (if p = 0 then L else add_mset (p, l) L)"
    if "linked_inv lo hi h L" "list_accepts l"
    using that llist.alloc_ok alloc_refines unfolding linked_inv_def h by metis
  show "\<exists>h'. linked_list_dealloc h p l = Some h' \<and> linked_inv lo hi h' (L - {#(p, l)#})"
    if "linked_inv lo hi h L" "(p, l) \<in># L"
    using that llist.dealloc_ok dealloc_refines unfolding linked_inv_def h by metis
next
  fix m s L l m' s' p b x
  assume "linked_inv lo hi (m, s) L" "list_accepts l" "linked_list_alloc (m, s) l = Some ((m', s'), p)" "b \<in># L"
    and x: "x \<in> cells (block_ivl b)"
  moreover obtain fl where fl: "list_inv lo hi fl L" "list_repr (m, s) fl" using calculation(1) by (auto simp: linked_inv_def)
  ultimately have "\<forall>b. b \<notin> free_cells fl \<longrightarrow> m' b = m b"
    using alloc_refines [OF fl(1) _ fl(2)] llist.alloc_ok [OF fl(1)] by fastforce
  then show "m' x = m x" using block_cells(2) [OF fl(1) \<open>b \<in># L\<close> x] by blast
next
  fix m s L q l m' s' b x
  assume "linked_inv lo hi (m, s) L" and ql: "(q, l) \<in># L" and d: "linked_list_dealloc (m, s) q l = Some (m', s')"
    and b: "b \<in># L - {#(q, l)#}" "x \<in> cells (block_ivl b)"
  then obtain fl where fl: "list_inv lo hi fl L" "list_repr (m, s) fl" by (auto simp: linked_inv_def)
  have "\<forall>b. b \<notin> cells (extent (q, l)) \<longrightarrow> m' b = m b"
    using dealloc_refines [OF fl(1) ql fl(2)] llist.dealloc_ok [OF fl(1) ql] d by fastforce
  then show "m' x = m x"
    using other_extent [OF fl(1) ql b(1)] block_cells(1) [OF fl(1) in_diffD [OF b(1)] b(2)] by blast
next
  fix m s L m'
  assume "linked_inv lo hi (m, s) L" and w: "\<And>x. (\<And>b. b \<in># L \<Longrightarrow> x \<notin> cells (block_ivl b)) \<Longrightarrow> m' x = m x"
  then obtain fl where fl: "list_inv lo hi fl L" "list_repr (m, s) fl" by (auto simp: linked_inv_def)
  have "regions_at m' (ln_next (head s)) fl"
  proof (rule regions_at_cong)
    show "regions_at m (ln_next (head s)) fl" using fl(2) by (simp add: list_repr_def)
    fix r x assume "r \<in> set fl" "x \<in> cells (fst r, 16)"
    then have "x \<in> free_cells fl" using region_cells(1,3) [of lo hi fl r] fl(1) by (auto simp: list_inv_def)
    then show "m' x = m x" using block_cells(2) [OF fl(1)] by (intro w) blast
  qed
  then show "linked_inv lo hi (m', s) L" using fl(1) by (auto simp: linked_inv_def list_repr_def)
qed

section \<open>Properties\<close>

lemma linked_list_init_repr:
  assumes "0 < lo" "8 dvd lo" "16 \<le> n" "lo + n \<le> 2 ^ 63"
  shows "\<exists>m' g'. linked_list_init (m, linked_list_new) lo n = Some (m', g') \<and> list_repr (m', g') [(lo, n)]
    \<and> linked_inv lo (lo + n) (m', g') {#}"
proof -
  have i: "list_init list_new lo n = Some [(lo, n)]" "list_inv lo (lo + n) [(lo, n)] {#}"
    using list_init_inv [OF assms] by auto
  have "list_repr (m, linked_list_new) []"
    by (simp add: list_repr_def linked_list_new_def list_node_new_def)
  from push_refines [OF this, of lo n "[(lo, n)]"] i(1) assms show ?thesis
    using i(2) by (auto simp: linked_list_init_def list_init_def list_new_def linked_inv_def)
qed

text \<open>One step of a client, on the list of regions and on memory.\<close>

lemma heap_step_refines:
  assumes inv: "list_inv lo hi fl (mset held)" and rep: "list_repr (m, g) fl" and r: "request_ok list_accepts r"
  shows "\<exists>fl' m' g' held'. heap_step list_alloc list_dealloc (fl, held) r = Some (fl', held')
    \<and> heap_step linked_list_alloc linked_list_dealloc ((m, g), held) r = Some ((m', g'), held')
    \<and> list_inv lo hi fl' (mset held') \<and> list_repr (m', g') fl'"
proof (cases r)
  case (Request l)
  then have acc: "list_accepts l" using r by (simp add: request_ok_def)
  obtain fl' p where a: "list_alloc fl l = Some (fl', p)"
    "list_inv lo hi fl' (if p = 0 then mset held else add_mset (p, l) (mset held))"
    using list_alloc_ok [OF inv acc] by blast
  then show ?thesis using alloc_refines [OF inv acc rep a(1)] Request by (cases "p = 0") auto
next
  case (Free i)
  show ?thesis
  proof (cases "i < length held")
    case True
    obtain p l where pl: "held ! i = (p, l)" by fastforce
    then have m: "(p, l) \<in># mset held" using True by (metis nth_mem_mset)
    obtain fl' where d: "list_dealloc fl p l = Some fl'" "list_inv lo hi fl' (mset held - {#held ! i#})"
      using list_dealloc_ok [OF inv m] pl by auto
    then show ?thesis
      using dealloc_refines [OF inv m rep d(1)] Free True pl by (auto simp: mset_delete_nth [OF True, simplified])
  qed (use Free inv rep in auto)
qed

lemma heap_run_refines:
  assumes "list_inv lo hi fl (mset held)" "list_repr (m, g) fl" "list_all (request_ok list_accepts) rs"
  shows "\<exists>fl' m' g' held'. heap_run list_alloc list_dealloc (fl, held) rs = Some (fl', held')
    \<and> heap_run linked_list_alloc linked_list_dealloc ((m, g), held) rs = Some ((m', g'), held')
    \<and> list_inv lo hi fl' (mset held') \<and> list_repr (m', g') fl'"
  using assms
proof (induction rs arbitrary: fl m g held)
  case (Cons r rs)
  obtain fl1 m1 g1 held1 where s: "heap_step list_alloc list_dealloc (fl, held) r = Some (fl1, held1)"
    "heap_step linked_list_alloc linked_list_dealloc ((m, g), held) r = Some ((m1, g1), held1)"
    "list_inv lo hi fl1 (mset held1)" "list_repr (m1, g1) fl1"
    using heap_step_refines [OF Cons.prems(1,2), of r] Cons.prems(3) by auto
  then show ?case using Cons.IH [OF s(3,4)] Cons.prems(3) by simp
qed auto

text \<open>C11: The linked-list allocator on the bytes of the heap implements the allocator on the list of its
  free regions: for every sequence of requests and releases, both return the same blocks, no loop
  of the search runs forever, and at the end the nodes in memory, followed from the head, are
  exactly the regions of the list with their sizes. There is no panic (neither the two assertions
  nor an overflow), and the held blocks are aligned, inside the heap, pairwise disjoint and
  disjoint from every region of the free list.\<close>

theorem linked_list_heap_refines:
  assumes "list_all (request_ok list_accepts) rs"
  shows "\<exists>h fl h' fl' held. linked_list_init (m, linked_list_new) HEAP_START HEAP_SIZE = Some h
    \<and> list_init list_new HEAP_START HEAP_SIZE = Some fl
    \<and> heap_run linked_list_alloc linked_list_dealloc (h, []) rs = Some (h', held)
    \<and> heap_run list_alloc list_dealloc (fl, []) rs = Some (fl', held)
    \<and> list_repr h' fl' \<and> blocks_ok HEAP_START (HEAP_START + HEAP_SIZE) (mset held)
    \<and> apart (mset fl' + image_mset extent (mset held))"
proof -
  obtain m1 g1 where h: "linked_list_init (m, linked_list_new) HEAP_START HEAP_SIZE = Some (m1, g1)"
    "list_repr (m1, g1) [(HEAP_START, HEAP_SIZE)]"
    using linked_list_init_repr [of HEAP_START HEAP_SIZE m] by (auto simp: HEAP_START_def HEAP_SIZE_def)
  have i: "list_init list_new HEAP_START HEAP_SIZE = Some [(HEAP_START, HEAP_SIZE)]"
    "list_inv HEAP_START (HEAP_START + HEAP_SIZE) [(HEAP_START, HEAP_SIZE)] (mset [])"
    using list_init_inv [of HEAP_START HEAP_SIZE] by (auto simp: HEAP_START_def HEAP_SIZE_def)
  obtain fl' m' g' held where r: "heap_run list_alloc list_dealloc ([(HEAP_START, HEAP_SIZE)], []) rs = Some (fl', held)"
    "heap_run linked_list_alloc linked_list_dealloc ((m1, g1), []) rs = Some ((m', g'), held)"
    "list_inv HEAP_START (HEAP_START + HEAP_SIZE) fl' (mset held)" "list_repr (m', g') fl'"
    using heap_run_refines [OF i(2) h(2) assms] by blast
  moreover have "apart (mset fl' + image_mset extent (mset held))" using r(3) by (simp add: list_inv_def)
  ultimately show ?thesis using llist.live_ok [OF r(3)] h(1) i(1) by blast
qed

theorem linked_list_heap_refines_witness:
  "\<exists>h fl h' fl' held. linked_list_init (\<lambda>_. 0, linked_list_new) HEAP_START HEAP_SIZE = Some h
    \<and> list_init list_new HEAP_START HEAP_SIZE = Some fl
    \<and> heap_run linked_list_alloc linked_list_dealloc (h, []) [Request \<lparr>lay_size = 24, lay_align = 32\<rparr>, Free 0] = Some (h', held)
    \<and> heap_run list_alloc list_dealloc (fl, []) [Request \<lparr>lay_size = 24, lay_align = 32\<rparr>, Free 0] = Some (fl', held)
    \<and> list_repr h' fl' \<and> blocks_ok HEAP_START (HEAP_START + HEAP_SIZE) (mset held)
    \<and> apart (mset fl' + image_mset extent (mset held))"
  by (rule linked_list_heap_refines)
    (simp add: request_ok_def list_accepts_def sa_align_def layout_ok_def bexI [of _ 5])

end
