(* ===== verification/Alloc_Fixed_Heap.thy ===== *)
theory Alloc_Fixed_Heap
  imports Alloc_Fixed Alloc_List_Heap
begin

text \<open>
  The kernel's global allocator, \<^verbatim>\<open>src/src/allocator/fixed_size_block.rs\<close>, on memory: the nine free lists
  are threaded through the released blocks, a node being the reference to the next one in the first
  eight bytes of its block. The fallback heap (a crate) is a parameter that shares the memory; it is
  asked to keep the contract of an allocator on memory. The free lists live in blocks the fallback
  has handed out, so the allocator is a client of the fallback's contract and a provider of the same
  contract to the kernel. Its operations on lists of addresses are those of \<open>Alloc_Fixed\<close>.
\<close>

section \<open>Operations\<close>

record 's block_heap =
  head_refs :: "nat option list"
  heap_state :: 's
  requested :: u64

definition block_next :: "memory \<Rightarrow> nat \<Rightarrow> nat option" where
  "block_next m a = reference (load_le 8 m a)"

definition block_set_next :: "nat \<Rightarrow> nat option \<Rightarrow> memory \<Rightarrow> memory" where
  "block_set_next a p m = store_le 8 a (address p) m"

definition block_heap_new :: "'s \<Rightarrow> 's block_heap" where
  "block_heap_new empty_heap = \<lparr>head_refs = replicate (length BLOCK_SIZES) None, heap_state = empty_heap, requested = 0\<rparr>"

definition block_heap_init :: "(memory \<times> 's \<Rightarrow> nat \<Rightarrow> nat \<Rightarrow> (memory \<times> 's) option) \<Rightarrow> memory \<times> 's block_heap \<Rightarrow>
    nat \<Rightarrow> nat \<Rightarrow> (memory \<times> 's block_heap) option" where
  "block_heap_init heap_init h start size' = do {
     (m, s) \<leftarrow> heap_init (fst h, heap_state (snd h)) start size';
     Some (m, (snd h)\<lparr>heap_state := s\<rparr>)
   }"

definition block_fallback :: "(memory \<times> 's \<Rightarrow> Layout \<Rightarrow> ((memory \<times> 's) \<times> (unit + nat)) option) \<Rightarrow>
    memory \<times> 's block_heap \<Rightarrow> Layout \<Rightarrow> ((memory \<times> 's block_heap) \<times> nat) option" where
  "block_fallback first_fit h l = do {
     ((m, s), p) \<leftarrow> heap_pointer first_fit (fst h, heap_state (snd h)) l;
     Some ((m, (snd h)\<lparr>heap_state := s\<rparr>), p)
   }"

text \<open>The \<open>match\<close> of \<open>alloc\<close> that computes the pointer.\<close>

definition block_ptr :: "(memory \<times> 's \<Rightarrow> Layout \<Rightarrow> ((memory \<times> 's) \<times> (unit + nat)) option) \<Rightarrow>
    memory \<times> 's block_heap \<Rightarrow> Layout \<Rightarrow> ((memory \<times> 's block_heap) \<times> nat) option" where
  "block_ptr first_fit h l = (case list_index l of
     Some index \<Rightarrow> do {
       taken \<leftarrow> arr_get (head_refs (snd h)) index;
       hs \<leftarrow> arr_set (head_refs (snd h)) index None;
       (case taken of
          Some node \<Rightarrow> do {
            hs \<leftarrow> arr_set hs index (block_next (fst h) node);
            Some ((block_set_next node None (fst h), (snd h)\<lparr>head_refs := hs\<rparr>), node)
          }
        | None \<Rightarrow> do {
            block_size \<leftarrow> arr_get BLOCK_SIZES index;
            block_fallback first_fit (fst h, (snd h)\<lparr>head_refs := hs\<rparr>) \<lparr>lay_size = block_size, lay_align = block_size\<rparr>
          })
     }
   | None \<Rightarrow> block_fallback first_fit h l)"

definition block_alloc :: "(memory \<times> 's \<Rightarrow> Layout \<Rightarrow> ((memory \<times> 's) \<times> (unit + nat)) option) \<Rightarrow>
    memory \<times> 's block_heap \<Rightarrow> Layout \<Rightarrow> ((memory \<times> 's block_heap) \<times> nat) option" where
  "block_alloc first_fit h l = do {
     ((m, c), p) \<leftarrow> block_ptr first_fit h l;
     Some ((m, if p \<noteq> 0 then c\<lparr>requested := requested c + of_nat (lay_size l)\<rparr> else c), p)
   }"

definition block_dealloc :: "(memory \<times> 's \<Rightarrow> nat \<Rightarrow> Layout \<Rightarrow> (memory \<times> 's) option) \<Rightarrow>
    memory \<times> 's block_heap \<Rightarrow> nat \<Rightarrow> Layout \<Rightarrow> (memory \<times> 's block_heap) option" where
  "block_dealloc deallocate h p l = do {
     let m = fst h;
     let c = (snd h)\<lparr>requested := requested (snd h) - of_nat (lay_size l)\<rparr>;
     (case list_index l of
        Some index \<Rightarrow> do {
          next' \<leftarrow> arr_get (head_refs c) index;
          hs \<leftarrow> arr_set (head_refs c) index None;
          block_size \<leftarrow> arr_get BLOCK_SIZES index;
          rust_assert (8 \<le> block_size);
          rust_assert (8 \<le> block_size);
          hs \<leftarrow> arr_set hs index (Some p);
          Some (block_set_next p next' m, c\<lparr>head_refs := hs\<rparr>)
        }
      | None \<Rightarrow> do {
          rust_assert (p \<noteq> 0);
          (m, s) \<leftarrow> deallocate (m, heap_state c) p l;
          Some (m, c\<lparr>heap_state := s\<rparr>)
        })
   }"

section \<open>The free lists in memory\<close>

interpretation bl: intrusive_list 8 block_next block_set_next
proof unfold_locales
  show "block_next (block_set_next a p m) a = p" if "ref_ok p" for p a m
    using that by (simp only: block_next_def block_set_next_def load_store_le address_bound reference_address)
  show "block_set_next a p m b = m b" if "b \<notin> cells (a, 8)" for b a p m
    unfolding block_set_next_def by (rule store_le_outside [OF that])
  show "block_next m a = block_next m' a" if "\<And>b. b \<in> cells (a, 8) \<Longrightarrow> m b = m' b" for a m m'
    unfolding block_next_def using load_le_cong [OF that] by simp
qed

definition block_chains :: "memory \<Rightarrow> nat option list \<Rightarrow> nat list list \<Rightarrow> bool" where
  "block_chains m refs hs \<longleftrightarrow> length hs = 9 \<and> length refs = 9 \<and> (\<forall>i<9. chain block_next m (refs ! i) (hs ! i))"

text \<open>The allocator with its free lists as lists of addresses.\<close>

definition as_lists :: "nat list list \<Rightarrow> memory \<Rightarrow> 's block_heap \<Rightarrow> (memory \<times> 's) FixedSizeBlockAllocator" where
  "as_lists hs m c = \<lparr>list_heads = hs, fallback_allocator = (m, heap_state c), REQUESTED_BYTES = requested c\<rparr>"

lemma as_lists_simps [simp]:
  "list_heads (as_lists hs m c) = hs" "fallback_allocator (as_lists hs m c) = (m, heap_state c)"
  "REQUESTED_BYTES (as_lists hs m c) = requested c"
  by (simp_all add: as_lists_def)

definition block_inv :: "(memory \<times> 's \<Rightarrow> heap_block multiset \<Rightarrow> bool) \<Rightarrow> nat \<Rightarrow> nat \<Rightarrow> memory \<times> 's block_heap \<Rightarrow>
    heap_block multiset \<Rightarrow> bool" where
  "block_inv finv lo hi h L \<longleftrightarrow> (\<exists>hs. fixed_inv finv lo hi (as_lists hs (fst h) (snd h)) L
     \<and> block_chains (fst h) (head_refs (snd h)) hs)"

lemma in_cached:
  assumes "i < length hs" "a \<in> set (hs ! i)"
  shows "(a, class_layout i) \<in># cached hs"
  using assms by (auto simp: cached_def set_mset_sum)

lemma class_cells: "i < 9 \<Longrightarrow> cells (a, 8) \<subseteq> cells (block_ivl (a, class_layout i))"
  by (auto simp: cells_def block_ivl_def class_layout_def block_size_pow power_add)

lemma block_chains_cong:
  assumes "block_chains m refs hs" "\<And>b x. b \<in># cached hs \<Longrightarrow> x \<in> cells (block_ivl b) \<Longrightarrow> m' x = m x"
  shows "block_chains m' refs hs"
proof -
  have "chain block_next m' (refs ! i) (hs ! i)" if i: "i < 9" for i
  proof (rule bl.chain_cong)
    show "chain block_next m (refs ! i) (hs ! i)" using assms(1) i by (simp add: block_chains_def)
    fix a x assume "a \<in> set (hs ! i)" "x \<in> cells (a, 8)"
    then show "m' x = m x"
      using assms(1) i class_cells [OF i] by (intro assms(2) [OF in_cached [of i]]) (auto simp: block_chains_def)
  qed
  then show ?thesis using assms(1) by (simp add: block_chains_def)
qed

lemma block_chains_update:
  assumes "block_chains m refs hs" "chain block_next m p xs" "i < 9"
  shows "block_chains m (refs[i := p]) (hs[i := xs])"
  using assms by (auto simp: block_chains_def nth_list_update)

section \<open>The contract on memory\<close>

locale memory_fixed_block =
  fm: memory_allocator lo hi finv "heap_pointer first_fit" deallocate accepts
  for lo hi :: nat
    and finv :: "memory \<times> 's \<Rightarrow> heap_block multiset \<Rightarrow> bool"
    and first_fit :: "memory \<times> 's \<Rightarrow> Layout \<Rightarrow> ((memory \<times> 's) \<times> (unit + nat)) option"
    and deallocate :: "memory \<times> 's \<Rightarrow> nat \<Rightarrow> Layout \<Rightarrow> (memory \<times> 's) option"
    and accepts :: "Layout \<Rightarrow> bool" +
  assumes size_classes: "i < 9 \<Longrightarrow> accepts (class_layout i)"

sublocale memory_fixed_block \<subseteq> ab: fixed_block lo hi finv first_fit deallocate accepts
  by unfold_locales (rule size_classes)

context memory_fixed_block
begin

text \<open>Writes into blocks the fallback has handed out.\<close>

lemma fixed_inv_write:
  assumes "fixed_inv finv lo hi (as_lists hs m c) L"
    "\<And>x. (\<And>b. b \<in># cached hs + image_mset backing L \<Longrightarrow> x \<notin> cells (block_ivl b)) \<Longrightarrow> m' x = m x"
  shows "fixed_inv finv lo hi (as_lists hs m' c) L"
  using assms(1) fm.client_writes [OF _ assms(2)] by (simp add: fixed_inv_def)

lemma backing_cells:
  assumes "fixed_inv finv lo hi (as_lists hs m c) L" "b \<in># L" "x \<in> cells (block_ivl b)"
  shows "x \<in> cells (block_ivl (backing b))"
proof -
  have "block_ok lo hi (backing b)" "layout_ok (snd b)"
    using assms(1,2) fm.live_ok [of "(m, heap_state c)" "cached hs + image_mset backing L"]
    by (auto simp: fixed_inv_def blocks_ok_def)
  from backing_covers(2) [OF this(2,1)] show ?thesis using assms(3) by (auto simp: cells_def within_def)
qed

lemma blocks_apart:
  assumes "fixed_inv finv lo hi (as_lists hs m c) L"
  shows "apart (image_mset block_ivl (cached hs + image_mset backing L))"
  using assms fm.live_ok [of "(m, heap_state c)" "cached hs + image_mset backing L"]
  by (simp add: fixed_inv_def blocks_ok_def)

lemma live_ref:
  assumes "fixed_inv finv lo hi (as_lists hs m c) L" "(p, l) \<in># L"
  shows "ref_ok (Some p)"
proof -
  have "block_ok lo hi (p, l)" using ab.live_blocks_ok [OF assms(1)] assms(2) by (auto simp: blocks_ok_def)
  then show ?thesis using assms(1) by (auto simp: block_ok_def within_def block_ivl_def fixed_inv_def layout_ok_def)
qed

text \<open>A block leaves the free list of its class.\<close>

lemma pop_sim:
  assumes inv: "fixed_inv finv lo hi (as_lists hs m c) L" and ch: "block_chains m (head_refs c) hs"
    and acc: "fixed_accepts accepts l" and i: "list_index l = Some i" and hs: "hs ! i = a # xs"
  shows "\<exists>m' c' hs'. block_alloc first_fit (m, c) l = Some ((m', c'), a) \<and> a \<noteq> 0
    \<and> fixed_inv finv lo hi (as_lists hs' m' c') (add_mset (a, l) L) \<and> block_chains m' (head_refs c') hs'
    \<and> (\<forall>b\<in>#L. \<forall>x\<in>cells (block_ivl (backing b)). m' x = m x)"
proof -
  have k: "i < 9" "i < length hs" "i < length (head_refs c)"
    using list_index_Some(1) [OF i] ch by (auto simp: block_chains_def)
  have cha: "chain block_next m (head_refs c ! i) (a # xs)" using ch k(1) hs by (metis block_chains_def)
  then have a0: "a \<noteq> 0" by auto
  let ?m = "block_set_next a None m" and ?hs = "hs[i := xs]"
  let ?c = "c\<lparr>head_refs := (head_refs c)[i := block_next m a], requested := requested c + of_nat (lay_size l)\<rparr>"
  have run: "block_alloc first_fit (m, c) l = Some ((?m, ?c), a)"
    using i k cha a0 by (simp add: block_alloc_def block_ptr_def arr_get_def arr_set_def)
  have "fixed_alloc first_fit (as_lists hs m c) l = Some (as_lists ?hs m ?c, a)"
    using i k hs a0 by (simp add: fixed_alloc_def arr_get_def arr_set_def as_lists_def)
  then have inv': "fixed_inv finv lo hi (as_lists ?hs m ?c) (add_mset (a, l) L)"
    using ab.alloc_ok [OF inv acc] a0 by auto
  have bk: "backing (a, l) = (a, class_layout i)" using i by (simp add: backing_def)
  have ap: "apart2 (block_ivl (a, class_layout i)) (block_ivl b)" if "b \<in># cached ?hs + image_mset backing L" for b
    using blocks_apart [OF inv'] bk that by (auto simp: block_ivl_def)
  have fr: "?m x = m x" if "b \<in># cached ?hs + image_mset backing L" "x \<in> cells (block_ivl b)" for b x
    using apart2_cells [OF ap [OF that(1)]] class_cells [OF k(1), of a] that(2)
    by (intro bl.set_outside) blast
  have "fixed_inv finv lo hi (as_lists ?hs ?m ?c) (add_mset (a, l) L)"
    by (rule fixed_inv_write [OF inv'])
      (use class_cells [OF k(1), of a] bk in \<open>fastforce intro!: bl.set_outside\<close>)
  moreover have "block_chains ?m (head_refs ?c) ?hs"
  proof (rule block_chains_cong)
    show "block_chains m (head_refs ?c) ?hs" using block_chains_update [OF ch _ k(1)] cha by simp
  qed (rule fr, simp_all)
  moreover have "?m x = m x" if "b \<in># L" "x \<in> cells (block_ivl (backing b))" for b x
    by (rule fr [OF _ that(2)]) (use that(1) in simp)
  ultimately show ?thesis using run a0 by blast
qed

text \<open>A block comes from the fallback.\<close>

lemma fallback_sim:
  assumes inv: "fixed_inv finv lo hi (as_lists hs m c) L" and ch: "block_chains m (head_refs c) hs"
    and acc: "fixed_accepts accepts l" and none: "\<And>i. list_index l = Some i \<Longrightarrow> hs ! i = []"
  shows "\<exists>m' c' p. block_alloc first_fit (m, c) l = Some ((m', c'), p)
    \<and> fixed_inv finv lo hi (as_lists hs m' c') (if p = 0 then L else add_mset (p, l) L) \<and> block_chains m' (head_refs c') hs
    \<and> (\<forall>b\<in>#L. \<forall>x\<in>cells (block_ivl (backing b)). m' x = m x)"
proof -
  let ?l = "snd (backing (0, l))" and ?F = "cached hs + image_mset backing L"
  have accb: "accepts ?l"
    using acc size_classes list_index_Some(1) by (auto simp: backing_def fixed_accepts_def split: option.splits)
  have F: "finv (m, heap_state c) ?F" using inv by (simp add: fixed_inv_def)
  obtain m' s p where r: "heap_pointer first_fit (m, heap_state c) ?l = Some ((m', s), p)"
    using fm.alloc_ok [OF F accb] by auto
  note fr = fm.alloc_frame [OF F accb r]
  let ?c = "c\<lparr>heap_state := s, requested := if p = 0 then requested c else requested c + of_nat (lay_size l)\<rparr>"
  have same: "c\<lparr>head_refs := (head_refs c)[i := None]\<rparr> = c \<and> head_refs c ! i = None
      \<and> i < 9 \<and> i < length (head_refs c) \<and> i < length hs" if "list_index l = Some i" for i
  proof -
    have "i < 9" by (rule list_index_Some(1) [OF that])
    then have "chain block_next m (head_refs c ! i) []" using ch none [OF that] by (metis block_chains_def)
    then have "(head_refs c)[i := None] = head_refs c" "head_refs c ! i = None"
      using list_update_id [of "head_refs c" i] by simp_all
    then show ?thesis using ch \<open>i < 9\<close> by (simp add: block_chains_def)
  qed
  have "block_alloc first_fit (m, c) l = Some ((m', ?c), p)"
    using r same by (cases "list_index l")
      (auto simp: block_alloc_def block_ptr_def block_fallback_def backing_def class_layout_def arr_get_def arr_set_def)
  moreover have "fixed_alloc first_fit (as_lists hs m c) l = Some (as_lists hs m' ?c, p)"
    using r same none by (cases "list_index l")
      (auto simp: fixed_alloc_def fallback_alloc_def backing_def class_layout_def arr_get_def as_lists_def)
  then have "fixed_inv finv lo hi (as_lists hs m' ?c) (if p = 0 then L else add_mset (p, l) L)"
    using ab.alloc_ok [OF inv acc] by auto
  moreover have "block_chains m' (head_refs ?c) hs"
    by (rule block_chains_cong [of m]) (use ch fr in auto)
  moreover have "m' x = m x" if "b \<in># L" "x \<in> cells (block_ivl (backing b))" for b x
    by (rule fr [OF _ that(2)]) (use that(1) in simp)
  ultimately show ?thesis by blast
qed

lemma alloc_sim:
  assumes inv: "fixed_inv finv lo hi (as_lists hs m c) L" and ch: "block_chains m (head_refs c) hs"
    and acc: "fixed_accepts accepts l"
  shows "\<exists>m' c' p. block_alloc first_fit (m, c) l = Some ((m', c'), p)
    \<and> block_inv finv lo hi (m', c') (if p = 0 then L else add_mset (p, l) L)
    \<and> (\<forall>b\<in>#L. \<forall>x\<in>cells (block_ivl (backing b)). m' x = m x)"
proof (cases "\<exists>i a xs. list_index l = Some i \<and> hs ! i = a # xs")
  case True
  then obtain i a xs where "list_index l = Some i" "hs ! i = a # xs" by blast
  from pop_sim [OF inv ch acc this] show ?thesis by (force simp: block_inv_def)
next
  case False
  then have "\<And>i. list_index l = Some i \<Longrightarrow> hs ! i = []" by (meson neq_Nil_conv)
  from fallback_sim [OF inv ch acc this] show ?thesis by (fastforce simp: block_inv_def)
qed

text \<open>A block goes to the free list of its class, or back to the fallback.\<close>

lemma push_sim:
  assumes inv: "fixed_inv finv lo hi (as_lists hs m c) L" and ch: "block_chains m (head_refs c) hs"
    and m: "(p, l) \<in># L" and i: "list_index l = Some i"
  shows "\<exists>m' c'. block_dealloc deallocate (m, c) p l = Some (m', c')
    \<and> block_inv finv lo hi (m', c') (L - {#(p, l)#})
    \<and> (\<forall>b\<in>#L - {#(p, l)#}. \<forall>x\<in>cells (block_ivl (backing b)). m' x = m x)"
proof -
  have k: "i < 9" "i < length hs" "i < length (head_refs c)"
    using list_index_Some(1) [OF i] ch by (auto simp: block_chains_def)
  obtain M where M: "L = add_mset (p, l) M" using m by (auto dest: multi_member_split)
  have bk: "backing (p, l) = (p, class_layout i)" using i by (simp add: backing_def)
  let ?n = "head_refs c ! i" and ?hs = "hs[i := p # hs ! i]"
  let ?m = "block_set_next p ?n m"
  let ?c = "c\<lparr>requested := requested c - of_nat (lay_size l), head_refs := (head_refs c)[i := Some p]\<rparr>"
  have s8: "8 \<le> BLOCK_SIZES ! i" using k(1) by (simp add: block_size_pow power_add)
  have run: "block_dealloc deallocate (m, c) p l = Some (?m, ?c)"
    using i k s8 by (simp add: block_dealloc_def arr_get_def arr_set_def rust_assert_def Let_def)
  have "fixed_dealloc deallocate (as_lists hs m c) p l = Some (as_lists ?hs m ?c)"
    using i k s8 by (simp add: fixed_dealloc_def arr_get_def arr_set_def rust_assert_def as_lists_def Let_def)
  then have inv': "fixed_inv finv lo hi (as_lists ?hs m ?c) M"
    using ab.dealloc_ok [OF inv m] M by auto
  have ap: "apart2 (block_ivl (p, class_layout i)) (block_ivl b)" if "b \<in># cached hs + image_mset backing M" for b
    using blocks_apart [OF inv] bk M that by (auto simp: block_ivl_def)
  have fr: "?m x = m x" if "b \<in># cached hs + image_mset backing M" "x \<in> cells (block_ivl b)" for b x
    using apart2_cells [OF ap [OF that(1)]] class_cells [OF k(1), of p] that(2)
    by (intro bl.set_outside) blast
  have "fixed_inv finv lo hi (as_lists ?hs ?m ?c) M"
    by (rule fixed_inv_write [OF inv'])
      (use class_cells [OF k(1), of p] cached_push [OF k(2)] in \<open>fastforce intro!: bl.set_outside\<close>)
  moreover have "block_chains ?m (head_refs ?c) ?hs"
  proof -
    have ch': "block_chains ?m (head_refs c) hs" by (rule block_chains_cong [OF ch]) (use fr in auto)
    have "chain block_next m ?n (hs ! i)" using ch k(1) by (simp add: block_chains_def)
    then have "block_next ?m p = ?n" by (intro bl.nx_set chain_ref_ok)
    moreover have "ref_ok (Some p)" using live_ref [OF inv m] .
    ultimately have "chain block_next ?m (Some p) (p # hs ! i)" using ch' k(1) by (auto simp: block_chains_def)
    then show ?thesis using block_chains_update [OF ch' _ k(1)] by simp
  qed
  moreover have "?m x = m x" if "b \<in># M" "x \<in> cells (block_ivl (backing b))" for b x
    by (rule fr [OF _ that(2)]) (use that(1) in simp)
  ultimately show ?thesis using run M by (fastforce simp: block_inv_def)
qed

lemma return_sim:
  assumes inv: "fixed_inv finv lo hi (as_lists hs m c) L" and ch: "block_chains m (head_refs c) hs"
    and m: "(p, l) \<in># L" and i: "list_index l = None"
  shows "\<exists>m' c'. block_dealloc deallocate (m, c) p l = Some (m', c')
    \<and> block_inv finv lo hi (m', c') (L - {#(p, l)#})
    \<and> (\<forall>b\<in>#L - {#(p, l)#}. \<forall>x\<in>cells (block_ivl (backing b)). m' x = m x)"
proof -
  let ?F = "cached hs + image_mset backing L"
  obtain M where M: "L = add_mset (p, l) M" using m by (auto dest: multi_member_split)
  have bk: "backing (p, l) = (p, l)" using i by (simp add: backing_def)
  then have F: "finv (m, heap_state c) ?F" "(p, l) \<in># ?F" using inv M by (simp_all add: fixed_inv_def)
  obtain m' s where d: "deallocate (m, heap_state c) p l = Some (m', s)" using fm.dealloc_ok [OF F] by auto
  note fr = fm.dealloc_frame [OF F d]
  let ?c = "c\<lparr>requested := requested c - of_nat (lay_size l), heap_state := s\<rparr>"
  have p: "p \<noteq> 0" using live_ref [OF inv m] by simp
  have run: "block_dealloc deallocate (m, c) p l = Some (m', ?c)"
    using i d p by (simp add: block_dealloc_def rust_assert_def Let_def)
  have "fixed_dealloc deallocate (as_lists hs m c) p l = Some (as_lists hs m' ?c)"
    using i d p by (simp add: fixed_dealloc_def rust_assert_def as_lists_def Let_def)
  then have "fixed_inv finv lo hi (as_lists hs m' ?c) M"
    using ab.dealloc_ok [OF inv m] M by auto
  moreover
  have same: "m' x = m x" if "b \<in># cached hs + image_mset backing M" "x \<in> cells (block_ivl b)" for b x
    by (rule fr [OF _ that(2)]) (use that(1) M bk in auto)
  have "block_chains m' (head_refs c) hs"
    by (rule block_chains_cong [OF ch], rule same) simp_all
  moreover have "m' x = m x" if "b \<in># M" "x \<in> cells (block_ivl (backing b))" for b x
    by (rule same [OF _ that(2)]) (use that(1) in simp)
  ultimately show ?thesis using run M by (fastforce simp: block_inv_def)
qed

lemma dealloc_sim:
  assumes "fixed_inv finv lo hi (as_lists hs m c) L" "block_chains m (head_refs c) hs" "(p, l) \<in># L"
  shows "\<exists>m' c'. block_dealloc deallocate (m, c) p l = Some (m', c')
    \<and> block_inv finv lo hi (m', c') (L - {#(p, l)#})
    \<and> (\<forall>b\<in>#L - {#(p, l)#}. \<forall>x\<in>cells (block_ivl (backing b)). m' x = m x)"
  using push_sim [OF assms] return_sim [OF assms] by (cases "list_index l") blast+

end

context memory_fixed_block
begin

lemma block_allocator:
  "memory_allocator lo hi (block_inv finv lo hi) (block_alloc first_fit) (block_dealloc deallocate) (fixed_accepts accepts)"
proof unfold_locales
  fix h :: "memory \<times> 's block_heap" and L l p
  obtain m c where h: "h = (m, c)" by fastforce
  show "block_inv finv lo hi h L \<Longrightarrow> blocks_ok lo hi L" using ab.live_blocks_ok by (auto simp: block_inv_def)
  show "\<exists>h' p. block_alloc first_fit h l = Some (h', p) \<and> block_inv finv lo hi h' (if p = 0 then L else add_mset (p, l) L)"
    if "block_inv finv lo hi h L" "fixed_accepts accepts l"
    using that alloc_sim unfolding block_inv_def h by fastforce
  show "\<exists>h'. block_dealloc deallocate h p l = Some h' \<and> block_inv finv lo hi h' (L - {#(p, l)#})"
    if "block_inv finv lo hi h L" "(p, l) \<in># L"
    using that dealloc_sim unfolding block_inv_def h by fastforce
next
  fix m c L l m' c' p b x
  assume "block_inv finv lo hi (m, c) L" and acc: "fixed_accepts accepts l"
    and run: "block_alloc first_fit (m, c) l = Some ((m', c'), p)" and b: "b \<in># L" "x \<in> cells (block_ivl b)"
  then obtain hs where hs: "fixed_inv finv lo hi (as_lists hs m c) L" "block_chains m (head_refs c) hs"
    by (auto simp: block_inv_def)
  then show "m' x = m x" using alloc_sim [OF hs acc] run backing_cells [OF hs(1) b] b(1) by auto
next
  fix m c L q l m' c' b x
  assume "block_inv finv lo hi (m, c) L" and q: "(q, l) \<in># L"
    and run: "block_dealloc deallocate (m, c) q l = Some (m', c')"
    and b: "b \<in># L - {#(q, l)#}" "x \<in> cells (block_ivl b)"
  then obtain hs where hs: "fixed_inv finv lo hi (as_lists hs m c) L" "block_chains m (head_refs c) hs"
    by (auto simp: block_inv_def)
  then show "m' x = m x"
    using dealloc_sim [OF hs q] run backing_cells [OF hs(1) in_diffD [OF b(1)] b(2)] b(1) by auto
next
  fix m c L m'
  assume "block_inv finv lo hi (m, c) L" and w: "\<And>x. (\<And>b. b \<in># L \<Longrightarrow> x \<notin> cells (block_ivl b)) \<Longrightarrow> m' x = m x"
  then obtain hs where hs: "fixed_inv finv lo hi (as_lists hs m c) L" "block_chains m (head_refs c) hs"
    by (auto simp: block_inv_def)
  have "fixed_inv finv lo hi (as_lists hs m' c) L"
    by (rule fixed_inv_write [OF hs(1)], rule w) (use backing_cells [OF hs(1)] in fastforce)
  moreover have "block_chains m' (head_refs c) hs"
  proof (rule block_chains_cong [OF hs(2)], rule w)
    fix a x b assume a: "a \<in># cached hs" "x \<in> cells (block_ivl a)" and b: "b \<in># L"
    have "apart2 (block_ivl a) (block_ivl (backing b))"
      using apart_between [of "image_mset block_ivl (cached hs)" "image_mset block_ivl (image_mset backing L)"]
        blocks_apart [OF hs(1)] a(1) b by simp
    then show "x \<notin> cells (block_ivl b)" using apart2_cells a(2) backing_cells [OF hs(1) b] by blast
  qed
  ultimately show "block_inv finv lo hi (m', c) L" by (auto simp: block_inv_def)
qed

lemma requested_bytes_exact:
  "block_inv finv lo hi (m, c) L \<Longrightarrow> unat (requested c) = (\<Sum>b\<in>#L. lay_size (snd b))"
  using ab.requested_exact by (fastforce simp: block_inv_def)

end

sublocale memory_fixed_block \<subseteq> blocks: memory_allocator lo hi "block_inv finv lo hi" "block_alloc first_fit"
    "block_dealloc deallocate" "fixed_accepts accepts"
  by (rule block_allocator)

section \<open>The fallback instantiated with the kernel's linked-list allocator\<close>

definition linked_first_fit :: "list_heap \<Rightarrow> Layout \<Rightarrow> (list_heap \<times> (unit + nat)) option" where
  "linked_first_fit h l = do {
     (h', p) \<leftarrow> linked_list_alloc h l;
     Some (h', if p = 0 then Inl () else Inr p)
   }"

lemma linked_pointer: "heap_pointer linked_first_fit = linked_list_alloc"
proof (intro ext)
  show "heap_pointer linked_first_fit h l = linked_list_alloc h l" for h l
    by (cases "linked_list_alloc h l") (auto simp: heap_pointer_def linked_first_fit_def)
qed

interpretation block_linked: memory_fixed_block lo hi "linked_inv lo hi" linked_first_fit linked_list_dealloc list_accepts for lo hi
  unfolding memory_fixed_block_def memory_fixed_block_axioms_def linked_pointer
  using linked.memory_allocator_axioms class_accepted by blast

lemma block_heap_new_inv:
  assumes "finv (m, s) {#}" "0 < lo" "hi < 2 ^ 64"
  shows "block_inv finv lo hi (m, (block_heap_new e)\<lparr>heap_state := s\<rparr>) {#}"
proof -
  let ?hs = "replicate 9 []"
  have "fixed_inv finv lo hi (as_lists ?hs m ((block_heap_new e)\<lparr>heap_state := s\<rparr>)) {#}"
    using assms by (simp add: fixed_inv_def block_heap_new_def cached_def)
  moreover have "block_chains m (head_refs ((block_heap_new e)\<lparr>heap_state := s\<rparr>)) ?hs"
    by (simp add: block_chains_def block_heap_new_def)
  ultimately show ?thesis unfolding block_inv_def fst_conv snd_conv by blast
qed

section \<open>Properties\<close>

text \<open>C10: On the bytes of the heap, with any fallback heap that keeps the contract of an allocator on
  memory, the kernel's global allocator serves every sequence of requests, releases and writes of
  its client without a panic; every byte the client has written into a block it holds is still
  there, although the free lists live in the same memory, and nothing the client writes into its
  blocks damages them; the held blocks are aligned, inside the heap and disjoint, and the counter
  of requested bytes is the sum of their sizes.\<close>

theorem global_heap_keeps_data:
  assumes "memory_fixed_block HEAP_START (HEAP_START + HEAP_SIZE) finv first_fit deallocate accepts"
    "heap_init (m, e) HEAP_START HEAP_SIZE = Some (m0, s0)" "finv (m0, s0) {#}"
    "list_all (use_ok (fixed_accepts accepts)) us"
  shows "\<exists>h m' c held. block_heap_init heap_init (m, block_heap_new e) HEAP_START HEAP_SIZE = Some h
    \<and> use_run (block_alloc first_fit) (block_dealloc deallocate) (h, []) us = Some ((m', c), held)
    \<and> keeps_data m' held \<and> blocks_ok HEAP_START (HEAP_START + HEAP_SIZE) (mset (map fst held))
    \<and> unat (requested c) = sum_list (map (\<lambda>b. lay_size (snd (fst b))) held)"
proof -
  let ?hi = "HEAP_START + HEAP_SIZE" and ?c = "(block_heap_new e)\<lparr>heap_state := s0\<rparr>"
  have init: "block_heap_init heap_init (m, block_heap_new e) HEAP_START HEAP_SIZE = Some (m0, ?c)"
    using assms(2) by (simp add: block_heap_init_def block_heap_new_def)
  have new: "block_inv finv HEAP_START ?hi (m0, ?c) {#}"
    by (rule block_heap_new_inv) (use assms(3) in \<open>simp_all add: HEAP_START_def HEAP_SIZE_def\<close>)
  note alloc = memory_fixed_block.block_allocator [OF assms(1)]
  obtain m' c held where run: "use_run (block_alloc first_fit) (block_dealloc deallocate) ((m0, ?c), []) us = Some ((m', c), held)"
    "block_inv finv HEAP_START ?hi (m', c) (mset (map fst held))" "keeps_data m' held"
    using memory_allocator.use_run_ok [OF alloc, of m0 ?c "[]" us] new assms(4) by (auto simp: keeps_data_def)
  moreover have "blocks_ok HEAP_START ?hi (mset (map fst held))"
    using heap_allocator.live_ok [OF memory_allocator.axioms(1) [OF alloc] run(2)] .
  moreover have "unat (requested c) = (\<Sum>b\<in>#mset (map fst held). lay_size (snd b))"
    by (rule memory_fixed_block.requested_bytes_exact [OF assms(1) run(2)])
  then have "unat (requested c) = sum_list (map (\<lambda>b. lay_size (snd b)) (map fst held))"
    by (metis mset_map sum_mset_sum_list)
  then have "unat (requested c) = sum_list (map (\<lambda>b. lay_size (snd (fst b))) held)"
    by (simp add: comp_def)
  ultimately show ?thesis using init by blast
qed

theorem global_heap_keeps_data_witness:
  "\<exists>h m' c held. block_heap_init linked_list_init (\<lambda>_. 0, block_heap_new linked_list_new) HEAP_START HEAP_SIZE = Some h
    \<and> use_run (block_alloc linked_first_fit) (block_dealloc linked_list_dealloc) (h, [])
      [Ask \<lparr>lay_size = 24, lay_align = 8\<rparr>, Write 0 3 65, Ask \<lparr>lay_size = 4096, lay_align = 16\<rparr>, Give_Back 0] = Some ((m', c), held)
    \<and> keeps_data m' held \<and> blocks_ok HEAP_START (HEAP_START + HEAP_SIZE) (mset (map fst held))
    \<and> unat (requested c) = sum_list (map (\<lambda>b. lay_size (snd (fst b))) held)"
proof -
  obtain m0 s0 where i: "linked_list_init (\<lambda>_. 0, linked_list_new) HEAP_START HEAP_SIZE = Some (m0, s0)"
    "linked_inv HEAP_START (HEAP_START + HEAP_SIZE) (m0, s0) {#}"
    using linked_list_init_repr [of HEAP_START HEAP_SIZE "\<lambda>_. 0"] by (auto simp: HEAP_START_def HEAP_SIZE_def)
  have "list_accepts \<lparr>lay_size = 4096, lay_align = 16\<rparr>" "layout_ok \<lparr>lay_size = 24, lay_align = 8\<rparr>"
    by (simp_all add: list_accepts_def sa_align_def layout_ok_def bexI [of _ 4] bexI [of _ 3])
  moreover have "list_index \<lparr>lay_size = 24, lay_align = 8\<rparr> = Some 2" by (simp add: list_index_def BLOCK_SIZES_def Let_def)
  ultimately show ?thesis
    by (intro global_heap_keeps_data
        [where heap_init = linked_list_init, OF block_linked.memory_fixed_block_axioms i])
      (simp add: use_ok_def fixed_accepts_def list_accepts_def)
qed

end
