(* ===== verification/Desktop.thy ===== *)
theory Desktop
  imports Prelude
begin

text \<open>
  The window manager of \<^verbatim>\<open>src/src/desktop.rs\<close>: two terminal windows, the PS/2 mouse packet decoder,
  focus, dragging and the close button. \<open>desktop_inv\<close> says that windows and pointer stay on the
  80x25 screen, that a partial packet has at most two bytes, and that the focused terminal is
  open whenever any is; every operation keeps it and never panics under it (the \<open>i16\<close> arithmetic
  does not overflow). Effects outside the desktop (input events, the active terminal of the
  console, the redraw request) are returned.
\<close>

section \<open>Data\<close>

definition SCREEN_W :: int where "SCREEN_W = 80"
definition SCREEN_H :: int where "SCREEN_H = 25"
definition WINDOW_W :: int where "WINDOW_W = 74"
definition WINDOW_H :: int where "WINDOW_H = 20"
definition MOUSE_CELLS_PER_COUNT_X :: int where "MOUSE_CELLS_PER_COUNT_X = 8"
definition MOUSE_CELLS_PER_COUNT_Y :: int where "MOUSE_CELLS_PER_COUNT_Y = 16"

lemmas desktop_consts = SCREEN_W_def SCREEN_H_def WINDOW_W_def WINDOW_H_def
  MOUSE_CELLS_PER_COUNT_X_def MOUSE_CELLS_PER_COUNT_Y_def

datatype InputEvent = Scancode u8 | OpenTerminal | CloseTerminal nat

record Window =
  win_x :: int
  win_y :: int

record Desktop =
  d_windows :: "Window list"
  d_open :: "bool list"
  d_drag :: "(nat \<times> int \<times> int) option"
  d_packet :: "u8 list"
  d_packet_len :: nat
  d_pointer_x :: int
  d_pointer_y :: int
  d_motion_x :: int
  d_motion_y :: int
  d_buttons :: u8
  d_active :: nat

definition DESKTOP :: Desktop where
  "DESKTOP = \<lparr>d_windows = [\<lparr>win_x = 3, win_y = 4\<rparr>, \<lparr>win_x = 41, win_y = 4\<rparr>], d_open = [False, False],
     d_drag = None, d_packet = [0, 0, 0], d_packet_len = 0, d_pointer_x = 72, d_pointer_y = 22,
     d_motion_x = 0, d_motion_y = 0, d_buttons = 0, d_active = 0\<rparr>"

type_synonym rect = "int \<times> int \<times> int"

section \<open>Operations\<close>

definition layout :: "Desktop \<Rightarrow> rect option list option" where
  "layout d = (let count = length (filter (\<lambda>o'. o') (d_open d));
                   width = (if count = 1 then WINDOW_W else 38);
                   rects = [None, None] in
     if count = 1 then do {
       index \<leftarrow> position (\<lambda>o'. o') (d_open d);
       w \<leftarrow> arr_get (d_windows d) index;
       arr_set rects index (Some (clamp (win_x w) 0 (SCREEN_W - width), win_y w, width))
     }
     else if count = 2 then Some (map (\<lambda>w. Some (win_x w, win_y w, width)) (d_windows d))
     else Some rects)"

definition hit_test :: "rect option \<Rightarrow> int \<Rightarrow> int \<Rightarrow> bool" where
  "hit_test r x y = (case r of
      Some (wx, wy, width) \<Rightarrow> x \<ge> wx \<and> x < wx + width \<and> y \<ge> wy \<and> y < wy + WINDOW_H
    | None \<Rightarrow> False)"

text \<open>\<open>[active, active ^ 1].into_iter().find(..)\<close>\<close>

definition find_hit :: "rect option list \<Rightarrow> nat \<Rightarrow> int \<Rightarrow> int \<Rightarrow> nat option option" where
  "find_hit rects active x y = do {
     r \<leftarrow> arr_get rects active;
     if hit_test r x y then Some (Some active)
     else do {
       r' \<leftarrow> arr_get rects (active XOR 1);
       Some (if hit_test r' x y then Some (active XOR 1) else None)
     }
   }"

text \<open>The three stages of a complete packet: motion, button press, drag.\<close>

definition mouse_motion :: "Desktop \<Rightarrow> Desktop option" where
  "mouse_motion d = do {
     flags \<leftarrow> arr_get (d_packet d) 0;
     b1 \<leftarrow> arr_get (d_packet d) 1;
     b2 \<leftarrow> arr_get (d_packet d) 2;
     dx \<leftarrow> i16 (uint b1 - (if flags AND 0x10 \<noteq> 0 then 256 else 0));
     dy \<leftarrow> i16 (uint b2 - (if flags AND 0x20 \<noteq> 0 then 256 else 0));
     mx \<leftarrow> i16 (d_motion_x d + dx);
     my \<leftarrow> i16 (d_motion_y d + dy);
     px \<leftarrow> i16 (d_pointer_x d + trunc_div mx MOUSE_CELLS_PER_COUNT_X);
     py \<leftarrow> i16 (d_pointer_y d - trunc_div my MOUSE_CELLS_PER_COUNT_Y);
     Some (d\<lparr>d_motion_x := trunc_mod mx MOUSE_CELLS_PER_COUNT_X,
             d_motion_y := trunc_mod my MOUSE_CELLS_PER_COUNT_Y,
             d_pointer_x := clamp px 0 (SCREEN_W - 1),
             d_pointer_y := clamp py 0 (SCREEN_H - 1)\<rparr>)
   }"

definition mouse_press :: "Desktop \<Rightarrow> (Desktop \<times> InputEvent list) option" where
  "mouse_press d0 = do {
     let x = d_pointer_x d0;
     let y = d_pointer_y d0;
     rects \<leftarrow> layout d0;
     let d = d0\<lparr>d_drag := None\<rparr>;
     hit \<leftarrow> find_hit rects (d_active d) x y;
     (case hit of
        Some index \<Rightarrow> do {
          rect \<leftarrow> arr_get rects index;
          (wx, wy, width) \<leftarrow> rect;
          let d = d\<lparr>d_active := index\<rparr>;
          (if y = wy \<and> x \<ge> wx + width - 4 \<and> x < wx + width - 1
           then Some (d, [CloseTerminal index])
           else if y = wy then do {
             ox \<leftarrow> i16 (x - wx);
             oy \<leftarrow> i16 (y - wy);
             Some (d\<lparr>d_drag := Some (index, ox, oy)\<rparr>, [])
           } else Some (d, []))
        }
      | None \<Rightarrow> Some (d, if 3 \<le> x \<and> x \<le> 12 \<and> 1 \<le> y \<and> y \<le> 3 then [OpenTerminal] else []))
   }"

definition mouse_drag :: "Desktop \<Rightarrow> Desktop option" where
  "mouse_drag d = (case d_drag d of
      None \<Rightarrow> Some d
    | Some (index, offset_x, offset_y) \<Rightarrow> do {
        x \<leftarrow> i16 (d_pointer_x d - offset_x);
        y \<leftarrow> i16 (d_pointer_y d - offset_y);
        rects \<leftarrow> layout d;
        rect \<leftarrow> arr_get rects index;
        let width = (case rect of None \<Rightarrow> 38 | Some (_, _, width) \<Rightarrow> width);
        ws \<leftarrow> arr_set (d_windows d) index
          \<lparr>win_x = clamp x 0 (SCREEN_W - width), win_y = clamp y 1 (SCREEN_H - WINDOW_H - 1)\<rparr>;
        Some (d\<lparr>d_windows := ws\<rparr>)
      })"

text \<open>A complete packet, with the events it pushes.\<close>

definition mouse_packet :: "Desktop \<Rightarrow> (Desktop \<times> InputEvent list) option" where
  "mouse_packet d0 = do {
     flags \<leftarrow> arr_get (d_packet d0) 0;
     d1 \<leftarrow> mouse_motion d0;
     (d2, evs) \<leftarrow> (if flags AND 1 \<noteq> 0 \<and> d_buttons d1 AND 1 = 0 then mouse_press d1 else Some (d1, []));
     d3 \<leftarrow> mouse_drag (if flags AND 1 = 0 then d2\<lparr>d_drag := None\<rparr> else d2);
     Some (d3\<lparr>d_buttons := flags AND 7, d_packet_len := 0\<rparr>, evs)
   }"

text \<open>\<open>mouse_byte\<close>: the new desktop, the events pushed, and whether a packet was completed, upon
  which the console's active terminal is set to \<open>d_active\<close> and a redraw is requested.\<close>

definition mouse_byte :: "Desktop \<Rightarrow> u8 \<Rightarrow> (Desktop \<times> InputEvent list \<times> bool) option" where
  "mouse_byte d byte =
     (if d_packet_len d = 0 \<and> byte AND 8 = 0 then Some (d, [], False)
      else do {
        p \<leftarrow> arr_set (d_packet d) (d_packet_len d) byte;
        let d' = d\<lparr>d_packet := p, d_packet_len := d_packet_len d + 1\<rparr>;
        (if d_packet_len d' = 3
         then do { (d'', evs) \<leftarrow> mouse_packet d'; Some (d'', evs, True) }
         else Some (d', [], False))
      })"

definition is_open :: "Desktop \<Rightarrow> nat \<Rightarrow> bool option" where
  "is_open d index = arr_get (d_open d) (min index 1)"

text \<open>The critical sections of \<open>close_terminal\<close> and \<open>open_terminal\<close>.\<close>

definition close_desktop :: "Desktop \<Rightarrow> nat \<Rightarrow> Desktop option" where
  "close_desktop d index = (let closed = min index 1 in do {
     opn \<leftarrow> arr_set (d_open d) closed False;
     other \<leftarrow> arr_get opn (closed XOR 1);
     Some (d\<lparr>d_drag := None, d_open := opn, d_active := (if \<not> other then closed else closed XOR 1)\<rparr>)
   })"

definition open_desktop :: "Desktop \<Rightarrow> (Desktop \<times> nat option) option" where
  "open_desktop d = (case position Not (d_open d) of
      None \<Rightarrow> Some (d, None)
    | Some index \<Rightarrow> do {
        ws \<leftarrow> (if list_ex (\<lambda>o'. o') (d_open d)
               then Some [\<lparr>win_x = 1, win_y = 4\<rparr>, \<lparr>win_x = 41, win_y = 4\<rparr>]
               else arr_set (d_windows d) index \<lparr>win_x = 3, win_y = 4\<rparr>);
        opn \<leftarrow> arr_set (d_open d) index True;
        Some (d\<lparr>d_windows := ws, d_drag := None, d_open := opn, d_active := index\<rparr>, Some index)
      })"

section \<open>Invariant\<close>

definition window_ok :: "Window \<Rightarrow> bool" where
  "window_ok w \<longleftrightarrow> 0 \<le> win_x w \<and> win_x w \<le> 42 \<and> 1 \<le> win_y w \<and> win_y w \<le> 4"

definition drag_ok :: "(nat \<times> int \<times> int) option \<Rightarrow> bool" where
  "drag_ok dr \<longleftrightarrow> (case dr of None \<Rightarrow> True
    | Some (i, ox, oy) \<Rightarrow> i < 2 \<and> 0 \<le> ox \<and> ox < 80 \<and> 0 \<le> oy \<and> oy < 25)"

text \<open>The screen part of the invariant holds after every byte; a packet in progress is bounded by
  the second part.\<close>

definition screen_inv :: "Desktop \<Rightarrow> bool" where
  "screen_inv d \<longleftrightarrow> length (d_windows d) = 2 \<and> list_all window_ok (d_windows d) \<and> length (d_open d) = 2
     \<and> drag_ok (d_drag d) \<and> length (d_packet d) = 3
     \<and> 0 \<le> d_pointer_x d \<and> d_pointer_x d \<le> 79 \<and> 0 \<le> d_pointer_y d \<and> d_pointer_y d \<le> 24
     \<and> \<bar>d_motion_x d\<bar> < 8 \<and> \<bar>d_motion_y d\<bar> < 16
     \<and> d_active d < 2 \<and> (list_ex (\<lambda>o'. o') (d_open d) \<longrightarrow> d_open d ! d_active d)"

definition desktop_inv :: "Desktop \<Rightarrow> bool" where
  "desktop_inv d \<longleftrightarrow> screen_inv d \<and> d_packet_len d < 3"

lemma DESKTOP_inv: "desktop_inv DESKTOP"
  by (simp add: desktop_inv_def screen_inv_def DESKTOP_def window_ok_def drag_ok_def)

lemma list2_cases: "length xs = 2 \<Longrightarrow> \<exists>a b. xs = [a, b]"
  by (auto simp: numeral_2_eq_2 length_Suc_conv)

lemma xor1_simps [simp]: "(0::nat) XOR 1 = 1" "(1::nat) XOR 1 = 0" "(0::nat) XOR Suc 0 = Suc 0" "Suc 0 XOR Suc 0 = 0"
  by (simp_all add: xor_nat_unfold)

text \<open>The rectangle of an open window lies on the screen, below the title bar's row.\<close>

definition rect_ok :: "rect \<Rightarrow> bool" where
  "rect_ok r = (case r of (x, y, width) \<Rightarrow>
     0 \<le> x \<and> x + width \<le> SCREEN_W \<and> 1 \<le> y \<and> y + WINDOW_H < SCREEN_H \<and> (width = WINDOW_W \<or> width = 38))"

lemma layout_spec:
  assumes "screen_inv d"
  shows "\<exists>r0 r1. layout d = Some [r0, r1] \<and> (r0 \<noteq> None \<longleftrightarrow> d_open d ! 0) \<and> (r1 \<noteq> None \<longleftrightarrow> d_open d ! 1)
    \<and> (\<forall>r. r0 = Some r \<longrightarrow> rect_ok r) \<and> (\<forall>r. r1 = Some r \<longrightarrow> rect_ok r)"
proof -
  obtain w0 w1 where w: "d_windows d = [w0, w1]" "window_ok w0" "window_ok w1"
    using assms list2_cases [of "d_windows d"] by (auto simp: screen_inv_def)
  obtain o0 o1 where op: "d_open d = [o0, o1]"
    using assms list2_cases [of "d_open d"] by (auto simp: screen_inv_def)
  show ?thesis
    using w(2,3) by (cases o0; cases o1)
      (simp_all add: layout_def w(1) op arr_get_def arr_set_def rect_ok_def window_ok_def desktop_consts clamp_def)
qed

lemma packet_delta: "- 256 \<le> uint b - (if c then 256 else 0) \<and> uint b - (if c then 256 else 0) \<le> 255" for b :: u8
proof -
  have "0 \<le> uint b" "uint b < 256" using uint_lt2p [of b] by simp_all
  then show ?thesis by (cases c; simp only: if_True if_False; linarith)
qed

lemma mouse_motion_spec:
  assumes inv: "screen_inv d"
  shows "\<exists>mx my px py. mouse_motion d = Some (d\<lparr>d_motion_x := mx, d_motion_y := my, d_pointer_x := px, d_pointer_y := py\<rparr>)
    \<and> screen_inv (d\<lparr>d_motion_x := mx, d_motion_y := my, d_pointer_x := px, d_pointer_y := py\<rparr>)"
proof -
  note i = inv [unfolded screen_inv_def]
  define dx where "dx = uint (d_packet d ! Suc 0) - (if d_packet d ! 0 AND 0x10 \<noteq> 0 then 256 else 0)"
  define dy where "dy = uint (d_packet d ! 2) - (if d_packet d ! 0 AND 0x20 \<noteq> 0 then 256 else 0)"
  have d: "- 256 \<le> dx" "dx \<le> 255" "- 256 \<le> dy" "dy \<le> 255"
    using packet_delta [of "d_packet d ! Suc 0"] packet_delta [of "d_packet d ! 2"] by (simp_all add: dx_def dy_def)
  let ?mx = "d_motion_x d + dx" and ?my = "d_motion_y d + dy"
  have q: "\<bar>trunc_div ?mx 8\<bar> \<le> \<bar>?mx\<bar>" "\<bar>trunc_div ?my 16\<bar> \<le> \<bar>?my\<bar>"
    by (simp_all add: trunc_div_bound)
  have m: "\<bar>trunc_mod ?mx 8\<bar> < 8" "\<bar>trunc_mod ?my 16\<bar> < 16"
    using trunc_mod_bound [of 8 ?mx] trunc_mod_bound [of 16 ?my] by linarith+
  let ?px = "clamp (d_pointer_x d + trunc_div ?mx 8) 0 79"
  let ?py = "clamp (d_pointer_y d - trunc_div ?my 16) 0 24"
  let ?d = "d\<lparr>d_motion_x := trunc_mod ?mx 8, d_motion_y := trunc_mod ?my 16, d_pointer_x := ?px, d_pointer_y := ?py\<rparr>"
  have mx: "i16 dx = Some dx" "i16 dy = Some dy" "i16 ?mx = Some ?mx" "i16 ?my = Some ?my"
    "i16 (d_pointer_x d + trunc_div ?mx 8) = Some (d_pointer_x d + trunc_div ?mx 8)"
    "i16 (d_pointer_y d - trunc_div ?my 16) = Some (d_pointer_y d - trunc_div ?my 16)"
    using d q i by (auto simp: i16_def)
  have "mouse_motion d = Some ?d"
    using i mx by (simp add: mouse_motion_def arr_get_def dx_def [symmetric] dy_def [symmetric] desktop_consts)
  moreover have "screen_inv ?d"
    using i m clamp_bounds [of 0 79] clamp_bounds [of 0 24] by (simp add: screen_inv_def)
  ultimately show ?thesis by blast
qed

lemma find_hit_spec:
  assumes "length rects = 2" "active < 2"
  shows "\<exists>h. find_hit rects active x y = Some h \<and>
    (\<forall>i. h = Some i \<longrightarrow> i < 2 \<and> hit_test (rects ! i) x y)"
  using assms by (auto simp: find_hit_def arr_get_def less_2_cases_iff)

lemma mouse_press_spec:
  assumes inv: "screen_inv d"
  shows "\<exists>d' evs. mouse_press d = Some (d', evs) \<and> screen_inv d' \<and> d_packet_len d' = d_packet_len d"
proof -
  note i = inv [unfolded screen_inv_def]
  obtain r0 r1 where r: "layout d = Some [r0, r1]" "r0 \<noteq> None \<longleftrightarrow> d_open d ! 0" "r1 \<noteq> None \<longleftrightarrow> d_open d ! 1"
    "\<forall>r. r0 = Some r \<longrightarrow> rect_ok r" "\<forall>r. r1 = Some r \<longrightarrow> rect_ok r"
    using layout_spec [OF inv] by blast
  obtain h where h: "find_hit [r0, r1] (d_active d) (d_pointer_x d) (d_pointer_y d) = Some h"
    "\<And>k. h = Some k \<Longrightarrow> k < 2 \<and> hit_test ([r0, r1] ! k) (d_pointer_x d) (d_pointer_y d)"
    using find_hit_spec [of "[r0, r1]" "d_active d" "d_pointer_x d" "d_pointer_y d"] i by fastforce
  show ?thesis
  proof (cases h)
    case None
    then show ?thesis
      using r(1) h(1) i by (auto simp: mouse_press_def screen_inv_def drag_ok_def Let_def)
  next
    case (Some k)
    have k: "k < 2" "hit_test ([r0, r1] ! k) (d_pointer_x d) (d_pointer_y d)"
      using h(2) Some by auto
    obtain wx wy width where rk: "[r0, r1] ! k = Some (wx, wy, width)"
      using k(2) by (auto simp: hit_test_def split: option.splits)
    have opn: "d_open d ! k" and ok: "rect_ok (wx, wy, width)"
      using k(1) rk r by (auto simp: less_2_cases_iff)
    have b: "0 \<le> d_pointer_x d - wx" "d_pointer_x d - wx < 80" "0 \<le> d_pointer_y d - wy" "d_pointer_y d - wy < 25"
      using k(2) rk i ok by (auto simp: hit_test_def rect_ok_def)
    have i16s: "i16 (d_pointer_x d - wx) = Some (d_pointer_x d - wx)" "i16 (d_pointer_y d - wy) = Some (d_pointer_y d - wy)"
      using b by (simp_all add: i16_def)
    have "arr_get [r0, r1] k = Some (Some (wx, wy, width))"
      using k(1) rk by (simp add: arr_get_def)
    then show ?thesis
      using r(1) h(1) Some i k(1) opn b i16s
      by (auto simp: mouse_press_def screen_inv_def drag_ok_def Let_def)
  qed
qed

lemma mouse_drag_spec:
  assumes inv: "screen_inv d"
  shows "\<exists>d'. mouse_drag d = Some d' \<and> screen_inv d' \<and> d_packet_len d' = d_packet_len d"
proof (cases "d_drag d")
  case None
  then show ?thesis using inv by (simp add: mouse_drag_def)
next
  case (Some dr)
  note i = inv [unfolded screen_inv_def]
  obtain k ox oy where dr: "dr = (k, ox, oy)" by (cases dr)
  then have k: "k < 2" "0 \<le> ox" "ox < 80" "0 \<le> oy" "oy < 25"
    using i Some by (auto simp: drag_ok_def)
  obtain r0 r1 where r: "layout d = Some [r0, r1]"
    "\<forall>r. r0 = Some r \<longrightarrow> rect_ok r" "\<forall>r. r1 = Some r \<longrightarrow> rect_ok r"
    using layout_spec [OF inv] by blast
  let ?width = "case [r0, r1] ! k of None \<Rightarrow> 38 | Some (_, _, width) \<Rightarrow> width"
  have wd: "?width = 74 \<or> ?width = 38"
    using k(1) r by (auto simp: less_2_cases_iff rect_ok_def desktop_consts split: option.splits)
  let ?w = "\<lparr>win_x = clamp (d_pointer_x d - ox) 0 (80 - ?width), win_y = clamp (d_pointer_y d - oy) 1 4\<rparr>"
  have w: "window_ok ?w"
    using wd clamp_bounds [of 0 "80 - ?width"] clamp_bounds [of 1 4] by (fastforce simp: window_ok_def)
  have "mouse_drag d = Some (d\<lparr>d_windows := (d_windows d)[k := ?w]\<rparr>)"
    using Some dr r k i by (simp add: mouse_drag_def arr_get_def arr_set_def desktop_consts i16_def Let_def)
  moreover have "list_all window_ok ((d_windows d)[k := ?w])"
    using i w by (auto simp: list_all_iff dest!: set_update_subset_insert [THEN subsetD])
  ultimately show ?thesis
    using i by (simp add: screen_inv_def)
qed

lemma screen_inv_packet: "screen_inv d \<Longrightarrow> length p = 3 \<Longrightarrow> screen_inv (d\<lparr>d_packet := p, d_packet_len := n\<rparr>)"
  by (simp add: screen_inv_def)

lemma mouse_packet_spec:
  assumes inv: "screen_inv d"
  shows "\<exists>d' evs. mouse_packet d = Some (d', evs) \<and> desktop_inv d'"
proof -
  let ?flags = "d_packet d ! 0"
  have fl: "arr_get (d_packet d) 0 = Some ?flags"
    using inv by (simp add: screen_inv_def arr_get_def)
  obtain d1 where d1: "mouse_motion d = Some d1" "screen_inv d1"
    using mouse_motion_spec [OF inv] by blast
  obtain d2 evs where d2: "(if ?flags AND 1 \<noteq> 0 \<and> d_buttons d1 AND 1 = 0 then mouse_press d1 else Some (d1, [])) = Some (d2, evs)"
    "screen_inv d2"
    using mouse_press_spec [OF d1(2)] d1(2) by (cases "?flags AND 1 \<noteq> 0 \<and> d_buttons d1 AND 1 = 0") auto
  have "screen_inv (if ?flags AND 1 = 0 then d2\<lparr>d_drag := None\<rparr> else d2)"
    using d2(2) by (simp add: screen_inv_def drag_ok_def)
  then obtain d3 where d3: "mouse_drag (if ?flags AND 1 = 0 then d2\<lparr>d_drag := None\<rparr> else d2) = Some d3" "screen_inv d3"
    using mouse_drag_spec by blast
  have "mouse_packet d = Some (d3\<lparr>d_buttons := ?flags AND 7, d_packet_len := 0\<rparr>, evs)"
    unfolding mouse_packet_def fl d1(1) bind.bind_lunit d2(1) prod.case d3(1) ..
  moreover have "desktop_inv (d3\<lparr>d_buttons := ?flags AND 7, d_packet_len := 0\<rparr>)"
    using d3(2) by (simp add: desktop_inv_def screen_inv_def)
  ultimately show ?thesis by blast
qed

lemma mouse_byte_spec:
  assumes "desktop_inv d"
  shows "\<exists>d' evs finished. mouse_byte d b = Some (d', evs, finished) \<and> desktop_inv d'"
proof (cases "d_packet_len d = 0 \<and> b AND 8 = 0")
  case True
  then have "mouse_byte d b = Some (d, [], False)" by (simp add: mouse_byte_def)
  then show ?thesis using assms by blast
next
  case False
  have inv: "screen_inv d" "d_packet_len d < 3" and len: "length (d_packet d) = 3"
    using assms by (auto simp: desktop_inv_def screen_inv_def)
  let ?p = "(d_packet d)[d_packet_len d := b]"
  let ?d = "d\<lparr>d_packet := ?p, d_packet_len := d_packet_len d + 1\<rparr>"
  have set: "arr_set (d_packet d) (d_packet_len d) b = Some ?p"
    using inv len by (simp add: arr_set_def)
  have inv1: "screen_inv ?d" using inv len by (intro screen_inv_packet) auto
  obtain d' evs where d': "mouse_packet ?d = Some (d', evs)" "desktop_inv d'"
    using mouse_packet_spec [OF inv1] by blast
  have "mouse_byte d b = Some (if d_packet_len d = 2 then (d', evs, True) else (?d, [], False))"
    using False set d'(1) by (auto simp: mouse_byte_def Let_def)
  moreover have "d_packet_len d \<noteq> 2 \<Longrightarrow> desktop_inv ?d"
    using inv inv1 by (simp add: desktop_inv_def)
  ultimately show ?thesis
    using d'(2) by (cases "d_packet_len d = 2") auto
qed

lemma close_desktop_spec:
  assumes "desktop_inv d"
  shows "\<exists>d'. close_desktop d index = Some d' \<and> desktop_inv d' \<and> d_open d' = (d_open d)[min index 1 := False]"
proof -
  obtain o0 o1 where op: "d_open d = [o0, o1]"
    using assms list2_cases [of "d_open d"] by (auto simp: desktop_inv_def screen_inv_def)
  have "min index 1 = 0 \<or> min index 1 = 1" by auto
  then show ?thesis
    using assms op by (elim disjE)
      (auto simp: close_desktop_def desktop_inv_def screen_inv_def drag_ok_def arr_get_def arr_set_def)
qed

lemma open_desktop_spec:
  assumes "desktop_inv d"
  shows "\<exists>d' r. open_desktop d = Some (d', r) \<and> desktop_inv d'
    \<and> (case r of None \<Rightarrow> d' = d \<and> list_all (\<lambda>o'. o') (d_open d)
       | Some i \<Rightarrow> i < 2 \<and> \<not> d_open d ! i \<and> d_open d' = (d_open d)[i := True] \<and> d_active d' = i)"
proof -
  obtain o0 o1 where op: "d_open d = [o0, o1]"
    using assms list2_cases [of "d_open d"] by (auto simp: desktop_inv_def screen_inv_def)
  obtain w0 w1 where w: "d_windows d = [w0, w1]" "window_ok w0" "window_ok w1"
    using assms list2_cases [of "d_windows d"] by (auto simp: desktop_inv_def screen_inv_def)
  show ?thesis
    using assms w op by (cases o0; cases o1)
      (auto simp: open_desktop_def desktop_inv_def screen_inv_def drag_ok_def arr_get_def arr_set_def window_ok_def)
qed

section \<open>Sessions\<close>

text \<open>What reaches the desktop: mouse bytes from the interrupt handler, and the shell's requests to
  close and open a terminal.\<close>

datatype desktop_input = MouseByte u8 | CloseRequest nat | OpenRequest

fun desktop_step :: "Desktop \<Rightarrow> desktop_input \<Rightarrow> Desktop option" where
  "desktop_step d (MouseByte b) = map_option fst (mouse_byte d b)"
| "desktop_step d (CloseRequest i) = close_desktop d i"
| "desktop_step d OpenRequest = map_option fst (open_desktop d)"

fun desktop_run :: "Desktop \<Rightarrow> desktop_input list \<Rightarrow> Desktop option" where
  "desktop_run d [] = Some d"
| "desktop_run d (e # es) = do { d' \<leftarrow> desktop_step d e; desktop_run d' es }"

lemma desktop_step_inv: "desktop_inv d \<Longrightarrow> \<exists>d'. desktop_step d e = Some d' \<and> desktop_inv d'"
  using mouse_byte_spec [of d] close_desktop_spec [of d] open_desktop_spec [of d]
  by (cases e) fastforce+

lemma desktop_run_inv: "desktop_inv d \<Longrightarrow> \<exists>d'. desktop_run d es = Some d' \<and> desktop_inv d'"
proof (induction es arbitrary: d)
  case (Cons e es)
  then show ?case using desktop_step_inv [OF Cons.prems, of e] by fastforce
qed simp

text \<open>The motion of a packet in eighths and sixteenths of a cell.\<close>

definition packet_dx :: "Desktop \<Rightarrow> int" where
  "packet_dx d = uint (d_packet d ! 1) - (if d_packet d ! 0 AND 0x10 \<noteq> 0 then 256 else 0)"

definition packet_dy :: "Desktop \<Rightarrow> int" where
  "packet_dy d = uint (d_packet d ! 2) - (if d_packet d ! 0 AND 0x20 \<noteq> 0 then 256 else 0)"

lemma clamp_unclamped: "lo < clamp x lo hi \<Longrightarrow> clamp x lo hi < hi \<Longrightarrow> clamp x lo hi = x"
  by (auto simp: clamp_def split: if_splits)

lemma mouse_motion_result:
  assumes "length (d_packet d) = 3" "mouse_motion d = Some d'"
  shows "d_pointer_x d' = clamp (d_pointer_x d + trunc_div (d_motion_x d + packet_dx d) 8) 0 79"
    "d_motion_x d' = trunc_mod (d_motion_x d + packet_dx d) 8"
    "d_pointer_y d' = clamp (d_pointer_y d - trunc_div (d_motion_y d + packet_dy d) 16) 0 24"
    "d_motion_y d' = trunc_mod (d_motion_y d + packet_dy d) 16"
  using assms by (auto simp: mouse_motion_def panic_simps packet_dx_def packet_dy_def desktop_consts)

section \<open>Properties\<close>

text \<open>C8: From power-on, any interleaving of mouse bytes (in or out of synchronisation), close
  requests for any terminal number and open requests runs without a panic or an \<open>i16\<close> overflow,
  and always leaves the pointer and both windows on the screen, at most two bytes of a packet
  pending, and the focus on an open terminal whenever one is open.\<close>

theorem desktop_session_invariant:
  "\<exists>d. desktop_run DESKTOP es = Some d \<and> desktop_inv d"
  by (rule desktop_run_inv [OF DESKTOP_inv])

text \<open>The layout has a rectangle exactly for the open terminals, and each lies within the
  80x25 screen, below the menu row and above the bottom row.\<close>

theorem layout_on_screen:
  assumes "screen_inv d"
  shows "\<exists>r0 r1. layout d = Some [r0, r1] \<and> (r0 \<noteq> None \<longleftrightarrow> d_open d ! 0) \<and> (r1 \<noteq> None \<longleftrightarrow> d_open d ! 1)
    \<and> (\<forall>r. r0 = Some r \<longrightarrow> rect_ok r) \<and> (\<forall>r. r1 = Some r \<longrightarrow> rect_ok r)"
  by (rule layout_spec [OF assms])

theorem layout_on_screen_witness:
  "\<exists>r0 r1. layout DESKTOP = Some [r0, r1] \<and> (r0 \<noteq> None \<longleftrightarrow> d_open DESKTOP ! 0)
    \<and> (r1 \<noteq> None \<longleftrightarrow> d_open DESKTOP ! 1)
    \<and> (\<forall>r. r0 = Some r \<longrightarrow> rect_ok r) \<and> (\<forall>r. r1 = Some r \<longrightarrow> rect_ok r)"
  by (rule layout_on_screen) (use DESKTOP_inv in \<open>simp add: desktop_inv_def\<close>)

text \<open>No mouse motion is lost: unless the pointer is stopped by an edge of the screen, eight
  counts move it by one column and sixteen by one row, and what is left over is carried to the
  next packet with its sign.\<close>

theorem mouse_motion_conserved:
  assumes "screen_inv d" "mouse_motion d = Some d'"
    "0 < d_pointer_x d'" "d_pointer_x d' < 79" "0 < d_pointer_y d'" "d_pointer_y d' < 24"
  shows "8 * d_pointer_x d' + d_motion_x d' = 8 * d_pointer_x d + d_motion_x d + packet_dx d
    \<and> 16 * d_pointer_y d' - d_motion_y d' = 16 * d_pointer_y d - d_motion_y d - packet_dy d"
proof -
  have "length (d_packet d) = 3" using assms(1) by (simp add: screen_inv_def)
  note r = mouse_motion_result [OF this assms(2)]
  have "d_pointer_x d' = d_pointer_x d + trunc_div (d_motion_x d + packet_dx d) 8"
    "d_pointer_y d' = d_pointer_y d - trunc_div (d_motion_y d + packet_dy d) 16"
    using assms(3-6) r(1,3) clamp_unclamped by metis+
  then show ?thesis
    using trunc_div_mod [of "d_motion_x d + packet_dx d" 8] trunc_div_mod [of "d_motion_y d + packet_dy d" 16] r(2,4)
    by linarith
qed

definition example_packet :: Desktop where
  "example_packet = DESKTOP\<lparr>d_packet := [0x18, 0xE7, 0x21]\<rparr>"

theorem mouse_motion_conserved_witness:
  "\<exists>d'. mouse_motion example_packet = Some d' \<and>
    8 * d_pointer_x d' + d_motion_x d' = 8 * d_pointer_x example_packet + d_motion_x example_packet + packet_dx example_packet
    \<and> 16 * d_pointer_y d' - d_motion_y d' = 16 * d_pointer_y example_packet - d_motion_y example_packet - packet_dy example_packet"
proof -
  have inv: "screen_inv example_packet"
    by (simp add: example_packet_def screen_inv_def DESKTOP_def window_ok_def drag_ok_def)
  let ?d = "example_packet\<lparr>d_motion_x := - 1, d_motion_y := 1, d_pointer_x := 69, d_pointer_y := 20\<rparr>"
  have m: "mouse_motion example_packet = Some ?d"
    by (simp add: mouse_motion_def example_packet_def DESKTOP_def arr_get_def i16_def trunc_div_def
        trunc_mod_def desktop_consts clamp_def)
  show ?thesis
    using mouse_motion_conserved [OF inv m] m by (simp add: example_packet_def DESKTOP_def)
qed

text \<open>Opening picks a closed terminal, focuses it and changes the open flag of no other one;
  with both open it does nothing. Closing clears exactly one flag. Both keep the desktop's
  invariant, so the focus moves to the remaining open terminal.\<close>

theorem open_close_terminals:
  assumes "desktop_inv d"
  shows "(\<exists>d' r. open_desktop d = Some (d', r) \<and> desktop_inv d'
      \<and> (case r of None \<Rightarrow> d' = d \<and> list_all (\<lambda>o'. o') (d_open d)
         | Some i \<Rightarrow> i < 2 \<and> \<not> d_open d ! i \<and> d_open d' = (d_open d)[i := True] \<and> d_active d' = i))
    \<and> (\<exists>d'. close_desktop d n = Some d' \<and> desktop_inv d' \<and> d_open d' = (d_open d)[min n 1 := False])"
  using open_desktop_spec [OF assms] close_desktop_spec [OF assms, of n] by blast

theorem open_close_terminals_witness:
  "(\<exists>d' r. open_desktop DESKTOP = Some (d', r) \<and> desktop_inv d'
      \<and> (case r of None \<Rightarrow> d' = DESKTOP \<and> list_all (\<lambda>o'. o') (d_open DESKTOP)
         | Some i \<Rightarrow> i < 2 \<and> \<not> d_open DESKTOP ! i \<and> d_open d' = (d_open DESKTOP)[i := True] \<and> d_active d' = i))
    \<and> (\<exists>d'. close_desktop DESKTOP 0 = Some d' \<and> desktop_inv d' \<and> d_open d' = (d_open DESKTOP)[min 0 1 := False])"
  by (rule open_close_terminals [OF DESKTOP_inv])

end
