(* ===== verification/Keyboard.thy ===== *)
theory Keyboard
  imports Desktop "HOL-Library.Word"
begin

text \<open>
  The input queue of \<^verbatim>\<open>src/src/task/keyboard.rs\<close>: interrupt handlers push events into a bounded queue
  and wake the shell task, which takes them out through \<open>ScancodeStream::poll_next\<close>.

  The queue (\<open>ArrayQueue\<close> of the crate \<open>crossbeam-queue\<close>) and the waker (\<open>AtomicWaker\<close> of
  \<open>futures-util\<close>) are parameters: records of their operations. What the code relies on are the
  laws of the locales \<open>array_queue\<close> and \<open>atomic_waker\<close>, which state the documented behaviour.
\<close>

section \<open>Parameters\<close>

text \<open>\<open>push\<close> returns \<open>None\<close> where the crate returns the rejected element.\<close>

record ('q, 'x) array_queue_ops =
  q_new :: "nat \<Rightarrow> 'q"
  q_push :: "'q \<Rightarrow> 'x \<Rightarrow> 'q option"
  q_pop :: "'q \<Rightarrow> ('q \<times> 'x) option"
  q_is_empty :: "'q \<Rightarrow> bool"

type_synonym 'q queue_ops = "('q, InputEvent) array_queue_ops"

text \<open>A waker is represented by the identifier of its task.\<close>

record 'w waker_ops =
  wk_new :: 'w
  wk_register :: "'w \<Rightarrow> nat \<Rightarrow> 'w"
  wk_take :: "'w \<Rightarrow> 'w \<times> nat option"

section \<open>State and operations\<close>

text \<open>The three statics, and the tasks woken so far, oldest first.\<close>

record ('q, 'w) Input =
  in_queue :: "'q option"
  in_dropped :: u64
  in_waker :: 'w
  in_woken :: "nat list"

definition input_new :: "'w waker_ops \<Rightarrow> ('q, 'w) Input" where
  "input_new W = \<lparr>in_queue = None, in_dropped = 0, in_waker = wk_new W, in_woken = []\<rparr>"

text \<open>\<open>WAKER.wake()\<close>: wakes the registered task, if any, and unregisters it.\<close>

definition waker_wake :: "'w waker_ops \<Rightarrow> ('q, 'w) Input \<Rightarrow> ('q, 'w) Input" where
  "waker_wake W inp = (case wk_take W (in_waker inp) of
      (w, None) \<Rightarrow> inp\<lparr>in_waker := w\<rparr>
    | (w, Some task) \<Rightarrow> inp\<lparr>in_waker := w, in_woken := in_woken inp @ [task]\<rparr>)"

definition desktop_action :: "'q queue_ops \<Rightarrow> 'w waker_ops \<Rightarrow> InputEvent \<Rightarrow> ('q, 'w) Input \<Rightarrow> ('q, 'w) Input" where
  "desktop_action Q W event inp = (case in_queue inp of
      None \<Rightarrow> inp
    | Some q \<Rightarrow> waker_wake W (case q_push Q q event of
          Some q' \<Rightarrow> inp\<lparr>in_queue := Some q'\<rparr>
        | None \<Rightarrow> inp))"

definition add_scancode :: "'q queue_ops \<Rightarrow> 'w waker_ops \<Rightarrow> u8 \<Rightarrow> ('q, 'w) Input \<Rightarrow> ('q, 'w) Input" where
  "add_scancode Q W scancode inp = (case in_queue inp of
      None \<Rightarrow> inp
    | Some q \<Rightarrow> waker_wake W (case q_push Q q (Scancode scancode) of
          Some q' \<Rightarrow> inp\<lparr>in_queue := Some q'\<rparr>
        | None \<Rightarrow> inp\<lparr>in_dropped := in_dropped inp + 1\<rparr>))"

text \<open>An event as the interrupt handlers deliver it.\<close>

definition input_irq :: "'q queue_ops \<Rightarrow> 'w waker_ops \<Rightarrow> InputEvent \<Rightarrow> ('q, 'w) Input \<Rightarrow> ('q, 'w) Input" where
  "input_irq Q W event = (case event of Scancode b \<Rightarrow> add_scancode Q W b | _ \<Rightarrow> desktop_action Q W event)"

text \<open>\<open>ScancodeStream::new\<close>, which panics on a second call.\<close>

definition stream_new :: "'q queue_ops \<Rightarrow> ('q, 'w) Input \<Rightarrow> ('q, 'w) Input option" where
  "stream_new Q inp = (case in_queue inp of
      None \<Rightarrow> Some (inp\<lparr>in_queue := Some (q_new Q 100)\<rparr>)
    | Some _ \<Rightarrow> None)"

text \<open>\<open>poll_next\<close> for a task; the events that interrupts deliver before the registration and between
  it and the second \<open>pop\<close> are arguments. The result \<open>None\<close> is \<open>Poll::Pending\<close>.\<close>

definition poll_next :: "'q queue_ops \<Rightarrow> 'w waker_ops \<Rightarrow> nat \<Rightarrow> InputEvent list \<Rightarrow> InputEvent list
    \<Rightarrow> ('q, 'w) Input \<Rightarrow> (('q, 'w) Input \<times> InputEvent option) option" where
  "poll_next Q W task irqs1 irqs2 inp = do {
     q \<leftarrow> in_queue inp;
     (case q_pop Q q of
        Some (q', event) \<Rightarrow> Some (inp\<lparr>in_queue := Some q'\<rparr>, Some event)
      | None \<Rightarrow> do {
          let inp = fold (input_irq Q W) irqs1 inp;
          let inp = inp\<lparr>in_waker := wk_register W (in_waker inp) task\<rparr>;
          let inp = fold (input_irq Q W) irqs2 inp;
          q \<leftarrow> in_queue inp;
          (case q_pop Q q of
             Some (q', event) \<Rightarrow> Some (inp\<lparr>in_queue := Some q', in_waker := fst (wk_take W (in_waker inp))\<rparr>, Some event)
           | None \<Rightarrow> Some (inp, None))
        })
   }"

section \<open>The contracts of the parameters\<close>

locale array_queue =
  fixes Q :: "('q, 'x) array_queue_ops"
    and items :: "'q \<Rightarrow> 'x list"
    and cap :: "'q \<Rightarrow> nat"
  assumes q_new_spec: "0 < n \<Longrightarrow> items (q_new Q n) = [] \<and> cap (q_new Q n) = n"
    and q_push_fits: "length (items q) < cap q \<Longrightarrow>
      \<exists>q'. q_push Q q e = Some q' \<and> items q' = items q @ [e] \<and> cap q' = cap q"
    and q_push_full: "cap q \<le> length (items q) \<Longrightarrow> q_push Q q e = None"
    and q_pop_some: "items q = x # xs \<Longrightarrow> \<exists>q'. q_pop Q q = Some (q', x) \<and> items q' = xs \<and> cap q' = cap q"
    and q_pop_none: "items q = [] \<Longrightarrow> q_pop Q q = None"
    and q_is_empty_spec: "q_is_empty Q q \<longleftrightarrow> items q = []"

locale atomic_waker =
  fixes W :: "'w waker_ops"
    and registered :: "'w \<Rightarrow> nat option"
  assumes wk_new_spec: "registered (wk_new W) = None"
    and wk_register_spec: "registered (wk_register W w t) = Some t"
    and wk_take_spec: "snd (wk_take W w) = registered w \<and> registered (fst (wk_take W w)) = None"

locale input_queue = array_queue Q items cap
  for Q :: "'q queue_ops" and items cap

locale input_stream = input_queue Q items cap + atomic_waker W registered
  for Q :: "'q queue_ops" and items cap and W :: "'w waker_ops" and registered
begin

text \<open>The pending events of an initialised input, and its invariant.\<close>

lemma wake_simps:
  "in_queue (waker_wake W inp) = in_queue inp" "in_dropped (waker_wake W inp) = in_dropped inp"
  "registered (in_waker (waker_wake W inp)) = None"
  "in_woken (waker_wake W inp) = in_woken inp @ (case registered (in_waker inp) of None \<Rightarrow> [] | Some t \<Rightarrow> [t])"
  using wk_take_spec [of "in_waker inp"]
  by (auto simp: waker_wake_def split: prod.split option.split)

lemma irq_fits:
  assumes "in_queue inp = Some q" "length (items q) < cap q"
  shows "\<exists>q'. in_queue (input_irq Q W e inp) = Some q' \<and> items q' = items q @ [e] \<and> cap q' = cap q
    \<and> in_dropped (input_irq Q W e inp) = in_dropped inp"
  using q_push_fits [OF assms(2), of e] assms(1)
  by (cases e) (auto simp: input_irq_def add_scancode_def desktop_action_def wake_simps)

lemma irq_full:
  assumes "in_queue inp = Some q" "cap q \<le> length (items q)"
  shows "in_queue (input_irq Q W e inp) = Some q
    \<and> in_dropped (input_irq Q W e inp) = in_dropped inp + (case e of Scancode _ \<Rightarrow> 1 | _ \<Rightarrow> 0)"
  using q_push_full [OF assms(2), of e] assms(1)
  by (cases e) (auto simp: input_irq_def add_scancode_def desktop_action_def wake_simps)

lemma irq_wakes:
  assumes "in_queue inp = Some q"
  shows "registered (in_waker (input_irq Q W e inp)) = None"
    "in_woken (input_irq Q W e inp) = in_woken inp @ (case registered (in_waker inp) of None \<Rightarrow> [] | Some t \<Rightarrow> [t])"
  using assms
  by (auto simp: input_irq_def add_scancode_def desktop_action_def wake_simps
      split: InputEvent.split option.split)

text \<open>Any number of interrupts: a prefix of the events fits, the queue keeps its order.\<close>

lemma irqs_queue:
  assumes "in_queue inp = Some q" "length (items q) \<le> cap q"
  shows "\<exists>q' r. in_queue (fold (input_irq Q W) evs inp) = Some q' \<and> cap q' = cap q \<and> items q' = items q @ r
    \<and> length (items q') \<le> cap q \<and> r = take (cap q - length (items q)) evs"
  using assms
proof (induction evs arbitrary: inp q)
  case (Cons e evs)
  show ?case
  proof (cases "length (items q) < cap q")
    case True
    obtain q1 where q1: "in_queue (input_irq Q W e inp) = Some q1" "items q1 = items q @ [e]" "cap q1 = cap q"
      using irq_fits [OF Cons.prems(1) True] by blast
    obtain q' where q': "in_queue (fold (input_irq Q W) evs (input_irq Q W e inp)) = Some q'" "cap q' = cap q"
      "items q' = items q @ e # take (cap q - Suc (length (items q))) evs" "length (items q') \<le> cap q"
      using Cons.IH [OF q1(1)] q1 True by auto
    obtain k where k: "cap q - length (items q) = Suc k" using True by (metis Suc_diff_Suc)
    then have "k = cap q - Suc (length (items q))" by simp
    then have "take (cap q - length (items q)) (e # evs) = e # take (cap q - Suc (length (items q))) evs"
      using k by simp
    then show ?thesis using q' by simp
  next
    case False
    then have "in_queue (input_irq Q W e inp) = Some q" using irq_full [OF Cons.prems(1), of e] by simp
    then show ?thesis using Cons.IH [of "input_irq Q W e inp" q] Cons.prems False by simp
  qed
qed simp

lemma irqs_dropped:
  assumes "in_queue inp = Some q" "length (items q) \<le> cap q"
  shows "in_dropped (fold (input_irq Q W) evs inp) = in_dropped inp
    + of_nat (length (filter (\<lambda>e. case e of Scancode _ \<Rightarrow> True | _ \<Rightarrow> False) (drop (cap q - length (items q)) evs)))"
  using assms
proof (induction evs arbitrary: inp q)
  case (Cons e evs)
  show ?case
  proof (cases "length (items q) < cap q")
    case True
    obtain q1 where q1: "in_queue (input_irq Q W e inp) = Some q1" "items q1 = items q @ [e]" "cap q1 = cap q"
      "in_dropped (input_irq Q W e inp) = in_dropped inp"
      using irq_fits [OF Cons.prems(1) True] by blast
    obtain k where k: "cap q - length (items q) = Suc k" using True by (metis Suc_diff_Suc)
    then have "k = cap q - Suc (length (items q))" by simp
    then show ?thesis using Cons.IH [OF q1(1)] q1 k True by simp
  next
    case False
    then have f: "in_queue (input_irq Q W e inp) = Some q"
      "in_dropped (input_irq Q W e inp) = in_dropped inp + (case e of Scancode _ \<Rightarrow> 1 | _ \<Rightarrow> 0)"
      using irq_full [OF Cons.prems(1), of e] by simp_all
    then show ?thesis using Cons.IH [OF f(1)] Cons.prems False by (auto split: InputEvent.split)
  qed
qed simp

lemma poll_ready:
  assumes "in_queue inp = Some q" "items q = x # xs"
  shows "\<exists>q'. poll_next Q W task irqs1 irqs2 inp = Some (inp\<lparr>in_queue := Some q'\<rparr>, Some x) \<and> items q' = xs \<and> cap q' = cap q"
  using q_pop_some [OF assms(2)] assms(1) by (auto simp: poll_next_def)

lemma poll_pending:
  assumes "in_queue inp = Some q" "items q = []"
  shows "poll_next Q W task [] [] inp = Some (inp\<lparr>in_waker := wk_register W (in_waker inp) task\<rparr>, None)"
  using q_pop_none [OF assms(2)] assms(1) by (simp add: poll_next_def)

text \<open>An event that arrives while the stream is polled is returned by this very poll.\<close>

lemma poll_interrupted:
  assumes q: "in_queue inp = Some q" "items q = []" "0 < cap q" and e: "irqs1 @ irqs2 = e # es"
  shows "\<exists>inp'. poll_next Q W task irqs1 irqs2 inp = Some (inp', Some e)"
proof -
  let ?i1 = "fold (input_irq Q W) irqs1 inp"
  obtain q1 where q1: "in_queue ?i1 = Some q1" "cap q1 = cap q" "items q1 = take (cap q) irqs1"
    using irqs_queue [OF q(1), of irqs1] q(2) by auto
  let ?i2 = "?i1\<lparr>in_waker := wk_register W (in_waker ?i1) task\<rparr>"
  have "in_queue ?i2 = Some q1" using q1(1) by simp
  from irqs_queue [OF this, of irqs2] obtain q2 where q2: "in_queue (fold (input_irq Q W) irqs2 ?i2) = Some q2"
    "items q2 = take (cap q) irqs1 @ take (cap q - length (items q1)) irqs2"
    using q1 by auto
  have "items q2 = take (cap q) (irqs1 @ irqs2)" using q2(2) q1(3) by (simp add: min_def)
  then obtain xs where "items q2 = e # xs" using e q(3) by (cases "cap q") auto
  from q_pop_some [OF this] obtain q3 where "q_pop Q q2 = Some (q3, e)" by blast
  then show ?thesis using q q_pop_none [OF q(2)] q1(1) q2(1) by (simp add: poll_next_def Let_def)
qed

text \<open>An event between registration and the second \<open>pop\<close> is returned and has woken the task.\<close>

lemma poll_woken:
  assumes q: "in_queue inp = Some q" "items q = []" "0 < cap q" and w: "registered (in_waker inp) = None"
  shows "\<exists>inp' q'. poll_next Q W task [] [e] inp = Some (inp', Some e) \<and> in_queue inp' = Some q' \<and> items q' = []
    \<and> cap q' = cap q \<and> in_woken inp' = in_woken inp @ [task] \<and> registered (in_waker inp') = None"
proof -
  let ?i = "inp\<lparr>in_waker := wk_register W (in_waker inp) task\<rparr>"
  have iq: "in_queue ?i = Some q" using q(1) by simp
  have "length (items q) < cap q" using q(2,3) by simp
  from irq_fits [OF iq this, of e] obtain q1 where q1: "in_queue (input_irq Q W e ?i) = Some q1" "items q1 = [e]" "cap q1 = cap q"
    using q(2) by auto
  obtain q2 where q2: "q_pop Q q1 = Some (q2, e)" "items q2 = []" "cap q2 = cap q1" using q_pop_some [OF q1(2)] by blast
  have "in_woken (input_irq Q W e ?i) = in_woken inp @ [task]"
    using irq_wakes(2) [OF iq] wk_register_spec by simp
  then show ?thesis
    using q(1) q_pop_none [OF q(2)] q1 q2 wk_take_spec by (simp add: poll_next_def Let_def)
qed

lemma woken_each_time:
  assumes "in_queue inp = Some q" "items q = []" "0 < cap q" "registered (in_waker inp) = None"
  shows "\<exists>inp'. for_each (\<lambda>b inp. map_option fst (poll_next Q W task [] [Scancode b] inp)) (replicate n b) inp = Some inp'
    \<and> in_woken inp' = in_woken inp @ replicate n task"
  using assms
proof (induction n arbitrary: inp q)
  case (Suc n)
  obtain inp1 q1 where i: "poll_next Q W task [] [Scancode b] inp = Some (inp1, Some (Scancode b))" "in_queue inp1 = Some q1"
    "items q1 = []" "cap q1 = cap q" "in_woken inp1 = in_woken inp @ [task]" "registered (in_waker inp1) = None"
    using poll_woken [OF Suc.prems, of task "Scancode b"] by blast
  have "0 < cap q1" using i(4) Suc.prems(3) by simp
  from Suc.IH [OF i(2,3) this i(6)] show ?case using i(1,5) by auto
qed simp

lemma pending_state:
  assumes q: "in_queue inp = Some q" "0 < cap q" and p: "poll_next Q W task irqs1 irqs2 inp = Some (inp', None)"
  shows "items q = [] \<and> irqs1 = [] \<and> irqs2 = [] \<and> inp' = inp\<lparr>in_waker := wk_register W (in_waker inp) task\<rparr>"
proof -
  have e: "items q = []"
  proof (cases "items q")
    case (Cons x xs)
    then show ?thesis using poll_ready [OF q(1) Cons, of task irqs1 irqs2] p by auto
  qed simp
  have "irqs1 @ irqs2 = []"
  proof (cases "irqs1 @ irqs2")
    case (Cons x xs)
    then show ?thesis using poll_interrupted [OF q(1) e q(2) Cons, of task] p by auto
  qed simp
  then show ?thesis using e p poll_pending [OF q(1) e] by auto
qed

end

text \<open>Polling until nothing is pending, for the statements below.\<close>

fun poll_all :: "'q queue_ops \<Rightarrow> 'w waker_ops \<Rightarrow> nat \<Rightarrow> nat \<Rightarrow> ('q, 'w) Input \<Rightarrow> InputEvent list option" where
  "poll_all Q W task 0 inp = Some []"
| "poll_all Q W task (Suc n) inp = do {
     (inp', r) \<leftarrow> poll_next Q W task [] [] inp;
     (case r of None \<Rightarrow> Some [] | Some e \<Rightarrow> do { es \<leftarrow> poll_all Q W task n inp'; Some (e # es) })
   }"

context input_stream
begin

lemma poll_all_items:
  "\<lbrakk>in_queue inp = Some q; length (items q) < n\<rbrakk> \<Longrightarrow> poll_all Q W task n inp = Some (items q)"
proof (induction n arbitrary: inp q)
  case (Suc n)
  show ?case
  proof (cases "items q")
    case Nil
    then show ?thesis using poll_pending [OF Suc.prems(1) Nil] by simp
  next
    case (Cons x xs)
    obtain q' where q': "poll_next Q W task [] [] inp = Some (inp\<lparr>in_queue := Some q'\<rparr>, Some x)" "items q' = xs"
      using poll_ready [OF Suc.prems(1) Cons] by blast
    then show ?thesis using Suc.IH [of "inp\<lparr>in_queue := Some q'\<rparr>" q'] Suc.prems(2) Cons by simp
  qed
qed simp

end

section \<open>A reference queue and waker\<close>

definition list_queue :: "(nat \<times> 'x list, 'x) array_queue_ops" where
  "list_queue = \<lparr>q_new = (\<lambda>n. (n, [])),
     q_push = (\<lambda>(n, xs) e. if length xs < n then Some (n, xs @ [e]) else None),
     q_pop = (\<lambda>(n, xs). case xs of [] \<Rightarrow> None | x # xs' \<Rightarrow> Some ((n, xs'), x)),
     q_is_empty = (\<lambda>(n, xs). xs = [])\<rparr>"

interpretation list_queue: array_queue list_queue snd fst
  by unfold_locales (auto simp: list_queue_def split: if_splits)

definition slot_waker :: "nat option waker_ops" where
  "slot_waker = \<lparr>wk_new = None, wk_register = (\<lambda>_ t. Some t), wk_take = (\<lambda>w. (None, w))\<rparr>"

interpretation list_stream: input_stream list_queue snd fst slot_waker id
  by unfold_locales (simp_all add: slot_waker_def)

section \<open>Properties\<close>

text \<open>No wake-up is lost. When \<open>poll_next\<close> returns \<open>Pending\<close>, the queue was empty and no interrupt
  came in between (an event that did arrive would have been returned), and the task is registered:
  the next event of any kind, dropped or not, wakes it.\<close>

theorem no_lost_wakeup:
  assumes "input_stream Q items cap W registered" "in_queue inp = Some q" "0 < cap q"
    "poll_next Q W task irqs1 irqs2 inp = Some (inp', None)"
  shows "items q = [] \<and> irqs1 = [] \<and> irqs2 = []
    \<and> in_woken (input_irq Q W e inp') = in_woken inp' @ [task]"
proof -
  note p = input_stream.pending_state [OF assms]
  then have "in_queue inp' = Some q" "registered (in_waker inp') = Some task"
    using assms(2) atomic_waker.wk_register_spec [of W registered] assms(1) by (auto simp: input_stream_def)
  then show ?thesis using p input_stream.irq_wakes(2) [OF assms(1)] by simp
qed

theorem no_lost_wakeup_witness:
  "\<exists>inp inp'. stream_new list_queue (input_new slot_waker) = Some inp
    \<and> poll_next list_queue slot_waker 7 [] [] inp = Some (inp', None)
    \<and> in_woken (input_irq list_queue slot_waker (Scancode 30) inp') = in_woken inp' @ [7]"
proof -
  let ?i = "(input_new slot_waker)\<lparr>in_queue := Some (100, [])\<rparr>"
  have i: "stream_new list_queue (input_new slot_waker) = Some ?i"
    by (simp add: stream_new_def input_new_def list_queue_def)
  have q: "in_queue ?i = Some (100, [])" "(0::nat) < fst (100::nat, []::InputEvent list)" by simp_all
  have p: "poll_next list_queue slot_waker 7 [] [] ?i = Some (?i\<lparr>in_waker := Some 7\<rparr>, None)"
    using list_stream.poll_pending [OF q(1)] by (simp add: slot_waker_def)
  from no_lost_wakeup [OF list_stream.input_stream_axioms q p, of "Scancode 30"] i p show ?thesis by blast
qed

text \<open>C24: Input is delivered in order and never silently. Of the events that interrupts deliver after
  the stream is created the first hundred are returned by polling, in their order, and the counter
  of dropped scancodes is the number of scancodes among the others.\<close>

theorem input_fifo_and_counted:
  assumes "input_stream Q items cap W registered" "in_queue inp0 = None" "stream_new Q inp0 = Some inp"
  shows "poll_all Q W task 101 (fold (input_irq Q W) events inp) = Some (take 100 events)
    \<and> in_dropped (fold (input_irq Q W) events inp) = in_dropped inp
      + of_nat (length (filter (\<lambda>e. case e of Scancode _ \<Rightarrow> True | _ \<Rightarrow> False) (drop 100 events)))"
proof -
  have q: "in_queue inp = Some (q_new Q 100)" using assms(2,3) by (auto simp: stream_new_def)
  have n: "items (q_new Q 100) = []" "cap (q_new Q 100) = 100"
    using array_queue.q_new_spec [of Q items cap 100] assms(1) by (simp_all add: input_stream_def input_queue_def)
  obtain q' where q': "in_queue (fold (input_irq Q W) events inp) = Some q'" "items q' = take 100 events"
    using input_stream.irqs_queue [OF assms(1) q, of events] n by auto
  have "length (items q') < 101" using q'(2) by simp
  then have "poll_all Q W task 101 (fold (input_irq Q W) events inp) = Some (items q')"
    using input_stream.poll_all_items [OF assms(1) q'(1)] by blast
  then show ?thesis using q'(2) input_stream.irqs_dropped [OF assms(1) q, of events] n by simp
qed

theorem input_fifo_and_counted_witness:
  "\<exists>inp. stream_new list_queue (input_new slot_waker) = Some inp
    \<and> poll_all list_queue slot_waker 0 101 (fold (input_irq list_queue slot_waker) (replicate 103 (Scancode 30)) inp)
      = Some (replicate 100 (Scancode 30))
    \<and> in_dropped (fold (input_irq list_queue slot_waker) (replicate 103 (Scancode 30)) inp) = 3"
proof -
  have i: "in_queue (input_new slot_waker :: (nat \<times> InputEvent list, nat option) Input) = None"
    "stream_new list_queue (input_new slot_waker) = Some ((input_new slot_waker)\<lparr>in_queue := Some (100, [])\<rparr>)"
    by (simp_all add: stream_new_def input_new_def list_queue_def)
  show ?thesis
    using input_fifo_and_counted [OF list_stream.input_stream_axioms i, of 0 "replicate 103 (Scancode 30)"] i(2)
    by (simp add: input_new_def)
qed

end
