(* ===== verification/Executor.thy ===== *)
theory Executor
  imports Keyboard
begin

text \<open>
  The executors of \<^verbatim>\<open>src/src/task/executor.rs\<close> and \<^verbatim>\<open>src/src/task/simple_executor.rs\<close> and the task identifiers
  of \<^verbatim>\<open>src/src/task/mod.rs\<close>. A future is a parameter: polling it changes the rest of the system, and
  either finishes it or leaves the future to be polled again. For the executor a poll also tells
  which tasks are woken while it runs, by the future itself or by interrupts, in their order; each
  of them is a call of \<open>wake_task\<close>. The queue of ready tasks is the crate's \<open>ArrayQueue\<close>, a parameter
  with the laws of the locale \<open>array_queue\<close>.
\<close>

section \<open>Task identifiers\<close>

text \<open>\<open>TaskId::new\<close>: the identifier and the next value of the counter.\<close>

definition task_id_new :: "u64 \<Rightarrow> u64 \<times> u64" where
  "task_id_new next_id = (next_id, next_id + 1)"

section \<open>The executor\<close>

record ('q, 'f, 's) Executor =
  ex_tasks :: "u64 \<rightharpoonup> 'f"
  ex_queue :: 'q
  ex_wakers :: "u64 set"
  ex_world :: 's

type_synonym 'q task_queue = "('q, u64) array_queue_ops"

text \<open>Polling: the new world, the future if it is still pending, the tasks woken meanwhile.\<close>

type_synonym ('f, 's) poll_fn = "u64 \<Rightarrow> 'f \<Rightarrow> 's \<Rightarrow> 's \<times> 'f option \<times> u64 list"

definition executor_new :: "'q task_queue \<Rightarrow> 's \<Rightarrow> ('q, 'f, 's) Executor" where
  "executor_new Q s = \<lparr>ex_tasks = Map.empty, ex_queue = q_new Q 100, ex_wakers = {}, ex_world = s\<rparr>"

definition spawn :: "'q task_queue \<Rightarrow> u64 \<times> 'f \<Rightarrow> ('q, 'f, 's) Executor \<Rightarrow> ('q, 'f, 's) Executor option" where
  "spawn Q task ex = do {
     rust_assert (fst task \<notin> dom (ex_tasks ex));
     q \<leftarrow> q_push Q (ex_queue ex) (fst task);
     Some (ex\<lparr>ex_tasks := (ex_tasks ex)(fst task \<mapsto> snd task), ex_queue := q\<rparr>)
   }"

definition wake_task :: "'q task_queue \<Rightarrow> u64 \<Rightarrow> 'q \<Rightarrow> 'q option" where
  "wake_task Q task_id q = q_push Q q task_id"

text \<open>What becomes of a task taken from the queue: nothing if it no longer exists; otherwise its
  waker is cached, it is polled, and removed with its waker when it is finished.\<close>

definition run_task :: "'q task_queue \<Rightarrow> ('f, 's) poll_fn \<Rightarrow> u64 \<Rightarrow> ('q, 'f, 's) Executor \<Rightarrow> ('q, 'f, 's) Executor option" where
  "run_task Q P task_id ex = (case ex_tasks ex task_id of
      None \<Rightarrow> Some ex
    | Some f \<Rightarrow> (case P task_id f (ex_world ex) of (s, rest, woken) \<Rightarrow> do {
        let ex = ex\<lparr>ex_wakers := insert task_id (ex_wakers ex)\<rparr>;
        q \<leftarrow> for_each (wake_task Q) woken (ex_queue ex);
        let ex = ex\<lparr>ex_queue := q, ex_world := s\<rparr>;
        Some (case rest of
            None \<Rightarrow> ex\<lparr>ex_tasks := (ex_tasks ex)(task_id := None), ex_wakers := ex_wakers ex - {task_id}\<rparr>
          | Some f' \<Rightarrow> ex\<lparr>ex_tasks := (ex_tasks ex)(task_id \<mapsto> f')\<rparr>)
      }))"

text \<open>The loop over the ready tasks; it may run forever when tasks keep waking each other.\<close>

partial_function (option) run_ready_tasks :: "'q task_queue \<Rightarrow> ('f, 's) poll_fn \<Rightarrow> ('q, 'f, 's) Executor \<Rightarrow> ('q, 'f, 's) Executor option" where
  "run_ready_tasks Q P ex = (case q_pop Q (ex_queue ex) of
      None \<Rightarrow> Some ex
    | Some (q, task_id) \<Rightarrow> do {
        ex' \<leftarrow> run_task Q P task_id (ex\<lparr>ex_queue := q\<rparr>);
        run_ready_tasks Q P ex'
      })"

section \<open>Sleeping\<close>

text \<open>The control flow of \<open>run\<close> with the interrupt flag: \<open>run_ready_tasks\<close>, then the statements of
  \<open>sleep_if_idle\<close>. A wake-up comes from an interrupt handler, hence only with interrupts enabled; it
  also ends the halt. The processor executes \<open>sti; hlt\<close> as one step.\<close>

datatype exec_pc = RunReady | DisableInterrupts | CheckQueue | EnableAndHlt | EnableInterrupts | Asleep | Panicked

record 'q Sleep =
  sl_pc :: exec_pc
  sl_enabled :: bool
  sl_queue :: 'q

inductive sleep_step :: "'q task_queue \<Rightarrow> 'q Sleep \<Rightarrow> 'q Sleep \<Rightarrow> bool" for Q where
  poll_task: "sl_pc x = RunReady \<Longrightarrow> q_pop Q (sl_queue x) = Some (q, t) \<Longrightarrow> sleep_step Q x (x\<lparr>sl_queue := q\<rparr>)"
| none_ready: "sl_pc x = RunReady \<Longrightarrow> q_pop Q (sl_queue x) = None \<Longrightarrow> sleep_step Q x (x\<lparr>sl_pc := DisableInterrupts\<rparr>)"
| disable: "sl_pc x = DisableInterrupts \<Longrightarrow> sleep_step Q x (x\<lparr>sl_pc := CheckQueue, sl_enabled := False\<rparr>)"
| check_empty: "sl_pc x = CheckQueue \<Longrightarrow> q_is_empty Q (sl_queue x) \<Longrightarrow> sleep_step Q x (x\<lparr>sl_pc := EnableAndHlt\<rparr>)"
| check_ready: "sl_pc x = CheckQueue \<Longrightarrow> \<not> q_is_empty Q (sl_queue x) \<Longrightarrow> sleep_step Q x (x\<lparr>sl_pc := EnableInterrupts\<rparr>)"
| enable: "sl_pc x = EnableInterrupts \<Longrightarrow> sleep_step Q x (x\<lparr>sl_pc := RunReady, sl_enabled := True\<rparr>)"
| halt: "sl_pc x = EnableAndHlt \<Longrightarrow> sleep_step Q x (x\<lparr>sl_pc := Asleep, sl_enabled := True\<rparr>)"
| irq_wake: "sl_enabled x \<Longrightarrow> sl_pc x \<noteq> Panicked \<Longrightarrow> wake_task Q t (sl_queue x) = Some q \<Longrightarrow>
    sleep_step Q x (x\<lparr>sl_queue := q, sl_pc := (if sl_pc x = Asleep then RunReady else sl_pc x)\<rparr>)"
| irq_full: "sl_enabled x \<Longrightarrow> wake_task Q t (sl_queue x) = None \<Longrightarrow> sleep_step Q x (x\<lparr>sl_pc := Panicked\<rparr>)"
| irq_other: "sl_enabled x \<Longrightarrow> sl_pc x = Asleep \<Longrightarrow> sleep_step Q x (x\<lparr>sl_pc := RunReady\<rparr>)"

inductive_cases sleep_stepE: "sleep_step Q x y"

definition sleep_start :: "'q \<Rightarrow> 'q Sleep" where
  "sleep_start q = \<lparr>sl_pc = RunReady, sl_enabled = True, sl_queue = q\<rparr>"

section \<open>The simple executor\<close>

type_synonym ('f, 's) simple_poll = "'f \<Rightarrow> 's \<Rightarrow> 's \<times> 'f option"

definition simple_new :: "'f list" where
  "simple_new = []"

definition simple_spawn :: "'f \<Rightarrow> 'f list \<Rightarrow> 'f list" where
  "simple_spawn task task_queue = task_queue @ [task]"

text \<open>Its waker does nothing, so a poll has no other effect than that of the future.\<close>

partial_function (option) simple_run :: "('f, 's) simple_poll \<Rightarrow> 'f list \<Rightarrow> 's \<Rightarrow> 's option" where
  "simple_run P task_queue s = (case task_queue of
      [] \<Rightarrow> Some s
    | task # rest \<Rightarrow> (case P task s of
        (s', None) \<Rightarrow> simple_run P rest s'
      | (s', Some task') \<Rightarrow> simple_run P (rest @ [task']) s'))"

section \<open>Lemmas\<close>

text \<open>Spawning one future after the other, with identifiers from the counter.\<close>

fun spawn_all :: "'q task_queue \<Rightarrow> 'f list \<Rightarrow> u64 \<Rightarrow> ('q, 'f, 's) Executor \<Rightarrow> (u64 \<times> ('q, 'f, 's) Executor) option" where
  "spawn_all Q [] next_id ex = Some (next_id, ex)"
| "spawn_all Q (f # fs) next_id ex = (case task_id_new next_id of (task_id, next_id') \<Rightarrow> do {
     ex' \<leftarrow> spawn Q (task_id, f) ex;
     spawn_all Q fs next_id' ex'
   })"

lemma ids_fresh: "n \<le> 100 \<Longrightarrow> (of_nat n :: u64) \<notin> of_nat ` {..<n}"
proof
  assume n: "n \<le> 100" and "(of_nat n :: u64) \<in> of_nat ` {..<n}"
  then obtain m where m: "m < n" "(of_nat n :: u64) = of_nat m" by auto
  from m(2) have "take_bit 64 n = take_bit 64 m" by (simp add: word_of_nat_eq_iff)
  moreover have "take_bit 64 n = n" "take_bit 64 m = m" using n m(1) by (simp_all add: take_bit_nat_eq_self_iff)
  ultimately show False using m(1) by simp
qed

locale task_queues = array_queue Q items cap
  for Q :: "'q task_queue" and items cap
begin

lemma wakes_fit:
  "length (items q) + length ids \<le> cap q \<Longrightarrow>
    \<exists>q'. for_each (wake_task Q) ids q = Some q' \<and> items q' = items q @ ids \<and> cap q' = cap q"
proof (induction ids arbitrary: q)
  case (Cons x ids)
  obtain q1 where "q_push Q q x = Some q1" "items q1 = items q @ [x]" "cap q1 = cap q"
    using q_push_fits [of q x] Cons.prems by auto
  then show ?case using Cons.IH [of q1] Cons.prems by (simp add: wake_task_def)
qed simp

lemma wakes_overflow:
  "length (items q) \<le> cap q \<Longrightarrow> cap q < length (items q) + length ids \<Longrightarrow> for_each (wake_task Q) ids q = None"
proof (induction ids arbitrary: q)
  case (Cons x ids)
  show ?case
  proof (cases "length (items q) < cap q")
    case True
    obtain q1 where "q_push Q q x = Some q1" "items q1 = items q @ [x]" "cap q1 = cap q" using q_push_fits [OF True] by blast
    then show ?thesis using Cons.IH [of q1] Cons.prems True by (simp add: wake_task_def)
  next
    case False
    then show ?thesis using q_push_full [of q x] by (simp add: wake_task_def)
  qed
qed simp

lemma spawn_all_spec:
  assumes "dom (ex_tasks ex) = of_nat ` {..<n}" "items (ex_queue ex) = map of_nat [0..<n]" "cap (ex_queue ex) = 100" "n \<le> 100"
  shows "if n + length fs \<le> 100
    then \<exists>ex'. spawn_all Q fs (of_nat n) ex = Some (of_nat (n + length fs), ex')
        \<and> items (ex_queue ex') = map of_nat [0..<n + length fs] \<and> dom (ex_tasks ex') = of_nat ` {..<n + length fs}
    else spawn_all Q fs (of_nat n) ex = None"
  using assms
proof (induction fs arbitrary: n ex)
  case (Cons f fs)
  have fresh: "of_nat n \<notin> dom (ex_tasks ex)" using ids_fresh [OF Cons.prems(4)] Cons.prems(1) by simp
  show ?case
  proof (cases "n < 100")
    case True
    obtain q where q: "q_push Q (ex_queue ex) (of_nat n) = Some q" "items q = map of_nat [0..<Suc n]" "cap q = 100"
      using q_push_fits [of "ex_queue ex" "of_nat n"] Cons.prems True by auto
    let ?ex = "ex\<lparr>ex_tasks := (ex_tasks ex)(of_nat n \<mapsto> f), ex_queue := q\<rparr>"
    have s: "spawn Q (of_nat n, f) ex = Some ?ex" using fresh q(1) by (simp add: spawn_def rust_assert_def)
    have d: "dom (ex_tasks ?ex) = of_nat ` {..<Suc n}" using Cons.prems(1) by (simp add: lessThan_Suc)
    have eq: "spawn_all Q (f # fs) (of_nat n) ex = spawn_all Q fs (of_nat (Suc n)) ?ex"
      "n + length (f # fs) = Suc n + length fs"
      using s by (simp_all add: task_id_new_def add.commute)
    show ?thesis unfolding eq using Cons.IH [OF d] q(2,3) True by simp
  next
    case False
    then have "q_push Q (ex_queue ex) (of_nat n) = None" using q_push_full Cons.prems by simp
    then show ?thesis using False Cons.prems(4) by (simp add: spawn_def task_id_new_def rust_assert_def)
  qed
qed simp

end

text \<open>Polls whose wake-ups are paid for by a finite supply of energy, such as the interrupts that are
  still to come.\<close>

definition poll_pays :: "('s \<Rightarrow> nat) \<Rightarrow> ('f, 's) poll_fn \<Rightarrow> bool" where
  "poll_pays energy P \<longleftrightarrow> (\<forall>task_id f s. case P task_id f s of (s', rest, woken) \<Rightarrow> energy s' + length woken \<le> energy s)"

definition wakers_ok :: "('q, 'f, 's) Executor \<Rightarrow> bool" where
  "wakers_ok ex \<longleftrightarrow> ex_wakers ex \<subseteq> dom (ex_tasks ex)"

context task_queues
begin

lemma run_task_spec:
  assumes pays: "poll_pays energy P" and room: "length (items (ex_queue ex)) + energy (ex_world ex) \<le> cap (ex_queue ex)"
  shows "\<exists>ex' woken. run_task Q P task_id ex = Some ex' \<and> items (ex_queue ex') = items (ex_queue ex) @ woken
    \<and> cap (ex_queue ex') = cap (ex_queue ex) \<and> energy (ex_world ex') + length woken \<le> energy (ex_world ex)
    \<and> dom (ex_tasks ex') \<subseteq> dom (ex_tasks ex) \<and> (wakers_ok ex \<longrightarrow> wakers_ok ex')"
proof (cases "ex_tasks ex task_id")
  case None
  then show ?thesis by (auto simp: run_task_def)
next
  case (Some f)
  obtain s rest woken where p: "P task_id f (ex_world ex) = (s, rest, woken)" by (metis prod_cases3)
  have e: "energy s + length woken \<le> energy (ex_world ex)"
    using pays p by (simp add: poll_pays_def) (metis (mono_tags, lifting) case_prod_conv)
  obtain q where q: "for_each (wake_task Q) woken (ex_queue ex) = Some q" "items q = items (ex_queue ex) @ woken"
    "cap q = cap (ex_queue ex)" using wakes_fit [of "ex_queue ex" woken] room e by auto
  show ?thesis
    using Some p q e by (cases rest) (auto simp: run_task_def wakers_ok_def Let_def)
qed

lemma run_ready_spec:
  assumes pays: "poll_pays energy P" and room: "length (items (ex_queue ex)) + energy (ex_world ex) \<le> cap (ex_queue ex)"
  shows "\<exists>ex'. run_ready_tasks Q P ex = Some ex' \<and> items (ex_queue ex') = [] \<and> dom (ex_tasks ex') \<subseteq> dom (ex_tasks ex)
    \<and> energy (ex_world ex') \<le> energy (ex_world ex) \<and> (wakers_ok ex \<longrightarrow> wakers_ok ex')"
  using room
proof (induction "length (items (ex_queue ex)) + energy (ex_world ex)" arbitrary: ex rule: less_induct)
  case less
  show ?case
  proof (cases "items (ex_queue ex)")
    case Nil
    then show ?thesis using q_pop_none [OF Nil] by (simp add: run_ready_tasks.simps)
  next
    case (Cons t ts)
    obtain q where q: "q_pop Q (ex_queue ex) = Some (q, t)" "items q = ts" "cap q = cap (ex_queue ex)"
      using q_pop_some [OF Cons] by blast
    let ?ex = "ex\<lparr>ex_queue := q\<rparr>"
    have "length (items (ex_queue ?ex)) + energy (ex_world ?ex) \<le> cap (ex_queue ?ex)" using less.prems Cons q by simp
    from run_task_spec [OF pays this, of t] obtain ex1 woken where r: "run_task Q P t ?ex = Some ex1"
      "items (ex_queue ex1) = ts @ woken" "cap (ex_queue ex1) = cap (ex_queue ex)"
      "energy (ex_world ex1) + length woken \<le> energy (ex_world ex)" "dom (ex_tasks ex1) \<subseteq> dom (ex_tasks ex)"
      "wakers_ok ?ex \<longrightarrow> wakers_ok ex1"
      using q(2,3) by auto
    have "length (items (ex_queue ex1)) + energy (ex_world ex1) < length (items (ex_queue ex)) + energy (ex_world ex)"
      using r(2,4) Cons by simp
    from less.hyps [OF this] show ?thesis
      using less.prems r q(1) Cons by (fastforce simp: run_ready_tasks.simps [of Q P ex] wakers_ok_def)
  qed
qed

text \<open>The states of the sleeping protocol.\<close>

definition sleep_inv :: "'q Sleep \<Rightarrow> bool" where
  "sleep_inv x \<longleftrightarrow> (sl_pc x \<in> {CheckQueue, EnableAndHlt, EnableInterrupts} \<longrightarrow> \<not> sl_enabled x)
     \<and> (sl_pc x \<in> {EnableAndHlt, Asleep} \<longrightarrow> items (sl_queue x) = [])"

lemma sleep_step_inv: "sleep_step Q x y \<Longrightarrow> sleep_inv x \<Longrightarrow> sleep_inv y"
  by (erule sleep_stepE) (auto simp: sleep_inv_def q_is_empty_spec split: if_splits)

lemma sleep_reachable: "(sleep_step Q)\<^sup>*\<^sup>* (sleep_start q) x \<Longrightarrow> sleep_inv x"
proof (induction rule: rtranclp_induct)
  case base
  show ?case by (simp add: sleep_inv_def sleep_start_def)
next
  case (step y z)
  then show ?case using sleep_step_inv by blast
qed

lemma sleep_progress:
  assumes inv: "sleep_inv x" and r: "items (sl_queue x) \<noteq> []" "sl_pc x \<noteq> Panicked"
  shows "\<exists>y. (sleep_step Q)\<^sup>*\<^sup>* x y \<and> sl_pc y = RunReady \<and> sl_queue y = sl_queue x"
proof -
  have en: "\<exists>y. (sleep_step Q)\<^sup>*\<^sup>* z y \<and> sl_pc y = RunReady \<and> sl_queue y = sl_queue x"
    if "sl_pc z = EnableInterrupts" "sl_queue z = sl_queue x" for z
    using sleep_step.enable [of z Q] that by (intro exI [of _ "z\<lparr>sl_pc := RunReady, sl_enabled := True\<rparr>"]) auto
  have ch: "\<exists>y. (sleep_step Q)\<^sup>*\<^sup>* z y \<and> sl_pc y = RunReady \<and> sl_queue y = sl_queue x"
    if z: "sl_pc z = CheckQueue" "sl_queue z = sl_queue x" for z
  proof -
    have "sleep_step Q z (z\<lparr>sl_pc := EnableInterrupts\<rparr>)"
      by (rule sleep_step.check_ready) (use z r(1) q_is_empty_spec in auto)
    then show ?thesis using en [of "z\<lparr>sl_pc := EnableInterrupts\<rparr>"] z(2) by (auto intro: converse_rtranclp_into_rtranclp)
  qed
  have di: "\<exists>y. (sleep_step Q)\<^sup>*\<^sup>* x y \<and> sl_pc y = RunReady \<and> sl_queue y = sl_queue x" if "sl_pc x = DisableInterrupts"
    using sleep_step.disable [of x Q] that ch [of "x\<lparr>sl_pc := CheckQueue, sl_enabled := False\<rparr>"]
    by (auto intro: converse_rtranclp_into_rtranclp)
  show ?thesis
    using inv r en [of x] ch [of x] di by (cases "sl_pc x") (auto simp: sleep_inv_def)
qed

end

text \<open>The simple executor ends when every future is ready after finitely many polls.\<close>

lemma simple_run_spec:
  fixes rank :: "'f \<Rightarrow> nat"
  assumes "\<And>f s s' f'. P f s = (s', Some f') \<Longrightarrow> rank f' < rank f"
  shows "\<exists>s'. simple_run P fs s = Some s'"
proof (induction "sum_list (map (\<lambda>f. Suc (rank f)) fs)" arbitrary: fs s rule: less_induct)
  case less
  show ?case
  proof (cases fs)
    case (Cons f rest)
    obtain s' r where p: "P f s = (s', r)" by fastforce
    show ?thesis
    proof (cases r)
      case None
      then show ?thesis using less.hyps [of rest s'] Cons p by (simp add: simple_run.simps [of P "f # rest"])
    next
      case (Some f')
      then show ?thesis using less.hyps [of "rest @ [f']" s'] assms [of f s s' f'] Cons p by (simp add: simple_run.simps [of P "f # rest"])
    qed
  qed (simp add: simple_run.simps)
qed

section \<open>Properties\<close>

text \<open>The executor accepts exactly a hundred tasks. Spawning futures with fresh identifiers queues
  them in order; the counter never repeats an identifier that is still in use; the hundred and
  first spawn panics.\<close>

theorem spawn_capacity:
  assumes "array_queue Q items cap"
  shows "if length fs \<le> 100
    then \<exists>ex. spawn_all Q fs 0 (executor_new Q s) = Some (of_nat (length fs), ex)
        \<and> items (ex_queue ex) = map of_nat [0..<length fs] \<and> dom (ex_tasks ex) = of_nat ` {..<length fs}
    else spawn_all Q fs 0 (executor_new Q s) = None"
proof -
  have "task_queues Q items cap" using assms by (simp add: task_queues_def)
  moreover have "dom (ex_tasks (executor_new Q s)) = of_nat ` {..<0}" "items (ex_queue (executor_new Q s)) = map of_nat [0..<0]"
    "cap (ex_queue (executor_new Q s)) = 100"
    using array_queue.q_new_spec [OF assms, of 100] by (simp_all add: executor_new_def)
  ultimately show ?thesis
    using task_queues.spawn_all_spec [of Q items cap "executor_new Q s" 0 fs] by (cases "length fs \<le> 100") simp_all
qed

theorem spawn_capacity_witness:
  "spawn_all list_queue (replicate 101 ()) 0 (executor_new list_queue ()) = None"
  using spawn_capacity [OF list_queue.array_queue_axioms, of "replicate 101 ()" "()"] by simp

text \<open>C17: \<open>run_ready_tasks\<close> returns with no task ready. As long as wake-ups are paid for by a finite
  supply (the interrupts still to come) that fits into the queue, the loop ends without the panic
  of a full queue, tasks are only removed, and a cached waker always belongs to a live task.\<close>

theorem run_ready_tasks_terminates:
  assumes "array_queue Q items cap" "poll_pays energy P" "wakers_ok ex"
    "length (items (ex_queue ex)) + energy (ex_world ex) \<le> cap (ex_queue ex)"
  shows "\<exists>ex'. run_ready_tasks Q P ex = Some ex' \<and> items (ex_queue ex') = []
    \<and> dom (ex_tasks ex') \<subseteq> dom (ex_tasks ex) \<and> wakers_ok ex'"
proof -
  have "task_queues Q items cap" using assms(1) by (simp add: task_queues_def)
  from task_queues.run_ready_spec [OF this assms(2,4)] assms(3) show ?thesis by blast
qed

text \<open>For the witness: a task that uses up one unit of the supply and wakes itself.\<close>

definition example_poll :: "(unit, nat) poll_fn" where
  "example_poll task_id f s = (if s = 0 then (0, None, []) else (s - 1, Some f, [task_id]))"

theorem run_ready_tasks_terminates_witness:
  "\<exists>ex'. run_ready_tasks list_queue example_poll
      \<lparr>ex_tasks = [3 \<mapsto> ()], ex_queue = (100, [3, 8]), ex_wakers = {}, ex_world = 5\<rparr> = Some ex'
    \<and> snd (ex_queue ex') = [] \<and> wakers_ok ex'"
proof -
  let ?ex = "\<lparr>ex_tasks = [3 \<mapsto> ()], ex_queue = (100, [3, 8]), ex_wakers = {}, ex_world = 5\<rparr>"
  have "poll_pays (\<lambda>s. s) example_poll" by (simp add: poll_pays_def example_poll_def)
  moreover have "wakers_ok ?ex" by (simp add: wakers_ok_def)
  ultimately show ?thesis
    using run_ready_tasks_terminates [OF list_queue.array_queue_axioms, of "\<lambda>s. s" example_poll ?ex] by auto
qed

text \<open>The executor never sleeps on a ready task. In every state that is reachable from the start
  of \<open>run\<close>, whenever interrupts arrive, a halted processor means an empty queue; and when a task is
  ready the executor's own steps lead back to \<open>run_ready_tasks\<close> without another interrupt.\<close>

theorem executor_never_sleeps_on_ready_task:
  assumes "array_queue Q items cap" "(sleep_step Q)\<^sup>*\<^sup>* (sleep_start q) x"
  shows "(sl_pc x = Asleep \<longrightarrow> items (sl_queue x) = [])
    \<and> (items (sl_queue x) \<noteq> [] \<and> sl_pc x \<noteq> Panicked \<longrightarrow>
        (\<exists>y. (sleep_step Q)\<^sup>*\<^sup>* x y \<and> sl_pc y = RunReady \<and> sl_queue y = sl_queue x))"
proof -
  have t: "task_queues Q items cap" using assms(1) by (simp add: task_queues_def)
  note inv = task_queues.sleep_reachable [OF t assms(2)]
  show ?thesis
    using inv task_queues.sleep_progress [OF t inv] by (auto simp: task_queues.sleep_inv_def [OF t])
qed

theorem executor_never_sleeps_on_ready_task_witness:
  "\<exists>x y. (sleep_step list_queue)\<^sup>*\<^sup>* (sleep_start (100, [])) x \<and> sl_pc x = CheckQueue \<and> sl_queue x = (100, [4])
    \<and> (sleep_step list_queue)\<^sup>*\<^sup>* x y \<and> sl_pc y = RunReady \<and> sl_queue y = (100, [4])"
proof -
  let ?q = "(100, []) :: nat \<times> u64 list"
  let ?x1 = "(sleep_start ?q)\<lparr>sl_pc := DisableInterrupts\<rparr>"
  let ?x2 = "?x1\<lparr>sl_queue := (100, [4]), sl_pc := (if sl_pc ?x1 = Asleep then RunReady else sl_pc ?x1)\<rparr>"
  let ?x3 = "?x2\<lparr>sl_pc := CheckQueue, sl_enabled := False\<rparr>"
  have s1: "sleep_step list_queue (sleep_start ?q) ?x1"
    by (rule sleep_step.none_ready) (simp_all add: sleep_start_def list_queue_def)
  have s2: "sleep_step list_queue ?x1 ?x2"
    by (rule sleep_step.irq_wake [of _ _ 4]) (simp_all add: sleep_start_def wake_task_def list_queue_def)
  have s3: "sleep_step list_queue ?x2 ?x3" by (rule sleep_step.disable) (simp add: sleep_start_def)
  have r: "(sleep_step list_queue)\<^sup>*\<^sup>* (sleep_start ?q) ?x3"
    by (rule converse_rtranclp_into_rtranclp [OF s1 converse_rtranclp_into_rtranclp [OF s2 r_into_rtranclp [of "sleep_step list_queue", OF s3]]])
  from executor_never_sleeps_on_ready_task [OF list_queue.array_queue_axioms r]
  obtain y where y: "(sleep_step list_queue)\<^sup>*\<^sup>* ?x3 y" "sl_pc y = RunReady" "sl_queue y = sl_queue ?x3" by auto
  have "sl_pc ?x3 = CheckQueue" "sl_queue ?x3 = (100, [4])" by simp_all
  then show ?thesis using r y by (metis (no_types, lifting))
qed

text \<open>The simple executor runs to completion: if every future is ready after finitely many polls,
  \<open>run\<close> polls them in turn and returns.\<close>

theorem simple_executor_terminates:
  fixes rank :: "'f \<Rightarrow> nat"
  assumes "\<And>f s s' f'. P f s = (s', Some f') \<Longrightarrow> rank f' < rank f"
  shows "\<exists>s'. simple_run P (fold simple_spawn fs simple_new) s = Some s'"
  by (rule simple_run_spec) (rule assms)

theorem simple_executor_terminates_witness:
  "\<exists>s'. simple_run (\<lambda>f s. (s + 1, if f = 0 then None else Some (f - 1))) (fold simple_spawn [2 :: nat, 3] simple_new) (0 :: nat) = Some s'"
  by (rule simple_executor_terminates [where rank = "\<lambda>f :: nat. f"]) (auto split: if_splits)

text \<open>The ready queue can overflow. \<open>poll_next\<close> registers its waker before it looks at the queue a
  second time; an event that arrives in between is returned at once, but its handler has already
  queued the task. A task that handles such events in one poll, as the loop of \<open>run_shell\<close> does, is
  queued once for each, and the hundred and first of these wake-ups panics inside the interrupt
  handler.\<close>

theorem wakeups_overflow_ready_queue:
  assumes "input_stream Q items cap W registered" "array_queue T titems tcap"
    "in_queue inp = Some q" "items q = []" "0 < cap q" "in_woken inp = []" "registered (in_waker inp) = None"
  shows "\<exists>inp'. for_each (\<lambda>b inp. map_option fst (poll_next Q W 0 [] [Scancode b] inp)) (replicate 101 30) inp = Some inp'
    \<and> in_woken inp' = replicate 101 0
    \<and> for_each (wake_task T) (map of_nat (in_woken inp')) (q_new T 100) = None"
proof -
  have t: "task_queues T titems tcap" using assms(2) by (simp add: task_queues_def)
  obtain inp' where i: "for_each (\<lambda>b inp. map_option fst (poll_next Q W 0 [] [Scancode b] inp)) (replicate 101 30) inp = Some inp'"
    "in_woken inp' = replicate 101 0"
    using input_stream.woken_each_time [OF assms(1,3-5,7), of 0 101 30] assms(6) by auto
  have "titems (q_new T 100) = []" "tcap (q_new T 100) = 100"
    using array_queue.q_new_spec [OF assms(2), of 100] by simp_all
  then have "for_each (wake_task T) (map of_nat (in_woken inp')) (q_new T 100) = None"
    using i(2) by (intro task_queues.wakes_overflow [OF t]) simp_all
  then show ?thesis using i by blast
qed

theorem wakeups_overflow_ready_queue_witness:
  "\<exists>inp inp'. stream_new list_queue (input_new slot_waker) = Some inp
    \<and> for_each (\<lambda>b inp. map_option fst (poll_next list_queue slot_waker 0 [] [Scancode b] inp)) (replicate 101 30) inp = Some inp'
    \<and> for_each (wake_task list_queue) (map of_nat (in_woken inp')) (q_new list_queue 100) = None"
proof -
  let ?i = "(input_new slot_waker)\<lparr>in_queue := Some (100, [])\<rparr>"
  have i: "stream_new list_queue (input_new slot_waker) = Some ?i"
    by (simp add: stream_new_def input_new_def list_queue_def)
  have "in_queue ?i = Some (100, [])" "in_woken ?i = []" "id (in_waker ?i) = None"
    by (simp_all add: input_new_def slot_waker_def)
  from wakeups_overflow_ready_queue [OF list_stream.input_stream_axioms list_queue.array_queue_axioms this(1) _ _ this(2,3)] i
  show ?thesis by auto
qed

end
