(* ===== verification/Shell_Line.thy ===== *)
theory Shell_Line
  imports Prelude
begin

text \<open>
  The bounded line editor of \<^verbatim>\<open>src/src/shell.rs\<close> (struct \<open>Line\<close> and the editing keys of
  \<open>Shell::handle_key\<close>). A line is a 256-byte array with a length, a cursor and an overflow
  flag. The abstract view of a line is the text before and the text after the cursor; every
  operation is shown to keep the type invariant \<open>line_inv\<close>, never to panic under it, and to
  act on the view as a text editor does. The locale \<open>line_editor\<close> is the contract the shell's
  command completion relies on.
\<close>

section \<open>Data and operations\<close>

definition MAX_INPUT :: nat where
  "MAX_INPUT = 256"

record Line =
  l_bytes :: "byte list"
  l_len :: nat
  l_cursor :: nat
  l_overflow :: bool

definition line_new :: Line where
  "line_new = \<lparr>l_bytes = replicate MAX_INPUT (CHR 0x00), l_len = 0, l_cursor = 0, l_overflow = False\<rparr>"

definition line_as_str :: "Line \<Rightarrow> char list option" where
  "line_as_str l = do { s \<leftarrow> slice (l_bytes l) 0 (l_len l); from_utf8 s }"

definition line_insert :: "Line \<Rightarrow> byte \<Rightarrow> (Line \<times> bool) option" where
  "line_insert l b =
     (if \<not> (is_ascii_graphic b \<or> b = CHR '' '') then Some (l, False)
      else if l_len l = MAX_INPUT then Some (l\<lparr>l_overflow := True\<rparr>, False)
      else do {
        bs \<leftarrow> copy_within (l_bytes l) (l_cursor l) (l_len l) (l_cursor l + 1);
        bs \<leftarrow> arr_set bs (l_cursor l) b;
        Some (l\<lparr>l_bytes := bs, l_cursor := l_cursor l + 1, l_len := l_len l + 1\<rparr>, True)
      })"

definition line_delete :: "Line \<Rightarrow> Line option" where
  "line_delete l =
     (if l_cursor l < l_len l then do {
        bs \<leftarrow> copy_within (l_bytes l) (l_cursor l + 1) (l_len l) (l_cursor l);
        Some (l\<lparr>l_bytes := bs, l_len := l_len l - 1, l_overflow := False\<rparr>)
      } else Some l)"

definition line_backspace :: "Line \<Rightarrow> Line option" where
  "line_backspace l =
     (if l_cursor l > 0 then line_delete (l\<lparr>l_cursor := l_cursor l - 1\<rparr>) else Some l)"

text \<open>A deletion keeps the cursor and a backspace moves it back by one, so the two loops of
  \<open>delete_word\<close> end.\<close>

lemma line_delete_cursor: "line_delete l = Some l' \<Longrightarrow> l_cursor l' = l_cursor l"
  by (auto simp: line_delete_def panic_simps split: if_splits)

lemma line_backspace_cursor: "line_backspace l = Some l' \<Longrightarrow> l_cursor l' = l_cursor l - 1"
  by (auto simp: line_backspace_def dest: line_delete_cursor split: if_splits)

function erase_while :: "(byte \<Rightarrow> bool) \<Rightarrow> Line \<Rightarrow> Line option" where
  "erase_while p l =
     (if l_cursor l > 0 then do {
        b \<leftarrow> arr_get (l_bytes l) (l_cursor l - 1);
        if p b then do { l' \<leftarrow> line_backspace l; erase_while p l' } else Some l
      } else Some l)"
  by pat_completeness auto
termination
  by (relation "measure (\<lambda>(p, l). l_cursor l)") (auto simp: panic_simps dest: line_backspace_cursor)

declare erase_while.simps [simp del]

definition line_delete_word :: "Line \<Rightarrow> Line option" where
  "line_delete_word l = do {
     l \<leftarrow> erase_while (\<lambda>b. b = CHR '' '') l;
     erase_while (\<lambda>b. b \<noteq> CHR '' '') l
   }"

text \<open>The editing keys \<open>Shell::handle_key\<close> performs in place: Ctrl+U and Ctrl+K, and the cursor
  keys (Home, End, Left, Right).\<close>

definition line_ctrl_u :: "Line \<Rightarrow> Line option" where
  "line_ctrl_u l = do {
     bs \<leftarrow> copy_within (l_bytes l) (l_cursor l) (l_len l) 0;
     n \<leftarrow> usize_sub (l_len l) (l_cursor l);
     Some (l\<lparr>l_bytes := bs, l_len := n, l_cursor := 0,
             l_overflow := (if n < l_len l then False else l_overflow l)\<rparr>)
   }"

definition line_ctrl_k :: "Line \<Rightarrow> Line" where
  "line_ctrl_k l = l\<lparr>l_len := l_cursor l,
     l_overflow := (if l_cursor l < l_len l then False else l_overflow l)\<rparr>"

definition line_home :: "Line \<Rightarrow> Line" where
  "line_home l = l\<lparr>l_cursor := 0\<rparr>"

definition line_end :: "Line \<Rightarrow> Line" where
  "line_end l = l\<lparr>l_cursor := l_len l\<rparr>"

definition line_left :: "Line \<Rightarrow> Line" where
  "line_left l = l\<lparr>l_cursor := l_cursor l - 1\<rparr>"

definition line_right :: "Line \<Rightarrow> Line" where
  "line_right l = l\<lparr>l_cursor := min (l_cursor l + 1) (l_len l)\<rparr>"

text \<open>\<open>for byte in bytes { self.line.insert(byte); }\<close>, over any insertion function.\<close>

fun insert_each :: "('l \<Rightarrow> byte \<Rightarrow> ('l \<times> bool) option) \<Rightarrow> 'l \<Rightarrow> byte list \<Rightarrow> 'l option" where
  "insert_each ins l [] = Some l"
| "insert_each ins l (b # bs) = do { (l', ok) \<leftarrow> ins l b; insert_each ins l' bs }"

section \<open>Invariant and view\<close>

abbreviation printable :: "char \<Rightarrow> bool" where
  "printable c \<equiv> is_ascii_graphic c \<or> c = CHR '' ''"

definition line_text :: "Line \<Rightarrow> char list" where
  "line_text l = take (l_len l) (l_bytes l)"

definition line_view :: "Line \<Rightarrow> char list \<times> char list" where
  "line_view l = (take (l_cursor l) (line_text l), drop (l_cursor l) (line_text l))"

definition line_inv :: "Line \<Rightarrow> bool" where
  "line_inv l \<longleftrightarrow> length (l_bytes l) = MAX_INPUT \<and> l_len l \<le> MAX_INPUT \<and> l_cursor l \<le> l_len l
     \<and> list_all printable (line_text l) \<and> (l_overflow l \<longrightarrow> l_len l = MAX_INPUT)"

lemma line_invD:
  assumes "line_inv l"
  shows "length (l_bytes l) = MAX_INPUT" "l_len l \<le> MAX_INPUT" "l_cursor l \<le> l_len l"
    "list_all printable (line_text l)" "length (line_text l) = l_len l"
  using assms by (auto simp: line_inv_def line_text_def)

lemma line_invI:
  "\<lbrakk>length (l_bytes l) = MAX_INPUT; l_len l \<le> MAX_INPUT; l_cursor l \<le> l_len l;
    list_all printable (line_text l); l_overflow l \<Longrightarrow> l_len l = MAX_INPUT\<rbrakk> \<Longrightarrow> line_inv l"
  by (simp add: line_inv_def)

lemma line_new_inv [simp, intro]: "line_inv line_new"
  by (simp add: line_new_def line_inv_def line_text_def)

lemma line_new_view [simp]: "line_view line_new = ([], [])" "line_text line_new = []"
  by (simp_all add: line_new_def line_view_def line_text_def)

lemma line_view_append: "fst (line_view l) @ snd (line_view l) = line_text l"
  by (simp add: line_view_def)

lemma printable_ascii: "printable c \<Longrightarrow> is_ascii c"
  by (auto simp: ascii_simps)

lemma line_as_str_text: "line_inv l \<Longrightarrow> line_as_str l = Some (line_text l)"
proof -
  assume inv: "line_inv l"
  then have "\<forall>c\<in>set (line_text l). is_ascii c"
    using line_invD(4) [of l] by (auto simp: list_all_iff ascii_simps)
  then show ?thesis
    using inv by (simp add: line_as_str_def line_text_def slice_def line_invD)
qed

section \<open>The operations on the view\<close>

lemma line_insert_fits:
  assumes inv: "line_inv l" and c: "printable c" and room: "l_len l < MAX_INPUT"
  shows "\<exists>l'. line_insert l c = Some (l', True) \<and> line_inv l' \<and>
    line_view l' = (fst (line_view l) @ [c], snd (line_view l))"
proof -
  note i = line_invD [OF inv]
  obtain ys where ys: "copy_within (l_bytes l) (l_cursor l) (l_len l) (l_cursor l + 1) = Some ys"
    and len: "length ys = length (l_bytes l)"
    and tk: "take (Suc (l_len l)) (ys[l_cursor l := c]) =
      take (l_cursor l) (line_text l) @ c # drop (l_cursor l) (line_text l)"
    using copy_within_insert [of "l_cursor l" "l_len l" "l_bytes l" c] i room
    by (auto simp: line_text_def)
  let ?l = "l\<lparr>l_bytes := ys[l_cursor l := c], l_cursor := l_cursor l + 1, l_len := l_len l + 1\<rparr>"
  have eq: "line_insert l c = Some (?l, True)"
    using c room ys len i by (auto simp: line_insert_def arr_set_def)
  have tx: "line_text ?l = take (l_cursor l) (line_text l) @ c # drop (l_cursor l) (line_text l)"
    using tk by (simp add: line_text_def)
  have "line_inv ?l"
    using inv c room len unfolding line_inv_def tx
    by (auto simp: list_all_iff dest: in_set_takeD in_set_dropD)
  moreover have "line_view ?l = (fst (line_view l) @ [c], snd (line_view l))"
    using i unfolding line_view_def tx by simp
  ultimately show ?thesis
    using eq by blast
qed

lemma line_insert_full:
  "line_inv l \<Longrightarrow> printable c \<Longrightarrow> l_len l = MAX_INPUT \<Longrightarrow>
    line_insert l c = Some (l\<lparr>l_overflow := True\<rparr>, False)"
  by (auto simp: line_insert_def)

lemma line_insert_rejects: "\<not> printable c \<Longrightarrow> line_insert l c = Some (l, False)"
  by (simp add: line_insert_def)

lemma line_insert_inv: "line_inv l \<Longrightarrow> \<exists>l' ok. line_insert l c = Some (l', ok) \<and> line_inv l'"
proof -
  assume inv: "line_inv l"
  consider "\<not> printable c" | "printable c" "l_len l = MAX_INPUT" | "printable c" "l_len l < MAX_INPUT"
    using line_invD(2) [OF inv] by linarith
  then show ?thesis
  proof cases
    case 1
    then show ?thesis using inv line_insert_rejects by blast
  next
    case 2
    have "line_inv (l\<lparr>l_overflow := True\<rparr>)"
      using inv 2 by (auto simp: line_inv_def line_text_def)
    then show ?thesis using line_insert_full [OF inv 2] by blast
  next
    case 3
    then show ?thesis using line_insert_fits [OF inv] by blast
  qed
qed

lemma line_delete_spec:
  assumes inv: "line_inv l"
  shows "\<exists>l'. line_delete l = Some l' \<and> line_inv l' \<and>
    line_view l' = (fst (line_view l), tl (snd (line_view l)))"
proof (cases "l_cursor l < l_len l")
  case True
  note i = line_invD [OF inv]
  obtain ys where ys: "copy_within (l_bytes l) (l_cursor l + 1) (l_len l) (l_cursor l) = Some ys"
    and len: "length ys = length (l_bytes l)"
    and tk: "take (l_len l - 1) ys =
      take (l_cursor l) (line_text l) @ drop (Suc (l_cursor l)) (line_text l)"
    using copy_within_delete [of "l_cursor l" "l_len l" "l_bytes l"] i True
    by (auto simp: line_text_def)
  let ?l = "l\<lparr>l_bytes := ys, l_len := l_len l - 1, l_overflow := False\<rparr>"
  have eq: "line_delete l = Some ?l"
    using True ys by (simp add: line_delete_def)
  have tx: "line_text ?l = take (l_cursor l) (line_text l) @ drop (Suc (l_cursor l)) (line_text l)"
    using tk by (simp add: line_text_def)
  have "line_inv ?l"
    using inv True len unfolding line_inv_def tx
    by (auto simp: list_all_iff dest: in_set_takeD in_set_dropD)
  moreover have "line_view ?l = (fst (line_view l), tl (snd (line_view l)))"
    using i True unfolding line_view_def tx by (simp add: drop_Suc tl_drop)
  ultimately show ?thesis
    using eq by blast
next
  case False
  then show ?thesis
    using inv line_invD [OF inv] by (auto simp: line_delete_def line_view_def)
qed

lemma line_backspace_spec:
  assumes inv: "line_inv l"
  shows "\<exists>l'. line_backspace l = Some l' \<and> line_inv l' \<and>
    line_view l' = (butlast (fst (line_view l)), snd (line_view l))"
proof (cases "l_cursor l > 0")
  case True
  let ?l = "l\<lparr>l_cursor := l_cursor l - 1\<rparr>"
  have inv': "line_inv ?l"
    using inv by (auto simp: line_inv_def line_text_def)
  have v: "fst (line_view ?l) = butlast (fst (line_view l))" "tl (snd (line_view ?l)) = snd (line_view l)"
    using True line_invD [OF inv]
    by (auto simp: line_view_def line_text_def butlast_take Suc_diff_Suc tl_drop simp flip: drop_Suc)
  show ?thesis
    using line_delete_spec [OF inv'] True unfolding v by (simp add: line_backspace_def)
next
  case False
  then show ?thesis
    using inv by (simp add: line_backspace_def line_view_def)
qed

lemma erase_while_spec:
  assumes "line_inv l"
  shows "\<exists>l'. erase_while p l = Some l' \<and> line_inv l' \<and>
    line_view l' = (rev (dropWhile p (rev (fst (line_view l)))), snd (line_view l))"
  using assms
proof (induction p l rule: erase_while.induct)
  case (1 p l)
  note i = line_invD [OF 1(2)]
  show ?case
  proof (cases "l_cursor l > 0")
    case True
    have ix: "l_cursor l - 1 < length (l_bytes l)"
      using True i by linarith
    let ?b = "l_bytes l ! (l_cursor l - 1)"
    obtain ps where pre: "fst (line_view l) = ps @ [?b]"
      using True i by (cases "l_cursor l") (auto simp: line_view_def line_text_def take_Suc_conv_app_nth)
    show ?thesis
    proof (cases "p ?b")
      case p: True
      obtain l1 where l1: "line_backspace l = Some l1" "line_inv l1"
        "line_view l1 = (butlast (fst (line_view l)), snd (line_view l))"
        using line_backspace_spec [OF 1(2)] by blast
      have "erase_while p l = erase_while p l1"
        using True ix p l1(1) by (subst erase_while.simps) (simp add: arr_get_def)
      moreover have "dropWhile p (rev (fst (line_view l))) = dropWhile p (rev (fst (line_view l1)))"
        using p by (simp add: pre l1)
      ultimately show ?thesis
        using 1(1) [OF True _ p l1(1,2)] ix l1(3) by (simp add: arr_get_def)
    next
      case False
      have "dropWhile p (rev (fst (line_view l))) = rev (fst (line_view l))"
        using False by (simp add: pre)
      then show ?thesis
        using True ix False 1(2) by (subst erase_while.simps) (simp add: arr_get_def)
    qed
  next
    case False
    then show ?thesis
      using 1(2) by (subst erase_while.simps) (simp add: line_view_def)
  qed
qed

text \<open>The word erased by Ctrl+W: the spaces before the cursor and then the word before them.\<close>

definition erase_last_word :: "char list \<Rightarrow> char list" where
  "erase_last_word s =
     rev (dropWhile (\<lambda>b. b \<noteq> CHR '' '') (dropWhile (\<lambda>b. b = CHR '' '') (rev s)))"

lemma line_delete_word_spec:
  assumes "line_inv l"
  shows "\<exists>l'. line_delete_word l = Some l' \<and> line_inv l' \<and>
    line_view l' = (erase_last_word (fst (line_view l)), snd (line_view l))"
proof -
  obtain l1 where l1: "erase_while (\<lambda>b. b = CHR '' '') l = Some l1" "line_inv l1"
    "line_view l1 = (rev (dropWhile (\<lambda>b. b = CHR '' '') (rev (fst (line_view l)))), snd (line_view l))"
    using erase_while_spec [OF assms] by blast
  show ?thesis
    using erase_while_spec [OF l1(2), of "\<lambda>b. b \<noteq> CHR '' ''"] l1
    by (simp add: line_delete_word_def erase_last_word_def)
qed

lemma line_ctrl_u_spec:
  assumes inv: "line_inv l"
  shows "\<exists>l'. line_ctrl_u l = Some l' \<and> line_inv l' \<and> line_view l' = ([], snd (line_view l))"
proof -
  note i = line_invD [OF inv]
  let ?bs = "drop (l_cursor l) (line_text l) @ drop (l_len l - l_cursor l) (l_bytes l)"
  let ?l = "l\<lparr>l_bytes := ?bs, l_len := l_len l - l_cursor l, l_cursor := 0,
     l_overflow := (if l_len l - l_cursor l < l_len l then False else l_overflow l)\<rparr>"
  have eq: "line_ctrl_u l = Some ?l"
    using i by (simp add: line_ctrl_u_def copy_within_def usize_sub_def line_text_def)
  have tx: "line_text ?l = drop (l_cursor l) (line_text l)"
    using i by (simp add: line_text_def)
  have "line_inv ?l"
    proof (rule line_invI)
      show "length (l_bytes ?l) = MAX_INPUT" using i(1-3,5) by simp
      show "l_len ?l \<le> MAX_INPUT" using i(2) by simp
      show "l_cursor ?l \<le> l_len ?l" by simp
      show "l_overflow ?l \<Longrightarrow> l_len ?l = MAX_INPUT" 
        using inv by (cases "l_cursor l = 0"; cases "l_len l = 0") (auto simp: line_inv_def)
      show "list_all printable (line_text ?l)"
        using i(4) unfolding tx by (auto simp: list_all_iff dest: in_set_dropD)
    qed
  moreover have "line_view ?l = ([], snd (line_view l))"
    by (simp add: line_view_def tx)
  ultimately show ?thesis
    using eq by blast
qed

lemma line_ctrl_k_spec:
  "line_inv l \<Longrightarrow> line_inv (line_ctrl_k l) \<and> line_view (line_ctrl_k l) = (fst (line_view l), [])"
  by (auto simp: line_inv_def line_view_def line_text_def line_ctrl_k_def list_all_iff min_def
      dest: set_take_subset_set_take [THEN subsetD, rotated])

lemma line_moves_inv:
  assumes "line_inv l"
  shows "line_inv (line_home l)" "line_inv (line_end l)" "line_inv (line_left l)" "line_inv (line_right l)"
  using assms by (auto simp: line_inv_def line_home_def line_end_def line_left_def line_right_def line_text_def)

lemma line_moves_text:
  "line_text (line_home l) = line_text l" "line_text (line_end l) = line_text l"
  "line_text (line_left l) = line_text l" "line_text (line_right l) = line_text l"
  by (simp_all add: line_text_def line_home_def line_end_def line_left_def line_right_def)

section \<open>The editor contract\<close>

text \<open>What a client of the editor may rely on: insertion of a printable byte that fits, deletion
  at and before the cursor, all through the view.\<close>

locale line_editor =
  fixes view :: "'l \<Rightarrow> char list \<times> char list"
    and inv :: "'l \<Rightarrow> bool"
    and cap :: nat
    and ins :: "'l \<Rightarrow> byte \<Rightarrow> ('l \<times> bool) option"
    and del :: "'l \<Rightarrow> 'l option"
    and bksp :: "'l \<Rightarrow> 'l option"
  assumes ins_fits: "\<lbrakk>inv l; printable c; length (fst (view l)) + length (snd (view l)) < cap\<rbrakk> \<Longrightarrow>
      \<exists>l'. ins l c = Some (l', True) \<and> inv l' \<and> view l' = (fst (view l) @ [c], snd (view l))"
    and ins_inv: "inv l \<Longrightarrow> \<exists>l' ok. ins l c = Some (l', ok) \<and> inv l'"
    and del_spec: "inv l \<Longrightarrow> \<exists>l'. del l = Some l' \<and> inv l' \<and> view l' = (fst (view l), tl (snd (view l)))"
    and bksp_spec: "inv l \<Longrightarrow> \<exists>l'. bksp l = Some l' \<and> inv l' \<and> view l' = (butlast (fst (view l)), snd (view l))"
begin

lemma insert_each_fits:
  assumes "inv l" "list_all printable s" "length (fst (view l)) + length (snd (view l)) + length s \<le> cap"
  shows "\<exists>l'. insert_each ins l s = Some l' \<and> inv l' \<and> view l' = (fst (view l) @ s, snd (view l))"
  using assms
proof (induction s arbitrary: l)
  case (Cons c s)
  obtain l1 where l1: "ins l c = Some (l1, True)" "inv l1" "view l1 = (fst (view l) @ [c], snd (view l))"
    using ins_fits [of l c] Cons.prems by auto
  show ?case
    using Cons.IH [OF l1(2)] Cons.prems l1 by simp
qed (auto simp: prod_eq_iff)

lemma insert_each_inv: "inv l \<Longrightarrow> \<exists>l'. insert_each ins l s = Some l' \<and> inv l'"
proof (induction s arbitrary: l)
  case (Cons c s)
  obtain l1 ok where "ins l c = Some (l1, ok)" "inv l1"
    using ins_inv [OF Cons.prems] by blast
  then show ?case using Cons.IH by simp
qed simp

lemma insert_then_back:
  assumes "inv l" "printable c" "length (fst (view l)) + length (snd (view l)) < cap"
  shows "\<exists>l1 l2. ins l c = Some (l1, True) \<and> bksp l1 = Some l2 \<and> inv l2 \<and> view l2 = view l"
proof -
  obtain l1 where l1: "ins l c = Some (l1, True)" "inv l1" "view l1 = (fst (view l) @ [c], snd (view l))"
    using ins_fits [OF assms] by blast
  show ?thesis
    using bksp_spec [OF l1(2)] l1 by (auto simp: prod_eq_iff)
qed

end

lemma line_view_length: "line_inv l \<Longrightarrow> length (fst (line_view l)) + length (snd (line_view l)) = l_len l"
  using line_invD [of l] by (simp add: line_view_def)

interpretation led: line_editor line_view line_inv MAX_INPUT line_insert line_delete line_backspace
proof unfold_locales
  fix l c
  assume "line_inv l" "printable c" "length (fst (line_view l)) + length (snd (line_view l)) < MAX_INPUT"
  then show "\<exists>l'. line_insert l c = Some (l', True) \<and> line_inv l' \<and>
      line_view l' = (fst (line_view l) @ [c], snd (line_view l))"
    using line_insert_fits [of l c] by (simp add: line_view_length)
qed (blast intro: line_insert_inv line_delete_spec line_backspace_spec)+

section \<open>Edit sessions\<close>

text \<open>The editing keys of one line, as \<open>Shell::handle_key\<close> dispatches them to the line, and the
  same keys on a zipper: the text before the cursor and the text after it.\<close>

datatype LineKey = KInsert byte | KDelete | KBackspace | KDeleteWord | KCtrlU | KCtrlK
  | KHome | KEnd | KLeft | KRight

fun line_key :: "Line \<Rightarrow> LineKey \<Rightarrow> Line option" where
  "line_key l (KInsert b) = map_option fst (line_insert l b)"
| "line_key l KDelete = line_delete l"
| "line_key l KBackspace = line_backspace l"
| "line_key l KDeleteWord = line_delete_word l"
| "line_key l KCtrlU = line_ctrl_u l"
| "line_key l KCtrlK = Some (line_ctrl_k l)"
| "line_key l KHome = Some (line_home l)"
| "line_key l KEnd = Some (line_end l)"
| "line_key l KLeft = Some (line_left l)"
| "line_key l KRight = Some (line_right l)"

fun line_keys :: "Line \<Rightarrow> LineKey list \<Rightarrow> Line option" where
  "line_keys l [] = Some l"
| "line_keys l (k # ks) = do { l' \<leftarrow> line_key l k; line_keys l' ks }"

fun zip_key :: "char list \<times> char list \<Rightarrow> LineKey \<Rightarrow> char list \<times> char list" where
  "zip_key (a, b) (KInsert c) =
     (if printable c \<and> length a + length b < 256 then (a @ [c], b) else (a, b))"
| "zip_key (a, b) KDelete = (a, tl b)"
| "zip_key (a, b) KBackspace = (butlast a, b)"
| "zip_key (a, b) KDeleteWord = (erase_last_word a, b)"
| "zip_key (a, b) KCtrlU = ([], b)"
| "zip_key (a, b) KCtrlK = (a, [])"
| "zip_key (a, b) KHome = ([], a @ b)"
| "zip_key (a, b) KEnd = (a @ b, [])"
| "zip_key (a, b) KLeft = (butlast a, if a = [] then b else last a # b)"
| "zip_key (a, b) KRight = (if b = [] then a else a @ [hd b], tl b)"

lemma line_insert_view:
  assumes inv: "line_inv l"
  shows "\<exists>l' ok. line_insert l c = Some (l', ok) \<and> line_inv l' \<and>
    line_view l' = zip_key (line_view l) (KInsert c)"
proof -
  consider "\<not> printable c" | "printable c" "l_len l = MAX_INPUT" | "printable c" "l_len l < MAX_INPUT"
    using line_invD(2) [OF inv] by linarith
  then show ?thesis
  proof cases
    case 1
    then show ?thesis
      using inv line_insert_rejects by (cases "line_view l") auto
  next
    case 2
    moreover have "line_inv (l\<lparr>l_overflow := True\<rparr>)"
      using inv 2(2) by (auto simp: line_inv_def line_text_def)
    ultimately show ?thesis
      using line_insert_full [OF inv 2] line_view_length [OF inv]
      by (cases "line_view l") (auto simp: line_view_def line_text_def MAX_INPUT_def)
  next
    case 3
    then show ?thesis
      using line_insert_fits [OF inv 3] line_view_length [OF inv]
      by (cases "line_view l") (auto simp: MAX_INPUT_def)
  qed
qed

lemma line_moves_view:
  assumes inv: "line_inv l"
  shows "line_view (line_home l) = zip_key (line_view l) KHome"
    "line_view (line_end l) = zip_key (line_view l) KEnd"
    "line_view (line_left l) = zip_key (line_view l) KLeft"
    "line_view (line_right l) = zip_key (line_view l) KRight"
proof -
  note i = line_invD [OF inv]
  show "line_view (line_home l) = zip_key (line_view l) KHome"
    "line_view (line_end l) = zip_key (line_view l) KEnd"
    using i by (simp_all add: line_view_def line_moves_text) (simp_all add: line_home_def line_end_def)
  show "line_view (line_left l) = zip_key (line_view l) KLeft"
  proof (cases "l_cursor l")
    case 0
    then show ?thesis by (simp add: line_view_def line_moves_text) (simp add: line_left_def)
  next
    case (Suc n)
    then show ?thesis
      using i by (simp add: line_view_def line_moves_text) (auto simp: line_left_def butlast_take Cons_nth_drop_Suc take_Suc_conv_app_nth)
  qed
  show "line_view (line_right l) = zip_key (line_view l) KRight"
  proof (cases "l_cursor l < l_len l")
    case True
    then show ?thesis
      using i by (simp add: line_view_def line_moves_text)
        (auto simp: line_right_def take_Suc_conv_app_nth hd_drop_conv_nth drop_Suc tl_drop)
  next
    case False
    then show ?thesis
      using i by (simp add: line_view_def line_moves_text) (simp add: line_right_def)
  qed
qed

lemma line_key_refines:
  assumes inv: "line_inv l"
  shows "\<exists>l'. line_key l k = Some l' \<and> line_inv l' \<and> line_view l' = zip_key (line_view l) k"
proof -
  obtain a b where v: "line_view l = (a, b)" by fastforce
  show ?thesis
    using line_insert_view [OF inv] line_delete_spec [OF inv] line_backspace_spec [OF inv]
      line_delete_word_spec [OF inv] line_ctrl_u_spec [OF inv] line_ctrl_k_spec [OF inv]
      line_moves_inv [OF inv] line_moves_view [OF inv]
    by (cases k) (fastforce simp: v)+
qed

lemma line_keys_refines:
  "line_inv l \<Longrightarrow> \<exists>l'. line_keys l ks = Some l' \<and> line_inv l' \<and> line_view l' = foldl zip_key (line_view l) ks"
proof (induction ks arbitrary: l)
  case (Cons k ks)
  obtain l1 where l1: "line_key l k = Some l1" "line_inv l1" "line_view l1 = zip_key (line_view l) k"
    using line_key_refines [OF Cons.prems] by blast
  then show ?case using Cons.IH [OF l1(2)] by simp
qed simp

section \<open>Properties\<close>

text \<open>C5: Starting from an empty line, any sequence of editing keys (typing, Delete, Backspace,
  Ctrl+W, Ctrl+U, Ctrl+K, Home, End and the arrows) runs without a panic, and the text before and
  after the cursor is what the same keys do to a plain pair of strings, with typing ignored when
  the byte is not printable or the line already has 256 bytes.\<close>

theorem line_editing_refines_zipper:
  "\<exists>l. line_keys line_new ks = Some l \<and> line_inv l \<and> line_view l = foldl zip_key ([], []) ks"
  using line_keys_refines [OF line_new_inv, of ks] by simp

text \<open>Typing a printable byte into a line that is not full and pressing Backspace gives back
  the same text and cursor.\<close>

theorem line_type_then_backspace:
  assumes "line_inv l" "printable c" "l_len l < 256"
  shows "\<exists>l1 l2. line_insert l c = Some (l1, True) \<and> line_backspace l1 = Some l2
    \<and> line_inv l2 \<and> line_view l2 = line_view l"
  using led.insert_then_back [of l c] assms by (simp add: line_view_length MAX_INPUT_def)

theorem line_type_then_backspace_witness:
  "\<exists>l1 l2. line_insert line_new (CHR ''x'') = Some (l1, True) \<and> line_backspace l1 = Some l2
    \<and> line_inv l2 \<and> line_view l2 = line_view line_new"
  using line_type_then_backspace [of line_new "CHR ''x''"]
  by (simp add: line_new_def is_ascii_graphic_def) (simp add: line_new_def [symmetric])

end
