(* ===== verification/Shell_History.thy ===== *)
theory Shell_History
  imports Shell_Line
begin

text \<open>
  The command history of \<^verbatim>\<open>src/src/shell.rs\<close> (struct \<open>History\<close>): a ring of sixteen lines with
  a browsing position and the draft that browsing interrupts. The abstract history is the list
  of recorded lines, oldest first; \<open>record\<close> is shown to append to it and keep its last sixteen
  entries, and browsing up and down is shown to walk it and to give the draft back. The locale
  \<open>ring_buffer\<close> is the contract of the ring under \<open>get\<close> and \<open>record\<close>.
\<close>

section \<open>Data and operations\<close>

definition HISTORY_SIZE :: nat where
  "HISTORY_SIZE = 16"

record History =
  h_lines :: "Line list"
  h_start :: nat
  h_len :: nat
  h_browsing :: "nat option"
  h_draft :: Line

definition history_new :: History where
  "history_new = \<lparr>h_lines = replicate HISTORY_SIZE line_new, h_start = 0, h_len = 0,
     h_browsing = None, h_draft = line_new\<rparr>"

definition history_get :: "History \<Rightarrow> nat \<Rightarrow> Line option" where
  "history_get h i = arr_get (h_lines h) ((h_start h + i) mod HISTORY_SIZE)"

text \<open>\<open>line.as_str().trim().is_empty()\<close>\<close>

definition trim_is_empty :: "char list \<Rightarrow> bool" where
  "trim_is_empty s = (trim_matches is_whitespace (str_chars s) = [])"

text \<open>The two disjuncts of the early return, the second evaluated only when the first fails.\<close>

definition history_skips :: "History \<Rightarrow> Line \<Rightarrow> bool option" where
  "history_skips h line = do {
     s \<leftarrow> line_as_str line;
     if trim_is_empty s then Some True
     else if h_len h > 0 then do {
       l \<leftarrow> history_get h (h_len h - 1);
       t \<leftarrow> line_as_str l;
       Some (t = s)
     } else Some False
   }"

definition history_record :: "History \<Rightarrow> Line \<Rightarrow> History option" where
  "history_record h0 line = (let h = h0\<lparr>h_browsing := None\<rparr> in do {
     skip \<leftarrow> history_skips h line;
     if skip then Some h
     else if h_len h = HISTORY_SIZE then do {
       ls \<leftarrow> arr_set (h_lines h) (h_start h) line;
       Some (h\<lparr>h_lines := ls, h_start := (h_start h + 1) mod HISTORY_SIZE\<rparr>)
     } else do {
       ls \<leftarrow> arr_set (h_lines h) ((h_start h + h_len h) mod HISTORY_SIZE) line;
       Some (h\<lparr>h_lines := ls, h_len := h_len h + 1\<rparr>)
     }
   })"

definition history_previous :: "History \<Rightarrow> Line \<Rightarrow> (History \<times> Line) option" where
  "history_previous h current =
     (if h_len h = 0 then Some (h, current)
      else (let (index, h1) = (case h_browsing h of
                  Some index \<Rightarrow> (index - 1, h)
                | None \<Rightarrow> (h_len h - 1, h\<lparr>h_draft := current\<rparr>));
                h2 = h1\<lparr>h_browsing := Some index\<rparr> in do {
              line \<leftarrow> history_get h2 index;
              Some (h2, line\<lparr>l_cursor := l_len line\<rparr>)
            }))"

definition history_next :: "History \<Rightarrow> Line \<Rightarrow> (History \<times> Line) option" where
  "history_next h current =
     (case h_browsing h of
        Some index \<Rightarrow>
          if index + 1 < h_len h then do {
            line \<leftarrow> history_get h (index + 1);
            Some (h\<lparr>h_browsing := Some (index + 1)\<rparr>, line\<lparr>l_cursor := l_len line\<rparr>)
          } else Some (h\<lparr>h_browsing := None\<rparr>, h_draft h)
      | None \<Rightarrow> Some (h, current))"

section \<open>Invariant and abstraction\<close>

definition history_inv :: "History \<Rightarrow> bool" where
  "history_inv h \<longleftrightarrow> length (h_lines h) = HISTORY_SIZE \<and> h_start h < HISTORY_SIZE \<and> h_len h \<le> HISTORY_SIZE
     \<and> list_all line_inv (h_lines h) \<and> line_inv (h_draft h)
     \<and> (case h_browsing h of Some i \<Rightarrow> i < h_len h | None \<Rightarrow> True)"

definition history_entries :: "History \<Rightarrow> Line list" where
  "history_entries h = ring (h_lines h) (h_start h) (h_len h)"

lemma HISTORY_SIZE_pos [simp]: "0 < HISTORY_SIZE" "HISTORY_SIZE \<noteq> 0"
  by (simp_all add: HISTORY_SIZE_def)

lemma history_new_inv [simp, intro]: "history_inv history_new"
  by (simp add: history_inv_def history_new_def list_all_iff)

lemma history_new_entries [simp]: "history_entries history_new = []"
  by (simp add: history_entries_def history_new_def ring_def)

lemma length_history_entries [simp]: "length (history_entries h) = h_len h"
  by (simp add: history_entries_def)

lemma history_get_entries:
  assumes "history_inv h" "i < h_len h"
  shows "history_get h i = Some (history_entries h ! i)"
proof -
  have "(h_start h + i) mod HISTORY_SIZE < HISTORY_SIZE"
    by (rule mod_less_divisor) (simp add: HISTORY_SIZE_def)
  then show ?thesis
    using assms by (simp add: history_get_def history_entries_def history_inv_def arr_get_def)
qed

lemma history_entry_inv:
  assumes "history_inv h" "i < h_len h"
  shows "line_inv (history_entries h ! i)"
proof -
  have "(h_start h + i) mod HISTORY_SIZE < HISTORY_SIZE"
    by (rule mod_less_divisor) (simp add: HISTORY_SIZE_def)
  then show ?thesis
    using assms by (simp add: history_entries_def history_inv_def list_all_length)
qed

text \<open>A command is blank when it is made of spaces only; the last entry is the one compared.\<close>

definition blank :: "char list \<Rightarrow> bool" where
  "blank s \<longleftrightarrow> list_all (\<lambda>c. c = CHR '' '') s"

lemma trim_matches_Nil: "trim_matches p s = [] \<longleftrightarrow> list_all p s"
proof -
  have "(\<forall>x\<in>set (dropWhile p s). p x) \<longleftrightarrow> (\<forall>x\<in>set s. p x)"
    by (induction s) auto
  then show ?thesis
    by (simp add: trim_matches_def list_all_iff dropWhile_eq_Nil_conv)
qed

lemma trim_is_empty_blank:
  assumes "list_all printable s"
  shows "trim_is_empty s = blank s"
proof -
  have "\<forall>c\<in>set s. is_ascii c"
    using assms by (auto simp: list_all_iff ascii_simps)
  then have "trim_is_empty s \<longleftrightarrow> list_all (\<lambda>c. is_whitespace (code c)) s"
    by (simp add: trim_is_empty_def str_chars_ascii trim_matches_Nil list_all_iff)
  moreover have "is_whitespace (code c) \<longleftrightarrow> c = CHR '' ''" if "printable c" for c
    using that by (auto simp: is_whitespace_def is_ascii_graphic_def)
  ultimately show ?thesis
    using assms by (auto simp: blank_def list_all_iff)
qed

definition repeats_last :: "Line list \<Rightarrow> char list \<Rightarrow> bool" where
  "repeats_last ls s \<longleftrightarrow> ls \<noteq> [] \<and> line_text (last ls) = s"

lemma history_skips_spec:
  assumes inv: "history_inv h" and line: "line_inv line"
  shows "history_skips h line =
    Some (blank (line_text line) \<or> repeats_last (history_entries h) (line_text line))"
proof -
  have last: "line_as_str (history_entries h ! (h_len h - 1)) = Some (line_text (last (history_entries h)))"
    "history_get h (h_len h - 1) = Some (history_entries h ! (h_len h - 1))" if "h_len h > 0"
  proof -
    have "h_len h - 1 < h_len h" using that by simp
    moreover have "last (history_entries h) = history_entries h ! (h_len h - 1)"
      using that by (subst last_conv_nth) (auto simp flip: length_0_conv)
    ultimately show "line_as_str (history_entries h ! (h_len h - 1)) = Some (line_text (last (history_entries h)))"
      "history_get h (h_len h - 1) = Some (history_entries h ! (h_len h - 1))"
      using inv by (simp_all add: line_as_str_text history_entry_inv history_get_entries)
  qed
  have ne: "history_entries h \<noteq> [] \<longleftrightarrow> h_len h > 0"
    by (simp flip: length_0_conv)
  show ?thesis
    using last trim_is_empty_blank [OF line_invD(4) [OF line]] ne
    by (auto simp: history_skips_def line_as_str_text line repeats_last_def)
qed

text \<open>\<open>record\<close>: blank lines and repetitions of the last entry are ignored, any other line becomes
  the newest entry and the sixteen newest are kept. Browsing ends in every case.\<close>

definition record_entries :: "Line list \<Rightarrow> Line \<Rightarrow> Line list" where
  "record_entries ls line =
     (if blank (line_text line) \<or> repeats_last ls (line_text line) then ls
      else keep_last HISTORY_SIZE (ls @ [line]))"

lemma history_record_spec:
  assumes inv: "history_inv h" and line: "line_inv line"
  shows "\<exists>h'. history_record h line = Some h' \<and> history_inv h' \<and>
    history_entries h' = record_entries (history_entries h) line \<and>
    h_browsing h' = None \<and> h_draft h' = h_draft h"
proof -
  let ?h = "h\<lparr>h_browsing := None\<rparr>"
  let ?n = HISTORY_SIZE
  have inv': "history_inv ?h" and ents: "history_entries ?h = history_entries h"
    using inv by (auto simp: history_inv_def history_entries_def)
  have i: "length (h_lines h) = ?n" "h_start h < ?n" "h_len h \<le> ?n" "list_all line_inv (h_lines h)"
    "line_inv (h_draft h)"
    using inv by (auto simp: history_inv_def)
  have upd: "list_all line_inv ((h_lines h)[k := line])" for k
    using i(4) line by (auto simp: list_all_iff dest!: set_update_subset_insert [THEN subsetD])
  have lt: "x mod ?n < ?n" for x
    by (simp add: HISTORY_SIZE_def)
  note skip = history_skips_spec [OF inv' line, unfolded ents]
  consider (skip) "blank (line_text line) \<or> repeats_last (history_entries h) (line_text line)"
    | (full) "\<not> (blank (line_text line) \<or> repeats_last (history_entries h) (line_text line))" "h_len h = ?n"
    | (room) "\<not> (blank (line_text line) \<or> repeats_last (history_entries h) (line_text line))" "h_len h < ?n"
    using i(3) by linarith
  then show ?thesis
  proof cases
    case skip
    then show ?thesis
      using skip inv' ents \<open>history_skips ?h line = _\<close> by (simp add: history_record_def record_entries_def)
  next
    case full
    let ?h' = "?h\<lparr>h_lines := (h_lines h)[h_start h := line], h_start := (h_start h + 1) mod ?n\<rparr>"
    have "history_record h line = Some ?h'"
      using full skip i by (simp add: history_record_def arr_set_def)
    moreover have "history_inv ?h'"
      using inv' upd lt by (simp add: history_inv_def)
    moreover have "history_entries ?h' = tl (history_entries h) @ [line]"
      using ring_rotate [of "h_lines h" "h_start h" line] i full
      by (cases "h_lines h = []") (auto simp: history_entries_def)
    ultimately show ?thesis
      using full by (auto simp: record_entries_def keep_last_def drop_Suc HISTORY_SIZE_def)
  next
    case room
    let ?h' = "?h\<lparr>h_lines := (h_lines h)[(h_start h + h_len h) mod ?n := line], h_len := h_len h + 1\<rparr>"
    have "history_record h line = Some ?h'"
      using room skip i lt by (simp add: history_record_def arr_set_def)
    moreover have "history_inv ?h'"
      using inv' upd room by (simp add: history_inv_def)
    moreover have "history_entries ?h' = history_entries h @ [line]"
      using ring_push [of "h_len h" "h_lines h" "h_start h" line] i room
      by (simp add: history_entries_def)
    ultimately show ?thesis
      using room by (auto simp: record_entries_def keep_last_def)
  qed
qed

section \<open>Browsing\<close>

text \<open>The contract of history browsing, and what any client that presses Up and Down sees.\<close>

fun press :: "('h \<Rightarrow> 'l \<Rightarrow> ('h \<times> 'l) option) \<Rightarrow> nat \<Rightarrow> 'h \<Rightarrow> 'l \<Rightarrow> ('h \<times> 'l) option" where
  "press f 0 h l = Some (h, l)"
| "press f (Suc n) h l = do { (h', l') \<leftarrow> f h l; press f n h' l' }"

lemma press_Suc_right:
  "press f (Suc n) h l = do { (h', l') \<leftarrow> press f n h l; f h' l' }"
proof (induction n arbitrary: h l)
  case 0
  show ?case by (cases "f h l") auto
next
  case (Suc n)
  have "press f (Suc (Suc n)) h l = f h l \<bind> (\<lambda>(h', l'). press f (Suc n) h' l')"
    by (rule press.simps(2))
  also have "\<dots> = f h l \<bind> (\<lambda>(h', l'). press f n h' l' \<bind> (\<lambda>(h', l'). f h' l'))"
    unfolding Suc.IH ..
  also have "\<dots> = press f (Suc n) h l \<bind> (\<lambda>(h', l'). f h' l')"
    by (cases "f h l") auto
  finally show ?case .
qed

locale history_browser =
  fixes inv :: "'h \<Rightarrow> bool"
    and entries :: "'h \<Rightarrow> Line list"
    and browsing :: "'h \<Rightarrow> nat option"
    and draft :: "'h \<Rightarrow> Line"
    and up :: "'h \<Rightarrow> Line \<Rightarrow> ('h \<times> Line) option"
    and down :: "'h \<Rightarrow> Line \<Rightarrow> ('h \<times> Line) option"
  assumes browsing_bound: "\<lbrakk>inv h; browsing h = Some i\<rbrakk> \<Longrightarrow> i < length (entries h)"
    and up_start: "\<lbrakk>inv h; line_inv cur; entries h \<noteq> []; browsing h = None\<rbrakk> \<Longrightarrow>
      \<exists>h'. up h cur = Some (h', line_end (last (entries h))) \<and> inv h' \<and> entries h' = entries h
        \<and> browsing h' = Some (length (entries h) - 1) \<and> draft h' = cur"
    and up_more: "\<lbrakk>inv h; browsing h = Some i\<rbrakk> \<Longrightarrow>
      \<exists>h'. up h cur = Some (h', line_end (entries h ! (i - 1))) \<and> inv h' \<and> entries h' = entries h
        \<and> browsing h' = Some (i - 1) \<and> draft h' = draft h"
    and down_more: "\<lbrakk>inv h; browsing h = Some i; i + 1 < length (entries h)\<rbrakk> \<Longrightarrow>
      \<exists>h'. down h cur = Some (h', line_end (entries h ! (i + 1))) \<and> inv h' \<and> entries h' = entries h
        \<and> browsing h' = Some (i + 1) \<and> draft h' = draft h"
    and down_end: "\<lbrakk>inv h; browsing h = Some i; i + 1 = length (entries h)\<rbrakk> \<Longrightarrow>
      \<exists>h'. down h cur = Some (h', draft h) \<and> inv h' \<and> entries h' = entries h
        \<and> browsing h' = None \<and> draft h' = draft h"
begin

lemma press_up:
  assumes "inv h" "line_inv cur" "browsing h = None" "k < length (entries h)"
  shows "\<exists>h'. press up (Suc k) h cur = Some (h', line_end (entries h ! (length (entries h) - Suc k)))
    \<and> inv h' \<and> entries h' = entries h \<and> browsing h' = Some (length (entries h) - Suc k) \<and> draft h' = cur"
  using assms(4)
proof (induction k)
  case 0
  then have "entries h \<noteq> []" by auto
  from up_start [OF assms(1,2) this assms(3)] show ?case
    by (auto simp: last_conv_nth \<open>entries h \<noteq> []\<close>)
next
  case (Suc k)
  then obtain h1 where h1: "press up (Suc k) h cur =
      Some (h1, line_end (entries h ! (length (entries h) - Suc k)))" "inv h1" "entries h1 = entries h"
    "browsing h1 = Some (length (entries h) - Suc k)" "draft h1 = cur"
    by auto
  have "length (entries h) - Suc k - 1 = length (entries h) - Suc (Suc k)"
    by simp
  with up_more [OF h1(2,4)] h1 show ?case
    by (subst press_Suc_right) (fastforce simp del: press.simps)
qed

lemma press_down:
  assumes "inv h" "browsing h = Some i" "i + Suc k = length (entries h)"
  shows "\<exists>h'. press down (Suc k) h cur = Some (h', draft h)
    \<and> inv h' \<and> entries h' = entries h \<and> browsing h' = None \<and> draft h' = draft h"
  using assms
proof (induction k arbitrary: h i cur)
  case 0
  then show ?case
    using down_end [of h i cur] by auto
next
  case (Suc k)
  obtain h1 where h1: "down h cur = Some (h1, line_end (entries h ! (i + 1)))" "inv h1"
    "entries h1 = entries h" "browsing h1 = Some (i + 1)" "draft h1 = draft h"
    using down_more [OF Suc.prems(1,2)] Suc.prems(3) by auto
  show ?case
    using Suc.IH [OF h1(2,4)] Suc.prems(3) h1
    by (subst press.simps(2)) (simp del: press.simps)
qed

lemma up_then_down:
  assumes "inv h" "line_inv cur" "browsing h = None" "k < length (entries h)"
  shows "\<exists>h1 l1 h2. press up (Suc k) h cur = Some (h1, l1)
    \<and> l1 = line_end (entries h ! (length (entries h) - Suc k))
    \<and> press down (Suc k) h1 l1 = Some (h2, cur) \<and> entries h2 = entries h \<and> browsing h2 = None"
proof -
  obtain h1 where h1: "press up (Suc k) h cur =
      Some (h1, line_end (entries h ! (length (entries h) - Suc k)))" "inv h1" "entries h1 = entries h"
    "browsing h1 = Some (length (entries h) - Suc k)" "draft h1 = cur"
    using press_up [OF assms] by blast
  have "length (entries h) - Suc k + Suc k = length (entries h1)"
    using h1(3) assms(4) by simp
  from press_down [OF h1(2,4) this, of "line_end (entries h ! (length (entries h) - Suc k))"] h1
  show ?thesis
    by (simp del: press.simps) blast
qed

end

lemma history_previous_start:
  assumes inv: "history_inv h" and cur: "line_inv cur" and ne: "history_entries h \<noteq> []"
    and br: "h_browsing h = None"
  shows "\<exists>h'. history_previous h cur = Some (h', line_end (last (history_entries h))) \<and> history_inv h'
    \<and> history_entries h' = history_entries h
    \<and> h_browsing h' = Some (length (history_entries h) - 1) \<and> h_draft h' = cur"
proof -
  let ?h = "h\<lparr>h_draft := cur, h_browsing := Some (h_len h - 1)\<rparr>"
  have n: "h_len h > 0" using ne by (simp flip: length_0_conv)
  have h: "history_inv ?h" "history_entries ?h = history_entries h"
    using inv cur n by (auto simp: history_inv_def history_entries_def)
  have "history_get ?h (h_len h - 1) = Some (last (history_entries h))"
    using history_get_entries [OF h(1), of "h_len h - 1"] n ne h(2) by (simp add: last_conv_nth)
  then show ?thesis
    using h n br by (simp add: history_previous_def line_end_def)
qed

lemma history_previous_more:
  assumes inv: "history_inv h" and br: "h_browsing h = Some i"
  shows "\<exists>h'. history_previous h cur = Some (h', line_end (history_entries h ! (i - 1))) \<and> history_inv h'
    \<and> history_entries h' = history_entries h \<and> h_browsing h' = Some (i - 1) \<and> h_draft h' = h_draft h"
proof -
  let ?h = "h\<lparr>h_browsing := Some (i - 1)\<rparr>"
  have i: "i < h_len h" using inv br by (simp add: history_inv_def)
  have h: "history_inv ?h" "history_entries ?h = history_entries h"
    using inv i by (auto simp: history_inv_def history_entries_def)
  have "history_get ?h (i - 1) = Some (history_entries h ! (i - 1))"
    using history_get_entries [OF h(1), of "i - 1"] i h(2) by simp
  then show ?thesis
    using h i br by (simp add: history_previous_def line_end_def)
qed

lemma history_next_more:
  assumes inv: "history_inv h" and br: "h_browsing h = Some i" and i: "i + 1 < h_len h"
  shows "\<exists>h'. history_next h cur = Some (h', line_end (history_entries h ! (i + 1))) \<and> history_inv h'
    \<and> history_entries h' = history_entries h \<and> h_browsing h' = Some (i + 1) \<and> h_draft h' = h_draft h"
proof -
  let ?h = "h\<lparr>h_browsing := Some (i + 1)\<rparr>"
  have h: "history_inv ?h" "history_entries ?h = history_entries h"
    using inv i by (auto simp: history_inv_def history_entries_def)
  then show ?thesis
    using history_get_entries [OF inv i] i br by (simp add: history_next_def line_end_def)
qed

lemma history_next_end:
  assumes inv: "history_inv h" and br: "h_browsing h = Some i" and i: "i + 1 = h_len h"
  shows "\<exists>h'. history_next h cur = Some (h', h_draft h) \<and> history_inv h'
    \<and> history_entries h' = history_entries h \<and> h_browsing h' = None \<and> h_draft h' = h_draft h"
  using assms by (auto simp: history_next_def history_inv_def history_entries_def)

interpretation hist: history_browser history_inv history_entries h_browsing h_draft history_previous history_next
proof unfold_locales
  fix h i
  assume "history_inv h" "h_browsing h = Some i"
  then show "i < length (history_entries h)" by (simp add: history_inv_def)
qed (use history_previous_start history_previous_more history_next_more history_next_end
    in \<open>simp_all only: length_history_entries\<close>)

text \<open>Every operation keeps the invariant and returns a well-formed line, whatever the position.\<close>

lemma history_previous_inv:
  assumes "history_inv h" "line_inv cur"
  shows "\<exists>h' l. history_previous h cur = Some (h', l) \<and> history_inv h' \<and> line_inv l
    \<and> history_entries h' = history_entries h"
proof (cases "h_len h = 0")
  case True
  then show ?thesis using assms by (simp add: history_previous_def)
next
  case False
  then have ne: "history_entries h \<noteq> []" by (simp flip: length_0_conv)
  have last: "line_inv (last (history_entries h))"
    using history_entry_inv [OF assms(1), of "h_len h - 1"] False ne by (simp add: last_conv_nth)
  show ?thesis
  proof (cases "h_browsing h")
    case None
    then show ?thesis
      using history_previous_start [OF assms ne] last line_moves_inv(2) by blast
  next
    case (Some i)
    then have "i - 1 < h_len h" using assms by (auto simp: history_inv_def)
    then show ?thesis
      using history_previous_more [OF assms(1) Some, of cur] history_entry_inv [OF assms(1)]
        line_moves_inv(2) by blast
  qed
qed

lemma history_next_inv:
  assumes "history_inv h" "line_inv cur"
  shows "\<exists>h' l. history_next h cur = Some (h', l) \<and> history_inv h' \<and> line_inv l
    \<and> history_entries h' = history_entries h"
proof (cases "h_browsing h")
  case None
  then show ?thesis using assms by (simp add: history_next_def)
next
  case (Some i)
  then have "i < h_len h" using assms by (simp add: history_inv_def)
  then consider "i + 1 < h_len h" | "i + 1 = h_len h" by linarith
  then show ?thesis
  proof cases
    case 1
    then show ?thesis
      using history_next_more [OF assms(1) Some 1, of cur] history_entry_inv [OF assms(1) 1]
        line_moves_inv(2) by blast
  next
    case 2
    moreover have "line_inv (h_draft h)" using assms by (simp add: history_inv_def)
    ultimately show ?thesis
      using history_next_end [OF assms(1) Some 2, of cur] by blast
  qed
qed

section \<open>Sessions\<close>

text \<open>The commands of a session recorded one after the other.\<close>

fun record_all :: "History \<Rightarrow> Line list \<Rightarrow> History option" where
  "record_all h [] = Some h"
| "record_all h (l # ls) = do { h' \<leftarrow> history_record h l; record_all h' ls }"

lemma record_all_spec:
  "history_inv h \<Longrightarrow> list_all line_inv ls \<Longrightarrow> \<exists>h'. record_all h ls = Some h' \<and> history_inv h'
    \<and> history_entries h' = foldl record_entries (history_entries h) ls"
proof (induction ls arbitrary: h)
  case (Cons l ls)
  obtain h1 where "history_record h l = Some h1" "history_inv h1"
    "history_entries h1 = record_entries (history_entries h) l"
    using history_record_spec [OF Cons.prems(1), of l] Cons.prems(2) by auto
  then show ?case
    using Cons.IH [of h1] Cons.prems(2) by simp
qed simp

lemma keep_last_absorb: "keep_last n (keep_last n xs @ ys) = keep_last n (xs @ ys)"
  by (cases "length xs \<le> n") (simp_all add: keep_last_def add.commute)

text \<open>The commands worth keeping: neither blank nor equal to the one kept before.\<close>

fun worth_keeping :: "char list option \<Rightarrow> Line list \<Rightarrow> Line list" where
  "worth_keeping prev [] = []"
| "worth_keeping prev (l # ls) =
     (if blank (line_text l) \<or> prev = Some (line_text l) then worth_keeping prev ls
      else l # worth_keeping (Some (line_text l)) ls)"

definition last_text :: "Line list \<Rightarrow> char list option" where
  "last_text ls = (if ls = [] then None else Some (line_text (last ls)))"

lemma last_text_keep: "last_text (keep_last HISTORY_SIZE (ls @ [l])) = Some (line_text l)"
  by (simp add: last_text_def keep_last_def HISTORY_SIZE_def)

lemma foldl_record_entries:
  "length es \<le> HISTORY_SIZE \<Longrightarrow>
    foldl record_entries es ls = keep_last HISTORY_SIZE (es @ worth_keeping (last_text es) ls)"
proof (induction ls arbitrary: es)
  case Nil
  then show ?case by (simp add: keep_last_def)
next
  case (Cons l ls)
  show ?case
  proof (cases "blank (line_text l) \<or> repeats_last es (line_text l)")
    case True
    then show ?thesis
      using Cons by (auto simp: record_entries_def repeats_last_def last_text_def)
  next
    case False
    let ?es = "keep_last HISTORY_SIZE (es @ [l])"
    have "length ?es \<le> HISTORY_SIZE" by (simp add: keep_last_def)
    then have "foldl record_entries ?es ls = keep_last HISTORY_SIZE ((es @ [l]) @ worth_keeping (Some (line_text l)) ls)"
      using Cons.IH [of ?es] unfolding last_text_keep keep_last_absorb by blast
    moreover have "last_text es \<noteq> Some (line_text l)"
      using False by (auto simp: repeats_last_def last_text_def)
    moreover have "record_entries es l = ?es"
      using False by (simp add: record_entries_def)
    ultimately show ?thesis
      using False by simp
  qed
qed

section \<open>Properties\<close>

text \<open>C20: After any sequence of recorded commands the ring holds, oldest first, exactly the
  sixteen newest of the commands that are neither blank nor a repetition of the command kept
  before them, and recording never panics.\<close>

theorem history_keeps_newest:
  assumes "list_all line_inv ls"
  shows "\<exists>h. record_all history_new ls = Some h \<and> history_inv h
    \<and> history_entries h = keep_last 16 (worth_keeping None ls)"
  using record_all_spec [OF history_new_inv assms] foldl_record_entries [of "[]" ls]
  by (simp add: last_text_def HISTORY_SIZE_def)

theorem history_keeps_newest_witness:
  "\<exists>h. record_all history_new [line_new, line_new\<lparr>l_len := 0\<rparr>] = Some h \<and> history_inv h
    \<and> history_entries h = keep_last 16 (worth_keeping None [line_new, line_new\<lparr>l_len := 0\<rparr>])"
proof -
  have "line_new\<lparr>l_len := 0\<rparr> = line_new" by (simp add: line_new_def)
  then show ?thesis using history_keeps_newest [of "[line_new, line_new\<lparr>l_len := 0\<rparr>]"] by simp
qed

text \<open>Pressing Up \<open>k + 1\<close> times shows the \<open>k + 1\<close>-th newest command with the cursor at its end,
  and pressing Down as many times restores the draft that was being typed, unchanged, and leaves
  browsing; the entries are never modified.\<close>

theorem history_up_then_down:
  assumes "history_inv h" "line_inv draft" "h_browsing h = None" "k < length (history_entries h)"
  shows "\<exists>h1 l1 h2. press history_previous (Suc k) h draft = Some (h1, l1)
    \<and> l1 = line_end (history_entries h ! (length (history_entries h) - Suc k))
    \<and> press history_next (Suc k) h1 l1 = Some (h2, draft)
    \<and> history_entries h2 = history_entries h \<and> h_browsing h2 = None"
  using hist.up_then_down [OF assms] .

lemma history_example_inv: "history_inv (history_new\<lparr>h_len := 2\<rparr>)"
  by (simp add: history_inv_def history_new_def list_all_iff HISTORY_SIZE_def)

theorem history_up_then_down_witness:
  "\<exists>h1 l1 h2. press history_previous (Suc 1) (history_new\<lparr>h_len := 2\<rparr>) line_new = Some (h1, l1)
    \<and> l1 = line_end (history_entries (history_new\<lparr>h_len := 2\<rparr>) ! (length (history_entries (history_new\<lparr>h_len := 2\<rparr>)) - Suc 1))
    \<and> press history_next (Suc 1) h1 l1 = Some (h2, line_new)
    \<and> history_entries h2 = history_entries (history_new\<lparr>h_len := 2\<rparr>) \<and> h_browsing h2 = None"
  by (rule history_up_then_down [OF history_example_inv line_new_inv]) (simp_all add: history_new_def)

end
