(* ===== verification/Shell_Args.thy ===== *)
theory Shell_Args
  imports Shell_Line
begin

text \<open>
  The argument parser of \<^verbatim>\<open>src/src/shell.rs\<close> (struct \<open>Arguments\<close>): quotes and escapes are
  resolved in place into one 256-byte buffer, and an argument is a span of it. The reference
  definition \<open>tokens\<close> works on strings alone; the parser is shown never to panic, to report the
  same errors and to hold exactly the reference's arguments. A shell quoting function is shown
  to be undone by the parser.
\<close>

section \<open>Data and operations\<close>

definition MAX_ARGS :: nat where
  "MAX_ARGS = 32"

record Arguments =
  a_bytes :: "byte list"
  a_spans :: "(nat \<times> nat) list"
  a_len :: nat

abbreviation err_input :: string where
  "err_input \<equiv> ''input must be at most 256 ASCII bytes''"
abbreviation err_operator :: string where
  "err_operator \<equiv> ''pipes, redirection and command chaining are not available''"
abbreviation err_escape :: string where
  "err_escape \<equiv> ''unfinished backslash escape''"
abbreviation err_quote :: string where
  "err_quote \<equiv> ''unclosed quote''"
abbreviation err_args :: string where
  "err_args \<equiv> ''too many arguments (maximum 32)''"

abbreviation BACKSLASH :: char where "BACKSLASH \<equiv> CHR 0x5C"
abbreviation SQUOTE :: char where "SQUOTE \<equiv> CHR 0x27"
abbreviation DQUOTE :: char where "DQUOTE \<equiv> CHR 0x22"

definition arguments_push :: "Arguments \<Rightarrow> nat \<Rightarrow> nat \<Rightarrow> (string + Arguments) option" where
  "arguments_push a start stop =
     (if a_len a = MAX_ARGS then Some (Inl err_args)
      else do {
        sp \<leftarrow> arr_set (a_spans a) (a_len a) (start, stop);
        Some (Inr (a\<lparr>a_spans := sp, a_len := a_len a + 1\<rparr>))
      })"

definition arguments_get :: "Arguments \<Rightarrow> nat \<Rightarrow> char list option" where
  "arguments_get a index = do {
     rust_assert (index < a_len a);
     (start, stop) \<leftarrow> arr_get (a_spans a) index;
     s \<leftarrow> slice (a_bytes a) start stop;
     from_utf8 s
   }"

text \<open>The local variables of \<open>parse\<close>.\<close>

record parse_state =
  p_result :: Arguments
  p_used :: nat
  p_start :: "nat option"
  p_quote :: "byte option"
  p_escaped :: bool

definition get_or_insert :: "'a option \<Rightarrow> 'a \<Rightarrow> 'a option" where
  "get_or_insert ov x = (case ov of None \<Rightarrow> Some x | Some y \<Rightarrow> Some y)"

definition is_operator :: "byte \<Rightarrow> bool" where
  "is_operator b \<longleftrightarrow> b = CHR ''|'' \<or> b = CHR ''>'' \<or> b = CHR ''<'' \<or> b = CHR '';'' \<or> b = CHR ''&''"

text \<open>\<open>result.bytes[used] = byte; used += 1\<close>\<close>

definition parse_store :: "parse_state \<Rightarrow> byte \<Rightarrow> parse_state option" where
  "parse_store p b = do {
     bs \<leftarrow> arr_set (a_bytes (p_result p)) (p_used p) b;
     Some (p\<lparr>p_result := (p_result p)\<lparr>a_bytes := bs\<rparr>, p_used := p_used p + 1\<rparr>)
   }"

text \<open>The body of the loop over the input bytes.\<close>

definition parse_byte :: "parse_state \<Rightarrow> byte \<Rightarrow> (string + parse_state) option" where
  "parse_byte p b =
     (if p_escaped p then do {
        p \<leftarrow> parse_store p b;
        Some (Inr (p\<lparr>p_escaped := False\<rparr>))
      }
      else if b = BACKSLASH \<and> p_quote p \<noteq> Some SQUOTE then
        Some (Inr (p\<lparr>p_start := get_or_insert (p_start p) (p_used p), p_escaped := True\<rparr>))
      else if p_quote p = Some b then
        Some (Inr (p\<lparr>p_quote := None\<rparr>))
      else if p_quote p = None \<and> (b = SQUOTE \<or> b = DQUOTE) then
        Some (Inr (p\<lparr>p_start := get_or_insert (p_start p) (p_used p), p_quote := Some b\<rparr>))
      else if p_quote p = None \<and> is_ascii_whitespace b then
        (case p_start p of
           Some begin \<Rightarrow> do {
             r \<leftarrow> arguments_push (p_result p) begin (p_used p);
             Some (map_sum id (\<lambda>a. p\<lparr>p_start := None, p_result := a\<rparr>) r)
           }
         | None \<Rightarrow> Some (Inr p))
      else if p_quote p = None \<and> is_operator b then Some (Inl err_operator)
      else do {
        q \<leftarrow> parse_store (p\<lparr>p_start := get_or_insert (p_start p) (p_used p)\<rparr>) b;
        Some (Inr q)
      })"

fun parse_bytes :: "parse_state \<Rightarrow> byte list \<Rightarrow> (string + parse_state) option" where
  "parse_bytes p [] = Some (Inr p)"
| "parse_bytes p (b # bs) = do {
     r \<leftarrow> parse_byte p b;
     (case r of Inl e \<Rightarrow> Some (Inl e) | Inr q \<Rightarrow> parse_bytes q bs)
   }"

definition parse_init :: parse_state where
  "parse_init = \<lparr>p_result = \<lparr>a_bytes = replicate MAX_INPUT (CHR 0x00),
      a_spans = replicate MAX_ARGS (0, 0), a_len = 0\<rparr>,
     p_used = 0, p_start = None, p_quote = None, p_escaped = False\<rparr>"

text \<open>What follows the loop.\<close>

definition parse_finish :: "parse_state \<Rightarrow> (string + Arguments) option" where
  "parse_finish p =
     (if p_escaped p then Some (Inl err_escape)
      else if p_quote p \<noteq> None then Some (Inl err_quote)
      else case p_start p of
        Some begin \<Rightarrow> arguments_push (p_result p) begin (p_used p)
      | None \<Rightarrow> Some (Inr (p_result p)))"

definition arguments_parse :: "char list \<Rightarrow> (string + Arguments) option" where
  "arguments_parse input =
     (if length input > MAX_INPUT \<or> \<not> list_all is_ascii input then Some (Inl err_input)
      else do {
        r \<leftarrow> parse_bytes parse_init input;
        (case r of Inl e \<Rightarrow> Some (Inl e) | Inr p \<Rightarrow> parse_finish p)
      })"

section \<open>The reference tokeniser\<close>

text \<open>The same grammar over strings: the finished arguments, the current one (if any), the open
  quote and a pending escape.\<close>

definition add_char :: "char list option \<Rightarrow> char \<Rightarrow> char list option" where
  "add_char cur c = (case cur of None \<Rightarrow> Some [c] | Some s \<Rightarrow> Some (s @ [c]))"

definition emit :: "char list list \<Rightarrow> char list option \<Rightarrow> string + char list list" where
  "emit out cur = (case cur of
      None \<Rightarrow> Inr out
    | Some s \<Rightarrow> if length out = MAX_ARGS then Inl err_args else Inr (out @ [s]))"

fun tok :: "char list list \<Rightarrow> char list option \<Rightarrow> char option \<Rightarrow> bool \<Rightarrow> char list \<Rightarrow> string + char list list" where
  "tok out cur q esc [] =
     (if esc then Inl err_escape else if q \<noteq> None then Inl err_quote else emit out cur)"
| "tok out cur q esc (c # cs) =
     (if esc then tok out (add_char cur c) q False cs
      else if c = BACKSLASH \<and> q \<noteq> Some SQUOTE then tok out (get_or_insert cur []) q True cs
      else if q = Some c then tok out cur None False cs
      else if q = None \<and> (c = SQUOTE \<or> c = DQUOTE) then tok out (get_or_insert cur []) (Some c) False cs
      else if q = None \<and> is_ascii_whitespace c then
        (case emit out cur of Inl e \<Rightarrow> Inl e | Inr out' \<Rightarrow> tok out' None q False cs)
      else if q = None \<and> is_operator c then Inl err_operator
      else tok out (add_char cur c) q False cs)"

definition tokens :: "char list \<Rightarrow> string + char list list" where
  "tokens s = (if length s > MAX_INPUT \<or> \<not> list_all is_ascii s then Inl err_input
     else tok [] None None False s)"

text \<open>The arguments a parsed structure holds.\<close>

definition holds_args :: "Arguments \<Rightarrow> char list list \<Rightarrow> bool" where
  "holds_args a ts \<longleftrightarrow> a_len a = length ts \<and> (\<forall>i<length ts. arguments_get a i = Some (ts ! i))"

section \<open>The parser implements the tokeniser\<close>

text \<open>Spans that lie below \<open>used\<close> denote the finished arguments, the open span the current one.\<close>

definition args_rel :: "Arguments \<Rightarrow> nat \<Rightarrow> char list list \<Rightarrow> bool" where
  "args_rel a used out \<longleftrightarrow> length (a_bytes a) = MAX_INPUT \<and> length (a_spans a) = MAX_ARGS
     \<and> a_len a = length out \<and> length out \<le> MAX_ARGS \<and> used \<le> MAX_INPUT
     \<and> list_all is_ascii (take used (a_bytes a))
     \<and> (\<forall>i<length out. \<exists>s e. a_spans a ! i = (s, e) \<and> s \<le> e \<and> e \<le> used
          \<and> out ! i = drop s (take e (a_bytes a)))"

definition cur_rel :: "Arguments \<Rightarrow> nat \<Rightarrow> nat option \<Rightarrow> char list option \<Rightarrow> bool" where
  "cur_rel a used start cur \<longleftrightarrow> (case start of
      None \<Rightarrow> cur = None
    | Some s \<Rightarrow> s \<le> used \<and> cur = Some (drop s (take used (a_bytes a))))"

definition parse_rel :: "parse_state \<Rightarrow> char list list \<Rightarrow> char list option \<Rightarrow> char option \<Rightarrow> bool \<Rightarrow> bool" where
  "parse_rel p out cur q esc \<longleftrightarrow> args_rel (p_result p) (p_used p) out
     \<and> cur_rel (p_result p) (p_used p) (p_start p) cur
     \<and> p_quote p = q \<and> p_escaped p = esc \<and> (esc \<longrightarrow> cur \<noteq> None)"

lemma parse_init_rel: "parse_rel parse_init [] None None False"
  by (simp add: parse_rel_def parse_init_def args_rel_def cur_rel_def)

text \<open>Storing the next byte leaves every finished span alone.\<close>

lemma args_rel_store:
  assumes r: "args_rel a used out" and lt: "used < MAX_INPUT" and c: "is_ascii c"
  shows "args_rel (a\<lparr>a_bytes := (a_bytes a)[used := c]\<rparr>) (used + 1) out"
proof -
  let ?bs = "(a_bytes a)[used := c]"
  have len: "length (a_bytes a) = MAX_INPUT" using r by (simp add: args_rel_def)
  have tk: "take (used + 1) ?bs = take used (a_bytes a) @ [c]"
    using len lt by (simp add: take_Suc_conv_app_nth)
  have keep: "e \<le> used \<Longrightarrow> take e ?bs = take e (a_bytes a)" for e
    by (simp add: take_update_cancel)
  have "list_all is_ascii (take (used + 1) ?bs)"
    using r c unfolding tk by (simp add: args_rel_def)
  moreover have "\<exists>s e. a_spans a ! i = (s, e) \<and> s \<le> e \<and> e \<le> used + 1 \<and> out ! i = drop s (take e ?bs)"
    if i: "i < length out" for i
  proof -
    obtain s e where "a_spans a ! i = (s, e)" "s \<le> e" "e \<le> used" "out ! i = drop s (take e (a_bytes a))"
      using r i by (auto simp: args_rel_def)
    then show ?thesis using keep by (intro exI [of _ s] exI [of _ e]) simp
  qed
  ultimately show ?thesis
    using r lt by (simp add: args_rel_def)
qed

lemma cur_rel_store:
  assumes r: "args_rel a used out" and cur: "cur_rel a used start cur" and lt: "used < MAX_INPUT"
  shows "cur_rel (a\<lparr>a_bytes := (a_bytes a)[used := c]\<rparr>) (used + 1) (get_or_insert start used) (add_char cur c)"
proof -
  have "take (used + 1) ((a_bytes a)[used := c]) = take used (a_bytes a) @ [c]"
    using r lt by (simp add: args_rel_def take_Suc_conv_app_nth)
  then show ?thesis
    using cur r lt
    by (auto simp: cur_rel_def get_or_insert_def add_char_def args_rel_def split: option.splits)
qed

lemma parse_store_rel:
  assumes r: "parse_rel p out cur q esc" and lt: "p_used p < MAX_INPUT" and c: "is_ascii c"
  shows "\<exists>p'. parse_store (p\<lparr>p_start := get_or_insert (p_start p) (p_used p)\<rparr>) c = Some p' \<and>
    parse_rel (p'\<lparr>p_escaped := False\<rparr>) out (add_char cur c) q False \<and> p_used p' = p_used p + 1
    \<and> p_escaped p' = p_escaped p"
proof -
  have "length (a_bytes (p_result p)) = MAX_INPUT"
    using r by (simp add: parse_rel_def args_rel_def)
  then show ?thesis
    using r lt c args_rel_store [of "p_result p" "p_used p" out c] cur_rel_store [of "p_result p" "p_used p" out "p_start p" cur c]
    by (auto simp: parse_store_def arr_set_def parse_rel_def)
qed

lemma arguments_push_rel:
  assumes r: "args_rel a used out" and s: "s \<le> used"
  shows "case emit out (Some (drop s (take used (a_bytes a)))) of
      Inl e \<Rightarrow> arguments_push a s used = Some (Inl e)
    | Inr out' \<Rightarrow> \<exists>a'. arguments_push a s used = Some (Inr a') \<and> args_rel a' used out'"
proof (cases "length out = MAX_ARGS")
  case True
  then show ?thesis using r by (simp add: emit_def arguments_push_def args_rel_def)
next
  case False
  then have lt: "length out < MAX_ARGS" using r by (simp add: args_rel_def)
  let ?a = "a\<lparr>a_spans := (a_spans a)[a_len a := (s, used)], a_len := a_len a + 1\<rparr>"
  have "arguments_push a s used = Some (Inr ?a)"
    using r lt by (simp add: arguments_push_def arr_set_def args_rel_def)
  moreover have "args_rel ?a used (out @ [drop s (take used (a_bytes a))])"
    using r lt s by (auto simp: args_rel_def nth_append nth_list_update less_Suc_eq)
  ultimately show ?thesis using False by (simp add: emit_def)
qed

text \<open>One byte: the parser takes the tokeniser's step.\<close>

definition tok_step :: "char list list \<Rightarrow> char list option \<Rightarrow> char option \<Rightarrow> bool \<Rightarrow> char \<Rightarrow>
    string + (char list list \<times> char list option \<times> char option \<times> bool)" where
  "tok_step out cur q esc c =
     (if esc then Inr (out, add_char cur c, q, False)
      else if c = BACKSLASH \<and> q \<noteq> Some SQUOTE then Inr (out, get_or_insert cur [], q, True)
      else if q = Some c then Inr (out, cur, None, False)
      else if q = None \<and> (c = SQUOTE \<or> c = DQUOTE) then Inr (out, get_or_insert cur [], Some c, False)
      else if q = None \<and> is_ascii_whitespace c then map_sum id (\<lambda>out'. (out', None, q, False)) (emit out cur)
      else if q = None \<and> is_operator c then Inl err_operator
      else Inr (out, add_char cur c, q, False))"

lemma tok_Cons: "tok out cur q esc (c # cs) = (case tok_step out cur q esc c of
    Inl e \<Rightarrow> Inl e | Inr (out', cur', q', esc') \<Rightarrow> tok out' cur' q' esc' cs)"
  by (auto simp: tok_step_def split: sum.splits)

lemma cur_rel_open: "cur_rel a used start cur \<Longrightarrow> cur_rel a used (get_or_insert start used) (get_or_insert cur [])"
  by (auto simp: cur_rel_def get_or_insert_def split: option.splits)

lemma parse_byte_rel:
  assumes r: "parse_rel p out cur q esc" and lt: "p_used p < MAX_INPUT" and c: "is_ascii c"
  shows "case tok_step out cur q esc c of
      Inl e \<Rightarrow> parse_byte p c = Some (Inl e)
    | Inr (out', cur', q', esc') \<Rightarrow>
        \<exists>p'. parse_byte p c = Some (Inr p') \<and> parse_rel p' out' cur' q' esc' \<and> p_used p' \<le> p_used p + 1"
proof -
  note rel = r [unfolded parse_rel_def]
  obtain p1 where p1: "parse_store (p\<lparr>p_start := get_or_insert (p_start p) (p_used p)\<rparr>) c = Some p1"
    "parse_rel (p1\<lparr>p_escaped := False\<rparr>) out (add_char cur c) q False" "p_used p1 = p_used p + 1"
    "p_escaped p1 = p_escaped p"
    using parse_store_rel [OF assms] by blast
  have opn: "get_or_insert (p_start p) (p_used p) = p_start p" if esc
    using rel that by (auto simp: cur_rel_def get_or_insert_def split: option.splits)
  consider (esc) esc | (bs) "\<not> esc" "c = BACKSLASH" "q \<noteq> Some SQUOTE"
    | (white) "\<not> esc" "\<not> (c = BACKSLASH \<and> q \<noteq> Some SQUOTE)" "q = None" "\<not> (c = SQUOTE \<or> c = DQUOTE)" "is_ascii_whitespace c"
    | (other) "\<not> esc" "\<not> (c = BACKSLASH \<and> q \<noteq> Some SQUOTE)" "\<not> (q = None \<and> \<not> (c = SQUOTE \<or> c = DQUOTE) \<and> is_ascii_whitespace c)"
    by blast
  then show ?thesis
  proof cases
    case esc
    have "p\<lparr>p_start := p_start p\<rparr> = p" by simp
    then show ?thesis
      using esc p1 opn rel by (simp add: tok_step_def parse_byte_def)
  next
    case bs
    then show ?thesis
      using rel cur_rel_open [of "p_result p" "p_used p" "p_start p" cur]
      by (auto simp: tok_step_def parse_byte_def parse_rel_def get_or_insert_def split: option.splits)
  next
    case white
    show ?thesis
    proof (cases "p_start p")
      case None
      then show ?thesis
        using white rel by (auto simp: tok_step_def parse_byte_def parse_rel_def cur_rel_def emit_def)
    next
      case (Some s)
      then have s: "s \<le> p_used p" "cur = Some (drop s (take (p_used p) (a_bytes (p_result p))))"
        using rel by (auto simp: cur_rel_def)
      show ?thesis
      proof (cases "emit out cur")
        case (Inl e)
        then show ?thesis
          using white rel Some s arguments_push_rel [of "p_result p" "p_used p" out s]
          by (auto simp: tok_step_def parse_byte_def)
      next
        case (Inr out')
        then obtain a' where a': "arguments_push (p_result p) s (p_used p) = Some (Inr a')"
          "args_rel a' (p_used p) out'"
          using rel s arguments_push_rel [of "p_result p" "p_used p" out s] by auto
        have "parse_byte p c = Some (Inr (p\<lparr>p_start := None, p_result := a'\<rparr>))"
          using white rel Some a' by (simp add: parse_byte_def)
        then show ?thesis
          using white rel Inr a' by (simp add: tok_step_def parse_rel_def cur_rel_def)
      qed
    qed
  next
    case other
    have p1': "p1\<lparr>p_escaped := False\<rparr> = p1" using p1(4) rel other by simp
    consider "q = Some c" | "q = None" "c = SQUOTE \<or> c = DQUOTE"
      | "q = None" "\<not> (c = SQUOTE \<or> c = DQUOTE)" "\<not> is_ascii_whitespace c" "is_operator c"
      | "q \<noteq> Some c" "\<not> (q = None \<and> (c = SQUOTE \<or> c = DQUOTE))" "\<not> (q = None \<and> is_ascii_whitespace c)"
        "\<not> (q = None \<and> is_operator c)"
      using other(3) by blast
    then show ?thesis
    proof cases
      case 1
      then show ?thesis
        using other(1,2) rel by (simp add: tok_step_def parse_byte_def parse_rel_def)
    next
      case 2
      then show ?thesis
        using other(1,2) rel cur_rel_open [of "p_result p" "p_used p" "p_start p" cur]
        by (auto simp: tok_step_def parse_byte_def parse_rel_def)
    next
      case 3
      then show ?thesis
        using other(1,2) rel by (simp add: tok_step_def parse_byte_def)
    next
      case 4
      have "parse_byte p c = Some (Inr p1)"
        using 4 other(1,2) rel p1(1) by (cases q) (auto simp: parse_byte_def)
      moreover have "tok_step out cur q esc c = Inr (out, add_char cur c, q, False)"
        using 4 other(1,2) by (cases q) (auto simp: tok_step_def)
      ultimately show ?thesis
        using p1(2,3) p1' by simp
    qed
  qed
qed

lemma parse_bytes_rel:
  assumes "parse_rel p out cur q esc" "p_used p + length s \<le> MAX_INPUT" "list_all is_ascii s"
  shows "\<exists>r. (do { r \<leftarrow> parse_bytes p s; (case r of Inl e \<Rightarrow> Some (Inl e) | Inr p \<Rightarrow> parse_finish p) }) = Some r
    \<and> (case tok out cur q esc s of Inl e \<Rightarrow> r = Inl e
       | Inr ts \<Rightarrow> \<exists>a used. r = Inr a \<and> args_rel a used ts)"
  using assms
proof (induction s arbitrary: p out cur q esc)
  case Nil
  note rel = Nil(1) [unfolded parse_rel_def]
  show ?case
  proof (cases "p_start p")
    case None
    then show ?thesis
      using rel by (auto simp: parse_finish_def cur_rel_def emit_def)
  next
    case (Some st)
    then have st: "st \<le> p_used p" "cur = Some (drop st (take (p_used p) (a_bytes (p_result p))))"
      using rel by (auto simp: cur_rel_def)
    show ?thesis
      using rel Some st arguments_push_rel [of "p_result p" "p_used p" out st]
      by (auto simp: parse_finish_def split: sum.splits)
  qed
next
  case (Cons c s)
  have lt: "p_used p < MAX_INPUT" and c: "is_ascii c" using Cons.prems by auto
  note step = parse_byte_rel [OF Cons.prems(1) lt c]
  show ?case
  proof (cases "tok_step out cur q esc c")
    case (Inl e)
    then show ?thesis
      using step by (simp add: tok_Cons del: tok.simps)
  next
    case (Inr x)
    obtain out' cur' q' esc' where x: "x = (out', cur', q', esc')" by (cases x)
    with Inr step obtain p' where p': "parse_byte p c = Some (Inr p')" "parse_rel p' out' cur' q' esc'"
      "p_used p' \<le> p_used p + 1" by auto
    show ?thesis
      using Cons.IH [OF p'(2)] Cons.prems(2,3) p' Inr x
      by (simp add: tok_Cons del: tok.simps)
  qed
qed

lemma args_rel_holds: "args_rel a used ts \<Longrightarrow> holds_args a ts"
proof -
  assume r: "args_rel a used ts"
  have "arguments_get a i = Some (ts ! i)" if i: "i < length ts" for i
  proof -
    obtain s e where se: "a_spans a ! i = (s, e)" "s \<le> e" "e \<le> used" "ts ! i = drop s (take e (a_bytes a))"
      using r i unfolding args_rel_def by blast
    have "set (drop s (take e (a_bytes a))) \<subseteq> set (take used (a_bytes a))"
      by (rule subset_trans [OF set_drop_subset set_take_subset_set_take [OF se(3)]])
    moreover have "list_all is_ascii (take used (a_bytes a))"
      using r by (simp add: args_rel_def)
    ultimately have "\<forall>c\<in>set (ts ! i). is_ascii c"
      unfolding se(4) list_all_iff by blast
    then have utf: "from_utf8 (drop s (take e (a_bytes a))) = Some (ts ! i)"
      unfolding se(4) by (rule from_utf8_ascii)
    have "i < a_len a" "i < length (a_spans a)" "e \<le> length (a_bytes a)"
      using r i se(3) unfolding args_rel_def by linarith+
    then show ?thesis
      using se(1,2) utf by (simp add: arguments_get_def rust_assert_def arr_get_def slice_def)
  qed
  then show ?thesis using r by (simp add: holds_args_def args_rel_def)
qed

lemma arguments_parse_tokens:
  "case tokens s of
     Inl e \<Rightarrow> arguments_parse s = Some (Inl e)
   | Inr ts \<Rightarrow> \<exists>a. arguments_parse s = Some (Inr a) \<and> holds_args a ts"
proof (cases "length s > MAX_INPUT \<or> \<not> list_all is_ascii s")
  case True
  then show ?thesis by (simp add: tokens_def arguments_parse_def)
next
  case False
  then have t: "tokens s = tok [] None None False s" by (simp add: tokens_def)
  have eq: "arguments_parse s =
      (do { r \<leftarrow> parse_bytes parse_init s; (case r of Inl e \<Rightarrow> Some (Inl e) | Inr p \<Rightarrow> parse_finish p) })"
    using False unfolding arguments_parse_def by (rule if_not_P)
  have "p_used parse_init + length s \<le> MAX_INPUT" "list_all is_ascii s"
    using False by (auto simp: parse_init_def)
  from parse_bytes_rel [OF parse_init_rel this, folded eq t] show ?thesis
    by (cases "tokens s") (auto dest: args_rel_holds)
qed

section \<open>Quoting\<close>

text \<open>A quoting that any argument survives: single quotes around an argument without one, and an
  escape before every character otherwise.\<close>

definition shell_quote :: "char list \<Rightarrow> char list" where
  "shell_quote s = (if SQUOTE \<in> set s then concat (map (\<lambda>c. [BACKSLASH, c]) s) else SQUOTE # s @ [SQUOTE])"

fun unwords :: "char list list \<Rightarrow> char list" where
  "unwords [] = []"
| "unwords [w] = w"
| "unwords (w # ws) = w @ CHR '' '' # unwords ws"

lemma tok_single_quoted:
  "SQUOTE \<notin> set s \<Longrightarrow> tok out (Some t) (Some SQUOTE) False (s @ SQUOTE # cs) = tok out (Some (t @ s)) None False cs"
  by (induction s arbitrary: t) (auto simp: add_char_def)

lemma tok_escaped:
  "tok out (Some t) None False (concat (map (\<lambda>c. [BACKSLASH, c]) s) @ cs) = tok out (Some (t @ s)) None False cs"
  by (induction s arbitrary: t) (auto simp: add_char_def get_or_insert_def)

lemma tok_shell_quote: "tok out None None False (shell_quote s @ cs) = tok out (Some s) None False cs"
proof (cases "SQUOTE \<in> set s")
  case True
  then obtain c s' where s: "s = c # s'" by (cases s) auto
  have "tok out None None False (shell_quote s @ cs) = tok out (Some [c]) None False (concat (map (\<lambda>c. [BACKSLASH, c]) s') @ cs)"
    using True by (simp add: shell_quote_def s add_char_def get_or_insert_def)
  then show ?thesis by (simp add: tok_escaped s)
next
  case False
  then show ?thesis
    using tok_single_quoted [of s out "[]" cs] by (simp add: shell_quote_def get_or_insert_def)
qed

lemma tok_unwords:
  "length out + length ws \<le> MAX_ARGS \<Longrightarrow> tok out None None False (unwords (map shell_quote ws)) = Inr (out @ ws)"
proof (induction ws arbitrary: out rule: induct_list012)
  case 1
  then show ?case by (simp add: emit_def)
next
  case (2 w)
  then show ?case
    using tok_shell_quote [of out w "[]"] by (simp add: emit_def)
next
  case (3 w v ws)
  then show ?case
    using "3.IH"(2) [of "out @ [w]"]
    by (simp add: tok_shell_quote) (simp add: emit_def is_ascii_whitespace_def)
qed

lemma shell_quote_ascii: "list_all is_ascii w \<Longrightarrow> list_all is_ascii (shell_quote w)"
  by (auto simp: shell_quote_def list_all_iff is_ascii_def)

lemma unwords_quote_ascii:
  "list_all (list_all is_ascii) ws \<Longrightarrow> list_all is_ascii (unwords (map shell_quote ws))"
proof (induction ws rule: induct_list012)
  case (3 w v ws)
  have "is_ascii (CHR '' '')" by (simp add: is_ascii_def)
  with 3 show ?case by (simp add: shell_quote_ascii)
qed (simp_all add: shell_quote_ascii)

text \<open>An operator outside quotes is never accepted: up to the first quote or escape the tokeniser
  rejects it, if it has not already failed.\<close>

lemma operator_plain:
  "is_operator c \<Longrightarrow> \<not> is_ascii_whitespace c \<and> c \<noteq> BACKSLASH \<and> c \<noteq> SQUOTE \<and> c \<noteq> DQUOTE"
  unfolding is_operator_def by (elim disjE) (simp_all add: is_ascii_whitespace_def)

lemma tok_unquoted_operator:
  "list_all (\<lambda>c. c \<noteq> BACKSLASH \<and> c \<noteq> SQUOTE \<and> c \<noteq> DQUOTE) s \<Longrightarrow> is_operator c \<Longrightarrow>
    \<exists>e. tok out cur None False (s @ c # t) = Inl e"
proof (induction s arbitrary: out cur)
  case Nil
  then show ?case using operator_plain [of c] by simp
next
  case (Cons d s)
  then have d: "d \<noteq> BACKSLASH" "d \<noteq> SQUOTE" "d \<noteq> DQUOTE" by auto
  have IH: "\<exists>e. tok out' cur' None False (s @ c # t) = Inl e" for out' cur'
    using Cons by simp
  show ?case
  proof (cases "is_ascii_whitespace d")
    case True
    then show ?thesis
      using d IH by (cases "emit out cur") simp_all
  next
    case False
    then show ?thesis
      using d IH by (cases "is_operator d") simp_all
  qed
qed

section \<open>Properties\<close>

text \<open>C7: For every input the argument parser returns, reports exactly the error the reference
  tokeniser reports (input too long or not ASCII, operator outside quotes, unfinished escape,
  unclosed quote, too many arguments), and otherwise its structure holds exactly the reference's
  arguments, each readable through \<open>get\<close> without a panic.\<close>

theorem arguments_parse_refines_tokens:
  "case tokens s of
     Inl e \<Rightarrow> arguments_parse s = Some (Inl e)
   | Inr ts \<Rightarrow> \<exists>a. arguments_parse s = Some (Inr a) \<and> holds_args a ts"
  by (rule arguments_parse_tokens)

text \<open>Quoting and parsing round trip: up to 32 ASCII arguments, quoted and joined by spaces,
  parse back to exactly themselves whenever the quoted line fits in 256 bytes.\<close>

theorem arguments_quote_roundtrip:
  assumes "length ws \<le> 32" "list_all (list_all is_ascii) ws"
    "length (unwords (map shell_quote ws)) \<le> 256"
  shows "\<exists>a. arguments_parse (unwords (map shell_quote ws)) = Some (Inr a) \<and> holds_args a ws"
proof -
  have "list_all is_ascii (unwords (map shell_quote ws))"
    using assms(2) by (rule unwords_quote_ascii)
  then have "tokens (unwords (map shell_quote ws)) = Inr ws"
    using assms tok_unwords [of "[]" ws] by (simp add: tokens_def MAX_INPUT_def MAX_ARGS_def)
  then show ?thesis
    using arguments_parse_tokens [of "unwords (map shell_quote ws)"] by simp
qed

theorem arguments_quote_roundtrip_witness:
  "\<exists>a. arguments_parse (unwords (map shell_quote [''echo'', ''a | b'', ''it'' @ [SQUOTE] @ ''s'', []])) = Some (Inr a)
     \<and> holds_args a [''echo'', ''a | b'', ''it'' @ [SQUOTE] @ ''s'', []]"
  by (rule arguments_quote_roundtrip) (simp_all add: is_ascii_def shell_quote_def)

text \<open>A pipe, redirection, semicolon or ampersand before any quote or escape makes the whole
  command fail: no prefix of such a command is ever executed.\<close>

theorem arguments_reject_operators:
  assumes "list_all (\<lambda>c. c \<noteq> BACKSLASH \<and> c \<noteq> SQUOTE \<and> c \<noteq> DQUOTE) s" "is_operator c"
  shows "\<exists>e. arguments_parse (s @ c # t) = Some (Inl e)"
proof -
  have "\<exists>e. tokens (s @ c # t) = Inl e"
    using tok_unquoted_operator [OF assms, of "[]" None t] unfolding tokens_def by (metis (full_types))
  then show ?thesis
    using arguments_parse_tokens [of "s @ c # t"] by auto
qed

theorem arguments_reject_operators_witness:
  "\<exists>e. arguments_parse (''ls '' @ CHR ''|'' # '' grep x'') = Some (Inl e)"
  by (rule arguments_reject_operators) (simp_all add: is_operator_def)

end
