(* ===== verification/Web.thy ===== *)
theory Web
  imports Prelude
begin

text \<open>
  The text browser of \<^verbatim>\<open>src/src/net/web.rs\<close> (URL parser, response renderer, HTML renderer) and the HTTP
  request and response buffer of \<^verbatim>\<open>src/src/net/mod.rs\<close>. Strings are byte lists; the command line and
  the rendered page are ASCII. The parser accepts only hosts and paths that cannot break out of the
  request they are put into; rendering never panics and emits only printable characters and line
  breaks.
\<close>

section \<open>URLs\<close>

record Url =
  url_host :: "char list"
  url_port :: nat
  url_path :: "char list"

abbreviation err_scheme :: string where "err_scheme \<equiv> ''use an http:// URL''"
abbreviation err_port :: string where "err_port \<equiv> ''invalid HTTP port''"
abbreviation err_url :: string where "err_url \<equiv> ''invalid HTTP URL''"

text \<open>\<open>str::strip_prefix\<close>, \<open>str::rsplit_once\<close> on a character, and \<open>u16::from_str\<close>: an optional plus
  sign, then decimal digits with a value below 65536.\<close>

definition strip_prefix :: "char list \<Rightarrow> char list \<Rightarrow> char list option" where
  "strip_prefix p s = (if take (length p) s = p then Some (drop (length p) s) else None)"

definition rsplit_once :: "char \<Rightarrow> char list \<Rightarrow> (char list \<times> char list) option" where
  "rsplit_once c s = (case position (\<lambda>x. x = c) (rev s) of
      None \<Rightarrow> None
    | Some i \<Rightarrow> Some (take (length s - Suc i) s, drop (length s - i) s))"

fun digits_value :: "nat \<Rightarrow> char list \<Rightarrow> nat option" where
  "digits_value acc [] = Some acc"
| "digits_value acc (c # cs) =
     (if is_ascii_digit c \<and> acc * 10 + (code c - 48) < 65536 then digits_value (acc * 10 + (code c - 48)) cs
      else None)"

definition parse_u16 :: "char list \<Rightarrow> nat option" where
  "parse_u16 s = (case s of
      [] \<Rightarrow> None
    | c # cs \<Rightarrow> if cs = [] \<and> (c = CHR ''+'' \<or> c = CHR ''-'') then None
        else if c = CHR ''+'' then digits_value 0 cs else digits_value 0 s)"

definition host_byte :: "char \<Rightarrow> bool" where
  "host_byte b \<longleftrightarrow> is_ascii_alphanumeric b \<or> b = CHR ''.'' \<or> b = CHR ''-''"

definition path_byte :: "char \<Rightarrow> bool" where
  "path_byte b \<longleftrightarrow> is_ascii_graphic b \<and> b \<noteq> CHR ''#''"

definition url_parse :: "char list \<Rightarrow> string + Url" where
  "url_parse input = (case strip_prefix ''http://'' input of
      None \<Rightarrow> Inl err_scheme
    | Some rest \<Rightarrow>
        (let (authority, path) = (case position (\<lambda>c. c = CHR ''/'') rest of
               Some index \<Rightarrow> (take index rest, drop index rest)
             | None \<Rightarrow> (rest, ''/'')) in
         case (case rsplit_once (CHR '':'') authority of
             Some (host, port) \<Rightarrow> (case parse_u16 port of None \<Rightarrow> Inl err_port | Some n \<Rightarrow> Inr (host, n))
           | None \<Rightarrow> Inr (authority, 80)) of
           Inl e \<Rightarrow> Inl e
         | Inr (host, port) \<Rightarrow>
             if host = [] \<or> \<not> list_all host_byte host \<or> port = 0 \<or> \<not> list_all path_byte path
             then Inl err_url
             else Inr \<lparr>url_host = host, url_port = port, url_path = path\<rparr>))"

text \<open>The request \<open>net::fetch\<close> sends, and what it keeps of each received chunk.\<close>

abbreviation CRLF :: "char list" where "CRLF \<equiv> [CHR 0x0D, CHR 0x0A]"

definition http_request :: "Url \<Rightarrow> char list" where
  "http_request url = ''GET '' @ url_path url @ '' HTTP/1.0'' @ CRLF @ ''Host: '' @ url_host url
     @ CRLF @ ''Connection: close'' @ CRLF @ ''Accept: text/html,text/plain'' @ CRLF @ CRLF"

definition receive_chunk :: "byte list \<Rightarrow> byte list \<Rightarrow> byte list option" where
  "receive_chunk response bytes = (let available = 16384 - length response in do {
     kept \<leftarrow> slice bytes 0 (min (length bytes) available);
     Some (response @ kept)
   })"

section \<open>Rendering\<close>

text \<open>\<open>windows(n).position(|w| w == pat)\<close>\<close>

fun find_window :: "char list \<Rightarrow> char list \<Rightarrow> nat option" where
  "find_window pat [] = (if pat = [] then Some 0 else None)"
| "find_window pat (c # cs) =
     (if take (length pat) (c # cs) = pat then Some 0 else map_option Suc (find_window pat cs))"

text \<open>\<open>slice::split\<close> on a byte.\<close>

fun split_on :: "char \<Rightarrow> char list \<Rightarrow> char list list" where
  "split_on d [] = [[]]"
| "split_on d (c # cs) = (if c = d then [] # split_on d cs
     else (case split_on d cs of [] \<Rightarrow> [[c]] | w # ws \<Rightarrow> (c # w) # ws))"

definition starts_with :: "char list \<Rightarrow> char list \<Rightarrow> bool" where
  "starts_with s p \<longleftrightarrow> take (length p) s = p"

definition ends_with :: "char list \<Rightarrow> char \<Rightarrow> bool" where
  "ends_with s c \<longleftrightarrow> s \<noteq> [] \<and> last s = c"

definition matches_block :: "char list \<Rightarrow> bool" where
  "matches_block name = list_ex (\<lambda>candidate. eq_ignore_ascii_case name candidate)
     [''br'', ''p'', ''/p'', ''div'', ''/div'', ''li'', ''/li'', ''h1'', ''/h1'', ''h2'', ''/h2'', ''title'', ''/title'']"

definition entities :: "(char list \<times> char) list" where
  "entities = [(''&amp;'', CHR ''&''), (''&lt;'', CHR ''<''), (''&gt;'', CHR ''>''),
     (''&quot;'', CHR 0x22), (''&nbsp;'', CHR '' '')]"

lemma find_entity: "find p entities = Some (entity, character) \<Longrightarrow>
    0 < length entity \<and> (is_ascii_graphic character \<or> character = CHR '' '')"
proof -
  assume "find p entities = Some (entity, character)"
  then have "(entity, character) \<in> set entities" by (auto simp: find_Some_iff)
  then show ?thesis by (auto simp: entities_def is_ascii_graphic_def)
qed

text \<open>The effect of a tag: the new \<open>hidden\<close> flag and the output.\<close>

definition html_tag :: "char list \<Rightarrow> bool \<Rightarrow> char list \<Rightarrow> bool \<times> char list" where
  "html_tag tag hidden output =
     (let name_end = (case position is_ascii_whitespace tag of Some n \<Rightarrow> n | None \<Rightarrow> length tag);
          name = take name_end tag in
      if eq_ignore_ascii_case name ''script'' \<or> eq_ignore_ascii_case name ''style'' then (True, output)
      else if eq_ignore_ascii_case name ''/script'' \<or> eq_ignore_ascii_case name ''/style'' then (False, output)
      else if \<not> hidden \<and> matches_block name \<and> \<not> ends_with output (CHR 0x0A) then (hidden, output @ [CHR 0x0A])
      else (hidden, output))"

definition html_text :: "byte \<Rightarrow> char list \<Rightarrow> char list" where
  "html_text b output =
     (if is_ascii_whitespace b then
        (if \<not> ends_with output (CHR '' '') \<and> \<not> ends_with output (CHR 0x0A) then output @ '' '' else output)
      else if is_ascii_graphic b then output @ [b] else output)"

text \<open>The loop of \<open>render_html\<close> on \<open>body[index..]\<close>.\<close>

function html_loop :: "byte list \<Rightarrow> bool \<Rightarrow> char list \<Rightarrow> char list option" where
  "html_loop [] hidden output = Some output"
| "html_loop (b # bs) hidden output =
     (case (if b = CHR ''<'' then position (\<lambda>x. x = CHR ''>'') (b # bs) else None) of
        Some end' \<Rightarrow> do {
          tag \<leftarrow> slice (b # bs) 1 end';
          (let (hidden', output') = html_tag tag hidden output in
           html_loop (drop (end' + 1) (b # bs)) hidden' output')
        }
      | None \<Rightarrow>
          if \<not> hidden then
            (case find (\<lambda>(entity, character). starts_with (b # bs) entity) entities of
               Some (entity, character) \<Rightarrow> html_loop (drop (length entity) (b # bs)) hidden (output @ [character])
             | None \<Rightarrow> html_loop bs hidden (html_text b output))
          else html_loop bs hidden output)"
  by pat_completeness auto
termination
proof (relation "measure (\<lambda>(bs, _, _). length bs)", goal_cases)
  case (3 b bs hidden out)
  then show ?case by (auto dest: find_entity)
qed auto

definition render_html :: "byte list \<Rightarrow> char list \<Rightarrow> char list option" where
  "render_html body output = html_loop body False output"

definition plain_byte :: "byte \<Rightarrow> bool" where
  "plain_byte b \<longleftrightarrow> b = CHR 0x0A \<or> b = CHR 0x09 \<or> is_ascii b \<and> \<not> is_ascii_control b"

definition is_html :: "byte list \<Rightarrow> bool" where
  "is_html header = list_ex (\<lambda>line. starts_with (map to_ascii_lowercase line) ''content-type: text/html'')
     (split_on (CHR 0x0A) header)"

definition render :: "byte list \<Rightarrow> (string + char list) option" where
  "render response = (case find_window (CRLF @ CRLF) response of
      None \<Rightarrow> Some (Inl ''invalid HTTP response'')
    | Some header_end \<Rightarrow> do {
        header \<leftarrow> slice response 0 header_end;
        body \<leftarrow> slice response (header_end + 4) (length response);
        let status_end = (case find_window CRLF header of Some n \<Rightarrow> n | None \<Rightarrow> length header);
        status \<leftarrow> slice header 0 status_end;
        (if \<not> starts_with status ''HTTP/'' then Some (Inl ''invalid HTTP status'')
         else do {
           let output = filter (\<lambda>b. is_ascii_graphic b \<or> b = CHR '' '') status @ [CHR 0x0A];
           output \<leftarrow> (if is_html header then render_html body output
                      else Some (output @ filter plain_byte body));
           Some (Inr output)
         })
      })"

section \<open>Lemmas on URLs\<close>

definition url_ok :: "Url \<Rightarrow> bool" where
  "url_ok u \<longleftrightarrow> url_host u \<noteq> [] \<and> list_all host_byte (url_host u) \<and> 0 < url_port u \<and> url_port u < 65536
     \<and> list_all path_byte (url_path u) \<and> (\<exists>p. url_path u = CHR ''/'' # p)"

lemma digits_value_bound: "digits_value acc s = Some n \<Longrightarrow> acc < 65536 \<Longrightarrow> n < 65536"
  by (induction acc s rule: digits_value.induct) (auto split: if_splits)

lemma parse_u16_bound: "parse_u16 s = Some n \<Longrightarrow> n < 65536"
  by (auto simp: parse_u16_def dest: digits_value_bound split: list.splits if_splits)

lemma position_drop: "position (\<lambda>c. c = d) s = Some i \<Longrightarrow> \<exists>t. drop i s = d # t"
proof -
  assume "position (\<lambda>c. c = d) s = Some i"
  then have "i < length s" "s ! i = d" by (auto simp: position_Some_iff)
  then show ?thesis using Cons_nth_drop_Suc [of i s] by metis
qed

lemma url_parse_ok:
  assumes "url_parse s = Inr u"
  shows "url_ok u"
proof -
  obtain rest where rest: "strip_prefix ''http://'' s = Some rest"
    using assms by (cases "strip_prefix ''http://'' s") (auto simp: url_parse_def)
  obtain authority path where ap: "(case position (\<lambda>c. c = CHR ''/'') rest of
               Some index \<Rightarrow> (take index rest, drop index rest)
             | None \<Rightarrow> (rest, ''/'')) = (authority, path)" by fastforce
  have slash: "\<exists>p. path = CHR ''/'' # p"
    using ap position_drop [of "CHR ''/''" rest] by (auto split: option.splits)
  obtain host port where hp: "(case rsplit_once (CHR '':'') authority of
             Some (host, port) \<Rightarrow> (case parse_u16 port of None \<Rightarrow> Inl err_port | Some n \<Rightarrow> Inr (host, n))
           | None \<Rightarrow> Inr (authority, 80)) = Inr (host, port)"
    and u: "host \<noteq> []" "list_all host_byte host" "port \<noteq> 0" "list_all path_byte path"
      "u = \<lparr>url_host = host, url_port = port, url_path = path\<rparr>"
    using assms unfolding url_parse_def rest ap option.case prod.case Let_def
    by (auto split: sum.splits if_splits)
  have "port < 65536"
    using hp parse_u16_bound by (auto split: option.splits)
  then show ?thesis using u slash by (simp add: url_ok_def)
qed

lemma digits_value_snoc:
  "digits_value acc (s @ [c]) = (case digits_value acc s of None \<Rightarrow> None | Some v \<Rightarrow> digits_value v [c])"
  by (induction acc s rule: digits_value.induct) auto

lemma show_nat_digits: "list_all is_ascii_digit (show_nat n) \<and> show_nat n \<noteq> []"
proof (induction n rule: show_nat.induct)
  case (1 n)
  show ?case
  proof (cases "n < 10")
    case True
    then show ?thesis by (subst (1 2) show_nat.simps) (simp add: is_ascii_digit_def)
  next
    case False
    moreover have "is_ascii_digit (char_of (48 + n mod 10))" by (simp add: is_ascii_digit_def)
    ultimately show ?thesis using 1 by (subst (1 2) show_nat.simps) auto
  qed
qed

lemma digits_show_nat: "n < 65536 \<Longrightarrow> digits_value 0 (show_nat n) = Some n"
proof (induction n rule: show_nat.induct)
  case (1 n)
  show ?case
  proof (cases "n < 10")
    case True
    then show ?thesis by (subst show_nat.simps) (simp add: is_ascii_digit_def)
  next
    case False
    then have "digits_value 0 (show_nat (n div 10)) = Some (n div 10)" using 1 by simp
    then show ?thesis
      using False 1(2) by (subst show_nat.simps) (simp add: digits_value_snoc is_ascii_digit_def)
  qed
qed

lemma parse_u16_show: "n < 65536 \<Longrightarrow> parse_u16 (show_nat n) = Some n"
proof -
  assume n: "n < 65536"
  obtain c cs where c: "show_nat n = c # cs" "is_ascii_digit c"
    using show_nat_digits [of n] by (cases "show_nat n") auto
  have "c \<noteq> CHR ''+'' \<and> c \<noteq> CHR ''-''" using c(2) by (auto simp: is_ascii_digit_def)
  then show ?thesis using digits_show_nat [OF n] c(1) by (simp add: parse_u16_def)
qed

lemma rsplit_once_last:
  assumes "c \<notin> set t"
  shows "rsplit_once c (s @ c # t) = Some (s, t)"
proof -
  have "position (\<lambda>x. x = c) (rev (s @ c # t)) = Some (length t)"
    using assms position_append [of "rev t" "\<lambda>x. x = c" "c # rev s"] by auto
  then show ?thesis by (simp add: rsplit_once_def)
qed

lemma rsplit_once_None: "c \<notin> set s \<Longrightarrow> rsplit_once c s = None"
proof -
  assume "c \<notin> set s"
  then have "position (\<lambda>x. x = c) (rev s) = None" by (auto simp: position_None_iff)
  then show ?thesis by (simp add: rsplit_once_def)
qed

definition url_show :: "Url \<Rightarrow> char list" where
  "url_show u = ''http://'' @ url_host u @ CHR '':'' # show_nat (url_port u) @ url_path u"

lemma url_parse_show:
  assumes ok: "url_ok u"
  shows "url_parse (url_show u) = Inr u"
proof -
  obtain p where p: "url_path u = CHR ''/'' # p" using ok by (auto simp: url_ok_def)
  let ?a = "url_host u @ CHR '':'' # show_nat (url_port u)"
  have host: "CHR ''/'' \<notin> set (url_host u)"
    using ok by (auto simp: url_ok_def list_all_iff host_byte_def is_ascii_alphanumeric_def)
  have dig: "CHR ''/'' \<notin> set (show_nat (url_port u))" "CHR '':'' \<notin> set (show_nat (url_port u))"
    using show_nat_digits [of "url_port u"] by (auto simp: list_all_iff is_ascii_digit_def)
  have "position (\<lambda>c. c = CHR ''/'') (?a @ url_path u) = Some (length ?a)"
    using position_append [of ?a "\<lambda>c. c = CHR ''/''" "url_path u"] host dig(1) p by auto
  then have split: "(case position (\<lambda>c. c = CHR ''/'') (?a @ url_path u) of
               Some index \<Rightarrow> (take index (?a @ url_path u), drop index (?a @ url_path u))
             | None \<Rightarrow> (?a @ url_path u, ''/'')) = (?a, url_path u)" by simp
  have sp: "strip_prefix ''http://'' (url_show u) = Some (?a @ url_path u)"
    by (simp add: strip_prefix_def url_show_def)
  have "parse_u16 (show_nat (url_port u)) = Some (url_port u)"
    using ok by (simp add: parse_u16_show url_ok_def)
  then show ?thesis
    using ok unfolding url_parse_def sp option.case split Let_def prod.case rsplit_once_last [OF dig(2)]
    by (simp add: url_ok_def)
qed

section \<open>Lemmas on rendering\<close>

definition terminal_safe :: "char list \<Rightarrow> bool" where
  "terminal_safe s = list_all (\<lambda>c. is_ascii_graphic c \<or> c = CHR '' '' \<or> c = CHR 0x0A) s"

lemma html_tag_safe: "terminal_safe out \<Longrightarrow> terminal_safe (snd (html_tag tag hidden out))"
  by (simp add: html_tag_def terminal_safe_def Let_def)

lemma html_text_safe: "terminal_safe out \<Longrightarrow> terminal_safe (html_text b out)"
  by (simp add: html_text_def terminal_safe_def)

lemma html_loop_safe: "terminal_safe out \<Longrightarrow> \<exists>r. html_loop bs hidden out = Some r \<and> terminal_safe r"
proof (induction bs hidden out rule: html_loop.induct)
  case (2 b bs hidden out)
  let ?e = "if b = CHR ''<'' then position (\<lambda>x. x = CHR ''>'') (b # bs) else None"
  show ?case
  proof (cases ?e)
    case (Some e)
    then have e: "b = CHR ''<''" "position (\<lambda>x. x = CHR ''>'') (b # bs) = Some e" by (auto split: if_splits)
    then have bound: "0 < e" "e < length (b # bs)"
      using position_less [OF e(2)] by (auto split: if_splits)
    then have sl: "slice (b # bs) 1 e = Some (drop 1 (take e (b # bs)))" by (simp add: slice_def)
    obtain h o' where t: "html_tag (drop 1 (take e (b # bs))) hidden out = (h, o')" by fastforce
    have "terminal_safe o'" using html_tag_safe [OF 2(5)] t by (metis snd_conv)
    then have "\<exists>r. html_loop (drop (e + 1) (b # bs)) h o' = Some r \<and> terminal_safe r"
      using 2(4) [OF Some sl refl t [symmetric]] by blast
    then show ?thesis
      unfolding html_loop.simps(2) [of b bs] Some option.case sl bind.bind_lunit t Let_def prod.case .
  next
    case None
    show ?thesis
    proof (cases hidden)
      case True
      then show ?thesis using 2 None by simp
    next
      case False
      then show ?thesis
        using 2 None html_text_safe
        by (cases "find (\<lambda>(entity, character). starts_with (b # bs) entity) entities")
          (auto simp: terminal_safe_def dest: find_entity)
    qed
  qed
qed simp

lemma find_window_bound: "find_window pat s = Some i \<Longrightarrow> i + length pat \<le> length s"
  by (induction pat s arbitrary: i rule: find_window.induct)
    (auto split: if_splits simp: take_eq_Nil dest: arg_cong [where f = length])

lemma render_total:
  "\<exists>r. render response = Some r \<and> (\<forall>page. r = Inr page \<longrightarrow>
     list_all (\<lambda>c. is_ascii_graphic c \<or> c = CHR '' '' \<or> c = CHR 0x0A \<or> c = CHR 0x09) page)"
proof (cases "find_window (CRLF @ CRLF) response")
  case None
  then show ?thesis by (simp add: render_def)
next
  case (Some he)
  then have he: "he + 4 \<le> length response" using find_window_bound by fastforce
  let ?header = "take he response" and ?body = "drop (he + 4) response"
  have sl: "slice response 0 he = Some ?header" "slice response (he + 4) (length response) = Some ?body"
    using he by (simp_all add: slice_def)
  let ?se = "case find_window CRLF ?header of Some n \<Rightarrow> n | None \<Rightarrow> length ?header"
  have "?se \<le> length ?header"
    using find_window_bound [of CRLF ?header] by (fastforce split: option.splits)
  then have st: "slice ?header 0 ?se = Some (take ?se ?header)" by (simp add: slice_def)
  let ?status = "take ?se ?header"
  let ?out = "filter (\<lambda>b. is_ascii_graphic b \<or> b = CHR '' '') ?status @ [CHR 0x0A]"
  have out: "terminal_safe ?out" by (auto simp: terminal_safe_def list_all_iff)
  obtain h where h: "html_loop ?body False ?out = Some h" "terminal_safe h"
    using html_loop_safe [OF out] by blast
  have plain: "list_all (\<lambda>c. is_ascii_graphic c \<or> c = CHR '' '' \<or> c = CHR 0x0A \<or> c = CHR 0x09) (filter plain_byte ?body)"
  proof -
    have "is_ascii_graphic c \<or> c = CHR '' ''" if "is_ascii c" "\<not> is_ascii_control c" for c
    proof (cases "code c = 32")
      case True
      then show ?thesis by (simp add: code_space)
    next
      case False
      then show ?thesis using that by (simp add: ascii_simps)
    qed
    then show ?thesis by (auto simp: list_all_iff plain_byte_def)
  qed
  have "render response = Some (if \<not> starts_with ?status ''HTTP/'' then Inl ''invalid HTTP status''
      else Inr (if is_html ?header then h else ?out @ filter plain_byte ?body))"
    unfolding render_def Some option.case sl bind.bind_lunit Let_def st render_html_def h(1) by simp
  moreover have "list_all (\<lambda>c. is_ascii_graphic c \<or> c = CHR '' '' \<or> c = CHR 0x0A \<or> c = CHR 0x09) h"
    using h(2) by (auto simp: terminal_safe_def list_all_iff)
  moreover have "list_all (\<lambda>c. is_ascii_graphic c \<or> c = CHR '' '' \<or> c = CHR 0x0A \<or> c = CHR 0x09) (?out @ filter plain_byte ?body)"
    using plain by (auto simp: list_all_iff)
  ultimately show ?thesis by auto
qed

text \<open>Inside a script everything up to the next tag is skipped.\<close>

lemma html_loop_hidden:
  "CHR ''<'' \<notin> set junk \<Longrightarrow> html_loop (junk @ rest) True out = html_loop rest True out"
  by (induction junk) auto

lemma html_loop_tag:
  assumes "CHR ''>'' \<notin> set tag"
  shows "html_loop (CHR ''<'' # tag @ CHR ''>'' # rest) hidden out =
    (let (hidden', out') = html_tag tag hidden out in html_loop rest hidden' out')"
proof -
  have "position (\<lambda>x. x = CHR ''>'') (CHR ''<'' # tag @ CHR ''>'' # rest) = Some (length tag + 1)"
    using assms position_append [of tag "\<lambda>x. x = CHR ''>''" "CHR ''>'' # rest"] by auto
  moreover have "slice (CHR ''<'' # tag @ CHR ''>'' # rest) 1 (length tag + 1) = Some tag"
    by (simp add: slice_def)
  ultimately show ?thesis
    by (subst html_loop.simps(2)) simp
qed

lemma html_script_skipped:
  assumes "CHR ''<'' \<notin> set junk"
  shows "html_loop (''<script>'' @ junk @ ''</script>'' @ rest) False out = html_loop rest False out"
proof -
  have o: "html_tag ''script'' False out = (True, out)" "html_tag ''/script'' True out = (False, out)"
    by (simp_all add: html_tag_def is_ascii_whitespace_def eq_ignore_ascii_case_def to_ascii_lowercase_def)
  have "html_loop (''<script>'' @ junk @ ''</script>'' @ rest) False out = html_loop (junk @ ''</script>'' @ rest) True out"
    using html_loop_tag [of "''script''" "junk @ ''</script>'' @ rest" False out] o(1) by simp
  also have "\<dots> = html_loop (''</script>'' @ rest) True out" by (rule html_loop_hidden [OF assms])
  also have "\<dots> = html_loop rest False out"
    using html_loop_tag [of "''/script''" rest True out] o(2) by simp
  finally show ?thesis .
qed

text \<open>The response buffer never exceeds 16384 bytes and keeps a prefix of what was received.\<close>

fun receive_all :: "byte list \<Rightarrow> byte list list \<Rightarrow> byte list option" where
  "receive_all response [] = Some response"
| "receive_all response (c # cs) = do { r \<leftarrow> receive_chunk response c; receive_all r cs }"

lemma receive_all_take:
  "length response \<le> 16384 \<Longrightarrow> receive_all response cs = Some (take 16384 (response @ concat cs))"
proof (induction cs arbitrary: response)
  case (Cons c cs)
  let ?r = "response @ take (16384 - length response) c"
  have "receive_chunk response c = Some ?r"
    by (simp add: receive_chunk_def slice_def min_def Let_def)
  moreover have "receive_all ?r cs = Some (take 16384 (?r @ concat cs))"
    using Cons by simp
  moreover have "take 16384 (?r @ concat cs) = take 16384 (response @ c @ concat cs)"
    using Cons.prems by (cases "length c \<le> 16384 - length response") (simp_all add: min_def)
  ultimately show ?case by simp
qed simp

section \<open>Properties\<close>

text \<open>C37: A URL the browser accepts cannot inject anything into the request: its host is a non-empty
  string of letters, digits, dots and hyphens, its port is between 1 and 65535, its path starts
  with a slash and has only visible characters, so the request has exactly the five line ends of
  its template and one space before the protocol version.\<close>

theorem url_cannot_inject:
  assumes "url_parse s = Inr u"
  shows "url_ok u \<and> length (filter (\<lambda>c. c = CHR 0x0D) (http_request u)) = 5
    \<and> length (filter (\<lambda>c. c = CHR 0x0A) (http_request u)) = 5
    \<and> CHR '' '' \<notin> set (url_path u @ url_host u)"
proof -
  have ok: "url_ok u" by (rule url_parse_ok [OF assms])
  have no: "\<not> path_byte (CHR 0x0D)" "\<not> path_byte (CHR 0x0A)" "\<not> path_byte (CHR '' '')"
    "\<not> host_byte (CHR 0x0D)" "\<not> host_byte (CHR 0x0A)" "\<not> host_byte (CHR '' '')"
    by (simp_all add: path_byte_def host_byte_def ascii_simps)
  have "list_all path_byte (url_path u)" "list_all host_byte (url_host u)"
    using ok by (simp_all add: url_ok_def)
  with no have "CHR 0x0D \<notin> set (url_path u)" "CHR 0x0D \<notin> set (url_host u)"
    "CHR 0x0A \<notin> set (url_path u)" "CHR 0x0A \<notin> set (url_host u)"
    "CHR '' '' \<notin> set (url_path u @ url_host u)"
    unfolding list_all_iff by auto
  then have "filter (\<lambda>c. c = CHR 0x0D) (url_path u) = []" "filter (\<lambda>c. c = CHR 0x0D) (url_host u) = []"
    "filter (\<lambda>c. c = CHR 0x0A) (url_path u) = []" "filter (\<lambda>c. c = CHR 0x0A) (url_host u) = []"
    "CHR '' '' \<notin> set (url_path u @ url_host u)"
    by (auto simp: filter_empty_conv)
  then show ?thesis using ok by (simp add: http_request_def)
qed

theorem url_cannot_inject_witness:
  "url_ok \<lparr>url_host = ''a.b'', url_port = 80, url_path = ''/x''\<rparr>
    \<and> length (filter (\<lambda>c. c = CHR 0x0D) (http_request \<lparr>url_host = ''a.b'', url_port = 80, url_path = ''/x''\<rparr>)) = 5
    \<and> length (filter (\<lambda>c. c = CHR 0x0A) (http_request \<lparr>url_host = ''a.b'', url_port = 80, url_path = ''/x''\<rparr>)) = 5
    \<and> CHR '' '' \<notin> set (url_path \<lparr>url_host = ''a.b'', url_port = 80, url_path = ''/x''\<rparr> @ url_host \<lparr>url_host = ''a.b'', url_port = 80, url_path = ''/x''\<rparr>)"
proof (rule url_cannot_inject)
  show "url_parse ''http://a.b/x'' = Inr \<lparr>url_host = ''a.b'', url_port = 80, url_path = ''/x''\<rparr>"
    by (simp add: url_parse_def strip_prefix_def rsplit_once_def host_byte_def path_byte_def ascii_simps)
qed

text \<open>Parsing inverts printing: a well-formed host, port and path written as a URL parse back to
  exactly themselves.\<close>

theorem url_roundtrip:
  assumes "url_ok u"
  shows "url_parse (url_show u) = Inr u"
  by (rule url_parse_show [OF assms])

theorem url_roundtrip_witness:
  "url_parse (url_show \<lparr>url_host = ''example.com'', url_port = 8080, url_path = ''/a''\<rparr>)
    = Inr \<lparr>url_host = ''example.com'', url_port = 8080, url_path = ''/a''\<rparr>"
  by (rule url_roundtrip) (simp add: url_ok_def host_byte_def path_byte_def ascii_simps)

text \<open>C39: Rendering any response, however malformed, neither panics nor loops, and a page that is
  returned consists of visible ASCII characters, spaces, tabs and line feeds only: no control
  byte of a server reaches the terminal.\<close>

theorem render_total_and_printable:
  "\<exists>r. render response = Some r \<and> (case r of Inl _ \<Rightarrow> True | Inr page \<Rightarrow>
     list_all (\<lambda>c. is_ascii_graphic c \<or> c = CHR '' '' \<or> c = CHR 0x0A \<or> c = CHR 0x09) page)"
  using render_total [of response] by (metis (no_types, lifting) old.sum.exhaust sum.case)

text \<open>The contents of a script element without a less-than sign never appear: the rest of the
  page is rendered as if the element were not there.\<close>

theorem html_script_is_skipped:
  assumes "CHR ''<'' \<notin> set junk"
  shows "render_html (''<script>'' @ junk @ ''</script>'' @ rest) out = render_html rest out"
  unfolding render_html_def by (rule html_script_skipped [OF assms])

theorem html_script_is_skipped_witness:
  "render_html (''<script>'' @ ''alert(1)'' @ ''</script>'' @ ''hi'') ''x'' = render_html ''hi'' ''x''"
  by (rule html_script_is_skipped) simp

text \<open>With a less-than sign inside the script its closing tag is swallowed as part of a bogus
  tag, and everything after the script is hidden.\<close>

theorem html_script_swallows_page:
  "render_html (''<script>a<b</script>'' @ rest) out = html_loop rest True out
    \<and> render_html (''<script>a<b</script>'' @ ''Hello'') out = Some out"
proof -
  have o: "html_tag ''script'' False out = (True, out)" "html_tag ''b</script'' True out = (True, out)"
    by (simp_all add: html_tag_def is_ascii_whitespace_def eq_ignore_ascii_case_def to_ascii_lowercase_def)
  have eq: "render_html (''<script>a<b</script>'' @ r) out = html_loop r True out" for r
  proof -
    have "html_loop (''<script>a<b</script>'' @ r) False out = html_loop (''a<b</script>'' @ r) True out"
      using html_loop_tag [of "''script''" "''a<b</script>'' @ r" False out] o(1) by simp
    also have "\<dots> = html_loop (''<b</script>'' @ r) True out"
      using html_loop_hidden [of "''a''" "''<b</script>'' @ r" out] by simp
    also have "\<dots> = html_loop r True out"
      using html_loop_tag [of "''b</script''" r True out] o(2) by simp
    finally show ?thesis by (simp add: render_html_def)
  qed
  then show ?thesis using html_loop_hidden [of "''Hello''" "[]" out] by simp
qed

text \<open>However the network delivers the response in chunks, the buffer holds its first 16384
  bytes and no slice is out of range.\<close>

theorem response_buffer_bounded:
  "receive_all [] cs = Some (take 16384 (concat cs))"
  using receive_all_take [of "[]" cs] by simp

end
