(* ===== verification/Vga_Writer.thy ===== *)
theory Vga_Writer
  imports Prelude
begin

text \<open>
  The text console of \<^verbatim>\<open>src/src/vga_buffer.rs\<close> (structs \<open>Position\<close> and \<open>Writer\<close>): a ring of 128
  rows of 80 cells that holds the newest lines of the output, a cursor with pending wrap, and a
  scrollback view. The specification is an unbounded grid of cells; \<open>writer_sim\<close> relates the
  two, and every operation is shown not to panic and to simulate its counterpart on the grid,
  so the ring always shows the last 128 lines of what an unbounded terminal would hold.
\<close>

section \<open>Data\<close>

datatype Color = Black | Blue | Green | Cyan | Red | Magenta | Brown | LightGray | DarkGray
  | LightBlue | LightGreen | LightCyan | LightRed | Pink | Yellow | White

primrec color_u8 :: "Color \<Rightarrow> u8" where
  "color_u8 Black = 0" | "color_u8 Blue = 1" | "color_u8 Green = 2" | "color_u8 Cyan = 3"
| "color_u8 Red = 4" | "color_u8 Magenta = 5" | "color_u8 Brown = 6" | "color_u8 LightGray = 7"
| "color_u8 DarkGray = 8" | "color_u8 LightBlue = 9" | "color_u8 LightGreen = 10"
| "color_u8 LightCyan = 11" | "color_u8 LightRed = 12" | "color_u8 Pink = 13"
| "color_u8 Yellow = 14" | "color_u8 White = 15"

record ScreenChar =
  ascii_character :: byte
  color_code :: u8

definition BLANK :: ScreenChar where
  "BLANK = \<lparr>ascii_character = CHR '' '', color_code = color_u8 LightGray\<rparr>"

definition BUFFER_HEIGHT :: nat where "BUFFER_HEIGHT = 25"
definition BUFFER_WIDTH :: nat where "BUFFER_WIDTH = 80"
definition TERMINAL_ROWS :: nat where "TERMINAL_ROWS = 16"
definition SCREEN_CELLS :: nat where "SCREEN_CELLS = BUFFER_HEIGHT * BUFFER_WIDTH"
definition SCROLLBACK_LINES :: nat where "SCROLLBACK_LINES = 128"

lemmas vga_consts = BUFFER_HEIGHT_def BUFFER_WIDTH_def TERMINAL_ROWS_def SCROLLBACK_LINES_def

record Position =
  p_line :: nat
  p_column :: nat

text \<open>\<open>Position::offset\<close>; a zero width would divide by zero.\<close>

definition position_offset :: "Position \<Rightarrow> nat \<Rightarrow> nat \<Rightarrow> Position option" where
  "position_offset p bytes width =
     (if width = 0 then None
      else (let offset = p_column p + bytes in
        if offset > 0 \<and> offset mod width = 0
        then Some \<lparr>p_line = p_line p + offset div width - 1, p_column = width\<rparr>
        else Some \<lparr>p_line = p_line p + offset div width, p_column = offset mod width\<rparr>))"

record Writer =
  w_lines :: "ScreenChar list list"
  w_cursor :: Position
  w_last_line :: nat
  w_first_line :: nat
  w_view_top :: nat
  w_color :: u8
  w_columns :: nat

section \<open>Operations\<close>

definition writer_new :: Writer where
  "writer_new = \<lparr>w_lines = replicate SCROLLBACK_LINES (replicate BUFFER_WIDTH BLANK),
     w_cursor = \<lparr>p_line = 0, p_column = 0\<rparr>, w_last_line = 0, w_first_line = 0, w_view_top = 0,
     w_color = color_u8 LightGray, w_columns = BUFFER_WIDTH\<rparr>"

definition writer_clear :: "Writer \<Rightarrow> Writer" where
  "writer_clear w = w\<lparr>w_lines := map (\<lambda>line. map (\<lambda>_. BLANK) line) (w_lines w),
     w_cursor := \<lparr>p_line = 0, p_column = 0\<rparr>, w_last_line := 0, w_first_line := 0, w_view_top := 0,
     w_color := color_u8 LightGray\<rparr>"

definition color_byte :: "Color \<Rightarrow> Color \<Rightarrow> u8" where
  "color_byte foreground background = push_bit 4 (color_u8 background) OR color_u8 foreground"

definition set_color :: "Writer \<Rightarrow> Color \<Rightarrow> Color \<Rightarrow> Writer" where
  "set_color w foreground background = w\<lparr>w_color := color_byte foreground background\<rparr>"

definition set_columns :: "Writer \<Rightarrow> nat \<Rightarrow> Writer option" where
  "set_columns w columns = do {
     rust_assert (1 \<le> columns \<and> columns \<le> BUFFER_WIDTH);
     Some (w\<lparr>w_columns := columns\<rparr>)
   }"

definition live_top :: "Writer \<Rightarrow> nat" where
  "live_top w = w_last_line w - (TERMINAL_ROWS - 1)"

text \<open>\<open>self.lines[i].fill(BLANK)\<close>\<close>

definition fill_row :: "ScreenChar list list \<Rightarrow> nat \<Rightarrow> ScreenChar list list option" where
  "fill_row ls i = do { row \<leftarrow> arr_get ls i; arr_set ls i (map (\<lambda>_. BLANK) row) }"

function ensure_loop :: "Writer \<Rightarrow> nat \<Rightarrow> Writer option" where
  "ensure_loop w line =
     (if w_last_line w < line then do {
        ls \<leftarrow> fill_row (w_lines w) ((w_last_line w + 1) mod SCROLLBACK_LINES);
        ensure_loop (w\<lparr>w_last_line := w_last_line w + 1, w_lines := ls\<rparr>) line
      } else Some w)"
  by pat_completeness auto
termination
  by (relation "measure (\<lambda>(w, line). line - w_last_line w)") auto

declare ensure_loop.simps [simp del]

definition ensure_line :: "Writer \<Rightarrow> nat \<Rightarrow> Writer option" where
  "ensure_line w0 line = do {
     w \<leftarrow> ensure_loop w0 line;
     Some (w\<lparr>w_first_line := w_last_line w - (SCROLLBACK_LINES - 1), w_view_top := live_top w\<rparr>)
   }"

text \<open>The branches of \<open>write_byte\<close>: line feed, a byte put at the cursor, and the tab's loop of
  spaces. Each starts by returning the view to the live display.\<close>

definition write_newline :: "Writer \<Rightarrow> Writer option" where
  "write_newline w0 = (let w = w0\<lparr>w_view_top := live_top w0\<rparr> in
     ensure_line (w\<lparr>w_cursor := \<lparr>p_line = p_line (w_cursor w) + 1, p_column = 0\<rparr>\<rparr>)
       (p_line (w_cursor w) + 1))"

definition glyph :: "byte \<Rightarrow> byte" where
  "glyph b = (if is_ascii_graphic b \<or> b = CHR '' '' then b else CHR 0xFE)"

definition write_glyph :: "Writer \<Rightarrow> byte \<Rightarrow> Writer option" where
  "write_glyph w0 b = (let w = w0\<lparr>w_view_top := live_top w0\<rparr> in do {
     w \<leftarrow> (if p_column (w_cursor w) = w_columns w then write_newline w else Some w);
     row \<leftarrow> arr_get (w_lines w) (p_line (w_cursor w) mod SCROLLBACK_LINES);
     row \<leftarrow> arr_set row (p_column (w_cursor w)) \<lparr>ascii_character = glyph b, color_code = w_color w\<rparr>;
     ls \<leftarrow> arr_set (w_lines w) (p_line (w_cursor w) mod SCROLLBACK_LINES) row;
     Some (w\<lparr>w_lines := ls, w_cursor := (w_cursor w)\<lparr>p_column := p_column (w_cursor w) + 1\<rparr>\<rparr>)
   })"

primrec write_spaces :: "nat \<Rightarrow> Writer \<Rightarrow> Writer option" where
  "write_spaces 0 w = Some w"
| "write_spaces (Suc n) w = do { w' \<leftarrow> write_glyph w (CHR '' ''); write_spaces n w' }"

definition write_byte :: "Writer \<Rightarrow> byte \<Rightarrow> Writer option" where
  "write_byte w0 b =
     (let w = w0\<lparr>w_view_top := live_top w0\<rparr> in
      if b = CHR 0x0A then write_newline w
      else if b = CHR 0x0D then Some (w\<lparr>w_cursor := (w_cursor w)\<lparr>p_column := 0\<rparr>\<rparr>)
      else if b = CHR 0x09 then write_spaces (4 - p_column (w_cursor w) mod 4) w
      else write_glyph w b)"

text \<open>\<open>write_string\<close> on the code points of the text; \<open>fmt::Write::write_str\<close> is the same.\<close>

definition char_byte :: "nat \<Rightarrow> byte" where
  "char_byte c = (if c < 128 then char_of c else CHR 0xFE)"

fun write_string :: "Writer \<Rightarrow> nat list \<Rightarrow> Writer option" where
  "write_string w [] = Some w"
| "write_string w (c # cs) = do { w' \<leftarrow> write_byte w (char_byte c); write_string w' cs }"

definition replace_input :: "Writer \<Rightarrow> Position \<Rightarrow> char list \<Rightarrow> nat \<Rightarrow> nat \<Rightarrow> Writer option" where
  "replace_input w anchor s cursor old_len = do {
     rust_assert (p_line anchor \<ge> w_first_line w);
     rust_assert (list_all is_ascii s \<and> cursor \<le> length s);
     w \<leftarrow> write_string (w\<lparr>w_cursor := anchor\<rparr>) (str_chars s);
     w \<leftarrow> write_string w (replicate (old_len - length s) 32);
     pos \<leftarrow> position_offset anchor cursor (w_columns w);
     ensure_line (w\<lparr>w_cursor := pos\<rparr>) (p_line pos)
   }"

definition scroll_up :: "Writer \<Rightarrow> Writer" where
  "scroll_up w = w\<lparr>w_view_top := max (w_view_top w - (TERMINAL_ROWS - 1)) (w_first_line w)\<rparr>"

definition scroll_down :: "Writer \<Rightarrow> Writer" where
  "scroll_down w = w\<lparr>w_view_top := min (w_view_top w + TERMINAL_ROWS - 1) (live_top w)\<rparr>"

section \<open>Specification: an unbounded grid\<close>

record Grid =
  g_cell :: "nat \<Rightarrow> nat \<Rightarrow> ScreenChar"
  g_pos :: Position
  g_last :: nat

definition grid_new :: Grid where
  "grid_new = \<lparr>g_cell = (\<lambda>_ _. BLANK), g_pos = \<lparr>p_line = 0, p_column = 0\<rparr>, g_last = 0\<rparr>"

definition grid_newline :: "Grid \<Rightarrow> Grid" where
  "grid_newline g = g\<lparr>g_pos := \<lparr>p_line = p_line (g_pos g) + 1, p_column = 0\<rparr>,
     g_last := max (g_last g) (p_line (g_pos g) + 1)\<rparr>"

definition grid_wrap :: "nat \<Rightarrow> Grid \<Rightarrow> Grid" where
  "grid_wrap cols g = (if p_column (g_pos g) = cols then grid_newline g else g)"

definition grid_put :: "nat \<Rightarrow> u8 \<Rightarrow> byte \<Rightarrow> Grid \<Rightarrow> Grid" where
  "grid_put cols col b g0 = (let g = grid_wrap cols g0; l = p_line (g_pos g); c = p_column (g_pos g) in
     g\<lparr>g_cell := (g_cell g)(l := (g_cell g l)(c := \<lparr>ascii_character = glyph b, color_code = col\<rparr>)),
       g_pos := \<lparr>p_line = l, p_column = c + 1\<rparr>\<rparr>)"

definition grid_write :: "nat \<Rightarrow> u8 \<Rightarrow> byte \<Rightarrow> Grid \<Rightarrow> Grid" where
  "grid_write cols col b g =
     (if b = CHR 0x0A then grid_newline g
      else if b = CHR 0x0D then g\<lparr>g_pos := (g_pos g)\<lparr>p_column := 0\<rparr>\<rparr>
      else if b = CHR 0x09 then (grid_put cols col (CHR '' '') ^^ (4 - p_column (g_pos g) mod 4)) g
      else grid_put cols col b g)"

definition grid_string :: "nat \<Rightarrow> u8 \<Rightarrow> nat list \<Rightarrow> Grid \<Rightarrow> Grid" where
  "grid_string cols col cs g = fold (\<lambda>c. grid_write cols col (char_byte c)) cs g"

text \<open>The type invariant of a writer, and the simulation: retained rows agree with the grid, and
  the grid is blank below the last line.\<close>

definition writer_inv :: "Writer \<Rightarrow> bool" where
  "writer_inv w \<longleftrightarrow> length (w_lines w) = SCROLLBACK_LINES \<and> list_all (\<lambda>r. length r = BUFFER_WIDTH) (w_lines w)
     \<and> 1 \<le> w_columns w \<and> w_columns w \<le> BUFFER_WIDTH
     \<and> p_column (w_cursor w) \<le> w_columns w
     \<and> w_first_line w = w_last_line w - (SCROLLBACK_LINES - 1)
     \<and> w_first_line w \<le> p_line (w_cursor w) \<and> p_line (w_cursor w) \<le> w_last_line w
     \<and> w_first_line w \<le> w_view_top w \<and> w_view_top w \<le> live_top w"

definition rows_agree :: "ScreenChar list list \<Rightarrow> nat \<Rightarrow> (nat \<Rightarrow> nat \<Rightarrow> ScreenChar) \<Rightarrow> bool" where
  "rows_agree ls lst cell \<longleftrightarrow>
     (\<forall>n c. n \<le> lst \<and> lst < n + SCROLLBACK_LINES \<and> c < BUFFER_WIDTH \<longrightarrow> ls ! (n mod SCROLLBACK_LINES) ! c = cell n c)
     \<and> (\<forall>n c. lst < n \<longrightarrow> cell n c = BLANK)"

definition writer_sim :: "Writer \<Rightarrow> Grid \<Rightarrow> bool" where
  "writer_sim w g \<longleftrightarrow> writer_inv w \<and> rows_agree (w_lines w) (w_last_line w) (g_cell g)
     \<and> g_pos g = w_cursor w \<and> g_last g = w_last_line w"

section \<open>Simulation\<close>

lemma vga_pos [simp]: "0 < SCROLLBACK_LINES" "SCROLLBACK_LINES \<noteq> 0" "0 < BUFFER_WIDTH"
  by (simp_all add: vga_consts)

lemma mod_rows [simp]: "n mod SCROLLBACK_LINES < SCROLLBACK_LINES"
  by (rule mod_less_divisor) simp

abbreviation screen_shape :: "ScreenChar list list \<Rightarrow> bool" where
  "screen_shape ls \<equiv> length ls = SCROLLBACK_LINES \<and> list_all (\<lambda>r. length r = BUFFER_WIDTH) ls"

lemma writer_new_sim: "writer_sim writer_new grid_new"
  by (simp add: writer_sim_def writer_inv_def writer_new_def grid_new_def rows_agree_def list_all_iff
      live_top_def)
    (simp add: vga_consts)

lemma writer_clear_sim: "writer_inv w \<Longrightarrow> writer_sim (writer_clear w) grid_new"
  by (simp add: writer_sim_def writer_inv_def writer_clear_def grid_new_def rows_agree_def list_all_iff
      live_top_def)

text \<open>Blanking the row that enters the ring.\<close>

lemma fill_row_agrees:
  assumes sh: "screen_shape ls" and ag: "rows_agree ls lst cell"
  shows "\<exists>ls'. fill_row ls ((lst + 1) mod SCROLLBACK_LINES) = Some ls' \<and> screen_shape ls'
    \<and> rows_agree ls' (lst + 1) cell"
proof -
  let ?k = "(lst + 1) mod SCROLLBACK_LINES"
  let ?ls = "ls[?k := map (\<lambda>_. BLANK) (ls ! ?k)]"
  have k: "?k < length ls" and row: "length (ls ! ?k) = BUFFER_WIDTH"
    using sh by (simp_all add: list_all_length)
  have "fill_row ls ?k = Some ?ls"
    using k by (simp add: fill_row_def arr_get_def arr_set_def)
  moreover have "screen_shape ?ls"
    using sh row by (auto simp: list_all_length nth_list_update)
  moreover have "?ls ! (n mod SCROLLBACK_LINES) ! c = cell n c"
    if n: "n \<le> lst + 1" "lst + 1 < n + SCROLLBACK_LINES" and c: "c < BUFFER_WIDTH" for n c
  proof (cases "n = lst + 1")
    case True
    then show ?thesis
      using ag k row c by (simp add: rows_agree_def)
  next
    case False
    then have "n mod SCROLLBACK_LINES \<noteq> ?k"
      using n mod_eq_imp_eq [of n SCROLLBACK_LINES "lst + 1"] by auto
    then show ?thesis
      using ag n c False by (simp add: rows_agree_def)
  qed
  ultimately show ?thesis
    using ag by (simp add: rows_agree_def)
qed

lemma ensure_loop_spec:
  assumes "screen_shape (w_lines w)" "rows_agree (w_lines w) (w_last_line w) cell"
  shows "\<exists>ls. ensure_loop w line = Some (w\<lparr>w_last_line := max (w_last_line w) line, w_lines := ls\<rparr>)
    \<and> screen_shape ls \<and> rows_agree ls (max (w_last_line w) line) cell"
  using assms
proof (induction w line rule: ensure_loop.induct)
  case (1 w line)
  show ?case
  proof (cases "w_last_line w < line")
    case True
    obtain ls where ls: "fill_row (w_lines w) ((w_last_line w + 1) mod SCROLLBACK_LINES) = Some ls"
      "screen_shape ls" "rows_agree ls (w_last_line w + 1) cell"
      using fill_row_agrees [OF 1(2,3)] by blast
    have "ensure_loop w line = ensure_loop (w\<lparr>w_last_line := w_last_line w + 1, w_lines := ls\<rparr>) line"
      using True ls(1) by (subst ensure_loop.simps) simp
    then show ?thesis
      using 1(1) [OF True ls(1)] ls(2,3) True by (simp add: max_def)
  next
    case False
    then show ?thesis
      using 1(2,3) by (subst ensure_loop.simps) (auto simp: max_def intro!: exI [of _ "w_lines w"])
  qed
qed

text \<open>\<open>ensure_line\<close> re-establishes the invariant for a cursor anywhere in the retained lines.\<close>

lemma ensure_line_sim:
  assumes sh: "screen_shape (w_lines w)" and ag: "rows_agree (w_lines w) (w_last_line w) (g_cell g)"
    and cols: "1 \<le> w_columns w" "w_columns w \<le> BUFFER_WIDTH" "p_column (w_cursor w) \<le> w_columns w"
    and pos: "g_pos g = w_cursor w" and line: "p_line (w_cursor w) \<le> max (w_last_line w) line"
    and keep: "max (w_last_line w) line < p_line (w_cursor w) + SCROLLBACK_LINES"
  shows "\<exists>w'. ensure_line w line = Some w' \<and> writer_sim w' (g\<lparr>g_last := max (w_last_line w) line\<rparr>)
    \<and> w_columns w' = w_columns w \<and> w_color w' = w_color w \<and> w_view_top w' = live_top w'"
proof -
  obtain ls where ls: "ensure_loop w line = Some (w\<lparr>w_last_line := max (w_last_line w) line, w_lines := ls\<rparr>)"
    "screen_shape ls" "rows_agree ls (max (w_last_line w) line) (g_cell g)"
    using ensure_loop_spec [OF sh ag] by blast
  then show ?thesis
    using cols pos line keep
    by (auto simp: ensure_line_def writer_sim_def writer_inv_def live_top_def vga_consts)
qed

lemma write_newline_sim:
  assumes sim: "writer_sim w g"
  shows "\<exists>w'. write_newline w = Some w' \<and> writer_sim w' (grid_newline g)
    \<and> w_columns w' = w_columns w \<and> w_color w' = w_color w \<and> w_view_top w' = live_top w'"
proof -
  let ?w = "w\<lparr>w_view_top := live_top w, w_cursor := \<lparr>p_line = p_line (w_cursor w) + 1, p_column = 0\<rparr>\<rparr>"
  let ?g = "g\<lparr>g_pos := \<lparr>p_line = p_line (w_cursor w) + 1, p_column = 0\<rparr>\<rparr>"
  note s = sim [unfolded writer_sim_def writer_inv_def]
  have "\<exists>w'. ensure_line ?w (p_line (w_cursor w) + 1) = Some w'
      \<and> writer_sim w' (?g\<lparr>g_last := max (w_last_line ?w) (p_line (w_cursor w) + 1)\<rparr>)
      \<and> w_columns w' = w_columns ?w \<and> w_color w' = w_color ?w \<and> w_view_top w' = live_top w'"
    using s by (intro ensure_line_sim) (auto simp: vga_consts)
  then show ?thesis
    using s by (simp add: write_newline_def grid_newline_def)
qed

lemma view_top_sim: "writer_sim w g \<Longrightarrow> writer_sim (w\<lparr>w_view_top := live_top w\<rparr>) g"
  by (auto simp: writer_sim_def writer_inv_def live_top_def vga_consts)

text \<open>Storing a cell in a retained row.\<close>

lemma rows_agree_put:
  assumes ag: "rows_agree ls lst cell" and sh: "screen_shape ls"
    and l: "l \<le> lst" "lst < l + SCROLLBACK_LINES" and c: "c < BUFFER_WIDTH"
  shows "rows_agree (ls[l mod SCROLLBACK_LINES := (ls ! (l mod SCROLLBACK_LINES))[c := v]]) lst
    (cell(l := (cell l)(c := v)))"
proof -
  let ?k = "l mod SCROLLBACK_LINES"
  have row: "?k < length ls" "length (ls ! ?k) = BUFFER_WIDTH"
    using sh by (auto simp: list_all_length)
  have "ls[?k := (ls ! ?k)[c := v]] ! (n mod SCROLLBACK_LINES) ! d = (cell(l := (cell l)(c := v))) n d"
    if n: "n \<le> lst" "lst < n + SCROLLBACK_LINES" and d: "d < BUFFER_WIDTH" for n d
  proof (cases "n = l")
    case True
    then show ?thesis
      using ag n d row by (auto simp: rows_agree_def nth_list_update)
  next
    case False
    then have "n mod SCROLLBACK_LINES \<noteq> ?k"
      using n l mod_eq_imp_eq [of n SCROLLBACK_LINES l] mod_eq_imp_eq [of l SCROLLBACK_LINES n] by linarith
    then show ?thesis
      using ag n d False by (simp add: rows_agree_def)
  qed
  then show ?thesis
    using ag l by (auto simp: rows_agree_def)
qed

lemma write_cell_sim:
  assumes sim: "writer_sim w g" and col: "p_column (w_cursor w) < w_columns w"
  defines "l \<equiv> p_line (w_cursor w)" and "c \<equiv> p_column (w_cursor w)"
  shows "\<exists>w'. do {
       row \<leftarrow> arr_get (w_lines w) (l mod SCROLLBACK_LINES);
       row \<leftarrow> arr_set row c v;
       ls \<leftarrow> arr_set (w_lines w) (l mod SCROLLBACK_LINES) row;
       Some (w\<lparr>w_lines := ls, w_cursor := (w_cursor w)\<lparr>p_column := c + 1\<rparr>\<rparr>)
     } = Some w' \<and> writer_sim w' (g\<lparr>g_cell := (g_cell g)(l := (g_cell g l)(c := v)),
       g_pos := \<lparr>p_line = l, p_column = c + 1\<rparr>\<rparr>)
    \<and> w_columns w' = w_columns w \<and> w_color w' = w_color w \<and> w_view_top w' = w_view_top w \<and> live_top w' = live_top w"
proof -
  note s = sim [unfolded writer_sim_def writer_inv_def]
  let ?k = "l mod SCROLLBACK_LINES"
  let ?ls = "(w_lines w)[?k := (w_lines w ! ?k)[c := v]]"
  have len: "?k < length (w_lines w)" "length (w_lines w ! ?k) = BUFFER_WIDTH" "c < BUFFER_WIDTH"
    using s col by (auto simp: list_all_length c_def)
  have "rows_agree ?ls (w_last_line w) ((g_cell g)(l := (g_cell g l)(c := v)))"
    using s col by (intro rows_agree_put) (auto simp: l_def c_def vga_consts)
  moreover have "screen_shape ?ls"
    using s len by (auto simp: list_all_length nth_list_update)
  ultimately show ?thesis
    using s col len by (simp add: arr_get_def arr_set_def writer_sim_def writer_inv_def l_def c_def live_top_def)
qed

lemma write_glyph_sim:
  assumes sim: "writer_sim w g"
  shows "\<exists>w'. write_glyph w b = Some w' \<and> writer_sim w' (grid_put (w_columns w) (w_color w) b g)
    \<and> w_columns w' = w_columns w \<and> w_color w' = w_color w \<and> w_view_top w' = live_top w'"
proof -
  let ?w = "w\<lparr>w_view_top := live_top w\<rparr>"
  have sim': "writer_sim ?w g" by (rule view_top_sim [OF sim])
  obtain w1 where w1: "(if p_column (w_cursor ?w) = w_columns ?w then write_newline ?w else Some ?w) = Some w1"
    "writer_sim w1 (grid_wrap (w_columns w) g)" "w_columns w1 = w_columns w" "w_color w1 = w_color w"
    "w_view_top w1 = live_top w1" "p_column (w_cursor w1) < w_columns w1"
  proof (cases "p_column (w_cursor w) = w_columns w")
    case True
    obtain w' where w': "write_newline ?w = Some w'" "writer_sim w' (grid_newline g)"
      "w_columns w' = w_columns w" "w_color w' = w_color w" "w_view_top w' = live_top w'"
      using write_newline_sim [OF sim'] by auto
    have "w_cursor w' = g_pos (grid_newline g)" "1 \<le> w_columns w'"
      using w'(2) by (simp_all add: writer_sim_def writer_inv_def)
    then have "p_column (w_cursor w') = 0" "1 \<le> w_columns w'"
      by (simp_all add: grid_newline_def)
    then show ?thesis
      using that [of w'] w' True sim by (simp add: grid_wrap_def writer_sim_def)
  next
    case False
    then show ?thesis
      using that [of ?w] sim' sim by (auto simp: grid_wrap_def writer_sim_def writer_inv_def live_top_def)
  qed
  have pos: "g_pos (grid_wrap (w_columns w) g) = w_cursor w1"
    using w1(2) by (simp add: writer_sim_def)
  show ?thesis
    using write_cell_sim [OF w1(2,6), of "\<lparr>ascii_character = glyph b, color_code = w_color w1\<rparr>"] w1(3-5) pos
    unfolding write_glyph_def Let_def w1(1) bind.bind_lunit by (auto simp: grid_put_def Let_def)
qed

lemma write_spaces_sim:
  assumes "writer_sim w g" "w_view_top w = live_top w"
  shows "\<exists>w'. write_spaces n w = Some w' \<and> writer_sim w' ((grid_put (w_columns w) (w_color w) (CHR '' '') ^^ n) g)
    \<and> w_columns w' = w_columns w \<and> w_color w' = w_color w \<and> w_view_top w' = live_top w'"
  using assms
proof (induction n arbitrary: w g)
  case (Suc n)
  obtain w1 where w1: "write_glyph w (CHR '' '') = Some w1"
    "writer_sim w1 (grid_put (w_columns w) (w_color w) (CHR '' '') g)"
    "w_columns w1 = w_columns w" "w_color w1 = w_color w" "w_view_top w1 = live_top w1"
    using write_glyph_sim [OF Suc.prems(1)] by blast
  show ?case
    using Suc.IH [OF w1(2,5)] w1 by (simp add: funpow_swap1)
qed simp

lemma write_byte_sim:
  assumes sim: "writer_sim w g"
  shows "\<exists>w'. write_byte w b = Some w' \<and> writer_sim w' (grid_write (w_columns w) (w_color w) b g)
    \<and> w_columns w' = w_columns w \<and> w_color w' = w_color w \<and> w_view_top w' = live_top w'"
proof -
  let ?w = "w\<lparr>w_view_top := live_top w\<rparr>"
  have sim': "writer_sim ?w g" by (rule view_top_sim [OF sim])
  have vt: "w_view_top ?w = live_top ?w" by (simp add: live_top_def)
  have pos: "g_pos g = w_cursor w" using sim by (simp add: writer_sim_def)
  consider "b = CHR 0x0A" | "b = CHR 0x0D" | "b = CHR 0x09" | "b \<noteq> CHR 0x0A" "b \<noteq> CHR 0x0D" "b \<noteq> CHR 0x09"
    by blast
  then show ?thesis
  proof cases
    case 1
    then show ?thesis
      using write_newline_sim [OF sim'] by (simp add: write_byte_def grid_write_def)
  next
    case 2
    then show ?thesis
      using sim' pos by (auto simp: write_byte_def grid_write_def writer_sim_def writer_inv_def live_top_def)
  next
    case 3
    then show ?thesis
      using write_spaces_sim [OF sim' vt] pos by (simp add: write_byte_def grid_write_def)
  next
    case 4
    then show ?thesis
      using write_glyph_sim [OF sim', of b] by (simp add: write_byte_def grid_write_def)
  qed
qed

lemma write_string_sim:
  assumes "writer_sim w g"
  shows "\<exists>w'. write_string w cs = Some w' \<and> writer_sim w' (grid_string (w_columns w) (w_color w) cs g)
    \<and> w_columns w' = w_columns w \<and> w_color w' = w_color w"
  using assms
proof (induction cs arbitrary: w g)
  case (Cons c cs)
  obtain w1 where w1: "write_byte w (char_byte c) = Some w1"
    "writer_sim w1 (grid_write (w_columns w) (w_color w) (char_byte c) g)"
    "w_columns w1 = w_columns w" "w_color w1 = w_color w"
    using write_byte_sim [OF Cons.prems] by blast
  show ?case
    using Cons.IH [OF w1(2)] w1 by (simp add: grid_string_def)
qed (simp add: grid_string_def)

section \<open>Where printable text lands\<close>

text \<open>\<open>Position::offset\<close> follows the cursor: it is the identity for no bytes and one more byte is
  one more step of the cursor.\<close>

definition cursor_step :: "nat \<Rightarrow> Position \<Rightarrow> Position" where
  "cursor_step width p = (if p_column p = width then \<lparr>p_line = p_line p + 1, p_column = 1\<rparr>
     else p\<lparr>p_column := p_column p + 1\<rparr>)"

lemma position_offset_0: "0 < width \<Longrightarrow> p_column p \<le> width \<Longrightarrow> position_offset p 0 width = Some p"
  by (cases "p_column p = width") (auto simp: position_offset_def Let_def)

lemma position_offset_total: "0 < width \<Longrightarrow> \<exists>q. position_offset p n width = Some q"
  by (auto simp: position_offset_def Let_def)

lemma pos_multiple_div: "0 < k \<Longrightarrow> k mod w = 0 \<Longrightarrow> 0 < w \<Longrightarrow> 0 < k div w" for k w :: nat
  by (auto simp: div_greater_zero_iff dest: dvd_imp_le)

lemma position_offset_step:
  assumes w: "0 < width" and q: "position_offset p n width = Some q"
  shows "position_offset p (Suc n) width = Some (cursor_step width q)"
proof -
  let ?k = "p_column p + n"
  have S: "Suc ?k div width = (if Suc ?k mod width = 0 then Suc (?k div width) else ?k div width)"
    "Suc ?k mod width = (if Suc (?k mod width) = width then 0 else Suc (?k mod width))"
    by (simp_all add: div_Suc mod_Suc)
  show ?thesis
  proof (cases "?k > 0 \<and> ?k mod width = 0")
    case True
    then have "0 < ?k div width" using w by (simp add: pos_multiple_div)
    then show ?thesis
      using True w q S by (auto simp: position_offset_def Let_def cursor_step_def)
  next
    case False
    have lt: "?k mod width \<noteq> width" using mod_less_divisor [OF w, of ?k] by linarith
    have "q = \<lparr>p_line = p_line p + ?k div width, p_column = ?k mod width\<rparr>"
      using False w q by (auto simp: position_offset_def Let_def)
    then show ?thesis
      using lt w S by (auto simp: position_offset_def Let_def cursor_step_def)
  qed
qed

lemma position_offset_mono:
  assumes w: "0 < width" and q: "position_offset p n width = Some q" and e: "position_offset p m width = Some e"
    and le: "n \<le> m"
  shows "p_line q \<le> p_line e"
proof -
  have "\<exists>e. position_offset p (n + d) width = Some e \<and> p_line q \<le> p_line e" for d
  proof (induction d)
    case (Suc d)
    then obtain e where "position_offset p (n + d) width = Some e" "p_line q \<le> p_line e" by blast
    then show ?case
      using position_offset_step [OF w, of p "n + d" e] by (auto simp: cursor_step_def)
  qed (use q in simp)
  from this [of "m - n"] show ?thesis using e le by simp
qed

text \<open>The cell a cursor writes to, as a line and column computed from the byte's index.\<close>

definition wrapped :: "nat \<Rightarrow> Position \<Rightarrow> nat \<times> nat" where
  "wrapped width p = (if p_column p = width then (p_line p + 1, 0) else (p_line p, p_column p))"

lemma wrapped_offset:
  assumes w: "0 < width" and q: "position_offset p n width = Some q"
  shows "wrapped width q = (p_line p + (p_column p + n) div width, (p_column p + n) mod width)"
proof (cases "p_column p + n > 0 \<and> (p_column p + n) mod width = 0")
  case True
  then have "0 < (p_column p + n) div width"
    using w by (simp add: pos_multiple_div)
  then show ?thesis
    using True w q by (auto simp: position_offset_def Let_def wrapped_def)
next
  case False
  have lt: "(p_column p + n) mod width < width" using w by simp
  have "q = \<lparr>p_line = p_line p + (p_column p + n) div width, p_column = (p_column p + n) mod width\<rparr>"
    using False w q by (auto simp: position_offset_def Let_def)
  then show ?thesis
    using lt by (simp add: wrapped_def)
qed

definition grid_glyphs :: "nat \<Rightarrow> u8 \<Rightarrow> byte list \<Rightarrow> Grid \<Rightarrow> Grid" where
  "grid_glyphs cols col bs g = fold (grid_put cols col) bs g"

text \<open>The grid after a run of glyphs: the text occupies the cells from the start position on, row
  by row, and nothing else changes.\<close>

definition text_cells :: "nat \<Rightarrow> u8 \<Rightarrow> Position \<Rightarrow> byte list \<Rightarrow> (nat \<Rightarrow> nat \<Rightarrow> ScreenChar) \<Rightarrow> nat \<Rightarrow> nat \<Rightarrow> ScreenChar" where
  "text_cells cols col p bs cell n d =
     (if d < cols \<and> p_line p \<le> n \<and> p_column p \<le> (n - p_line p) * cols + d
         \<and> (n - p_line p) * cols + d < p_column p + length bs
      then \<lparr>ascii_character = glyph (bs ! ((n - p_line p) * cols + d - p_column p)), color_code = col\<rparr>
      else cell n d)"

lemma text_cells_Nil [simp]: "text_cells cols col p [] cell = cell"
  by (auto simp: text_cells_def fun_eq_iff)

lemma linear_index_iff:
  fixes w :: nat
  assumes "d < w"
  shows "(l \<le> n \<and> (n - l) * w + d = k) \<longleftrightarrow> (n = l + k div w \<and> d = k mod w)"
proof
  assume "l \<le> n \<and> (n - l) * w + d = k"
  then have "k div w = n - l" "k mod w = d" "l \<le> n"
    using assms by auto
  then show "n = l + k div w \<and> d = k mod w" by simp
next
  assume "n = l + k div w \<and> d = k mod w"
  then show "l \<le> n \<and> (n - l) * w + d = k" by (simp add: div_mult_mod_eq)
qed

lemma text_cells_snoc:
  assumes w: "0 < cols"
  shows "text_cells cols col p (bs @ [b]) cell =
    (let l = p_line p + (p_column p + length bs) div cols; c = (p_column p + length bs) mod cols;
         f = text_cells cols col p bs cell
     in f(l := (f l)(c := \<lparr>ascii_character = glyph b, color_code = col\<rparr>)))"
proof (intro ext)
  fix n d
  let ?k = "p_column p + length bs"
  let ?i = "(n - p_line p) * cols + d"
  show "text_cells cols col p (bs @ [b]) cell n d =
    (let l = p_line p + ?k div cols; c = ?k mod cols; f = text_cells cols col p bs cell
     in f(l := (f l)(c := \<lparr>ascii_character = glyph b, color_code = col\<rparr>))) n d"
  proof (cases "d < cols")
    case d: True
    show ?thesis
    proof (cases "p_line p \<le> n \<and> ?i = ?k")
      case True
      then have "n = p_line p + ?k div cols" "d = ?k mod cols"
        using linear_index_iff [OF d] by blast+
      then show ?thesis
        using True d by (simp add: text_cells_def Let_def)
    next
      case False
      then have ne: "\<not> (n = p_line p + ?k div cols \<and> d = ?k mod cols)"
        using linear_index_iff [OF d] by blast
      have lt: "p_line p \<le> n \<Longrightarrow> ?i < p_column p + length (bs @ [b]) \<longleftrightarrow> ?i < ?k"
        using False by auto
      have "text_cells cols col p (bs @ [b]) cell n d = text_cells cols col p bs cell n d"
        using lt by (auto simp: text_cells_def nth_append)
      then show ?thesis
        using ne by (auto simp: Let_def)
    qed
  next
    case False
    then have "d \<noteq> ?k mod cols" using w by (metis mod_less_divisor)
    then show ?thesis
      using False by (simp add: text_cells_def Let_def)
  qed
qed

lemma grid_glyphs_spec:
  assumes w: "0 < cols" and c: "p_column (g_pos g) \<le> cols" and lst: "p_line (g_pos g) \<le> g_last g"
    and q: "position_offset (g_pos g) (length bs) cols = Some q"
  shows "grid_glyphs cols col bs g = \<lparr>g_cell = text_cells cols col (g_pos g) bs (g_cell g),
    g_pos = q, g_last = max (g_last g) (p_line q)\<rparr>"
  using q
proof (induction bs arbitrary: q rule: rev_induct)
  case Nil
  then show ?case
    using c w lst by (cases g) (simp add: grid_glyphs_def position_offset_0 text_cells_Nil)
next
  case (snoc b bs)
  obtain q1 where q1: "position_offset (g_pos g) (length bs) cols = Some q1"
    using position_offset_total [OF w] by blast
  have q: "q = cursor_step cols q1"
    using position_offset_step [OF w q1] snoc.prems by simp
  let ?g = "\<lparr>g_cell = text_cells cols col (g_pos g) bs (g_cell g), g_pos = q1, g_last = max (g_last g) (p_line q1)\<rparr>"
  have "grid_glyphs cols col (bs @ [b]) g = grid_put cols col b ?g"
    using snoc.IH [OF q1] by (simp add: grid_glyphs_def)
  moreover have "grid_put cols col b ?g = \<lparr>g_cell = text_cells cols col (g_pos g) (bs @ [b]) (g_cell g),
      g_pos = q, g_last = max (g_last g) (p_line q)\<rparr>"
    using wrapped_offset [OF w q1] unfolding text_cells_snoc [OF w] q
    by (auto simp: grid_put_def grid_wrap_def grid_newline_def wrapped_def cursor_step_def Let_def max_def)
  ultimately show ?case by simp
qed

text \<open>Printable ASCII text is a run of glyphs.\<close>

abbreviation printable_byte :: "char \<Rightarrow> bool" where
  "printable_byte c \<equiv> is_ascii_graphic c \<or> c = CHR '' ''"

lemma grid_write_printable: "printable_byte b \<Longrightarrow> grid_write cols col b g = grid_put cols col b g"
  by (auto simp: grid_write_def ascii_simps)

lemma grid_string_printable:
  "list_all printable_byte s \<Longrightarrow> grid_string cols col (str_chars s) g = grid_glyphs cols col s g"
proof -
  assume p: "list_all printable_byte s"
  then have "str_chars s = map code s"
    by (intro str_chars_ascii) (auto simp: list_all_iff ascii_simps)
  moreover have "fold (\<lambda>c. grid_write cols col (char_byte c)) (map code s) g = fold (grid_put cols col) s g"
    using p
  proof (induction s arbitrary: g)
    case (Cons c s)
    then have "char_byte (code c) = c" by (auto simp: char_byte_def ascii_simps)
    then show ?case using Cons by (simp add: grid_write_printable)
  qed simp
  ultimately show ?thesis by (simp add: grid_string_def grid_glyphs_def)
qed

lemma replicate_space_chars: "replicate n 32 = str_chars (replicate n (CHR '' ''))"
  by (subst str_chars_ascii) (auto simp: ascii_simps)

lemma grid_glyphs_append: "grid_glyphs cols col bs' (grid_glyphs cols col bs g) = grid_glyphs cols col (bs @ bs') g"
  by (simp add: grid_glyphs_def)

lemma position_offset_line:
  assumes "0 < width" "position_offset p n width = Some q"
  shows "p_line p \<le> p_line q" "p_line q \<le> p_line p + (p_column p + n) div width" "p_column q \<le> width"
proof -
  have "0 < (p_column p + n) div width" if "p_column p + n > 0" "(p_column p + n) mod width = 0"
    using that assms(1) by (rule pos_multiple_div)
  then show "p_line p \<le> p_line q" "p_line q \<le> p_line p + (p_column p + n) div width" "p_column q \<le> width"
    using assms by (auto simp: position_offset_def Let_def less_imp_le split: if_splits)
qed

text \<open>\<open>replace_input\<close>: the anchor's cells hold the new text and then spaces up to the old length,
  every other cell is kept, and the cursor stands where writing \<open>cursor\<close> bytes would leave it.\<close>

lemma replace_input_sim:
  assumes sim: "writer_sim w g"
    and anchor: "w_first_line w \<le> p_line A" "p_line A \<le> w_last_line w" "p_column A \<le> w_columns w"
    and s: "list_all printable_byte s" and cur: "cursor \<le> length s"
    and fits: "(p_column A + max (length s) old_len) div w_columns w < SCROLLBACK_LINES"
  defines "bs \<equiv> s @ replicate (old_len - length s) (CHR '' '')"
  shows "\<exists>w' q e. replace_input w A s cursor old_len = Some w'
    \<and> position_offset A cursor (w_columns w) = Some q \<and> position_offset A (length bs) (w_columns w) = Some e
    \<and> writer_sim w' \<lparr>g_cell = text_cells (w_columns w) (w_color w) A bs (g_cell g), g_pos = q,
         g_last = max (w_last_line w) (p_line e)\<rparr>
    \<and> w_columns w' = w_columns w \<and> w_color w' = w_color w \<and> w_view_top w' = live_top w'"
proof -
  note i = sim [unfolded writer_sim_def writer_inv_def]
  have cols: "0 < w_columns w" using i by simp
  let ?w0 = "w\<lparr>w_cursor := A\<rparr>" and ?g0 = "g\<lparr>g_pos := A\<rparr>"
  have sim0: "writer_sim ?w0 ?g0"
    using i anchor by (auto simp: writer_sim_def writer_inv_def live_top_def)
  have asc: "list_all is_ascii s"
    using s by (auto simp: list_all_iff ascii_simps)
  obtain q e where q: "position_offset A cursor (w_columns w) = Some q"
    and e: "position_offset A (length bs) (w_columns w) = Some e"
    using position_offset_total [OF cols] by blast
  obtain w1 where w1: "write_string ?w0 (str_chars s) = Some w1"
    "writer_sim w1 (grid_glyphs (w_columns w) (w_color w) s ?g0)" "w_columns w1 = w_columns w" "w_color w1 = w_color w"
    using write_string_sim [OF sim0, of "str_chars s"] s by (auto simp: grid_string_printable)
  obtain w2 where w2: "write_string w1 (replicate (old_len - length s) 32) = Some w2"
    "writer_sim w2 (grid_glyphs (w_columns w) (w_color w) bs ?g0)" "w_columns w2 = w_columns w" "w_color w2 = w_color w"
    using write_string_sim [OF w1(2), of "replicate (old_len - length s) 32"] w1(3,4)
    by (auto simp: replicate_space_chars grid_string_printable list_all_iff grid_glyphs_append bs_def)
  have glyphs: "grid_glyphs (w_columns w) (w_color w) bs ?g0 =
      \<lparr>g_cell = text_cells (w_columns w) (w_color w) A bs (g_cell g), g_pos = e, g_last = max (w_last_line w) (p_line e)\<rparr>"
    using grid_glyphs_spec [OF cols, of ?g0 bs e] anchor e i by simp
  note s2 = w2(2) [unfolded glyphs writer_sim_def writer_inv_def]
  have len: "length bs = max (length s) old_len"
    by (auto simp: bs_def)
  have lastline: "max (w_last_line w) (p_line e) < p_line A + SCROLLBACK_LINES"
    using position_offset_line(2) [OF cols e] fits anchor i by (auto simp: len vga_consts)
  have qe: "p_line q \<le> max (w_last_line w) (p_line e)"
    using position_offset_mono [OF cols q e] cur by (simp add: bs_def)
  let ?w3 = "w2\<lparr>w_cursor := q\<rparr>"
  have "\<exists>w'. ensure_line ?w3 (p_line q) = Some w'
    \<and> writer_sim w' (\<lparr>g_cell = text_cells (w_columns w) (w_color w) A bs (g_cell g), g_pos = q, g_last = 0\<rparr>
        \<lparr>g_last := max (w_last_line ?w3) (p_line q)\<rparr>)
    \<and> w_columns w' = w_columns ?w3 \<and> w_color w' = w_color ?w3 \<and> w_view_top w' = live_top w'"
    using s2 qe lastline position_offset_line [OF cols q]
    by (intro ensure_line_sim) (auto simp: w2(3))
  moreover have "max (w_last_line ?w3) (p_line q) = max (w_last_line w) (p_line e)"
    using s2 qe by auto
  ultimately show ?thesis
    using q e w1(1) w2 anchor asc cur by (auto simp: replace_input_def rust_assert_def)
qed

section \<open>Scrolling\<close>

lemma scroll_inv:
  assumes "writer_inv w"
  shows "writer_inv (scroll_up w)" "writer_inv (scroll_down w)"
  using assms by (auto simp: writer_inv_def scroll_up_def scroll_down_def live_top_def vga_consts)

lemma scroll_sim:
  assumes "writer_sim w g"
  shows "writer_sim (scroll_up w) g" "writer_sim (scroll_down w) g"
  using assms scroll_inv [of w] by (auto simp: writer_sim_def scroll_up_def scroll_down_def)

lemma scroll_up_many:
  assumes "writer_inv w"
  shows "w_view_top ((scroll_up ^^ n) w) = max (w_view_top w - n * 15) (w_first_line w)
    \<and> w_first_line ((scroll_up ^^ n) w) = w_first_line w"
proof (induction n)
  case 0
  show ?case using assms by (simp add: writer_inv_def max_def)
next
  case (Suc n)
  then show ?case by (simp add: scroll_up_def TERMINAL_ROWS_def)
qed

text \<open>Existence of a grid for every well-formed writer, so simulations apply to all of them.\<close>

definition writer_grid :: "Writer \<Rightarrow> Grid" where
  "writer_grid w = \<lparr>g_cell = (\<lambda>n c. if n \<le> w_last_line w then w_lines w ! (n mod SCROLLBACK_LINES) ! c else BLANK),
     g_pos = w_cursor w, g_last = w_last_line w\<rparr>"

lemma writer_grid_sim: "writer_inv w \<Longrightarrow> writer_sim w (writer_grid w)"
  by (auto simp: writer_sim_def writer_grid_def rows_agree_def)

lemma writer_sim_inv: "writer_sim w g \<Longrightarrow> writer_inv w"
  by (simp add: writer_sim_def)

lemma write_string_inv:
  "writer_inv w \<Longrightarrow> \<exists>w'. write_string w cs = Some w' \<and> writer_inv w' \<and> w_columns w' = w_columns w"
  using write_string_sim [OF writer_grid_sim] writer_sim_inv by blast

section \<open>Properties\<close>

text \<open>C6: Whatever text is written, and whatever was written before, the writer does not panic and
  its 128 retained rows, cursor and last line are those of an unbounded terminal that received
  the same code points: line feeds, carriage returns, tab stops, wrapping at the current width
  and the replacement glyph included.\<close>

theorem write_string_refines_grid:
  assumes "writer_sim w g"
  shows "\<exists>w'. write_string w cs = Some w' \<and> writer_sim w' (grid_string (w_columns w) (w_color w) cs g)
    \<and> w_columns w' = w_columns w \<and> w_color w' = w_color w"
  by (rule write_string_sim [OF assms])

theorem write_string_refines_grid_witness:
  "\<exists>w'. write_string writer_new [72, 105, 10] = Some w'
    \<and> writer_sim w' (grid_string (w_columns writer_new) (w_color writer_new) [72, 105, 10] grid_new)
    \<and> w_columns w' = w_columns writer_new \<and> w_color w' = w_color writer_new"
  by (rule write_string_refines_grid [OF writer_new_sim])

text \<open>C21: Redrawing the input line touches only the cells of the input: from the anchor on they
  hold the new text followed by spaces up to the old length, every other retained cell is kept,
  the cursor lands exactly where typing \<open>cursor\<close> characters would leave it, and the view returns
  to the live display.\<close>

theorem replace_input_refines_grid:
  assumes "writer_sim w g"
    "w_first_line w \<le> p_line A" "p_line A \<le> w_last_line w" "p_column A \<le> w_columns w"
    "list_all printable_byte s" "cursor \<le> length s"
    "(p_column A + max (length s) old_len) div w_columns w < 128"
  shows "\<exists>w' q e. replace_input w A s cursor old_len = Some w'
    \<and> position_offset A cursor (w_columns w) = Some q
    \<and> position_offset A (length (s @ replicate (old_len - length s) (CHR '' ''))) (w_columns w) = Some e
    \<and> writer_sim w' \<lparr>g_cell = text_cells (w_columns w) (w_color w) A
           (s @ replicate (old_len - length s) (CHR '' '')) (g_cell g), g_pos = q,
         g_last = max (w_last_line w) (p_line e)\<rparr>
    \<and> w_columns w' = w_columns w \<and> w_color w' = w_color w \<and> w_view_top w' = live_top w'"
  using assms by (intro replace_input_sim) (simp_all add: SCROLLBACK_LINES_def)

theorem replace_input_refines_grid_witness:
  "\<exists>w' q e. replace_input writer_new \<lparr>p_line = 0, p_column = 7\<rparr> ''ls'' 1 5 = Some w'
    \<and> position_offset \<lparr>p_line = 0, p_column = 7\<rparr> 1 (w_columns writer_new) = Some q
    \<and> position_offset \<lparr>p_line = 0, p_column = 7\<rparr> (length (''ls'' @ replicate (5 - length ''ls'') (CHR '' ''))) (w_columns writer_new) = Some e
    \<and> writer_sim w' \<lparr>g_cell = text_cells (w_columns writer_new) (w_color writer_new) \<lparr>p_line = 0, p_column = 7\<rparr>
           (''ls'' @ replicate (5 - length ''ls'') (CHR '' '')) (g_cell grid_new), g_pos = q,
         g_last = max (w_last_line writer_new) (p_line e)\<rparr>
    \<and> w_columns w' = w_columns writer_new \<and> w_color w' = w_color writer_new \<and> w_view_top w' = live_top w'"
  by (rule replace_input_refines_grid [OF writer_new_sim])
    (simp_all add: writer_new_def BUFFER_WIDTH_def is_ascii_graphic_def)

text \<open>Page-up any number of times never leaves the retained lines, moves fifteen lines at a
  time until the oldest one, and changes nothing of the terminal but the view.\<close>

theorem scroll_up_stays_in_scrollback:
  assumes "writer_sim w g"
  shows "w_view_top ((scroll_up ^^ n) w) = max (w_view_top w - n * 15) (w_first_line w)
    \<and> writer_sim ((scroll_up ^^ n) w) g"
proof -
  have "writer_sim ((scroll_up ^^ n) w) g"
    by (induction n) (simp_all add: assms scroll_sim)
  then show ?thesis
    using scroll_up_many [OF writer_sim_inv [OF assms], of n] by simp
qed

theorem scroll_up_stays_in_scrollback_witness:
  "w_view_top ((scroll_up ^^ 2) writer_new) = max (w_view_top writer_new - 2 * 15) (w_first_line writer_new)
    \<and> writer_sim ((scroll_up ^^ 2) writer_new) grid_new"
  by (rule scroll_up_stays_in_scrollback [OF writer_new_sim])

end
