(* ===== verification/Vga_Render.thy ===== *)
theory Vga_Render
  imports Vga_Writer Desktop
begin

text \<open>
  The compositor of \<^verbatim>\<open>src/src/vga_buffer.rs\<close> (\<open>draw_cell\<close>, \<open>draw_window\<close>, \<open>render_desktop_inner\<close>):
  background, icon and status bar, the windows of the open terminals back to front with their
  text, the cursor and the mouse pointer are drawn into a frame of 25 x 80 cells, and the cells
  that differ from the previous frame are copied to the VGA memory. On a well-formed desktop and
  well-formed terminals the compositor never indexes outside the frame, the VGA memory is the
  whole frame afterwards (the differential copy loses nothing), and the focused window shows its
  terminal's view. The two writes to the CRT controller that hide the hardware cursor are
  input/output and not part of the model.
\<close>

section \<open>Operations\<close>

type_synonym frame = "ScreenChar list"

record Screen =
  scr_frame :: frame
  scr_previous :: frame
  scr_valid :: bool
  scr_vga :: frame

text \<open>\<open>FRAME\<close> and \<open>PREVIOUS_FRAME\<close> at start-up, with whatever the VGA memory holds.\<close>

definition screen_new :: "frame \<Rightarrow> Screen" where
  "screen_new vga = \<lparr>scr_frame = replicate SCREEN_CELLS BLANK, scr_previous = replicate SCREEN_CELLS BLANK,
     scr_valid = False, scr_vga = vga\<rparr>"

fun draw_from :: "u8 \<Rightarrow> nat \<Rightarrow> nat \<Rightarrow> nat \<Rightarrow> byte list \<Rightarrow> frame \<Rightarrow> frame option" where
  "draw_from color row col offset [] frame = Some frame"
| "draw_from color row col offset (b # bs) frame =
     (if col + offset \<ge> BUFFER_WIDTH then Some frame
      else do {
        frame' \<leftarrow> arr_set frame (row * BUFFER_WIDTH + col + offset) \<lparr>ascii_character = b, color_code = color\<rparr>;
        draw_from color row col (offset + 1) bs frame'
      })"

definition draw_cell :: "nat \<Rightarrow> nat \<Rightarrow> byte list \<Rightarrow> Color \<Rightarrow> Color \<Rightarrow> frame \<Rightarrow> frame option" where
  "draw_cell row col bytes fg bg frame = draw_from (color_byte fg bg) row col 0 bytes frame"

definition draw_window :: "nat \<Rightarrow> nat \<Rightarrow> nat \<Rightarrow> nat \<Rightarrow> nat \<Rightarrow> frame \<Rightarrow> frame option" where
  "draw_window active x y width index frame = do {
     let title = (if index = 0 then '' Terminal 1 - crabsh '' else '' Terminal 2 - crabsh '');
     let title_bg = (if active = index then Cyan else DarkGray);
     frame \<leftarrow> for_each (\<lambda>col frame. do {
         frame \<leftarrow> draw_cell y (x + col) '' '' White title_bg frame;
         draw_cell (y + 19) (x + col) '' '' White DarkGray frame
       }) [0..<width] frame;
     frame \<leftarrow> for_each (\<lambda>row frame. do {
         frame \<leftarrow> draw_cell (y + row) x '' '' White DarkGray frame;
         right \<leftarrow> usize_sub (x + width) 1;
         frame \<leftarrow> draw_cell (y + row) right '' '' White DarkGray frame;
         inner \<leftarrow> usize_sub width 1;
         for_each (\<lambda>col frame. draw_cell (y + row) (x + col) '' '' LightGray Black frame) [1..<inner] frame
       }) [1..<19] frame;
     frame \<leftarrow> draw_cell y (x + 1) title White title_bg frame;
     button \<leftarrow> usize_sub (x + width) 4;
     frame \<leftarrow> draw_cell y button ''[x]'' White Red frame;
     draw_cell (y + 19) (x + 2) '' crabsh / PS/2 '' LightGray DarkGray frame
   }"

definition as_usize :: "int \<Rightarrow> nat" where
  "as_usize x = nat (x mod 2 ^ 64)"

text \<open>The background, the icon and the fixed texts.\<close>

definition draw_background :: "frame \<Rightarrow> frame option" where
  "draw_background frame0 = do {
     let frame = map (\<lambda>_. \<lparr>ascii_character = CHR '' '', color_code = color_byte LightBlue Blue\<rparr>) frame0;
     frame \<leftarrow> for_each (\<lambda>row. for_each (\<lambda>col frame.
         if (row + col) mod 12 = 0 then draw_cell row col [CHR 0xFA] LightBlue Blue frame else Some frame)
         [0..<BUFFER_WIDTH]) [5..<24] frame;
     frame \<leftarrow> for_each (\<lambda>col frame. do {
         frame \<leftarrow> draw_cell 0 col '' '' White Black frame;
         draw_cell 24 col '' '' LightGray Black frame
       }) [0..<BUFFER_WIDTH] frame;
     frame \<leftarrow> draw_cell 0 2 ''C R A B O S'' LightCyan Black frame;
     frame \<leftarrow> draw_cell 0 58 ''DESKTOP / WORKSPACE 01'' LightGray Black frame;
     frame \<leftarrow> draw_cell 1 4 '' +----+ '' LightCyan Blue frame;
     frame \<leftarrow> draw_cell 2 4 '' | >_ | '' White Black frame;
     frame \<leftarrow> draw_cell 3 3 '' Terminal '' White Blue frame;
     frame \<leftarrow> draw_cell 10 29 ''C R A B O S'' White Blue frame;
     frame \<leftarrow> draw_cell 12 24 ''A little shell. A lot of possibility.'' LightCyan Blue frame;
     frame \<leftarrow> draw_cell 15 24 ''Click Terminal to get started'' LightGray Blue frame;
     frame \<leftarrow> draw_cell 24 2 ''Terminal: click icon / Ctrl+Q'' LightCyan Black frame;
     draw_cell 24 38 ''Drag title to move   [x] / Ctrl+C: close'' LightGray Black frame
   }"

text \<open>A terminal's text in its window, the window of a terminal, the cursor, and the copy.\<close>

definition draw_terminal :: "Writer \<Rightarrow> nat \<Rightarrow> nat \<Rightarrow> nat \<Rightarrow> frame \<Rightarrow> frame option" where
  "draw_terminal terminal x y width frame =
     for_each (\<lambda>row frame.
       let line = w_view_top terminal + row in
       if line \<le> w_last_line terminal then do {
         columns \<leftarrow> usize_sub width 2;
         for_each (\<lambda>col frame. do {
           cells \<leftarrow> arr_get (w_lines terminal) (line mod SCROLLBACK_LINES);
           cell \<leftarrow> arr_get cells col;
           arr_set frame ((y + 2 + row) * BUFFER_WIDTH + x + 1 + col) cell
         }) [0..<columns] frame
       } else Some frame) [0..<TERMINAL_ROWS] frame"

definition draw_open :: "Desktop \<Rightarrow> rect option list \<Rightarrow> Writer list \<Rightarrow> nat \<Rightarrow> frame \<Rightarrow> frame option" where
  "draw_open d windows terminals index frame = do {
     r \<leftarrow> arr_get windows index;
     (case r of
        None \<Rightarrow> Some frame
      | Some (x, y, width) \<Rightarrow> do {
          frame \<leftarrow> draw_window (d_active d) (as_usize x) (as_usize y) (as_usize width) index frame;
          terminal \<leftarrow> arr_get terminals index;
          draw_terminal terminal (as_usize x) (as_usize y) (as_usize width) frame
        })
   }"

definition draw_cursor :: "rect option list \<Rightarrow> Writer list \<Rightarrow> nat \<Rightarrow> frame \<Rightarrow> frame option" where
  "draw_cursor windows terminals active frame = do {
     r \<leftarrow> arr_get windows active;
     (case r of
        None \<Rightarrow> Some frame
      | Some (x, y, width) \<Rightarrow> do {
          terminal \<leftarrow> arr_get terminals active;
          (if w_view_top terminal \<le> p_line (w_cursor terminal)
              \<and> p_line (w_cursor terminal) - w_view_top terminal < TERMINAL_ROWS then do {
             let row = p_line (w_cursor terminal) - w_view_top terminal;
             m \<leftarrow> usize_sub (as_usize width) 3;
             let col = min (p_column (w_cursor terminal)) m;
             let offset = (as_usize y + 2 + row) * BUFFER_WIDTH + as_usize x + 1 + col;
             cell \<leftarrow> arr_get frame offset;
             arr_set frame offset (cell\<lparr>color_code := color_byte Black LightGray\<rparr>)
           } else Some frame)
        })
   }"

definition copy_cell :: "nat \<Rightarrow> Screen \<Rightarrow> Screen option" where
  "copy_cell index s = do {
     p \<leftarrow> arr_get (scr_previous s) index;
     c \<leftarrow> arr_get (scr_frame s) index;
     (if \<not> scr_valid s \<or> p \<noteq> c then do {
        vga \<leftarrow> arr_set (scr_vga s) index c;
        prev \<leftarrow> arr_set (scr_previous s) index c;
        Some (s\<lparr>scr_vga := vga, scr_previous := prev\<rparr>)
      } else Some s)
   }"

definition copy_frame :: "Screen \<Rightarrow> Screen option" where
  "copy_frame s = do {
     s \<leftarrow> for_each copy_cell [0..<SCREEN_CELLS] s;
     Some (s\<lparr>scr_valid := True\<rparr>)
   }"

definition render_desktop :: "Desktop \<Rightarrow> Writer list \<Rightarrow> Screen \<Rightarrow> Screen option" where
  "render_desktop d terminals s = do {
     frame \<leftarrow> draw_background (scr_frame s);
     windows \<leftarrow> layout d;
     let active = d_active d;
     other \<leftarrow> usize_sub 1 active;
     frame \<leftarrow> for_each (draw_open d windows terminals) [other, active] frame;
     frame \<leftarrow> draw_cursor windows terminals active frame;
     frame \<leftarrow> draw_cell (as_usize (d_pointer_y d)) (as_usize (d_pointer_x d)) ''+'' White Blue frame;
     copy_frame (s\<lparr>scr_frame := frame\<rparr>)
   }"

section \<open>Drawing stays in the frame\<close>

definition frame_ok :: "frame \<Rightarrow> bool" where
  "frame_ok f \<longleftrightarrow> length f = 2000"

definition screen_ok :: "Screen \<Rightarrow> bool" where
  "screen_ok s \<longleftrightarrow> frame_ok (scr_frame s) \<and> frame_ok (scr_previous s) \<and> frame_ok (scr_vga s)
     \<and> (scr_valid s \<longrightarrow> scr_previous s = scr_vga s)"

lemma draw_from_ok:
  assumes "frame_ok f" "row < 25"
  shows "\<exists>f'. draw_from color row col offset bs f = Some f' \<and> frame_ok f' \<and>
    (\<forall>i. i < row * 80 + col + offset \<or> row * 80 + col + offset + length bs \<le> i \<longrightarrow> f' ! i = f ! i)"
  using assms
proof (induction bs arbitrary: offset f)
  case (Cons b bs)
  show ?case
  proof (cases "col + offset \<ge> 80")
    case True
    then show ?thesis using Cons.prems by (simp add: BUFFER_WIDTH_def)
  next
    case False
    let ?f = "f[row * 80 + col + offset := \<lparr>ascii_character = b, color_code = color\<rparr>]"
    have "row * 80 + col + offset < 2000" using False Cons.prems(2) by linarith
    then have "arr_set f (row * 80 + col + offset) \<lparr>ascii_character = b, color_code = color\<rparr> = Some ?f" "frame_ok ?f"
      using Cons.prems(1) by (simp_all add: arr_set_def frame_ok_def)
    note set = this
    obtain f' where f': "draw_from color row col (offset + 1) bs ?f = Some f'" "frame_ok f'"
      "\<And>i. i < row * 80 + col + (offset + 1) \<or> row * 80 + col + (offset + 1) + length bs \<le> i \<Longrightarrow> f' ! i = ?f ! i"
      using Cons.IH [OF set(2) Cons.prems(2), of "offset + 1"] by blast
    have "draw_from color row col offset (b # bs) f = Some f'"
      using False set(1) f'(1) by (simp add: BUFFER_WIDTH_def)
    moreover have "f' ! i = f ! i" if "i < row * 80 + col + offset \<or> row * 80 + col + offset + length (b # bs) \<le> i" for i
      using f'(3) [of i] that by auto
    ultimately show ?thesis using f'(2) by blast
  qed
qed simp

lemma draw_cell_ok:
  assumes "frame_ok f" "row < 25"
  shows "\<exists>f'. draw_cell row col bs fg bg f = Some f' \<and> frame_ok f'"
  using draw_from_ok [OF assms, of "color_byte fg bg" col 0 bs] unfolding draw_cell_def by blast

lemma draw_loop_ok:
  assumes "frame_ok f" "\<And>x f. x \<in> set xs \<Longrightarrow> frame_ok f \<Longrightarrow> \<exists>f'. g x f = Some f' \<and> frame_ok f'"
  shows "\<exists>f'. for_each g xs f = Some f' \<and> frame_ok f'"
  by (rule for_each_inv) (use assms in blast)+

text \<open>Sequencing of drawing steps.\<close>

lemma draw_bind_ok:
  assumes "\<exists>f'. m = Some f' \<and> frame_ok f'" "\<And>f'. frame_ok f' \<Longrightarrow> \<exists>f''. k f' = Some f'' \<and> frame_ok f''"
  shows "\<exists>f''. (m \<bind> k) = Some f'' \<and> frame_ok f''"
  using assms by fastforce

lemmas draw_intros = draw_bind_ok draw_loop_ok draw_cell_ok

lemma draw_background_ok:
  assumes "frame_ok f"
  shows "\<exists>f'. draw_background f = Some f' \<and> frame_ok f'"
proof -
  have "frame_ok (map (\<lambda>_. \<lparr>ascii_character = CHR '' '', color_code = color_byte LightBlue Blue\<rparr>) f)"
    using assms by (simp add: frame_ok_def)
  then show ?thesis
    unfolding draw_background_def Let_def
    by (intro draw_intros) (auto simp: BUFFER_WIDTH_def intro: draw_cell_ok)
qed

lemma draw_window_ok:
  assumes f: "frame_ok f" and y: "y + 20 < 25" and w: "4 \<le> width"
  shows "\<exists>f'. draw_window active x y width index f = Some f' \<and> frame_ok f'"
proof -
  have s: "usize_sub (x + width) 1 = Some (x + width - 1)" "usize_sub width 1 = Some (width - 1)"
    "usize_sub (x + width) 4 = Some (x + width - 4)"
    using w by (simp_all add: usize_sub_def)
  show ?thesis
    unfolding draw_window_def Let_def s bind.bind_lunit
    by (intro draw_intros) (use f y in auto)
qed

text \<open>A window of the desktop: its rectangle is on the screen.\<close>

lemma rect_okD:
  assumes "rect_ok (x, y, width)"
  shows "as_usize x = nat x" "as_usize y = nat y" "as_usize width = nat width"
    "nat x + nat width \<le> 80" "1 \<le> nat y" "nat y + 20 < 25" "38 \<le> nat width" "nat width \<le> 74"
proof -
  have b: "0 \<le> x" "x + width \<le> 80" "1 \<le> y" "y + 20 < 25" "width = 74 \<or> width = 38"
    using assms by (auto simp: rect_ok_def desktop_consts)
  then have "0 \<le> width" "x < 2 ^ 64" "y < 2 ^ 64" "width < 2 ^ 64" by auto
  with b show "as_usize x = nat x" "as_usize y = nat y" "as_usize width = nat width"
    by (simp_all add: as_usize_def)
  show "nat x + nat width \<le> 80" "1 \<le> nat y" "nat y + 20 < 25" "38 \<le> nat width" "nat width \<le> 74"
    using b by auto
qed

lemma for_each_fill:
  assumes "b + n \<le> length f" "\<And>k. k < n \<Longrightarrow> g k = (\<lambda>f. arr_set f (b + k) (v k))"
  shows "\<exists>f'. for_each g [0..<n] f = Some f' \<and> length f' = length f \<and>
    (\<forall>i. f' ! i = (if b \<le> i \<and> i < b + n then v (i - b) else f ! i))"
  using assms
proof (induction n)
  case (Suc n)
  obtain f1 where f1: "for_each g [0..<n] f = Some f1" "length f1 = length f"
    "\<And>i. f1 ! i = (if b \<le> i \<and> i < b + n then v (i - b) else f ! i)"
    using Suc by fastforce
  have "g n f1 = Some (f1[b + n := v n])"
    using Suc.prems f1(2) by (simp add: arr_set_def)
  then have "for_each g [0..<Suc n] f = Some (f1[b + n := v n])"
    using f1(1) by (simp add: for_each_append)
  moreover have "f1[b + n := v n] ! i = (if b \<le> i \<and> i < b + Suc n then v (i - b) else f ! i)" for i
    using f1 Suc.prems(1) by (cases "i = b + n") auto
  ultimately show ?case using f1(2) by simp
qed auto

abbreviation text_index :: "nat \<Rightarrow> nat \<Rightarrow> nat \<Rightarrow> nat \<Rightarrow> nat" where
  "text_index x y row col \<equiv> (y + 2 + row) * 80 + x + 1 + col"

abbreviation view_cell :: "Writer \<Rightarrow> nat \<Rightarrow> nat \<Rightarrow> ScreenChar" where
  "view_cell t row col \<equiv> w_lines t ! ((w_view_top t + row) mod SCROLLBACK_LINES) ! col"

lemma text_index_row: "x + 1 + col < 80 \<Longrightarrow> text_index x y row col div 80 = y + 2 + row"
  by (simp add: div_nat_eqI)

lemma draw_rows_ok:
  assumes t: "screen_shape (w_lines t)" and f: "frame_ok f" and x: "x + width \<le> 80" "2 \<le> width"
    and y: "y + 20 < 25" and n: "n \<le> 16"
  shows "\<exists>f'. for_each (\<lambda>row frame.
       let line = w_view_top t + row in
       if line \<le> w_last_line t then do {
         columns \<leftarrow> usize_sub width 2;
         for_each (\<lambda>col frame. do {
           cells \<leftarrow> arr_get (w_lines t) (line mod SCROLLBACK_LINES);
           cell \<leftarrow> arr_get cells col;
           arr_set frame ((y + 2 + row) * BUFFER_WIDTH + x + 1 + col) cell
         }) [0..<columns] frame
       } else Some frame) [0..<n] f = Some f' \<and> frame_ok f' \<and>
    (\<forall>row<n. w_view_top t + row \<le> w_last_line t \<longrightarrow>
       (\<forall>col<width - 2. f' ! text_index x y row col = view_cell t row col))"
  (is "\<exists>f'. for_each ?g _ f = _ \<and> _")
  using n
proof (induction n)
  case (Suc n)
  obtain f1 where f1: "for_each ?g [0..<n] f = Some f1" "frame_ok f1"
    "\<And>row col. row < n \<Longrightarrow> w_view_top t + row \<le> w_last_line t \<Longrightarrow> col < width - 2 \<Longrightarrow>
       f1 ! text_index x y row col = view_cell t row col"
    using Suc by auto
  show ?case
  proof (cases "w_view_top t + n \<le> w_last_line t")
    case False
    then have "for_each ?g [0..<Suc n] f = Some f1" using f1(1) by (simp add: for_each_append)
    then show ?thesis using f1 False less_Suc_eq by auto
  next
    case True
    let ?b = "(y + 2 + n) * 80 + x + 1"
    let ?h = "\<lambda>col frame. do {
           cells \<leftarrow> arr_get (w_lines t) ((w_view_top t + n) mod SCROLLBACK_LINES);
           cell \<leftarrow> arr_get cells col;
           arr_set frame ((y + 2 + n) * BUFFER_WIDTH + x + 1 + col) cell }"
    have cell: "?h col = (\<lambda>frame. arr_set frame (?b + col) (view_cell t n col))" if "col < width - 2" for col
      using t x that by (auto simp: arr_get_def list_all_length BUFFER_WIDTH_def)
    have "?b + (width - 2) \<le> length f1"
      using f1(2) x y Suc.prems by (simp add: frame_ok_def)
    from for_each_fill [OF this cell] obtain f2 where f2: "for_each ?h [0..<width - 2] f1 = Some f2" "length f2 = length f1"
      "\<And>i. f2 ! i = (if ?b \<le> i \<and> i < ?b + (width - 2) then view_cell t n (i - ?b) else f1 ! i)"
      by blast
    have "?g n f1 = Some f2" using True x f2(1) by (simp add: usize_sub_def)
    then have "for_each ?g [0..<Suc n] f = Some f2" using f1(1) by (simp add: for_each_append)
    moreover have "f2 ! text_index x y row col = view_cell t row col"
      if r: "row < Suc n" "w_view_top t + row \<le> w_last_line t" "col < width - 2" for row col
    proof (cases "row = n")
      case True
      then show ?thesis using f2(3) [of "?b + col"] r(3) by simp
    next
      case False
      then have lt: "row < n" using r by simp
      have "text_index x y row col < ?b"
        using lt r(3) x by simp
      then show ?thesis using f2(3) [of "text_index x y row col"] f1(3) [OF lt r(2,3)] by simp
    qed
    ultimately show ?thesis using f2(2) f1(2) by (auto simp: frame_ok_def)
  qed
qed (simp add: f)

lemma draw_terminal_ok:
  assumes "screen_shape (w_lines t)" "frame_ok f" "x + width \<le> 80" "2 \<le> width" "y + 20 < 25"
  shows "\<exists>f'. draw_terminal t x y width f = Some f' \<and> frame_ok f' \<and>
    (\<forall>row<16. w_view_top t + row \<le> w_last_line t \<longrightarrow>
       (\<forall>col<width - 2. f' ! text_index x y row col = view_cell t row col))"
  using draw_rows_ok [OF assms, of 16] unfolding draw_terminal_def TERMINAL_ROWS_def by simp

definition terminals_shape :: "Writer list \<Rightarrow> bool" where
  "terminals_shape ts \<longleftrightarrow> length ts = 2 \<and> list_all (\<lambda>t. screen_shape (w_lines t)) ts"

text \<open>What the window of an open terminal shows.\<close>

definition shows_text :: "frame \<Rightarrow> rect option \<Rightarrow> Writer \<Rightarrow> bool" where
  "shows_text f r t = (case r of None \<Rightarrow> True
    | Some (x, y, width) \<Rightarrow> \<forall>row<16. w_view_top t + row \<le> w_last_line t \<longrightarrow>
       (\<forall>col<nat width - 2. f ! text_index (nat x) (nat y) row col = view_cell t row col))"

lemma draw_open_ok:
  assumes f: "frame_ok f" and ts: "terminals_shape ts" and ix: "index < 2" and len: "length windows = 2"
    and ok: "\<And>r. windows ! index = Some r \<Longrightarrow> rect_ok r"
  shows "\<exists>f'. draw_open d windows ts index f = Some f' \<and> frame_ok f' \<and> shows_text f' (windows ! index) (ts ! index)"
proof (cases "windows ! index")
  case None
  then show ?thesis using assms by (simp add: draw_open_def arr_get_def shows_text_def)
next
  case (Some r)
  obtain x y width where r: "r = (x, y, width)" by (cases r)
  note rk = rect_okD [OF ok [OF Some, unfolded r]]
  obtain f1 where f1: "draw_window (d_active d) (nat x) (nat y) (nat width) index f = Some f1" "frame_ok f1"
    using draw_window_ok [OF f, of "nat y" "nat width" "d_active d" "nat x" index] rk by auto
  have sh: "screen_shape (w_lines (ts ! index))"
    using ts ix by (simp add: terminals_shape_def list_all_length)
  obtain f2 where f2: "draw_terminal (ts ! index) (nat x) (nat y) (nat width) f1 = Some f2" "frame_ok f2"
    "\<forall>row<16. w_view_top (ts ! index) + row \<le> w_last_line (ts ! index) \<longrightarrow>
       (\<forall>col<nat width - 2. f2 ! text_index (nat x) (nat y) row col = view_cell (ts ! index) row col)"
    using draw_terminal_ok [OF sh f1(2), of "nat x" "nat width" "nat y"] rk by auto
  have "draw_open d windows ts index f = Some f2"
    using Some r rk f1(1) f2(1) ix len ts by (simp add: draw_open_def arr_get_def terminals_shape_def)
  then show ?thesis using f2(2,3) Some r by (simp add: shows_text_def)
qed

lemma draw_cursor_ok:
  assumes f: "frame_ok f" and ts: "terminals_shape ts" and ix: "active < 2" and len: "length windows = 2"
    and ok: "\<And>r. windows ! active = Some r \<Longrightarrow> rect_ok r"
  shows "\<exists>f'. draw_cursor windows ts active f = Some f' \<and> frame_ok f'
    \<and> (\<forall>i. ascii_character (f' ! i) = ascii_character (f ! i))"
proof (cases "windows ! active")
  case None
  then show ?thesis using assms by (simp add: draw_cursor_def arr_get_def)
next
  case (Some r)
  obtain x y width where r: "r = (x, y, width)" by (cases r)
  note rk = rect_okD [OF ok [OF Some, unfolded r]]
  let ?t = "ts ! active"
  let ?row = "p_line (w_cursor ?t) - w_view_top ?t" and ?col = "min (p_column (w_cursor ?t)) (nat width - 3)"
  let ?o = "(nat y + 2 + ?row) * 80 + nat x + 1 + ?col"
  have get: "arr_get windows active = Some (Some (x, y, width))" "arr_get ts active = Some ?t"
    using Some r ix len ts by (simp_all add: arr_get_def terminals_shape_def)
  show ?thesis
  proof (cases "w_view_top ?t \<le> p_line (w_cursor ?t) \<and> ?row < TERMINAL_ROWS")
    case False
    have "draw_cursor windows ts active f = Some f" unfolding draw_cursor_def get bind.bind_lunit option.case prod.case if_not_P [OF False] ..
    then show ?thesis using f by simp
  next
    case True
    have col: "?col \<le> nat width - 3" by simp
    have o: "?o < length f"
    proof -
      have "?row \<le> 15" using True by (simp add: TERMINAL_ROWS_def)
      then have "nat y + 2 + ?row \<le> 21" using rk(6) by linarith
      then have "(nat y + 2 + ?row) * 80 \<le> 21 * 80" by (rule mult_le_mono1)
      moreover have "nat x + 1 + ?col < 80" using rk(4,7) col by linarith
      ultimately show ?thesis using f unfolding frame_ok_def by linarith
    qed
    let ?f = "f[?o := (f ! ?o)\<lparr>color_code := color_byte Black LightGray\<rparr>]"
    have sub: "usize_sub (nat width) 3 = Some (nat width - 3)" using rk by (simp add: usize_sub_def)
    have upd: "arr_get f ?o = Some (f ! ?o)" "arr_set f ?o v = Some (f[?o := v])" for v
      unfolding arr_get_def arr_set_def by (rule if_P [OF o])+
    have "draw_cursor windows ts active f = Some ?f"
      unfolding draw_cursor_def get bind.bind_lunit option.case prod.case if_P [OF True] Let_def rk(1-3) sub
        BUFFER_WIDTH_def upd ..
    moreover have "ascii_character (?f ! i) = ascii_character (f ! i)" for i
      using o by (cases "i = ?o") simp_all
    ultimately show ?thesis using f by (auto simp: frame_ok_def)
  qed
qed

text \<open>The differential copy leaves the whole frame in the VGA memory.\<close>

lemma copy_frame_ok:
  assumes "screen_ok s"
  shows "\<exists>s'. copy_frame s = Some s' \<and> screen_ok s' \<and> scr_vga s' = scr_frame s \<and> scr_frame s' = scr_frame s"
proof -
  let ?P = "\<lambda>n t. screen_ok t \<and> scr_frame t = scr_frame s \<and> (\<forall>i<n. scr_vga t ! i = scr_frame s ! i \<and> scr_previous t ! i = scr_frame s ! i)"
  have "\<exists>t. for_each copy_cell [0..<n] s = Some t \<and> ?P n t" if "n \<le> 2000" for n
    using that
  proof (induction n)
    case 0
    then show ?case using assms by simp
  next
    case (Suc n)
    then obtain t where t: "for_each copy_cell [0..<n] s = Some t" "?P n t" by auto
    let ?c = "scr_frame s ! n"
    let ?t = "if \<not> scr_valid t \<or> scr_previous t ! n \<noteq> ?c
      then t\<lparr>scr_vga := (scr_vga t)[n := ?c], scr_previous := (scr_previous t)[n := ?c]\<rparr> else t"
    have len: "length (scr_previous t) = 2000" "length (scr_frame s) = 2000" "length (scr_vga t) = 2000"
      using t(2) by (auto simp: screen_ok_def frame_ok_def)
    have "copy_cell n t = Some ?t"
      using Suc.prems t(2) len by (simp add: copy_cell_def arr_get_def arr_set_def)
    then have "for_each copy_cell [0..<Suc n] s = Some ?t"
      using t(1) by (simp add: for_each_append)
    moreover have "?P (Suc n) ?t"
      using t(2) Suc.prems len by (auto simp: screen_ok_def frame_ok_def nth_list_update less_Suc_eq)
    ultimately show ?case by blast
  qed
  from this [of 2000] obtain t where t: "for_each copy_cell [0..<2000] s = Some t" "?P 2000 t" by auto
  have "scr_vga t = scr_frame s" "scr_previous t = scr_frame s"
    using t(2) assms by (auto simp: screen_ok_def frame_ok_def intro!: nth_equalityI)
  moreover have "copy_frame s = Some (t\<lparr>scr_valid := True\<rparr>)"
    using t(1) by (simp add: copy_frame_def SCREEN_CELLS_def vga_consts)
  ultimately show ?thesis using t(2) by (auto simp: screen_ok_def)
qed

lemma pointer_ok:
  assumes "screen_inv d"
  shows "as_usize (d_pointer_x d) = nat (d_pointer_x d)" "as_usize (d_pointer_y d) = nat (d_pointer_y d)"
    "nat (d_pointer_x d) < 80" "nat (d_pointer_y d) < 25"
  using assms by (auto simp: screen_inv_def as_usize_def)

abbreviation pointer_index :: "Desktop \<Rightarrow> nat" where
  "pointer_index d \<equiv> nat (d_pointer_y d) * 80 + nat (d_pointer_x d)"

text \<open>What the screen shows in the window of the focused terminal, the pointer aside.\<close>

definition shows_focused :: "frame \<Rightarrow> Desktop \<Rightarrow> rect option \<Rightarrow> Writer \<Rightarrow> bool" where
  "shows_focused vga d r t = (case r of None \<Rightarrow> True
    | Some (x, y, width) \<Rightarrow> \<forall>row<16. w_view_top t + row \<le> w_last_line t \<longrightarrow>
       (\<forall>col<nat width - 2. text_index (nat x) (nat y) row col \<noteq> pointer_index d \<longrightarrow>
          ascii_character (vga ! text_index (nat x) (nat y) row col) = ascii_character (view_cell t row col)))"

text \<open>The frame that is drawn depends on the desktop and the terminals only.\<close>

lemma draw_background_length: "length f = length g \<Longrightarrow> draw_background f = draw_background g"
  by (simp add: draw_background_def map_replicate_const)

lemma render_frame:
  assumes d: "screen_inv d" and ts: "terminals_shape ts"
  shows "\<exists>f r0 r1. (\<forall>s. screen_ok s \<longrightarrow> render_desktop d ts s = copy_frame (s\<lparr>scr_frame := f\<rparr>)) \<and> frame_ok f
    \<and> layout d = Some [r0, r1] \<and> shows_focused f d ([r0, r1] ! d_active d) (ts ! d_active d)"
proof -
  obtain r0 r1 where r: "layout d = Some [r0, r1]" "\<And>r. r0 = Some r \<Longrightarrow> rect_ok r" "\<And>r. r1 = Some r \<Longrightarrow> rect_ok r"
    using layout_spec [OF d] by blast
  let ?ws = "[r0, r1]" and ?a = "d_active d"
  have a: "?a < 2" using d by (simp add: screen_inv_def)
  have ok: "rect_ok r" if "?ws ! i = Some r" "i < 2" for i r
    using that r(2) [of r] r(3) [of r] by (auto simp: less_2_cases_iff)
  obtain f1 where f1: "draw_background (replicate 2000 BLANK) = Some f1" "frame_ok f1"
    using draw_background_ok [of "replicate 2000 BLANK"] by (auto simp: frame_ok_def)
  obtain f2 where f2: "draw_open d ?ws ts (1 - ?a) f1 = Some f2" "frame_ok f2"
  proof -
    have o: "1 - ?a < 2" by linarith
    show thesis using draw_open_ok [OF f1(2) ts o, of ?ws d] ok o that by auto
  qed
  obtain f3 where f3: "draw_open d ?ws ts ?a f2 = Some f3" "frame_ok f3" "shows_text f3 (?ws ! ?a) (ts ! ?a)"
    using draw_open_ok [OF f2(2) ts a, of ?ws d] ok a by auto
  obtain f4 where f4: "draw_cursor ?ws ts ?a f3 = Some f4" "frame_ok f4"
    "\<And>i. ascii_character (f4 ! i) = ascii_character (f3 ! i)"
    using draw_cursor_ok [OF f3(2) ts a, of ?ws] ok a by auto
  note p = pointer_ok [OF d]
  obtain f5 where f5: "draw_cell (nat (d_pointer_y d)) (nat (d_pointer_x d)) ''+'' White Blue f4 = Some f5" "frame_ok f5"
    "\<And>i. i \<noteq> pointer_index d \<Longrightarrow> f5 ! i = f4 ! i"
    using draw_from_ok [OF f4(2) p(4), of "color_byte White Blue" "nat (d_pointer_x d)" 0 "''+''"]
    unfolding draw_cell_def by (auto simp: nat_neq_iff Suc_le_eq simp del: draw_from.simps)
  have "usize_sub 1 ?a = Some (1 - ?a)" using a by (simp add: usize_sub_def)
  then have "render_desktop d ts s = copy_frame (s\<lparr>scr_frame := f5\<rparr>)" if "screen_ok s" for s
    using draw_background_length [of "scr_frame s" "replicate 2000 BLANK"] that f1(1) r(1) f2(1) f3(1) f4(1) f5(1) p
    by (simp add: render_desktop_def Let_def screen_ok_def frame_ok_def)
  moreover have "shows_focused f5 d (?ws ! ?a) (ts ! ?a)"
    using f3(3) f4(3) f5(3) unfolding shows_text_def shows_focused_def by (auto split: option.splits)
  ultimately show ?thesis using f5(2) r(1) by blast
qed

text \<open>The picture of a desktop: what a repaint on a screen without a previous frame puts into the VGA
  memory. Every repaint has this result, whatever was on the screen before.\<close>

definition picture :: "Desktop \<Rightarrow> Writer list \<Rightarrow> frame option" where
  "picture d ts = map_option scr_vga (render_desktop d ts (screen_new (replicate SCREEN_CELLS BLANK)))"

lemma blank_screen_ok: "screen_ok (screen_new (replicate SCREEN_CELLS BLANK))"
  by (simp add: screen_ok_def screen_new_def frame_ok_def SCREEN_CELLS_def vga_consts)

lemma render_desktop_ok:
  assumes d: "screen_inv d" and ts: "terminals_shape ts" and s: "screen_ok s"
  shows "\<exists>s' r0 r1. render_desktop d ts s = Some s' \<and> screen_ok s' \<and> scr_vga s' = scr_frame s'
    \<and> picture d ts = Some (scr_vga s')
    \<and> layout d = Some [r0, r1] \<and> shows_focused (scr_vga s') d ([r0, r1] ! d_active d) (ts ! d_active d)"
proof -
  obtain f r0 r1 where f: "\<And>s. screen_ok s \<Longrightarrow> render_desktop d ts s = copy_frame (s\<lparr>scr_frame := f\<rparr>)" "frame_ok f"
    "layout d = Some [r0, r1]" "shows_focused f d ([r0, r1] ! d_active d) (ts ! d_active d)"
    using render_frame [OF d ts] by blast
  have copied: "\<exists>t'. render_desktop d ts t = Some t' \<and> screen_ok t' \<and> scr_vga t' = f \<and> scr_frame t' = f" if t: "screen_ok t" for t
  proof -
    have "screen_ok (t\<lparr>scr_frame := f\<rparr>)" using t f(2) by (simp add: screen_ok_def)
    from copy_frame_ok [OF this] show ?thesis using f(1) [OF t] by auto
  qed
  obtain s' where s': "render_desktop d ts s = Some s'" "screen_ok s'" "scr_vga s' = f" "scr_frame s' = f" using copied [OF s] by blast
  moreover have "picture d ts = Some f" using copied [OF blank_screen_ok] by (auto simp: picture_def)
  ultimately show ?thesis using f(3,4) by auto
qed

text \<open>The bytes of an incomplete mouse packet do not show.\<close>

lemma picture_packet [simp]: "picture (d\<lparr>d_packet := p, d_packet_len := n\<rparr>) ts = picture d ts"
proof -
  have "layout (d\<lparr>d_packet := p, d_packet_len := n\<rparr>) = layout d" by (simp add: layout_def Let_def)
  moreover have "draw_open (d\<lparr>d_packet := p, d_packet_len := n\<rparr>) = draw_open d" 
    by (intro ext) (simp add: draw_open_def cong: option.case_cong prod.case_cong)
  ultimately show ?thesis by (simp add: picture_def render_desktop_def Let_def)
qed

section \<open>Properties\<close>


lemma initial_screen_ok:
  "screen_inv (DESKTOP\<lparr>d_open := [True, False]\<rparr>)" "terminals_shape [writer_new, writer_new]"
  "screen_ok (screen_new (replicate 2000 BLANK))"
  by (simp_all add: screen_inv_def DESKTOP_def window_ok_def drag_ok_def terminals_shape_def writer_new_def
      list_all_iff screen_ok_def screen_new_def frame_ok_def SCREEN_CELLS_def vga_consts)


end
