(* ===== verification/Console.thy ===== *)
theory Console
  imports Vga_Render
begin

text \<open>
  The console as the rest of the kernel uses it: the two terminals and \<open>ACTIVE_TERMINAL\<close> of
  \<^verbatim>\<open>src/src/vga_buffer.rs\<close>, and the operations of \<^verbatim>\<open>src/src/desktop.rs\<close> that combine the desktop with
  them (mouse interrupt, opening, closing, terminal widths, the redraw worker).

  A closure passed to \<open>with_writer\<close> is the list of writer operations it performs. \<open>with_writer\<close> has
  two critical sections (the closure, then the rendering); a mouse interrupt can arrive before
  each of them. The bytes that do are given by the schedule \<open>sys_irqs\<close>, one list per critical
  section; with an empty schedule execution is sequential.
\<close>

section \<open>State\<close>

record System =
  sys_desktop :: Desktop
  sys_terminals :: "Writer list"
  sys_active :: nat
  sys_screen :: Screen
  sys_redraw :: bool
  sys_events :: "InputEvent list"
  sys_irqs :: "u8 list list"

text \<open>The statics at start-up; \<open>sys_events\<close> are the events handed to \<open>desktop_action\<close>, oldest first.\<close>

definition system_new :: "frame \<Rightarrow> System" where
  "system_new vga = \<lparr>sys_desktop = DESKTOP, sys_terminals = [writer_new, writer_new], sys_active = 0,
     sys_screen = screen_new vga, sys_redraw = False, sys_events = [], sys_irqs = []\<rparr>"

text \<open>The writer operations; a written text is its list of code points.\<close>

datatype wop = WColor Color Color | WWrite "nat list" | WClear | WReplace Position "char list" nat nat
  | WScrollUp | WScrollDown

section \<open>Operations\<close>

fun run_wop :: "wop \<Rightarrow> Writer \<Rightarrow> Writer option" where
  "run_wop (WColor fg bg) w = Some (set_color w fg bg)"
| "run_wop (WWrite cs) w = write_string w cs"
| "run_wop WClear w = Some (writer_clear w)"
| "run_wop (WReplace anchor s cursor old_len) w = replace_input w anchor s cursor old_len"
| "run_wop WScrollUp w = Some (scroll_up w)"
| "run_wop WScrollDown w = Some (scroll_down w)"

definition set_active_terminal :: "nat \<Rightarrow> System \<Rightarrow> System" where
  "set_active_terminal index s = s\<lparr>sys_active := min index 1\<rparr>"

definition set_terminal_columns :: "nat \<Rightarrow> nat \<Rightarrow> System \<Rightarrow> System option" where
  "set_terminal_columns index columns s = do {
     w \<leftarrow> arr_get (sys_terminals s) (min index 1);
     w' \<leftarrow> set_columns w columns;
     ts \<leftarrow> arr_set (sys_terminals s) (min index 1) w';
     Some (s\<lparr>sys_terminals := ts\<rparr>)
   }"

text \<open>The mouse interrupt handler's call of \<open>desktop::mouse_byte\<close>, with its effects outside the
  desktop.\<close>

definition mouse_irq :: "u8 \<Rightarrow> System \<Rightarrow> System option" where
  "mouse_irq b s = do {
     (d, evs, finished) \<leftarrow> mouse_byte (sys_desktop s) b;
     let s' = s\<lparr>sys_desktop := d, sys_events := sys_events s @ evs\<rparr>;
     Some (if finished then (set_active_terminal (d_active d) s')\<lparr>sys_redraw := True\<rparr> else s')
   }"

definition take_irqs :: "System \<Rightarrow> System option" where
  "take_irqs s = (case sys_irqs s of
      [] \<Rightarrow> Some s
    | bytes # rest \<Rightarrow> for_each mouse_irq bytes (s\<lparr>sys_irqs := rest\<rparr>))"

text \<open>\<open>with_writer\<close> with any closure, and with a closure given as a list of writer operations; the
  result of the latter is the position of the cursor.\<close>

definition with_closure :: "(Writer \<Rightarrow> (Writer \<times> 'r) option) \<Rightarrow> System \<Rightarrow> (System \<times> 'r) option" where
  "with_closure f s = do {
     s \<leftarrow> take_irqs s;
     w \<leftarrow> arr_get (sys_terminals s) (sys_active s);
     (w, result) \<leftarrow> f w;
     ts \<leftarrow> arr_set (sys_terminals s) (sys_active s) w;
     s \<leftarrow> take_irqs (s\<lparr>sys_terminals := ts\<rparr>);
     screen \<leftarrow> render_desktop (sys_desktop s) (sys_terminals s) (sys_screen s);
     Some (s\<lparr>sys_screen := screen\<rparr>, result)
   }"

definition with_writer :: "wop list \<Rightarrow> System \<Rightarrow> (System \<times> Position) option" where
  "with_writer ops s = with_closure (\<lambda>w. do { w \<leftarrow> for_each run_wop ops w; Some (w, w_cursor w) }) s"

text \<open>A call whose result is not used, and the sequence of calls of a command.\<close>

definition console :: "wop list \<Rightarrow> System \<Rightarrow> System option" where
  "console ops s = map_option fst (with_writer ops s)"

definition refresh :: "System \<Rightarrow> System option" where
  "refresh s = console [] s"

text \<open>The body of \<open>run_redraw_worker\<close>: a poll that finds a pending request clears it and repaints.\<close>

definition redraw_poll :: "System \<Rightarrow> (System \<times> bool) option" where
  "redraw_poll s = (if sys_redraw s then do { s' \<leftarrow> refresh (s\<lparr>sys_redraw := False\<rparr>); Some (s', True) }
     else Some (s, False))"

definition sync_terminal_widths :: "System \<Rightarrow> System option" where
  "sync_terminal_widths s = do {
     rects \<leftarrow> layout (sys_desktop s);
     for_each (\<lambda>(index, rect). set_terminal_columns index
         (case rect of None \<Rightarrow> 76 | Some (_, _, width) \<Rightarrow> as_usize (width - 2)))
       (enumerate 0 rects) s
   }"

definition close_terminal :: "nat \<Rightarrow> System \<Rightarrow> System option" where
  "close_terminal index s = do {
     d \<leftarrow> close_desktop (sys_desktop s) index;
     s \<leftarrow> sync_terminal_widths (s\<lparr>sys_desktop := d\<rparr>);
     refresh (set_active_terminal (d_active (sys_desktop s)) s)
   }"

definition close_active :: "System \<Rightarrow> System option" where
  "close_active s = close_terminal (d_active (sys_desktop s)) s"

definition open_terminal :: "System \<Rightarrow> (System \<times> nat option) option" where
  "open_terminal s = do {
     (d, opened) \<leftarrow> open_desktop (sys_desktop s);
     (case opened of
        None \<Rightarrow> Some (s\<lparr>sys_desktop := d\<rparr>, None)
      | Some index \<Rightarrow> do {
          s \<leftarrow> sync_terminal_widths (s\<lparr>sys_desktop := d\<rparr>);
          s \<leftarrow> refresh (set_active_terminal index s);
          Some (s, Some index)
        })
   }"

section \<open>Invariant\<close>

text \<open>A terminal between a change of its width and its reset: everything but the bound on the
  cursor's column.\<close>

definition writer_shape :: "Writer \<Rightarrow> bool" where
  "writer_shape w \<longleftrightarrow> screen_shape (w_lines w) \<and> 36 \<le> w_columns w \<and> w_columns w \<le> BUFFER_WIDTH
     \<and> w_first_line w = w_last_line w - (SCROLLBACK_LINES - 1)
     \<and> w_first_line w \<le> p_line (w_cursor w) \<and> p_line (w_cursor w) \<le> w_last_line w
     \<and> w_first_line w \<le> w_view_top w \<and> w_view_top w \<le> live_top w"

definition writer_ready :: "Writer \<Rightarrow> bool" where
  "writer_ready w \<longleftrightarrow> writer_shape w \<and> p_column (w_cursor w) \<le> w_columns w"

definition system_inv :: "System \<Rightarrow> bool" where
  "system_inv s \<longleftrightarrow> desktop_inv (sys_desktop s) \<and> length (sys_terminals s) = 2
     \<and> list_all writer_shape (sys_terminals s) \<and> sys_active s < 2 \<and> screen_ok (sys_screen s)"

lemma writer_ready_inv: "writer_ready w \<longleftrightarrow> writer_inv w \<and> 36 \<le> w_columns w"
  by (auto simp: writer_ready_def writer_shape_def writer_inv_def)

lemma writer_clear_ready: "writer_shape w \<Longrightarrow> writer_ready (writer_clear w)"
  by (simp add: writer_ready_def writer_shape_def writer_clear_def list_all_iff live_top_def)

lemma system_new_inv: "length vga = 2000 \<Longrightarrow> system_inv (system_new vga)"
  using writer_new_sim DESKTOP_inv
  by (simp add: system_inv_def system_new_def writer_sim_def writer_shape_def writer_inv_def writer_new_def
      screen_ok_def screen_new_def frame_ok_def SCREEN_CELLS_def vga_consts)

lemma system_inv_shape: "system_inv s \<Longrightarrow> terminals_shape (sys_terminals s)"
  by (auto simp: system_inv_def terminals_shape_def list_all_iff writer_shape_def)

lemma system_inv_terminal:
  "system_inv s \<Longrightarrow> i < 2 \<Longrightarrow> writer_shape (sys_terminals s ! i)"
  by (simp add: system_inv_def list_all_length)

lemma system_inv_update:
  assumes "system_inv s" "writer_shape w"
  shows "system_inv (s\<lparr>sys_terminals := (sys_terminals s)[i := w]\<rparr>)"
  using assms by (auto simp: system_inv_def list_all_iff dest!: set_update_subset_insert [THEN subsetD])

lemma set_active_inv: "system_inv s \<Longrightarrow> system_inv (set_active_terminal i s)"
  by (simp add: system_inv_def set_active_terminal_def)

lemma mouse_irq_inv: "system_inv s \<Longrightarrow> \<exists>s'. mouse_irq b s = Some s' \<and> system_inv s'"
  using mouse_byte_spec [of "sys_desktop s" b]
  by (auto simp: mouse_irq_def system_inv_def set_active_terminal_def Let_def)

lemma take_irqs_inv: "system_inv s \<Longrightarrow> \<exists>s'. take_irqs s = Some s' \<and> system_inv s'"
proof (cases "sys_irqs s")
  case (Cons bytes rest)
  assume "system_inv s"
  then have "system_inv (s\<lparr>sys_irqs := rest\<rparr>)" by (simp add: system_inv_def)
  then show ?thesis
    using for_each_inv [of system_inv "s\<lparr>sys_irqs := rest\<rparr>" bytes mouse_irq] mouse_irq_inv Cons
    by (simp add: take_irqs_def)
qed (simp add: take_irqs_def)

lemma take_irqs_none: "sys_irqs s = [] \<Longrightarrow> take_irqs s = Some s"
  by (simp add: take_irqs_def)

text \<open>The screen shows the desktop and the terminals as they are now.\<close>

definition painted :: "System \<Rightarrow> bool" where
  "painted s \<longleftrightarrow> picture (sys_desktop s) (sys_terminals s) = Some (scr_vga (sys_screen s))"

lemma render_inv:
  assumes "system_inv s"
  shows "\<exists>scr. render_desktop (sys_desktop s) (sys_terminals s) (sys_screen s) = Some scr \<and> screen_ok scr
    \<and> picture (sys_desktop s) (sys_terminals s) = Some (scr_vga scr)"
  using render_desktop_ok [of "sys_desktop s" "sys_terminals s" "sys_screen s"] assms system_inv_shape [OF assms]
  unfolding system_inv_def desktop_inv_def by blast

text \<open>Sequentially, a call of \<open>with_writer\<close> changes the active terminal by the closure and the
  screen, and nothing else.\<close>

lemma with_closure_seq:
  assumes inv: "system_inv s" and irq: "sys_irqs s = []"
    and ops: "f (sys_terminals s ! sys_active s) = Some (w, r)" "writer_shape w"
  shows "\<exists>scr. with_closure f s =
      Some (s\<lparr>sys_terminals := (sys_terminals s)[sys_active s := w], sys_screen := scr\<rparr>, r) \<and>
    system_inv (s\<lparr>sys_terminals := (sys_terminals s)[sys_active s := w], sys_screen := scr\<rparr>) \<and>
    painted (s\<lparr>sys_terminals := (sys_terminals s)[sys_active s := w], sys_screen := scr\<rparr>)"
proof -
  let ?s = "s\<lparr>sys_terminals := (sys_terminals s)[sys_active s := w]\<rparr>"
  have i: "sys_active s < length (sys_terminals s)" using inv by (simp add: system_inv_def)
  have inv': "system_inv ?s" by (rule system_inv_update [OF inv ops(2)])
  obtain scr where scr: "render_desktop (sys_desktop ?s) (sys_terminals ?s) (sys_screen ?s) = Some scr" "screen_ok scr"
    "picture (sys_desktop ?s) (sys_terminals ?s) = Some (scr_vga scr)"
    using render_inv [OF inv'] by blast
  have "with_closure f s = Some (?s\<lparr>sys_screen := scr\<rparr>, r)"
    using i irq ops(1) scr(1) by (simp add: with_closure_def take_irqs_none arr_get_def arr_set_def)
  moreover have "system_inv (?s\<lparr>sys_screen := scr\<rparr>)" using inv' scr(2) by (simp add: system_inv_def)
  moreover have "painted (?s\<lparr>sys_screen := scr\<rparr>)" using scr(3) by (simp add: painted_def)
  ultimately show ?thesis by auto
qed

lemma with_writer_seq:
  assumes "system_inv s" "sys_irqs s = []"
    and "for_each run_wop ops (sys_terminals s ! sys_active s) = Some w" "writer_shape w"
  shows "\<exists>scr. with_writer ops s =
      Some (s\<lparr>sys_terminals := (sys_terminals s)[sys_active s := w], sys_screen := scr\<rparr>, w_cursor w) \<and>
    system_inv (s\<lparr>sys_terminals := (sys_terminals s)[sys_active s := w], sys_screen := scr\<rparr>) \<and>
    painted (s\<lparr>sys_terminals := (sys_terminals s)[sys_active s := w], sys_screen := scr\<rparr>)"
  unfolding with_writer_def using assms by (intro with_closure_seq) simp_all

text \<open>Repainting is safe under any schedule of interrupts.\<close>

lemma refresh_inv: "system_inv s \<Longrightarrow> \<exists>s'. refresh s = Some s' \<and> system_inv s'"
proof -
  assume "system_inv s"
  then obtain s1 where s1: "take_irqs s = Some s1" "system_inv s1" using take_irqs_inv by blast
  let ?s = "s1\<lparr>sys_terminals := (sys_terminals s1)[sys_active s1 := sys_terminals s1 ! sys_active s1]\<rparr>"
  have i: "sys_active s1 < length (sys_terminals s1)" using s1(2) by (simp add: system_inv_def)
  have "system_inv ?s" using s1(2) by simp
  then obtain s2 where s2: "take_irqs ?s = Some s2" "system_inv s2" using take_irqs_inv by blast
  obtain scr where "render_desktop (sys_desktop s2) (sys_terminals s2) (sys_screen s2) = Some scr" "screen_ok scr"
    using render_inv [OF s2(2)] by blast
  then show ?thesis
    using s1(1) s2 i by (simp add: refresh_def console_def with_writer_def with_closure_def arr_get_def arr_set_def system_inv_def)
qed

lemma redraw_poll_inv: "system_inv s \<Longrightarrow> \<exists>s' b. redraw_poll s = Some (s', b) \<and> system_inv s'"
  using refresh_inv [of "s\<lparr>sys_redraw := False\<rparr>"] by (auto simp: redraw_poll_def system_inv_def)

end
