(* ===== verification/Timer.thy ===== *)
theory Timer
  imports Prelude
begin

text \<open>
  The clock of \<^verbatim>\<open>src/src/interrupts.rs\<close>: the tick counter of the timer interrupt and the conversions
  to seconds and milliseconds, with the overflow checks of \<open>u64\<close> arithmetic, and the interrupt
  vector numbers.
\<close>

definition PIT_FREQUENCY :: nat where "PIT_FREQUENCY = 1193182"
definition PIT_DIVISOR :: nat where "PIT_DIVISOR = 11932"
definition PIC_1_OFFSET :: nat where "PIC_1_OFFSET = 32"
definition PIC_2_OFFSET :: nat where "PIC_2_OFFSET = PIC_1_OFFSET + 8"

datatype InterruptIndex = TimerIrq | KeyboardIrq | MouseIrq

fun interrupt_as_u8 :: "InterruptIndex \<Rightarrow> nat" where
  "interrupt_as_u8 TimerIrq = PIC_1_OFFSET"
| "interrupt_as_u8 KeyboardIrq = PIC_1_OFFSET + 1"
| "interrupt_as_u8 MouseIrq = PIC_2_OFFSET + 4"

text \<open>\<open>TICKS.fetch_add(1)\<close> wraps.\<close>

definition timer_interrupt :: "u64 \<Rightarrow> u64" where
  "timer_interrupt ticks = ticks + 1"

definition u64_mul :: "nat \<Rightarrow> nat \<Rightarrow> nat option" where
  "u64_mul a b = (if a * b < 2 ^ 64 then Some (a * b) else None)"

definition uptime_seconds :: "u64 \<Rightarrow> nat option" where
  "uptime_seconds t = (let ticks = unat t in do {
     a \<leftarrow> u64_mul (ticks div PIT_FREQUENCY) PIT_DIVISOR;
     b \<leftarrow> u64_mul (ticks mod PIT_FREQUENCY) PIT_DIVISOR;
     usize_add a (b div PIT_FREQUENCY)
   })"

text \<open>The \<open>as i64\<close> of the result reinterprets its bits.\<close>

definition uptime_millis :: "u64 \<Rightarrow> int option" where
  "uptime_millis t = do {
     a \<leftarrow> u64_mul (unat t) PIT_DIVISOR;
     b \<leftarrow> u64_mul a 1000;
     Some (sint (of_nat (b div PIT_FREQUENCY) :: u64))
   }"

lemma split_quotient:
  fixes t f d :: nat
  assumes "0 < f"
  shows "t div f * d + t mod f * d div f = t * d div f"
proof -
  have "t * d = (t div f * d) * f + t mod f * d"
    by (metis distrib_right div_mult_mod_eq mult.assoc mult.commute)
  then show ?thesis using assms by simp
qed

lemma uptime_seconds_eq: "uptime_seconds t = Some (unat t * 11932 div 1193182)"
proof -
  have t: "unat t < 2 ^ 64" using unsigned_less [of t] by simp
  have "unat t div 1193182 \<le> 2 ^ 64 div 1193182" by (rule div_le_mono) (use t in simp)
  then have a: "unat t div 1193182 * 11932 \<le> 2 ^ 64 div 1193182 * 11932" by (rule mult_le_mono1)
  have "unat t mod 1193182 < 1193182" by simp
  then have b: "unat t mod 1193182 * 11932 < 1193182 * 11932" by simp
  then have c: "unat t mod 1193182 * 11932 div 1193182 < 11932" by (simp add: less_mult_imp_div_less)
  have "u64_mul (unat t div 1193182) 11932 = Some (unat t div 1193182 * 11932)"
    "u64_mul (unat t mod 1193182) 11932 = Some (unat t mod 1193182 * 11932)"
    "usize_add (unat t div 1193182 * 11932) (unat t mod 1193182 * 11932 div 1193182)
      = Some (unat t div 1193182 * 11932 + unat t mod 1193182 * 11932 div 1193182)"
    using a b c by (simp_all add: u64_mul_def usize_add_def)
  then show ?thesis
    using split_quotient [of 1193182 "unat t" 11932]
    by (simp add: uptime_seconds_def PIT_FREQUENCY_def PIT_DIVISOR_def Let_def)
qed

section \<open>Properties\<close>

text \<open>For every value of the 64-bit tick counter the uptime in seconds is computed without
  overflow and is exactly the number of whole seconds of that many timer periods.\<close>

theorem uptime_seconds_exact:
  "uptime_seconds t = Some (unat t * 11932 div 1193182)"
  by (rule uptime_seconds_eq)

text \<open>The clock of the network stack is the number of whole milliseconds, non-negative, as long
  as the product of the tick counter does not leave 64 bits, which is the case for more than 480
  years of uptime; beyond that the computation overflows.\<close>

theorem uptime_millis_exact:
  "uptime_millis t = (if unat t \<le> 1545989278721
     then Some (int (unat t * 11932000 div 1193182)) else None)"
proof (cases "unat t \<le> 1545989278721")
  case True
  have "unat t * 11932000 div 1193182 \<le> 1545989278721 * 11932000 div 1193182"
    by (rule div_le_mono) (use True in simp)
  then have "unat t * 11932000 div 1193182 < 2 ^ 63" by simp
  then have "int (unat t * 11932000 div 1193182) < 2 ^ 63"
    by (metis of_nat_less_iff of_nat_numeral of_nat_power)
  then have "signed_take_bit 63 (int (unat t * 11932000 div 1193182)) = int (unat t * 11932000 div 1193182)"
    unfolding signed_take_bit_int_eq_self_iff by simp
  then have "sint (of_nat (unat t * 11932000 div 1193182) :: u64) = int (unat t * 11932000 div 1193182)"
    unfolding signed_of_nat by simp
  then show ?thesis
    using True by (simp add: uptime_millis_def u64_mul_def PIT_FREQUENCY_def PIT_DIVISOR_def mult.assoc)
next
  case False
  then have "\<not> unat t * 11932 * 1000 < 2 ^ 64" by simp
  then show ?thesis
    using False by (auto simp: uptime_millis_def u64_mul_def PIT_DIVISOR_def)
qed

end
