(* ===== verification/System_Info.thy ===== *)
theory System_Info
  imports Console Timer Alloc_Base
begin

text \<open>
  The facts about the machine of \<^verbatim>\<open>src/src/system.rs\<close>: \<open>SystemInfo::new\<close> from the boot memory map and
  the CPUID instruction (a parameter: its four registers as a function of the leaf), the processor
  name, and the \<open>fastfetch\<close> display as the writer operations of its closure.
\<close>

section \<open>Data and operations\<close>

definition VERSION :: "char list" where "VERSION = ''0.1.0''"

record SystemInfo =
  usable_memory :: nat
  vendor :: "byte list"
  brand :: "byte list"
  virtualized :: bool

text \<open>A region of the memory map: whether it is usable, its start and its end address.\<close>

record MemoryRegion =
  mr_usable :: bool
  mr_start :: nat
  mr_end :: nat

record cpuid_result =
  eax :: u32
  ebx :: u32
  ecx :: u32
  edx :: u32

definition to_le_bytes :: "u32 \<Rightarrow> byte list" where
  "to_le_bytes w = map (\<lambda>i. char_of (unat w div 256 ^ i mod 256)) [0, 1, 2, 3]"

text \<open>\<open>dst[a..a + src.len()].copy_from_slice(src)\<close>\<close>

definition copy_from_slice :: "'a list \<Rightarrow> nat \<Rightarrow> 'a list \<Rightarrow> 'a list option" where
  "copy_from_slice dst a src = (if a + length src \<le> length dst
     then Some (take a dst @ src @ drop (a + length src) dst) else None)"

definition usable_bytes :: "MemoryRegion list \<Rightarrow> nat option" where
  "usable_bytes memory_map = for_each (\<lambda>r acc. do {
     n \<leftarrow> usize_sub (mr_end r) (mr_start r);
     usize_add acc n
   }) (filter mr_usable memory_map) 0"

definition read_brand :: "(u32 \<Rightarrow> cpuid_result) \<Rightarrow> byte list option" where
  "read_brand cpuid =
     (if eax (cpuid 0x80000000) \<ge> 0x80000004 then
        for_each (\<lambda>index brand.
          (let leaf = cpuid (0x80000002 + of_nat index) in
           for_each (\<lambda>(word, value) brand. copy_from_slice brand (index * 16 + word * 4) (to_le_bytes value))
             (enumerate 0 [eax leaf, ebx leaf, ecx leaf, edx leaf]) brand))
          [0, 1, 2] (replicate 48 (CHR 0x00))
      else Some (replicate 48 (CHR 0x00)))"

definition system_info_new :: "MemoryRegion list \<Rightarrow> (u32 \<Rightarrow> cpuid_result) \<Rightarrow> SystemInfo option" where
  "system_info_new memory_map cpuid = do {
     usable \<leftarrow> usable_bytes memory_map;
     let base = cpuid 0;
     let v = replicate 12 (CHR 0x00);
     v \<leftarrow> copy_from_slice v 0 (to_le_bytes (ebx base));
     v \<leftarrow> copy_from_slice v 4 (to_le_bytes (edx base));
     v \<leftarrow> copy_from_slice v 8 (to_le_bytes (ecx base));
     b \<leftarrow> read_brand cpuid;
     Some \<lparr>usable_memory = usable, vendor = v, brand = b,
       virtualized = (eax base \<ge> 1 \<and> ecx (cpuid 1) AND push_bit 31 1 \<noteq> 0)\<rparr>
   }"

text \<open>The name as the code points of the string.\<close>

definition cpu_name :: "SystemInfo \<Rightarrow> nat list" where
  "cpu_name info =
     (let name = trim_matches is_whitespace (trim_matches (\<lambda>c. c = 0)
         (case from_utf8 (brand info) of Some s \<Rightarrow> str_chars s | None \<Rightarrow> [])) in
      if name = [] then str_chars (case from_utf8 (vendor info) of Some s \<Rightarrow> s | None \<Rightarrow> ''Unknown x86_64 CPU'')
      else name)"

text \<open>\<open>write!(writer, "...")\<close> of a string, and the display of an uptime.\<close>

definition wstr :: "char list \<Rightarrow> wop" where
  "wstr s = WWrite (str_chars s)"

definition show_uptime :: "nat \<Rightarrow> char list" where
  "show_uptime seconds = show_nat (seconds div 3600) @ ''h '' @ show_nat (seconds div 60 mod 60) @ ''m ''
     @ show_nat (seconds mod 60) @ ''s''"

text \<open>The logo, with a dollar sign for each backslash of the source.\<close>

definition LOGO :: "char list list" where
  "LOGO = map (map (\<lambda>c. if c = CHR ''$'' then CHR 0x5C else c))
     [''                    '', ''     _     _        '', ''    (v)   (v)       '', ''     $_____ /       '',
      ''   __/ o o $__      '', ''  / _$_____/ _$     '', ''  $ $|     |/ /     '', ''   $_|_____|_/      '',
      ''    / /   $ $       '', ''   /_/     $_$      '', ''                    '', ''      C R A B       '']"

definition ff_labels :: "char list list" where
  "ff_labels = [''shaolin@crabos'', ''------------'', ''OS'', ''Kernel'', ''CPU'', ''Platform'', ''Uptime'',
     ''RAM (boot usable)'', ''Heap (payload)'', ''Shell'', ''Terminal'', '''']"

definition ff_value :: "SystemInfo \<Rightarrow> nat \<Rightarrow> nat \<Rightarrow> nat \<Rightarrow> wop list" where
  "ff_value info seconds requested index =
     (if index = 2 then [wstr (''CrabOS '' @ VERSION @ '' x86_64'')]
      else if index = 3 then [wstr ''CrabOS-kern'']
      else if index = 4 then [WWrite (take 48 (cpu_name info))]
      else if index = 5 then [wstr (if virtualized info then ''Virtual machine'' else ''PC'')]
      else if index = 6 then [wstr (show_uptime seconds)]
      else if index = 7 then [wstr (show_nat (usable_memory info div 1024 div 1024) @ '' MiB'')]
      else if index = 8 then [wstr (show_nat requested @ '' B / '' @ show_nat (HEAP_SIZE div 1024) @ '' KiB'')]
      else if index = 9 then [wstr ''crabsh (built-in)'']
      else if index = 10 then [wstr ''VGA 80x25 / PS/2'']
      else if index = 11 then concat (map (\<lambda>color. [WColor color color, wstr ''   ''])
        [Red, Green, Brown, Blue, Magenta, Cyan, LightGray, White])
      else [])"

definition fastfetch :: "SystemInfo \<Rightarrow> nat \<Rightarrow> nat \<Rightarrow> wop list" where
  "fastfetch info seconds requested =
     concat (map (\<lambda>(index, logo).
       [WColor LightRed Black, wstr (logo @ ''  ''), WColor LightCyan Black, wstr (ff_labels ! index)]
       @ (if 2 \<le> index \<and> index \<le> 10 then [WColor LightGray Black, wstr '': ''] else [])
       @ ff_value info seconds requested index
       @ [WColor LightGray Black, wstr [CHR 0x0A]]) (enumerate 0 LOGO))
     @ [wstr [CHR 0x0A]]"

section \<open>Lemmas\<close>

lemma length_to_le_bytes [simp]: "length (to_le_bytes w) = 4"
  by (simp add: to_le_bytes_def)

lemma copy_from_slice_ok:
  "a + length src \<le> length dst \<Longrightarrow> \<exists>d. copy_from_slice dst a src = Some d \<and> length d = length dst"
  by (simp add: copy_from_slice_def)

lemma read_brand_ok: "\<exists>b. read_brand cpuid = Some b \<and> length b = 48"
proof (cases "eax (cpuid 0x80000000) \<ge> 0x80000004")
  case True
  let ?g = "\<lambda>index brand.
          (let leaf = cpuid (0x80000002 + of_nat index) in
           for_each (\<lambda>(word, value) brand. copy_from_slice brand (index * 16 + word * 4) (to_le_bytes value))
             (enumerate 0 [eax leaf, ebx leaf, ecx leaf, edx leaf]) brand)"
  have "\<exists>b'. ?g index b = Some b' \<and> length b' = 48" if "index \<in> set [0, 1, 2]" "length b = 48" for index b
    unfolding Let_def
  proof (rule for_each_inv [where P = "\<lambda>b. length b = 48"])
    fix x and b :: "byte list"
    assume x: "x \<in> set (enumerate 0 [eax (cpuid (0x80000002 + of_nat index)), ebx (cpuid (0x80000002 + of_nat index)),
        ecx (cpuid (0x80000002 + of_nat index)), edx (cpuid (0x80000002 + of_nat index))])" and b: "length (b :: byte list) = 48"
    then have "fst x < 4" by (auto simp: in_set_enumerate_eq)
    then show "\<exists>s'. (case x of (word, value) \<Rightarrow> \<lambda>brand. copy_from_slice brand (index * 16 + word * 4) (to_le_bytes value)) b
        = Some s' \<and> length s' = 48"
      using copy_from_slice_ok [of "index * 16 + fst x * 4" "to_le_bytes (snd x)" b] that(1) b by (auto split: prod.split)
  qed (use that in simp)
  then have "\<exists>b. for_each ?g [0, 1, 2] (replicate 48 (CHR 0x00)) = Some b \<and> length b = 48"
    by (intro for_each_inv [where P = "\<lambda>b. length b = 48"]) auto
  then show ?thesis using True by (simp add: read_brand_def)
qed (simp add: read_brand_def)

lemma usable_bytes_sum:
  assumes "\<forall>r\<in>set rs. mr_start r \<le> mr_end r" "acc + sum_list (map (\<lambda>r. mr_end r - mr_start r) rs) < 2 ^ 64"
  shows "for_each (\<lambda>r acc. do { n \<leftarrow> usize_sub (mr_end r) (mr_start r); usize_add acc n }) rs acc
    = Some (acc + sum_list (map (\<lambda>r. mr_end r - mr_start r) rs))"
  using assms by (induction rs arbitrary: acc) (auto simp: usize_sub_def usize_add_def)

lemma utf8_decode_nonempty: "utf8_decode (b # r) = Some ys \<Longrightarrow> ys \<noteq> []"
  unfolding utf8_decode.simps Let_def
  by (simp only: map_option_eq_Some split: if_split_asm list.split_asm) blast+

lemma str_chars_nonempty: "from_utf8 s = Some t \<Longrightarrow> s \<noteq> [] \<Longrightarrow> str_chars t \<noteq> []"
proof -
  assume a: "from_utf8 s = Some t" "s \<noteq> []"
  then obtain cs where "t = s" "utf8_decode s = Some cs" by (auto simp: from_utf8_def split: if_splits)
  then show ?thesis
    using a(2) utf8_decode_nonempty by (cases s) (auto simp: str_chars_def simp del: utf8_decode.simps)
qed

section \<open>Properties\<close>

text \<open>Whatever CPUID returns and whatever the (sane) boot memory map, the machine facts are
  collected without a panic: the reported memory is the total of the usable regions, vendor and
  brand have their fixed lengths, and the processor name shown is never empty.\<close>

theorem system_info_total:
  assumes "list_all (\<lambda>r. mr_start r \<le> mr_end r) memory_map"
    "sum_list (map (\<lambda>r. mr_end r - mr_start r) (filter mr_usable memory_map)) < 2 ^ 64"
  shows "\<exists>info. system_info_new memory_map cpuid = Some info
    \<and> usable_memory info = sum_list (map (\<lambda>r. mr_end r - mr_start r) (filter mr_usable memory_map))
    \<and> length (vendor info) = 12 \<and> length (brand info) = 48 \<and> cpu_name info \<noteq> []"
proof -
  have u: "usable_bytes memory_map = Some (sum_list (map (\<lambda>r. mr_end r - mr_start r) (filter mr_usable memory_map)))"
    using usable_bytes_sum [of "filter mr_usable memory_map" 0] assms by (auto simp: usable_bytes_def list_all_iff)
  obtain b where b: "read_brand cpuid = Some b" "length b = 48" using read_brand_ok by blast
  obtain v where v: "do { v \<leftarrow> copy_from_slice (replicate 12 (CHR 0x00)) 0 (to_le_bytes (ebx (cpuid 0)));
      v \<leftarrow> copy_from_slice v 4 (to_le_bytes (edx (cpuid 0)));
      copy_from_slice v 8 (to_le_bytes (ecx (cpuid 0))) } = Some v" "length v = 12"
    by (simp add: copy_from_slice_def)
  have name: "cpu_name info \<noteq> []" if "length (vendor info) = 12" for info
  proof -
    have "vendor info \<noteq> []" using that by auto
    then show ?thesis
      using str_chars_nonempty [of "vendor info"]
      by (auto simp: cpu_name_def Let_def str_chars_ascii is_ascii_def split: option.splits)
  qed
  let ?info = "\<lparr>usable_memory = sum_list (map (\<lambda>r. mr_end r - mr_start r) (filter mr_usable memory_map)),
    vendor = v, brand = b, virtualized = (eax (cpuid 0) \<ge> 1 \<and> ecx (cpuid 1) AND push_bit 31 1 \<noteq> 0)\<rparr>"
  have "system_info_new memory_map cpuid = Some ?info"
    using u b(1) v(1) by (auto simp: system_info_new_def Let_def panic_simps)
  then show ?thesis using b(2) v(2) name [of ?info] by simp
qed

theorem system_info_total_witness:
  "\<exists>info. system_info_new [\<lparr>mr_usable = True, mr_start = 0, mr_end = 4096\<rparr>]
      (\<lambda>_. \<lparr>eax = 1, ebx = 0x756E6547, ecx = 0, edx = 0\<rparr>) = Some info
    \<and> usable_memory info = sum_list (map (\<lambda>r. mr_end r - mr_start r)
        (filter mr_usable [\<lparr>mr_usable = True, mr_start = 0, mr_end = 4096\<rparr>]))
    \<and> length (vendor info) = 12 \<and> length (brand info) = 48 \<and> cpu_name info \<noteq> []"
  by (rule system_info_total) simp_all

end
