(* ===== verification/Shell.thy ===== *)
theory Shell
  imports Shell_History Shell_Args Web System_Info
begin

text \<open>
  The shell of \<^verbatim>\<open>src/src/shell.rs\<close> (struct \<open>Shell\<close>): key handling, completion, command execution and
  prompt, on top of the line editor, the history, the argument parser and the console. A command
  is modelled by the sequence of its \<open>with_writer\<close> calls; what it reads from the rest of the kernel
  (clock, heap counter, PCI scan, network) is the record \<open>Env\<close>.
\<close>

section \<open>Data\<close>

text \<open>The keys the decoder (the crate \<open>pc_keyboard\<close>) delivers: a code point, or a key without one.\<close>

datatype KeyCode = KC_Home | KC_End | KC_ArrowLeft | KC_ArrowRight | KC_ArrowUp | KC_ArrowDown
  | KC_Delete | KC_PageUp | KC_PageDown | KC_Oem5 | KC_Oem7 | KC_Other nat

datatype DecodedKey = Unicode nat | RawKey KeyCode

record Shell =
  sh_info :: SystemInfo
  sh_line :: Line
  sh_history :: History
  sh_anchor :: Position

record Env =
  env_uptime :: nat
  env_requested :: nat
  env_i225_v :: "(u8 \<times> u8 \<times> u8) option"
  env_status :: "(u8 list \<times> bool) option"
  env_fetch :: "Url \<Rightarrow> string + byte list"

definition COMMANDS :: "(char list \<times> char list) list" where
  "COMMANDS = [(''help'', ''Show commands and keyboard shortcuts''),
    (''fastfetch'', ''Show the CrabOS logo and live system information''),
    (''clear'', ''Clear the screen and scrollback''),
    (''echo'', ''Print arguments (quotes and backslash escapes supported)''),
    (''uname'', ''Show kernel name; -a for version and architecture''),
    (''uptime'', ''Show time since kernel initialization''),
    (''mem'', ''Show boot memory and current heap allocation payloads''),
    (''history'', ''Show the last 16 commands''),
    (''whoami'', ''Show the console user''),
    (''hostname'', ''Show the system name''),
    (''lspci'', ''Find the supported Intel I225-V Ethernet controller''),
    (''net'', ''Show Ethernet controller and link status''),
    (''browse'', ''Open a plain HTTP page in the terminal'')]"

section \<open>Output\<close>

definition print_str :: "char list \<Rightarrow> wop list" where
  "print_str s = [wstr s]"

definition println :: "char list \<Rightarrow> wop list" where
  "println s = [wstr (s @ [CHR 0x0A])]"

text \<open>Formatting: \<open>{:<10}\<close>, \<open>{:>3}\<close> and \<open>{:02x}\<close>.\<close>

definition pad_right :: "nat \<Rightarrow> char list \<Rightarrow> char list" where
  "pad_right n s = s @ replicate (n - length s) (CHR '' '')"

definition pad_left :: "nat \<Rightarrow> char list \<Rightarrow> char list" where
  "pad_left n s = replicate (n - length s) (CHR '' '') @ s"

definition hex_digit :: "nat \<Rightarrow> char" where
  "hex_digit n = (if n < 10 then char_of (48 + n) else char_of (87 + n))"

definition show_hex2 :: "u8 \<Rightarrow> char list" where
  "show_hex2 b = [hex_digit (unat b div 16), hex_digit (unat b mod 16)]"

section \<open>Commands\<close>

fun all_some :: "'a option list \<Rightarrow> 'a list option" where
  "all_some [] = Some []"
| "all_some (x # xs) = do { y \<leftarrow> x; ys \<leftarrow> all_some xs; Some (y # ys) }"

definition cmd_echo :: "Arguments \<Rightarrow> wop list list option" where
  "cmd_echo args = do {
     ws \<leftarrow> all_some (map (arguments_get args) [1..<a_len args]);
     Some (concat (map (\<lambda>(index, w). (if index > 1 then [print_str '' ''] else []) @ [print_str w]) (enumerate 1 ws))
       @ [println []])
   }"

definition cmd_uname :: "Arguments \<Rightarrow> wop list list option" where
  "cmd_uname args =
     (if a_len args = 1 then Some [println ''CrabOS'']
      else do {
        flag \<leftarrow> (if a_len args = 2 then do { a \<leftarrow> arguments_get args 1; Some (a = ''-a'') } else Some False);
        Some [if flag then println (''CrabOS crabos '' @ VERSION @ '' x86_64'') else println ''usage: uname [-a]'']
      })"

definition cmd_browse :: "Env \<Rightarrow> Arguments \<Rightarrow> wop list list option" where
  "cmd_browse env args =
     (if a_len args \<noteq> 2 then Some [println ''usage: browse http://host/path'']
      else do {
        target \<leftarrow> arguments_get args 1;
        (case url_parse target of
           Inl error \<Rightarrow> Some [println (''browse: '' @ error)]
         | Inr url \<Rightarrow> do {
             page \<leftarrow> (case env_fetch env url of Inl e \<Rightarrow> Some (Inl e) | Inr response \<Rightarrow> render response);
             Some [println (''Loading '' @ target),
               (case page of Inr text \<Rightarrow> println text | Inl error \<Rightarrow> println (''browse: '' @ error))]
           })
      })"

definition cmd_help :: "wop list list" where
  "cmd_help = map (\<lambda>(name, description). println (''  '' @ pad_right 10 name @ '' '' @ description)) COMMANDS @
    [println (CHR 0x0A # ''Editing: Left/Right, Home/End, Backspace/Delete, Tab completion''),
     println ''History: Up/Down or Ctrl+P/N; scrollback: PageUp/PageDown'',
     println ''Ctrl+A/E: start/end; Ctrl+U/K: erase to start/end; Ctrl+W: word'',
     println ''Ctrl+C: close terminal; Ctrl+Q: open terminal'',
     println ''Ctrl+L: clear and redraw; Ctrl+D: delete at cursor'',
     println ''US keyboard, ASCII input, 256 bytes/line, 16 history entries.'',
     println ''Built-in commands only; no filesystem or external programs yet.'']"

definition cmd_mem :: "Env \<Rightarrow> SystemInfo \<Rightarrow> wop list list" where
  "cmd_mem env info =
    [println (''Boot-usable physical RAM: '' @ show_nat (usable_memory info div 1024) @ '' KiB''),
     println (''Kernel heap capacity:     '' @ show_nat (HEAP_SIZE div 1024) @ '' KiB''),
     println (''Live allocation payload:  '' @ show_nat (env_requested env) @ '' bytes''),
     println ''Payload excludes allocator metadata, rounding and cached blocks.'',
     println ''Boot-usable RAM is not a measurement of current free memory.'']"

definition cmd_history :: "History \<Rightarrow> wop list list option" where
  "cmd_history h = all_some (map (\<lambda>index. do {
     l \<leftarrow> history_get h index;
     t \<leftarrow> line_as_str l;
     Some (println (pad_left 3 (show_nat (index + 1)) @ ''  '' @ t))
   }) [0..<h_len h])"

definition cmd_lspci :: "Env \<Rightarrow> wop list list" where
  "cmd_lspci env = [case env_i225_v env of
      Some (bus, device, function) \<Rightarrow> println (show_hex2 bus @ '':'' @ show_hex2 device @ ''.''
        @ show_nat (unat function) @ '' Intel I225-V Ethernet [8086:15f3]'')
    | None \<Rightarrow> println ''Intel I225-V Ethernet [8086:15f3] not found'']"

text \<open>The six bytes of the MAC address separated by colons.\<close>

fun join_colon :: "char list list \<Rightarrow> char list" where
  "join_colon [] = []"
| "join_colon [w] = w"
| "join_colon (w # ws) = w @ '':'' @ join_colon ws"

definition cmd_net :: "Env \<Rightarrow> wop list list option" where
  "cmd_net env = (case env_status env of
      Some (mac, link) \<Rightarrow> do {
        bytes \<leftarrow> all_some (map (arr_get mac) [0..<6]);
        Some [println (''QEMU e1000 '' @ join_colon (map show_hex2 bytes) @ '' link '' @ (if link then ''up'' else ''down''))]
      }
    | None \<Rightarrow> Some [println ''No initialized Ethernet controller''])"

text \<open>The \<open>match\<close> of \<open>execute\<close>, in its order; the last arm is \<open>unreachable!()\<close>.\<close>

definition run_command :: "Env \<Rightarrow> Shell \<Rightarrow> Arguments \<Rightarrow> char list \<Rightarrow> wop list list option" where
  "run_command env sh args command = do {
     version \<leftarrow> (if command = ''fastfetch'' \<and> a_len args = 2
       then do { a \<leftarrow> arguments_get args 1; Some (a = ''--version'') } else Some False);
     (if command = ''echo'' then cmd_echo args
      else if command = ''uname'' then cmd_uname args
      else if version then Some [println (''CrabOS native fastfetch '' @ VERSION @ '' (not the upstream program)'')]
      else if command = ''browse'' then cmd_browse env args
      else if \<not> list_ex (\<lambda>(name, _). name = command) COMMANDS
        then Some [println (''crabsh: '' @ command @ '': command not found. Try '' @ [SQUOTE] @ ''help'' @ [SQUOTE] @ ''.'')]
      else if a_len args > 1 then Some [println (''usage: '' @ command @ '' (no arguments)'')]
      else if command = ''help'' then Some cmd_help
      else if command = ''fastfetch'' then Some [fastfetch (sh_info sh) (env_uptime env) (env_requested env)]
      else if command = ''clear'' then Some [[WClear]]
      else if command = ''uptime'' then Some [println (''up '' @ show_uptime (env_uptime env))]
      else if command = ''mem'' then Some (cmd_mem env (sh_info sh))
      else if command = ''history'' then cmd_history (sh_history sh)
      else if command = ''whoami'' then Some [println ''shaolin'']
      else if command = ''hostname'' then Some [println ''crabos'']
      else if command = ''lspci'' then Some (cmd_lspci env)
      else if command = ''net'' then cmd_net env
      else None)
   }"

definition execute :: "Env \<Rightarrow> Shell \<Rightarrow> char list \<Rightarrow> wop list list option" where
  "execute env sh input = do {
     parsed \<leftarrow> arguments_parse input;
     (case parsed of
        Inl error \<Rightarrow> Some [println (''crabsh: '' @ error)]
      | Inr args \<Rightarrow>
          if a_len args = 0 then Some []
          else do {
            command \<leftarrow> arguments_get args 0;
            help \<leftarrow> (if a_len args = 2 then do {
                a \<leftarrow> arguments_get args 1;
                Some (if a = ''--help'' then find (\<lambda>(name, _). name = command) COMMANDS else None)
              } else Some None);
            (case help of
               Some (name, description) \<Rightarrow> Some [println (name @ '': '' @ description)]
             | None \<Rightarrow> run_command env sh args command)
          })
   }"

section \<open>The shell on the console\<close>

definition prompt_ops :: "wop list" where
  "prompt_ops = [WColor LightGreen Black, wstr ''shaolin@crabos'', WColor LightGray Black, wstr '':'',
     WColor LightBlue Black, wstr ''~'', WColor LightGray Black, wstr ''$ '']"

text \<open>\<open>self.anchor = Self::prompt()\<close>\<close>

definition set_prompt :: "Shell \<times> System \<Rightarrow> (Shell \<times> System) option" where
  "set_prompt st = do {
     (s, anchor) \<leftarrow> with_writer prompt_ops (snd st);
     Some ((fst st)\<lparr>sh_anchor := anchor\<rparr>, s)
   }"

text \<open>Console calls that do not change the shell.\<close>

definition outs :: "wop list list \<Rightarrow> Shell \<times> System \<Rightarrow> (Shell \<times> System) option" where
  "outs calls st = do { s \<leftarrow> for_each console calls (snd st); Some (fst st, s) }"

definition redraw :: "nat \<Rightarrow> Shell \<times> System \<Rightarrow> (Shell \<times> System) option" where
  "redraw old_len st = do {
     t \<leftarrow> line_as_str (sh_line (fst st));
     outs [[WReplace (sh_anchor (fst st)) t (l_cursor (sh_line (fst st))) old_len]] st
   }"

definition shell_new :: "Env \<Rightarrow> SystemInfo \<Rightarrow> System \<Rightarrow> (Shell \<times> System) option" where
  "shell_new env info s = do {
     let sh = \<lparr>sh_info = info, sh_line = line_new, sh_history = history_new, sh_anchor = \<lparr>p_line = 0, p_column = 0\<rparr>\<rparr>;
     st \<leftarrow> outs [[WClear], fastfetch info (env_uptime env) (env_requested env),
         println (''Welcome to CrabOS. Type '' @ [SQUOTE] @ ''help'' @ [SQUOTE] @ '' to get started.''),
         println (''Tab completes commands. Up/Down recalls history. PgUp/PgDn scrolls.'' @ [CHR 0x0A])] (sh, s);
     set_prompt st
   }"

definition reset_for_resize :: "Shell \<Rightarrow> System \<Rightarrow> (Shell \<times> System) option" where
  "reset_for_resize sh s = do {
     st \<leftarrow> outs [[WClear]] (sh, s);
     set_prompt ((fst st)\<lparr>sh_line := line_new\<rparr>, snd st)
   }"

definition cancel_browsing :: "Shell \<Rightarrow> Shell" where
  "cancel_browsing sh = sh\<lparr>sh_history := (sh_history sh)\<lparr>h_browsing := None\<rparr>\<rparr>"

definition key_enter :: "Env \<Rightarrow> Shell \<Rightarrow> System \<Rightarrow> (Shell \<times> System) option" where
  "key_enter env sh0 s = do {
     let old_len = l_len (sh_line sh0);
     let sh = sh0\<lparr>sh_line := (sh_line sh0)\<lparr>l_cursor := l_len (sh_line sh0)\<rparr>\<rparr>;
     st \<leftarrow> redraw old_len (sh, s);
     st \<leftarrow> outs [println []] st;
     st \<leftarrow> (if l_overflow (sh_line sh) then do {
         st \<leftarrow> outs [println ''crabsh: input exceeds 256 bytes; command discarded.''] st;
         Some (cancel_browsing (fst st), snd st)
       } else do {
         h \<leftarrow> history_record (sh_history sh) (sh_line sh);
         let sh = sh\<lparr>sh_history := h\<rparr>;
         t \<leftarrow> line_as_str (sh_line sh);
         calls \<leftarrow> execute env sh t;
         outs calls (sh, snd st)
       });
     set_prompt ((fst st)\<lparr>sh_line := line_new\<rparr>, snd st)
   }"

definition key_ctrl_c :: "Shell \<Rightarrow> System \<Rightarrow> (Shell \<times> System) option" where
  "key_ctrl_c sh s = do {
     st \<leftarrow> redraw (l_len (sh_line sh)) (sh\<lparr>sh_line := (sh_line sh)\<lparr>l_cursor := l_len (sh_line sh)\<rparr>\<rparr>, s);
     st \<leftarrow> outs [println ''^C''] st;
     set_prompt (cancel_browsing ((fst st)\<lparr>sh_line := line_new\<rparr>), snd st)
   }"

definition key_ctrl_l :: "Shell \<Rightarrow> System \<Rightarrow> (Shell \<times> System) option" where
  "key_ctrl_l sh s = do {
     st \<leftarrow> outs [[WClear]] (sh, s);
     st \<leftarrow> set_prompt st;
     redraw 0 st
   }"

definition input_lost :: "Shell \<Rightarrow> System \<Rightarrow> (Shell \<times> System) option" where
  "input_lost sh s = do {
     st \<leftarrow> redraw (l_len (sh_line sh)) (sh\<lparr>sh_line := (sh_line sh)\<lparr>l_cursor := l_len (sh_line sh)\<rparr>\<rparr>, s);
     st \<leftarrow> outs [println ''^C'', println ''crabsh: keyboard input overflow; line discarded.'',
       println ''Release modifier keys before typing again.''] st;
     set_prompt (cancel_browsing ((fst st)\<lparr>sh_line := line_new\<rparr>), snd st)
   }"

text \<open>Completion: the commands that start with the line, the length of their longest common prefix.\<close>

definition completions :: "char list \<Rightarrow> char list list" where
  "completions prefix = map fst (filter (\<lambda>(name, _). starts_with name prefix) COMMANDS)"

definition common_len :: "char list \<Rightarrow> char list list \<Rightarrow> nat" where
  "common_len first rest = foldl (\<lambda>n name. length (takeWhile (\<lambda>(a, b). a = b) (take n (zip first name)))) (length first) rest"

definition complete :: "Shell \<Rightarrow> System \<Rightarrow> (Shell \<times> System) option" where
  "complete sh s = do {
     prefix \<leftarrow> line_as_str (sh_line sh);
     (if l_cursor (sh_line sh) \<noteq> l_len (sh_line sh) \<or> CHR '' '' \<in> set prefix then Some (sh, s)
      else (case completions prefix of
          [] \<Rightarrow> Some (sh, s)
        | first # rest \<Rightarrow> do {
            let old_len = l_len (sh_line sh);
            let n = common_len first rest;
            l \<leftarrow> insert_each line_insert (sh_line sh) (drop old_len (take n first));
            st \<leftarrow> (if rest = [] then do {
                (l, _) \<leftarrow> line_insert l (CHR '' '');
                Some (sh\<lparr>sh_line := l\<rparr>, s)
              } else if n = old_len then do {
                st \<leftarrow> redraw old_len (sh\<lparr>sh_line := l\<lparr>l_cursor := l_len l\<rparr>\<rparr>, s);
                st \<leftarrow> outs (println [] # map (\<lambda>name. print_str (name @ ''  '')) (completions prefix) @ [println []]) st;
                set_prompt st
              } else Some (sh\<lparr>sh_line := l\<rparr>, s));
            redraw old_len st
          }))
   }"

text \<open>The keys that edit the line: what becomes of the line and the history.\<close>

definition edit_key :: "Shell \<Rightarrow> DecodedKey \<Rightarrow> Shell option option" where
  "edit_key sh key =
     (let with_line = (\<lambda>m. Some (map_option (\<lambda>l. sh\<lparr>sh_line := l\<rparr>) m));
          with_history = (\<lambda>m. Some (map_option (\<lambda>(h, l). sh\<lparr>sh_history := h, sh_line := l\<rparr>) m));
          line = sh_line sh in
      case key of
        Unicode c \<Rightarrow>
          if c = 0x08 then with_line (line_backspace line)
          else if c = 0x7F \<or> c = 0x04 then with_line (line_delete line)
          else if c = 0x01 then with_line (Some (line_home line))
          else if c = 0x05 then with_line (Some (line_end line))
          else if c = 0x02 then with_line (Some (line_left line))
          else if c = 0x06 then with_line (Some (line_right line))
          else if c = 0x10 then with_history (history_previous (sh_history sh) line)
          else if c = 0x0E then with_history (history_next (sh_history sh) line)
          else if c = 0x15 then with_line (line_ctrl_u line)
          else if c = 0x0B then with_line (Some (line_ctrl_k line))
          else if c = 0x17 then with_line (line_delete_word line)
          else if c < 128 then with_line (map_option fst (line_insert line (char_of c)))
          else None
      | RawKey k \<Rightarrow> (case k of
            KC_Home \<Rightarrow> with_line (Some (line_home line))
          | KC_End \<Rightarrow> with_line (Some (line_end line))
          | KC_ArrowLeft \<Rightarrow> with_line (Some (line_left line))
          | KC_ArrowRight \<Rightarrow> with_line (Some (line_right line))
          | KC_ArrowUp \<Rightarrow> with_history (history_previous (sh_history sh) line)
          | KC_ArrowDown \<Rightarrow> with_history (history_next (sh_history sh) line)
          | KC_Delete \<Rightarrow> with_line (line_delete line)
          | _ \<Rightarrow> None))"

definition handle_key :: "Env \<Rightarrow> Shell \<Rightarrow> DecodedKey \<Rightarrow> System \<Rightarrow> (Shell \<times> System) option" where
  "handle_key env sh key s =
     (if key = Unicode 0x0A \<or> key = Unicode 0x0D then key_enter env sh s
      else if key = Unicode 0x03 then key_ctrl_c sh s
      else if key = Unicode 0x0C then key_ctrl_l sh s
      else if key = Unicode 0x09 then complete sh s
      else if key = RawKey KC_PageUp then outs [[WScrollUp]] (sh, s)
      else if key = RawKey KC_PageDown then outs [[WScrollDown]] (sh, s)
      else (case edit_key sh key of
          None \<Rightarrow> Some (sh, s)
        | Some r \<Rightarrow> do { sh' \<leftarrow> r; redraw (l_len (sh_line sh)) (sh', s) }))"

end
