(* ===== verification/Shell_Safety.thy ===== *)
theory Shell_Safety
  imports Shell
begin

text \<open>
  Safety of the shell. The contract between the shell and a terminal is the locale \<open>text_sink\<close>:
  output operations succeed, keep the terminal ready and its width, and never let the cursor fall
  further behind the last line. With it the shell's anchor stays within eight lines of the end
  of the output, hence inside the 128-line ring, and no key makes the kernel panic, provided no
  mouse interrupt switches terminals in the middle of a key. The last section shows that such an
  interrupt can make it panic.
\<close>

section \<open>Output on a terminal\<close>

definition lag :: "Writer \<Rightarrow> nat" where
  "lag w = w_last_line w - p_line (w_cursor w)"

definition grid_lag :: "Grid \<Rightarrow> nat" where
  "grid_lag g = g_last g - p_line (g_pos g)"

lemma grid_newline_lag: "grid_lag (grid_newline g) \<le> grid_lag g"
  by (auto simp: grid_lag_def grid_newline_def)

lemma grid_put_lag: "grid_lag (grid_put cols col b g) \<le> grid_lag g"
  using grid_newline_lag [of g] by (auto simp: grid_put_def grid_wrap_def grid_lag_def Let_def)

lemma grid_puts_lag: "grid_lag ((grid_put cols col b ^^ n) g) \<le> grid_lag g"
  by (induction n) (auto intro: order_trans grid_put_lag)

lemma grid_write_lag: "grid_lag (grid_write cols col b g) \<le> grid_lag g"
  using grid_newline_lag grid_put_lag grid_puts_lag by (auto simp: grid_write_def) (simp add: grid_lag_def)

lemma grid_string_lag: "grid_lag (grid_string cols col cs g) \<le> grid_lag g"
  unfolding grid_string_def
proof (induction cs arbitrary: g)
  case (Cons c cs)
  then show ?case using grid_write_lag order_trans by fastforce
qed simp

lemma sim_lag: "writer_sim w g \<Longrightarrow> lag w = grid_lag g"
  by (simp add: writer_sim_def lag_def grid_lag_def)

lemma write_string_ready:
  assumes "writer_ready w"
  shows "\<exists>w'. write_string w cs = Some w' \<and> writer_ready w' \<and> w_columns w' = w_columns w \<and> lag w' \<le> lag w"
proof -
  have sim: "writer_sim w (writer_grid w)" using assms by (simp add: writer_ready_inv writer_grid_sim)
  obtain w' where w': "write_string w cs = Some w'"
    "writer_sim w' (grid_string (w_columns w) (w_color w) cs (writer_grid w))" "w_columns w' = w_columns w"
    using write_string_sim [OF sim] by blast
  moreover have "lag w' \<le> lag w"
    unfolding sim_lag [OF w'(2)] sim_lag [OF sim] by (rule grid_string_lag)
  moreover have "writer_ready w'"
    using w' assms by (simp add: writer_ready_inv writer_sim_def)
  ultimately show ?thesis by blast
qed

fun out_op :: "wop \<Rightarrow> bool" where
  "out_op (WColor _ _) = True"
| "out_op (WWrite _) = True"
| "out_op WClear = True"
| "out_op _ = False"

text \<open>What a source of text may rely on.\<close>

locale text_sink =
  fixes ready :: "'w \<Rightarrow> bool"
    and width :: "'w \<Rightarrow> nat"
    and behind :: "'w \<Rightarrow> nat"
    and put :: "'op \<Rightarrow> 'w \<Rightarrow> 'w option"
    and is_out :: "'op \<Rightarrow> bool"
  assumes put_ok: "\<lbrakk>ready w; is_out x\<rbrakk> \<Longrightarrow>
    \<exists>w'. put x w = Some w' \<and> ready w' \<and> width w' = width w \<and> behind w' \<le> behind w"
begin

lemma puts_ok:
  "\<lbrakk>ready w; list_all is_out xs\<rbrakk> \<Longrightarrow>
    \<exists>w'. for_each put xs w = Some w' \<and> ready w' \<and> width w' = width w \<and> behind w' \<le> behind w"
proof (induction xs arbitrary: w)
  case (Cons x xs)
  obtain w1 where w1: "put x w = Some w1" "ready w1" "width w1 = width w" "behind w1 \<le> behind w"
    using put_ok [of w x] Cons.prems by auto
  then show ?case using Cons.IH [of w1] Cons.prems by fastforce
qed simp

end

interpretation terminal: text_sink writer_ready w_columns lag run_wop out_op
proof
  fix w x
  assume r: "writer_ready w" and o: "out_op x"
  show "\<exists>w'. run_wop x w = Some w' \<and> writer_ready w' \<and> w_columns w' = w_columns w \<and> lag w' \<le> lag w"
  proof (cases x)
    case (WColor fg bg)
    then show ?thesis using r
      by (simp add: set_color_def writer_ready_def writer_shape_def lag_def live_top_def)
  next
    case (WWrite cs)
    then show ?thesis using write_string_ready [OF r] by simp
  next
    case WClear
    then show ?thesis using writer_clear_ready [of w] r
      by (simp add: writer_ready_def) (simp add: writer_clear_def lag_def)
  qed (use o in simp_all)
qed

section \<open>The shell and its terminal\<close>

definition shell_ok :: "Shell \<Rightarrow> Writer \<Rightarrow> bool" where
  "shell_ok sh w \<longleftrightarrow> writer_ready w \<and> line_inv (sh_line sh) \<and> history_inv (sh_history sh)
     \<and> p_line (sh_anchor sh) \<le> p_line (w_cursor w) \<and> w_last_line w \<le> p_line (sh_anchor sh) + 8
     \<and> p_column (sh_anchor sh) \<le> w_columns w"

lemma input_lines_bound:
  assumes "36 \<le> cols" "col \<le> cols" "n \<le> (256::nat)"
  shows "(col + n) div cols \<le> 8"
proof -
  have "col + n < 9 * cols" using assms by simp
  then have "(col + n) div cols < 9" using assms(1) by (simp add: div_less_iff_less_mult)
  then show ?thesis by simp
qed

text \<open>Redrawing any line in the place of the shell's line.\<close>

lemma replace_input_ok:
  assumes ok: "shell_ok sh w" and l: "line_inv l" and old: "old_len \<le> 256"
  shows "\<exists>w'. replace_input w (sh_anchor sh) (line_text l) (l_cursor l) old_len = Some w'
    \<and> w_columns w' = w_columns w \<and> (\<forall>h. history_inv h \<longrightarrow> shell_ok (sh\<lparr>sh_line := l, sh_history := h\<rparr>) w')"
proof -
  let ?A = "sh_anchor sh"
  note o = ok [unfolded shell_ok_def writer_ready_inv]
  have sim: "writer_sim w (writer_grid w)" using o by (simp add: writer_grid_sim)
  have wi: "p_line (w_cursor w) \<le> w_last_line w" "w_first_line w = w_last_line w - 127"
    using o by (auto simp: writer_inv_def SCROLLBACK_LINES_def)
  have len: "length (line_text l) \<le> 256" "l_cursor l \<le> length (line_text l)"
    using line_invD [OF l] by (auto simp: MAX_INPUT_def)
  let ?bs = "line_text l @ replicate (old_len - length (line_text l)) (CHR '' '')"
  have bs: "length ?bs \<le> 256" "length ?bs = max (length (line_text l)) old_len" using len old by auto
  have bnd: "(p_column ?A + length ?bs) div w_columns w \<le> 8"
    using o bs by (intro input_lines_bound) auto
  have top: "w_first_line w \<le> p_line ?A" "p_line ?A \<le> w_last_line w" using o wi by linarith+
  obtain w' q e where w': "replace_input w ?A (line_text l) (l_cursor l) old_len = Some w'"
    "position_offset ?A (l_cursor l) (w_columns w) = Some q" "position_offset ?A (length ?bs) (w_columns w) = Some e"
    "writer_sim w' \<lparr>g_cell = text_cells (w_columns w) (w_color w) ?A ?bs (g_cell (writer_grid w)), g_pos = q,
         g_last = max (w_last_line w) (p_line e)\<rparr>" "w_columns w' = w_columns w"
    using replace_input_sim [OF sim, of ?A "line_text l" "l_cursor l" old_len] top o len bnd line_invD(4) [OF l] bs(2)
    by (auto simp: SCROLLBACK_LINES_def)
  have cols: "0 < w_columns w" using o by simp
  have "p_line e \<le> p_line ?A + 8"
    using position_offset_line(2) [OF cols w'(3)] bnd by linarith
  moreover have "p_line ?A \<le> p_line q" by (rule position_offset_line(1) [OF cols w'(2)])
  ultimately have "shell_ok (sh\<lparr>sh_line := l, sh_history := h\<rparr>) w'" if "history_inv h" for h
    using w'(4,5) o l that by (auto simp: shell_ok_def writer_ready_inv writer_sim_def)
  then show ?thesis using w'(1,5) by blast
qed

section \<open>The shell on the system\<close>

definition sys_frame :: "nat \<Rightarrow> System \<Rightarrow> System \<Rightarrow> bool" where
  "sys_frame i s s' \<longleftrightarrow> sys_desktop s' = sys_desktop s \<and> sys_active s' = sys_active s \<and> sys_irqs s' = sys_irqs s
     \<and> sys_events s' = sys_events s \<and> sys_redraw s' = sys_redraw s
     \<and> (\<forall>j. j \<noteq> i \<longrightarrow> sys_terminals s' ! j = sys_terminals s ! j)
     \<and> w_columns (sys_terminals s' ! i) = w_columns (sys_terminals s ! i) \<and> (painted s \<longrightarrow> painted s')"

lemma sys_frame_refl: "sys_frame i s s"
  by (simp add: sys_frame_def)

lemma sys_frame_trans: "sys_frame i s t \<Longrightarrow> sys_frame i t u \<Longrightarrow> sys_frame i s u"
  by (simp add: sys_frame_def)

text \<open>Sequential execution: the invariant, no interrupt pending.\<close>

definition seq_ok :: "System \<Rightarrow> bool" where
  "seq_ok s \<longleftrightarrow> system_inv s \<and> sys_irqs s = []"

abbreviation active_writer :: "System \<Rightarrow> Writer" where
  "active_writer s \<equiv> sys_terminals s ! sys_active s"

lemma console_ok:
  assumes "seq_ok s" "for_each run_wop ops (active_writer s) = Some w" "writer_shape w"
    "w_columns w = w_columns (active_writer s)"
  shows "\<exists>s'. with_writer ops s = Some (s', w_cursor w) \<and> console ops s = Some s' \<and> seq_ok s'
    \<and> sys_frame (sys_active s) s s' \<and> active_writer s' = w \<and> painted s'"
proof -
  have i: "sys_active s < length (sys_terminals s)" using assms(1) by (simp add: seq_ok_def system_inv_def)
  obtain scr where scr: "with_writer ops s =
      Some (s\<lparr>sys_terminals := (sys_terminals s)[sys_active s := w], sys_screen := scr\<rparr>, w_cursor w)"
    "system_inv (s\<lparr>sys_terminals := (sys_terminals s)[sys_active s := w], sys_screen := scr\<rparr>)"
    "painted (s\<lparr>sys_terminals := (sys_terminals s)[sys_active s := w], sys_screen := scr\<rparr>)"
    using with_writer_seq [of s ops w] assms by (auto simp: seq_ok_def)
  then show ?thesis
    using i assms(1,4) by (auto simp: console_def seq_ok_def sys_frame_def)
qed

lemma outs_ok:
  assumes "seq_ok s" "writer_ready (active_writer s)" "list_all (list_all out_op) calls"
  shows "\<exists>s'. for_each console calls s = Some s' \<and> seq_ok s' \<and> sys_frame (sys_active s) s s'
    \<and> writer_ready (active_writer s') \<and> lag (active_writer s') \<le> lag (active_writer s)"
  using assms
proof (induction calls arbitrary: s)
  case Nil
  then show ?case by (simp add: sys_frame_refl)
next
  case (Cons ops calls)
  obtain w where w: "for_each run_wop ops (active_writer s) = Some w" "writer_ready w"
    "w_columns w = w_columns (active_writer s)" "lag w \<le> lag (active_writer s)"
    using terminal.puts_ok [OF Cons.prems(2), of ops] Cons.prems(3) by auto
  obtain s1 where s1: "console ops s = Some s1" "seq_ok s1" "sys_frame (sys_active s) s s1" "active_writer s1 = w"
    using console_ok [OF Cons.prems(1) w(1)] w(2,3) by (auto simp: writer_ready_def)
  have a: "sys_active s1 = sys_active s" using s1(3) by (simp add: sys_frame_def)
  show ?case
    using Cons.IH [OF s1(2)] s1 w Cons.prems(3) a sys_frame_trans [of "sys_active s" s s1] by fastforce
qed

text \<open>A shell step leaves a good shell on the active terminal and touches nothing else.\<close>

definition step_ok :: "Shell \<Rightarrow> System \<Rightarrow> (Shell \<times> System) option \<Rightarrow> bool" where
  "step_ok sh s r \<longleftrightarrow> (\<exists>sh' s'. r = Some (sh', s') \<and> seq_ok s' \<and> sys_frame (sys_active s) s s'
     \<and> shell_ok sh' (active_writer s') \<and> sh_info sh' = sh_info sh)"

lemma wstr_out [simp]: "out_op (wstr s)"
  by (simp add: wstr_def)

lemma prompt_out: "list_all out_op prompt_ops"
  by (simp add: prompt_ops_def)

lemma println_out [simp]: "list_all out_op (println s)" "list_all out_op (print_str s)"
  by (simp_all add: println_def print_str_def)

lemma set_prompt_ok:
  assumes "seq_ok s" "writer_ready (active_writer s)" "lag (active_writer s) \<le> 8"
    "line_inv (sh_line sh)" "history_inv (sh_history sh)"
  shows "step_ok sh s (set_prompt (sh, s))"
proof -
  obtain w where w: "for_each run_wop prompt_ops (active_writer s) = Some w" "writer_ready w"
    "w_columns w = w_columns (active_writer s)" "lag w \<le> 8"
    using terminal.puts_ok [OF assms(2) prompt_out] assms(3) by auto
  obtain s1 where s1: "with_writer prompt_ops s = Some (s1, w_cursor w)" "seq_ok s1"
    "sys_frame (sys_active s) s s1" "active_writer s1 = w"
    using console_ok [OF assms(1) w(1)] w(2,3) by (auto simp: writer_ready_def)
  have "shell_ok (sh\<lparr>sh_anchor := w_cursor w\<rparr>) w"
    using w assms(4,5) by (auto simp: shell_ok_def lag_def writer_ready_def)
  then show ?thesis
    using s1 by (auto simp: step_ok_def set_prompt_def)
qed

lemma shell_ok_lag: "shell_ok sh w \<Longrightarrow> lag w \<le> 8"
  by (auto simp: shell_ok_def lag_def)

lemma redraw_ok:
  assumes ok: "seq_ok s" "shell_ok sh (active_writer s)" and l: "line_inv (sh_line sh')" "history_inv (sh_history sh')"
    and same: "sh_anchor sh' = sh_anchor sh" "sh_info sh' = sh_info sh" and old: "old_len \<le> 256"
  shows "\<exists>s'. redraw old_len (sh', s) = Some (sh', s') \<and> seq_ok s' \<and> sys_frame (sys_active s) s s'
    \<and> shell_ok sh' (active_writer s')"
proof -
  obtain w where w: "replace_input (active_writer s) (sh_anchor sh) (line_text (sh_line sh')) (l_cursor (sh_line sh')) old_len = Some w"
    "w_columns w = w_columns (active_writer s)" "\<And>h. history_inv h \<Longrightarrow> shell_ok (sh\<lparr>sh_line := sh_line sh', sh_history := h\<rparr>) w"
    using replace_input_ok [OF ok(2) l(1) old] by blast
  have shw: "shell_ok sh' w" using w(3) [OF l(2)] same by (simp add: shell_ok_def)
  let ?ops = "[WReplace (sh_anchor sh') (line_text (sh_line sh')) (l_cursor (sh_line sh')) old_len]"
  have "for_each run_wop ?ops (active_writer s) = Some w" using w(1) same(1) by simp
  from console_ok [OF ok(1) this] obtain s1 where "console ?ops s = Some s1" "seq_ok s1" "sys_frame (sys_active s) s s1"
    "active_writer s1 = w"
    using shw w(2) by (auto simp: shell_ok_def writer_ready_def)
  then show ?thesis
    using shw by (simp add: redraw_def line_as_str_text [OF l(1)] outs_def)
qed

section \<open>Commands never panic\<close>

definition env_ok :: "Env \<Rightarrow> bool" where
  "env_ok env \<longleftrightarrow> (case env_status env of Some (mac, _) \<Rightarrow> length mac = 6 | None \<Rightarrow> True)"

abbreviation out_calls :: "wop list list option \<Rightarrow> bool" where
  "out_calls r \<equiv> \<exists>calls. r = Some calls \<and> list_all (list_all out_op) calls"

lemma all_some_map: "(\<And>x. x \<in> set xs \<Longrightarrow> f x = Some (g x)) \<Longrightarrow> all_some (map f xs) = Some (map g xs)"
  by (induction xs) auto

lemma holds_args_get: "holds_args a ts \<Longrightarrow> i < length ts \<Longrightarrow> arguments_get a i = Some (ts ! i)"
  by (simp add: holds_args_def)

lemma holds_args_ex: "holds_args a ts \<Longrightarrow> i < a_len a \<Longrightarrow> \<exists>x. arguments_get a i = Some x"
  by (simp add: holds_args_def)

lemma holds_args_len: "holds_args a ts \<Longrightarrow> a_len a = length ts"
  by (simp add: holds_args_def)

lemma cmd_echo_eq:
  assumes "holds_args a (c # ws)"
  shows "cmd_echo a = Some (concat (map (\<lambda>(index, w). (if index > 1 then [print_str '' ''] else []) @ [print_str w])
    (enumerate 1 ws)) @ [println []])"
proof -
  have "map (arguments_get a) [1..<a_len a] = map Some (map (\<lambda>i. (c # ws) ! i) [1..<length (c # ws)])"
    using assms by (auto simp: holds_args_def)
  also have "map (\<lambda>i. (c # ws) ! i) [1..<length (c # ws)] = ws"
    by (rule nth_equalityI) (auto simp del: upt_Suc)
  finally have "all_some (map (arguments_get a) [1..<a_len a]) = Some ws"
    using all_some_map [of ws Some id] by simp
  then show ?thesis by (simp add: cmd_echo_def)
qed

lemma cmd_echo_out: "holds_args a (c # ws) \<Longrightarrow> out_calls (cmd_echo a)"
  unfolding cmd_echo_eq by (auto simp: list_all_iff print_str_def println_def)

lemma cmd_uname_out: "holds_args a (c # ws) \<Longrightarrow> out_calls (cmd_uname a)"
  using holds_args_get [of a "c # ws" 1] by (auto simp: cmd_uname_def holds_args_len)

lemma cmd_browse_out: "holds_args a (c # ws) \<Longrightarrow> out_calls (cmd_browse env a)"
proof (cases "length ws = 1")
  case True
  assume h: "holds_args a (c # ws)"
  obtain t where t: "arguments_get a 1 = Some t" using holds_args_get [OF h, of 1] True by auto
  have r: "\<exists>p. (case env_fetch env url of Inl e \<Rightarrow> Some (Inl e) | Inr response \<Rightarrow> render response) = Some p" for url
    using render_total by (auto split: sum.split)
  show ?thesis
  proof (cases "url_parse t")
    case (Inl e)
    then show ?thesis using t h True by (simp add: cmd_browse_def holds_args_len)
  next
    case (Inr url)
    obtain p where "(case env_fetch env url of Inl e \<Rightarrow> Some (Inl e) | Inr response \<Rightarrow> render response) = Some p"
      using r by blast
    then show ?thesis using t h True Inr by (auto simp: cmd_browse_def holds_args_len split: sum.split)
  qed
qed (simp add: cmd_browse_def holds_args_len)

lemma cmd_history_out:
  assumes "history_inv h"
  shows "out_calls (cmd_history h)"
proof -
  have "cmd_history h = Some (map (\<lambda>i. println (pad_left 3 (show_nat (i + 1)) @ ''  '' @ line_text (history_entries h ! i))) [0..<h_len h])"
    unfolding cmd_history_def
    by (rule all_some_map) (simp add: history_get_entries assms line_as_str_text history_entry_inv)
  then show ?thesis by (auto simp: list_all_iff println_def)
qed

lemma cmd_net_out: "env_ok env \<Longrightarrow> out_calls (cmd_net env)"
proof (cases "env_status env")
  case (Some st)
  assume "env_ok env"
  then obtain mac link where st: "st = (mac, link)" "length mac = 6" using Some by (cases st) (auto simp: env_ok_def)
  have "all_some (map (arr_get mac) [0..<6]) = Some (map (\<lambda>i. mac ! i) [0..<6])"
    by (rule all_some_map) (simp add: arr_get_def st)
  then show ?thesis using Some st by (simp add: cmd_net_def)
qed (simp add: cmd_net_def)

lemma ff_value_out: "list_all out_op (ff_value info secs req index)"
  by (simp add: ff_value_def)

lemma fastfetch_out: "list_all out_op (fastfetch info secs req)"
proof -
  have "list_all out_op (concat (map (\<lambda>(index, logo).
       [WColor LightRed Black, wstr (logo @ ''  ''), WColor LightCyan Black, wstr (ff_labels ! index)]
       @ (if 2 \<le> index \<and> index \<le> 10 then [WColor LightGray Black, wstr '': ''] else [])
       @ ff_value info secs req index
       @ [WColor LightGray Black, wstr [CHR 0x0A]]) xs))" for xs
    by (induction xs) (auto simp: ff_value_out)
  then show ?thesis by (simp add: fastfetch_def)
qed

lemma out_calls_if:
  "(P \<Longrightarrow> out_calls a) \<Longrightarrow> (\<not> P \<Longrightarrow> out_calls b) \<Longrightarrow> out_calls (if P then a else b)"
  by (cases P) simp_all

lemma out_calls_one: "list_all out_op c \<Longrightarrow> out_calls (Some [c])"
  by simp

lemma out_calls_all: "list_all (list_all out_op) cs \<Longrightarrow> out_calls (Some cs)"
  by simp

lemma clear_out: "list_all out_op [WClear]"
  by simp

lemma run_command_out:
  assumes h: "holds_args args (command # ws)" and env: "env_ok env" and hist: "history_inv (sh_history sh)"
  shows "out_calls (run_command env sh args command)"
proof -
  obtain v where v: "(if command = ''fastfetch'' \<and> a_len args = 2
       then do { a \<leftarrow> arguments_get args 1; Some (a = ''--version'') } else Some False) = Some v"
    using holds_args_ex [OF h, of 1] by (cases "command = ''fastfetch'' \<and> a_len args = 2") auto
  have names: "map fst COMMANDS = [''help'', ''fastfetch'', ''clear'', ''echo'', ''uname'', ''uptime'', ''mem'', ''history'',
      ''whoami'', ''hostname'', ''lspci'', ''net'', ''browse'']"
    by (simp add: COMMANDS_def)
  have known: "command = ''help'' \<or> command = ''fastfetch'' \<or> command = ''clear'' \<or> command = ''echo'' \<or> command = ''uname''
      \<or> command = ''uptime'' \<or> command = ''mem'' \<or> command = ''history'' \<or> command = ''whoami'' \<or> command = ''hostname''
      \<or> command = ''lspci'' \<or> command = ''net'' \<or> command = ''browse''"
    if "\<not> \<not> list_ex (\<lambda>(name, _). name = command) COMMANDS"
  proof -
    have "command \<in> set (map fst COMMANDS)" using that by (force simp: list_ex_iff)
    then show ?thesis unfolding names by (simp only: list.set insert_iff empty_iff simp_thms)
  qed
  have simples: "list_all (list_all out_op) cmd_help" "list_all (list_all out_op) (cmd_mem env (sh_info sh))"
    "list_all (list_all out_op) (cmd_lspci env)"
    by (auto simp: cmd_help_def cmd_mem_def cmd_lspci_def list_all_iff println_def split: option.split)
  show ?thesis
    unfolding run_command_def v bind.bind_lunit
    by (intro out_calls_if;
        (rule cmd_echo_out [OF h] cmd_uname_out [OF h] cmd_browse_out [OF h] cmd_history_out [OF hist] cmd_net_out [OF env]
          | (rule out_calls_one, rule println_out fastfetch_out clear_out)
          | (rule out_calls_all, rule simples)
          | (drule known, simp only: simp_thms)))
qed

lemma execute_out:
  assumes env: "env_ok env" and hist: "history_inv (sh_history sh)"
  shows "out_calls (execute env sh t)"
proof (cases "tokens t")
  case (Inl e)
  then show ?thesis using arguments_parse_tokens [of t] by (simp add: execute_def)
next
  case (Inr ts)
  then obtain a where a: "arguments_parse t = Some (Inr a)" "holds_args a ts"
    using arguments_parse_tokens [of t] by auto
  show ?thesis
  proof (cases ts)
    case Nil
    then show ?thesis using a by (simp add: execute_def holds_args_len)
  next
    case (Cons c ws)
    have g: "arguments_get a 0 = Some c" using holds_args_get [OF a(2), of 0] Cons by simp
    obtain hlp where hlp: "(if a_len a = 2 then do {
                x \<leftarrow> arguments_get a 1;
                Some (if x = ''--help'' then find (\<lambda>(name, _). name = c) COMMANDS else None)
              } else Some None) = Some hlp"
      using holds_args_ex [OF a(2), of 1] by (cases "a_len a = 2") auto
    have ne: "a_len a \<noteq> 0" using holds_args_len [OF a(2)] Cons by simp
    have eq: "execute env sh t = (case hlp of
               Some (name, description) \<Rightarrow> Some [println (name @ '': '' @ description)]
             | None \<Rightarrow> run_command env sh a c)"
      unfolding execute_def a(1) bind.bind_lunit sum.case if_not_P [OF ne] g hlp ..
    show ?thesis
      using run_command_out [OF a(2) [unfolded Cons] env hist] unfolding eq by (cases hlp) auto
  qed
qed

section \<open>Keys never panic\<close>

lemma stepI:
  "\<lbrakk>r = Some (sh', s'); seq_ok s'; sys_frame (sys_active s) s s'; shell_ok sh' (active_writer s');
    sh_info sh' = sh_info sh\<rbrakk> \<Longrightarrow> step_ok sh s r"
  by (auto simp: step_ok_def)

text \<open>Output, then a new prompt, from a terminal whose cursor is at most eight lines behind.\<close>

lemma outs_prompt_ok:
  assumes s: "seq_ok s" "writer_ready (active_writer s)" "lag (active_writer s) \<le> 8"
    and calls: "list_all (list_all out_op) calls" and sh: "line_inv (sh_line sh')" "history_inv (sh_history sh')"
  shows "\<exists>s1. for_each console calls s = Some s1 \<and> step_ok sh' s (set_prompt (sh', s1))"
proof -
  obtain s1 where s1: "for_each console calls s = Some s1" "seq_ok s1" "sys_frame (sys_active s) s s1"
    "writer_ready (active_writer s1)" "lag (active_writer s1) \<le> 8"
    using outs_ok [OF s(1,2) calls] s(3) by auto
  have "sys_active s1 = sys_active s" using s1(3) by (simp add: sys_frame_def)
  then have "step_ok sh' s (set_prompt (sh', s1))"
    using set_prompt_ok [OF s1(2,4,5) sh] sys_frame_trans [OF s1(3)] by (fastforce simp: step_ok_def)
  then show ?thesis using s1(1) by blast
qed

lemma line_at_end: "line_inv l \<Longrightarrow> line_inv (l\<lparr>l_cursor := l_len l\<rparr>)"
  using line_moves_inv(2) [of l] by (simp add: line_end_def)

text \<open>Moving to the end of the line, redrawing and printing before a fresh prompt.\<close>

lemma finish_line:
  assumes s: "seq_ok s" "shell_ok sh (active_writer s)"
  defines "sh1 \<equiv> sh\<lparr>sh_line := (sh_line sh)\<lparr>l_cursor := l_len (sh_line sh)\<rparr>\<rparr>"
  shows "\<exists>s1. redraw (l_len (sh_line sh)) (sh1, s) = Some (sh1, s1) \<and> seq_ok s1 \<and> sys_frame (sys_active s) s s1
    \<and> shell_ok sh1 (active_writer s1)"
proof -
  have i: "line_inv (sh_line sh)" "history_inv (sh_history sh)" using s(2) by (auto simp: shell_ok_def)
  have "l_len (sh_line sh) \<le> 256" using line_invD(2) [OF i(1)] by (simp add: MAX_INPUT_def)
  then show ?thesis
    using redraw_ok [OF s, of sh1 "l_len (sh_line sh)"] i line_at_end by (simp add: sh1_def)
qed

lemma step_ok_frame:
  assumes "sys_frame (sys_active s) s s1" "step_ok sh1 s1 r" "sh_info sh1 = sh_info sh"
  shows "step_ok sh s r"
proof -
  have "sys_active s1 = sys_active s" using assms(1) by (simp add: sys_frame_def)
  then show ?thesis using assms sys_frame_trans [OF assms(1)] by (fastforce simp: step_ok_def)
qed

lemma cancel_browsing_inv [simp]:
  "sh_line (cancel_browsing sh) = sh_line sh" "sh_info (cancel_browsing sh) = sh_info sh"
  "sh_anchor (cancel_browsing sh) = sh_anchor sh"
  "history_inv (sh_history sh) \<Longrightarrow> history_inv (sh_history (cancel_browsing sh))"
  by (simp_all add: cancel_browsing_def history_inv_def)

text \<open>Discarding the line with a message: Ctrl+C and lost input.\<close>

lemma discard_ok:
  assumes s: "seq_ok s" "shell_ok sh (active_writer s)" and calls: "list_all (list_all out_op) calls"
  shows "step_ok sh s (do {
     st \<leftarrow> redraw (l_len (sh_line sh)) (sh\<lparr>sh_line := (sh_line sh)\<lparr>l_cursor := l_len (sh_line sh)\<rparr>\<rparr>, s);
     st \<leftarrow> outs calls st;
     set_prompt (cancel_browsing ((fst st)\<lparr>sh_line := line_new\<rparr>), snd st)
   })"
proof -
  let ?sh1 = "sh\<lparr>sh_line := (sh_line sh)\<lparr>l_cursor := l_len (sh_line sh)\<rparr>\<rparr>"
  let ?sh2 = "cancel_browsing (?sh1\<lparr>sh_line := line_new\<rparr>)"
  obtain s1 where s1: "redraw (l_len (sh_line sh)) (?sh1, s) = Some (?sh1, s1)" "seq_ok s1"
    "sys_frame (sys_active s) s s1" "shell_ok ?sh1 (active_writer s1)"
    using finish_line [OF s] by blast
  have i: "history_inv (sh_history sh)" using s(2) by (simp add: shell_ok_def)
  obtain s2 where s2: "for_each console calls s1 = Some s2" "step_ok ?sh2 s1 (set_prompt (?sh2, s2))"
    using outs_prompt_ok [OF s1(2) _ shell_ok_lag [OF s1(4)] calls, of ?sh2] s1(4) i by (auto simp: shell_ok_def)
  have "step_ok sh s (set_prompt (?sh2, s2))"
    by (rule step_ok_frame [OF s1(3) s2(2)]) simp
  then show ?thesis
    using s1(1) s2(1) by (simp add: outs_def)
qed

lemma key_enter_ok:
  assumes s: "seq_ok s" "shell_ok sh (active_writer s)" and env: "env_ok env"
  shows "step_ok sh s (key_enter env sh s)"
proof -
  let ?sh1 = "sh\<lparr>sh_line := (sh_line sh)\<lparr>l_cursor := l_len (sh_line sh)\<rparr>\<rparr>"
  obtain s1 where s1: "redraw (l_len (sh_line sh)) (?sh1, s) = Some (?sh1, s1)" "seq_ok s1"
    "sys_frame (sys_active s) s s1" "shell_ok ?sh1 (active_writer s1)"
    using finish_line [OF s] by blast
  have i: "line_inv (sh_line ?sh1)" "history_inv (sh_history ?sh1)" using s1(4) by (auto simp: shell_ok_def)
  obtain s2 where s2: "for_each console [println []] s1 = Some s2" "seq_ok s2" "sys_frame (sys_active s1) s1 s2"
    "writer_ready (active_writer s2)" "lag (active_writer s2) \<le> 8"
    using outs_ok [OF s1(2), of "[println []]"] s1(4) shell_ok_lag [OF s1(4)] by (auto simp: shell_ok_def)
  have fr: "sys_frame (sys_active s) s s2"
    using s1(3) s2(3) sys_frame_trans by (metis sys_frame_def)
  show ?thesis
  proof (cases "l_overflow (sh_line sh)")
    case True
    let ?sh2 = "(cancel_browsing ?sh1)\<lparr>sh_line := line_new\<rparr>"
    let ?calls = "[println ''crabsh: input exceeds 256 bytes; command discarded.'']"
    obtain s3 where s3: "for_each console ?calls s2 = Some s3" "step_ok ?sh2 s2 (set_prompt (?sh2, s3))"
      using outs_prompt_ok [OF s2(2,4,5), of ?calls ?sh2] i(2) by auto
    have "step_ok sh s (set_prompt (?sh2, s3))" by (rule step_ok_frame [OF fr s3(2)]) simp
    then show ?thesis
      using True s1(1) s2(1) s3(1) by (simp add: key_enter_def outs_def Let_def)
  next
    case False
    obtain h where h: "history_record (sh_history sh) (sh_line ?sh1) = Some h" "history_inv h"
      using history_record_spec [OF i(2,1)] by auto
    let ?sh3 = "?sh1\<lparr>sh_history := h\<rparr>"
    obtain calls where calls: "execute env ?sh3 (line_text (sh_line ?sh1)) = Some calls" "list_all (list_all out_op) calls"
      using execute_out [OF env, of ?sh3] h(2) by auto
    let ?sh2 = "?sh3\<lparr>sh_line := line_new\<rparr>"
    obtain s3 where s3: "for_each console calls s2 = Some s3" "step_ok ?sh2 s2 (set_prompt (?sh2, s3))"
      using outs_prompt_ok [OF s2(2,4,5) calls(2), of ?sh2] h(2) by auto
    have "step_ok sh s (set_prompt (?sh2, s3))" by (rule step_ok_frame [OF fr s3(2)]) simp
    then show ?thesis
      using False s1(1) s2(1) s3(1) h(1) calls(1) line_as_str_text [OF i(1)]
      by (simp add: key_enter_def outs_def Let_def)
  qed
qed

lemma key_ctrl_l_ok:
  assumes s: "seq_ok s" "shell_ok sh (active_writer s)"
  shows "step_ok sh s (key_ctrl_l sh s)"
proof -
  have i: "line_inv (sh_line sh)" "history_inv (sh_history sh)" "writer_ready (active_writer s)"
    using s(2) by (auto simp: shell_ok_def)
  obtain s1 where s1: "for_each console [[WClear]] s = Some s1" "step_ok sh s (set_prompt (sh, s1))"
    using outs_prompt_ok [OF s(1) i(3) shell_ok_lag [OF s(2)], of "[[WClear]]" sh] i by auto
  then obtain sh2 s2 where s2: "set_prompt (sh, s1) = Some (sh2, s2)" "seq_ok s2" "sys_frame (sys_active s) s s2"
    "shell_ok sh2 (active_writer s2)" "sh_info sh2 = sh_info sh" by (auto simp: step_ok_def)
  have i2: "line_inv (sh_line sh2)" "history_inv (sh_history sh2)" using s2(4) by (auto simp: shell_ok_def)
  obtain s3 where s3: "redraw 0 (sh2, s2) = Some (sh2, s3)" "seq_ok s3" "sys_frame (sys_active s2) s2 s3"
    "shell_ok sh2 (active_writer s3)"
    using redraw_ok [OF s2(2,4) i2, of 0] by auto
  have "step_ok sh2 s2 (redraw 0 (sh2, s2))" by (rule stepI [OF s3]) simp
  then have "step_ok sh s (redraw 0 (sh2, s2))" by (rule step_ok_frame [OF s2(3)]) (simp add: s2(5))
  then show ?thesis using s1(1) s2(1) by (simp add: key_ctrl_l_def outs_def)
qed

lemma edit_key_ok:
  assumes "line_inv (sh_line sh)" "history_inv (sh_history sh)" "edit_key sh key = Some r"
  shows "\<exists>sh'. r = Some sh' \<and> line_inv (sh_line sh') \<and> history_inv (sh_history sh')
    \<and> sh_anchor sh' = sh_anchor sh \<and> sh_info sh' = sh_info sh"
proof -
  obtain h1 l1 where up: "history_previous (sh_history sh) (sh_line sh) = Some (h1, l1)" "history_inv h1" "line_inv l1"
    using history_previous_inv [OF assms(2,1)] by blast
  obtain h2 l2 where down: "history_next (sh_history sh) (sh_line sh) = Some (h2, l2)" "history_inv h2" "line_inv l2"
    using history_next_inv [OF assms(2,1)] by blast
  obtain d b wd u where del: "line_delete (sh_line sh) = Some d" "line_inv d"
    and bs: "line_backspace (sh_line sh) = Some b" "line_inv b"
    and word: "line_delete_word (sh_line sh) = Some wd" "line_inv wd"
    and ctrl_u: "line_ctrl_u (sh_line sh) = Some u" "line_inv u"
    using line_delete_spec [OF assms(1)] line_backspace_spec [OF assms(1)] line_delete_word_spec [OF assms(1)]
      line_ctrl_u_spec [OF assms(1)] by blast
  have ins: "\<exists>l ok. line_insert (sh_line sh) c = Some (l, ok) \<and> line_inv l" for c
    by (rule line_insert_inv [OF assms(1)])
  note facts = up down del bs word ctrl_u line_moves_inv [OF assms(1)] line_ctrl_k_spec [OF assms(1)] assms(2)
  show ?thesis
  proof (cases key)
    case (Unicode c)
    show ?thesis using assms(3) facts ins [of "char_of c"]
      by (auto simp: edit_key_def Unicode Let_def split: if_splits)
  next
    case (RawKey k)
    then show ?thesis using assms(3) facts by (cases k) (auto simp: edit_key_def Let_def)
  qed
qed

lemma step_redraw:
  assumes s: "seq_ok s" "shell_ok sh (active_writer s)" and l: "line_inv (sh_line sh')" "history_inv (sh_history sh')"
    and same: "sh_anchor sh' = sh_anchor sh" "sh_info sh' = sh_info sh" and old: "old_len \<le> 256"
  shows "step_ok sh s (redraw old_len (sh', s))"
proof -
  obtain s' where "redraw old_len (sh', s) = Some (sh', s')" "seq_ok s'" "sys_frame (sys_active s) s s'"
    "shell_ok sh' (active_writer s')"
    using redraw_ok [OF s l same old] by blast
  then show ?thesis by (rule stepI) (rule same(2))
qed

lemma scroll_ok:
  assumes s: "seq_ok s" "shell_ok sh (active_writer s)" and op: "x = WScrollUp \<or> x = WScrollDown"
  shows "step_ok sh s (outs [[x]] (sh, s))"
proof -
  obtain w where w: "run_wop x (active_writer s) = Some w" "w = scroll_up (active_writer s) \<or> w = scroll_down (active_writer s)"
    using op by auto
  have ok: "shell_ok sh w" "w_columns w = w_columns (active_writer s)"
    using s(2) w(2) scroll_inv [of "active_writer s"]
    by (auto simp: shell_ok_def writer_ready_inv) (simp_all add: scroll_up_def scroll_down_def)
  have "for_each run_wop [x] (active_writer s) = Some w" using w(1) by simp
  from console_ok [OF s(1) this] obtain s' where "console [x] s = Some s'" "seq_ok s'"
    "sys_frame (sys_active s) s s'" "active_writer s' = w"
    using ok by (auto simp: shell_ok_def writer_ready_def)
  then show ?thesis using ok(1) by (auto simp: step_ok_def outs_def)
qed

lemma shell_len: "shell_ok sh w \<Longrightarrow> l_len (sh_line sh) \<le> 256"
  using line_invD(2) by (simp add: shell_ok_def MAX_INPUT_def)

text \<open>The listing of ambiguous completions.\<close>

lemma complete_list_ok:
  assumes s: "seq_ok s" "shell_ok sh (active_writer s)" and l: "line_inv l" and old: "old_len \<le> 256"
    and calls: "list_all (list_all out_op) calls"
  shows "step_ok sh s (do {
      st \<leftarrow> redraw old_len (sh\<lparr>sh_line := l\<lparr>l_cursor := l_len l\<rparr>\<rparr>, s);
      st \<leftarrow> outs calls st;
      st \<leftarrow> set_prompt st;
      redraw old_len st
    })"
proof -
  let ?sh1 = "sh\<lparr>sh_line := l\<lparr>l_cursor := l_len l\<rparr>\<rparr>"
  have h: "history_inv (sh_history sh)" using s(2) by (simp add: shell_ok_def)
  obtain s1 where s1: "redraw old_len (?sh1, s) = Some (?sh1, s1)" "seq_ok s1" "sys_frame (sys_active s) s s1"
    "shell_ok ?sh1 (active_writer s1)"
    using redraw_ok [OF s, of ?sh1 old_len] line_at_end [OF l] h old by auto
  have i1: "line_inv (sh_line ?sh1)" "history_inv (sh_history ?sh1)" "writer_ready (active_writer s1)"
    using s1(4) by (auto simp: shell_ok_def)
  obtain s2 where s2: "for_each console calls s1 = Some s2" "step_ok ?sh1 s1 (set_prompt (?sh1, s2))"
    using outs_prompt_ok [OF s1(2) i1(3) shell_ok_lag [OF s1(4)] calls i1(1,2)] by blast
  then obtain sh3 s3 where s3: "set_prompt (?sh1, s2) = Some (sh3, s3)" "seq_ok s3" "sys_frame (sys_active s1) s1 s3"
    "shell_ok sh3 (active_writer s3)" "sh_info sh3 = sh_info ?sh1"
    by (auto simp: step_ok_def)
  have i3: "line_inv (sh_line sh3)" "history_inv (sh_history sh3)" using s3(4) by (auto simp: shell_ok_def)
  have "step_ok sh3 s3 (redraw old_len (sh3, s3))" using step_redraw [OF s3(2,4) i3 _ _ old] by simp
  then have "step_ok ?sh1 s1 (redraw old_len (sh3, s3))" by (rule step_ok_frame [OF s3(3)]) (rule s3(5))
  then have "step_ok sh s (redraw old_len (sh3, s3))" by (rule step_ok_frame [OF s1(3)]) simp
  then show ?thesis using s1(1) s2(1) s3(1) by (simp add: outs_def)
qed

lemma complete_ok:
  assumes s: "seq_ok s" "shell_ok sh (active_writer s)"
  shows "step_ok sh s (complete sh s)"
proof -
  have i: "line_inv (sh_line sh)" "history_inv (sh_history sh)" using s(2) by (auto simp: shell_ok_def)
  have nop: "step_ok sh s (Some (sh, s))" using s by (auto simp: step_ok_def sys_frame_refl)
  let ?p = "line_text (sh_line sh)"
  show ?thesis
  proof (cases "l_cursor (sh_line sh) \<noteq> l_len (sh_line sh) \<or> CHR '' '' \<in> set ?p \<or> completions ?p = []")
    case True
    then show ?thesis using nop by (auto simp: complete_def line_as_str_text [OF i(1)])
  next
    case False
    then obtain first rest where fr: "completions ?p = first # rest" by (cases "completions ?p") auto
    let ?n = "common_len first rest"
    obtain l where l: "insert_each line_insert (sh_line sh) (drop (l_len (sh_line sh)) (take ?n first)) = Some l" "line_inv l"
      using led.insert_each_inv [OF i(1)] by blast
    obtain l2 b where l2: "line_insert l (CHR '' '') = Some (l2, b)" "line_inv l2" using line_insert_inv [OF l(2)] by blast
    have r: "step_ok sh s (redraw (l_len (sh_line sh)) (sh\<lparr>sh_line := x\<rparr>, s))" if "line_inv x" for x
      using step_redraw [OF s, of "sh\<lparr>sh_line := x\<rparr>"] that i(2) shell_len [OF s(2)] by simp
    let ?calls = "println [] # map (\<lambda>name. print_str (name @ ''  '')) (completions ?p) @ [println []]"
    have calls: "list_all (list_all out_op) ?calls" by (simp add: list_all_iff println_def print_str_def)
    note listing = complete_list_ok [OF s l(2) shell_len [OF s(2)] calls]
    have nc: "\<not> (l_cursor (sh_line sh) \<noteq> l_len (sh_line sh) \<or> CHR '' '' \<in> set ?p)" using False by blast
    note eq = complete_def line_as_str_text [OF i(1)] bind.bind_lunit if_not_P [OF nc] fr list.case Let_def l(1) l2(1) prod.case
    consider "rest = []" | "rest \<noteq> []" "?n = l_len (sh_line sh)" | "rest \<noteq> []" "?n \<noteq> l_len (sh_line sh)" by blast
    then show ?thesis
    proof cases
      case 1
      show ?thesis unfolding eq if_P [OF 1] by (rule r [OF l2(2)])
    next
      case 2
      show ?thesis
        using listing unfolding eq if_not_P [OF 2(1)] if_P [OF 2(2)] bind_assoc .
    next
      case 3
      show ?thesis unfolding eq if_not_P [OF 3(1)] if_not_P [OF 3(2)] by (rule r [OF l(2)])
    qed
  qed
qed

lemma key_ctrl_c_ok: "seq_ok s \<Longrightarrow> shell_ok sh (active_writer s) \<Longrightarrow> step_ok sh s (key_ctrl_c sh s)"
  unfolding key_ctrl_c_def by (rule discard_ok) simp_all

lemma input_lost_ok: "seq_ok s \<Longrightarrow> shell_ok sh (active_writer s) \<Longrightarrow> step_ok sh s (input_lost sh s)"
  unfolding input_lost_def by (rule discard_ok) simp_all

lemma handle_key_ok:
  assumes s: "seq_ok s" "shell_ok sh (active_writer s)" and env: "env_ok env"
  shows "step_ok sh s (handle_key env sh key s)"
proof -
  have i: "line_inv (sh_line sh)" "history_inv (sh_history sh)" using s(2) by (auto simp: shell_ok_def)
  have ed: "step_ok sh s (case edit_key sh key of
          None \<Rightarrow> Some (sh, s)
        | Some r \<Rightarrow> do { sh' \<leftarrow> r; redraw (l_len (sh_line sh)) (sh', s) })"
  proof (cases "edit_key sh key")
    case None
    then show ?thesis using s by (auto simp: step_ok_def sys_frame_refl)
  next
    case (Some r)
    obtain sh' where "r = Some sh'" "line_inv (sh_line sh')" "history_inv (sh_history sh')"
      "sh_anchor sh' = sh_anchor sh" "sh_info sh' = sh_info sh"
      using edit_key_ok [OF i Some] by blast
    then show ?thesis using Some step_redraw [OF s, of sh'] shell_len [OF s(2)] by simp
  qed
  note keys = key_enter_ok [OF s env] key_ctrl_c_ok [OF s] key_ctrl_l_ok [OF s] complete_ok [OF s]
    scroll_ok [OF s, of WScrollUp] scroll_ok [OF s, of WScrollDown] ed
  show ?thesis unfolding handle_key_def using keys by simp
qed

text \<open>A shell that starts or restarts on a terminal whose cursor may lie beyond a new, narrower width.\<close>

lemma clear_console_ok:
  assumes "seq_ok s"
  shows "\<exists>s'. console [WClear] s = Some s' \<and> seq_ok s' \<and> sys_frame (sys_active s) s s'
    \<and> writer_ready (active_writer s') \<and> lag (active_writer s') = 0"
proof -
  have sh: "writer_shape (active_writer s)" using assms system_inv_terminal by (auto simp: seq_ok_def system_inv_def)
  let ?w = "writer_clear (active_writer s)"
  have w: "writer_ready ?w" "w_columns ?w = w_columns (active_writer s)" "lag ?w = 0"
    using writer_clear_ready [OF sh] by (simp_all add: writer_clear_def lag_def)
  have "for_each run_wop [WClear] (active_writer s) = Some ?w" by simp
  from console_ok [OF assms this] show ?thesis using w by (auto simp: writer_ready_def)
qed

lemma restart_ok:
  assumes s: "seq_ok s" and calls: "list_all (list_all out_op) calls" and sh: "line_inv (sh_line sh)" "history_inv (sh_history sh)"
  shows "\<exists>s1. for_each console ([WClear] # calls) s = Some s1 \<and> step_ok sh s (set_prompt (sh, s1))"
proof -
  obtain s1 where s1: "console [WClear] s = Some s1" "seq_ok s1" "sys_frame (sys_active s) s s1"
    "writer_ready (active_writer s1)" "lag (active_writer s1) = 0"
    using clear_console_ok [OF s] by blast
  obtain s2 where s2: "for_each console calls s1 = Some s2" "step_ok sh s1 (set_prompt (sh, s2))"
    using outs_prompt_ok [OF s1(2,4) _ calls sh] s1(5) by auto
  have "step_ok sh s (set_prompt (sh, s2))" by (rule step_ok_frame [OF s1(3) s2(2)]) simp
  then show ?thesis using s1(1) s2(1) by simp
qed

lemma shell_new_ok:
  assumes "seq_ok s"
  shows "\<exists>sh' s'. shell_new env info s = Some (sh', s') \<and> seq_ok s' \<and> sys_frame (sys_active s) s s'
    \<and> shell_ok sh' (active_writer s') \<and> sh_info sh' = info"
proof -
  let ?sh = "\<lparr>sh_info = info, sh_line = line_new, sh_history = history_new, sh_anchor = \<lparr>p_line = 0, p_column = 0\<rparr>\<rparr>"
  let ?calls = "[fastfetch info (env_uptime env) (env_requested env),
         println (''Welcome to CrabOS. Type '' @ [SQUOTE] @ ''help'' @ [SQUOTE] @ '' to get started.''),
         println (''Tab completes commands. Up/Down recalls history. PgUp/PgDn scrolls.'' @ [CHR 0x0A])]"
  have c: "list_all (list_all out_op) ?calls"
    by (simp add: fastfetch_out del: append.simps)
  obtain s1 where s1: "for_each console ([WClear] # ?calls) s = Some s1" "step_ok ?sh s (set_prompt (?sh, s1))"
    using restart_ok [OF assms c, of ?sh] by auto
  have "shell_new env info s = set_prompt (?sh, s1)"
    unfolding shell_new_def outs_def Let_def snd_conv fst_conv s1(1) bind.bind_lunit ..
  then show ?thesis using s1(2) by (auto simp: step_ok_def)
qed

lemma reset_for_resize_ok:
  assumes s: "seq_ok s" and h: "history_inv (sh_history sh)"
  shows "step_ok sh s (reset_for_resize sh s)"
proof -
  let ?sh = "sh\<lparr>sh_line := line_new\<rparr>"
  obtain s1 where s1: "for_each console [[WClear]] s = Some s1" "step_ok ?sh s (set_prompt (?sh, s1))"
    using restart_ok [OF s, of "[]" ?sh] h by auto
  have "step_ok sh s (set_prompt (?sh, s1))" using s1(2) by (simp add: step_ok_def)
  then show ?thesis using s1(1) by (simp add: reset_for_resize_def outs_def)
qed

lemma reset_for_resize_fields:
  "reset_for_resize sh s = Some (sh', s') \<Longrightarrow> sh_line sh' = line_new \<and> sh_history sh' = sh_history sh"
  by (auto simp: reset_for_resize_def set_prompt_def outs_def panic_simps)

end
