(* ===== verification/Run_Shell.thy ===== *)
theory Run_Shell
  imports Keyboard Shell_Safety
begin

text \<open>
  The task of \<^verbatim>\<open>src/src/task/keyboard.rs\<close> that owns the shells: \<open>run_shell\<close> takes input events, decodes
  scancodes, opens and closes terminals and hands keys to the shell in focus. Its loop body is
  \<open>run_shell_event\<close>; the kernel's input side as a whole is \<open>kernel_step\<close>, one interrupt, one repaint
  or one event at a time.

  The scancode decoder (crate \<open>pc-keyboard\<close>) is the record \<open>decoder_ops\<close>; no law about it is needed.
\<close>

section \<open>The decoder\<close>

datatype HandleControl = MapLettersToUnicode | IgnoreControl

text \<open>A layout maps a key, the modifiers and the treatment of Ctrl to what the key means.\<close>

type_synonym 'm keyboard_layout = "KeyCode \<Rightarrow> 'm \<Rightarrow> HandleControl \<Rightarrow> DecodedKey"

record ('k, 'e, 'm) decoder_ops =
  kb_us104 :: "'m keyboard_layout"
  kb_new :: "'m keyboard_layout \<Rightarrow> HandleControl \<Rightarrow> 'k"
  kb_add_byte :: "'k \<Rightarrow> u8 \<Rightarrow> 'k \<times> (unit + 'e option)"
  kb_process :: "'k \<Rightarrow> 'e \<Rightarrow> 'k \<times> DecodedKey option"

definition map_keycode :: "'m keyboard_layout \<Rightarrow> 'm keyboard_layout" where
  "map_keycode us key modifiers control =
     (let key = (if key = KC_Oem7 then KC_Oem5 else key) in us key modifiers control)"

definition decoder :: "('k, 'e, 'm) decoder_ops \<Rightarrow> 'k" where
  "decoder D = kb_new D (map_keycode (kb_us104 D)) MapLettersToUnicode"

definition decode :: "('k, 'e, 'm) decoder_ops \<Rightarrow> u8 \<Rightarrow> 'k \<Rightarrow> 'k \<times> DecodedKey option" where
  "decode D scancode keyboard = (case kb_add_byte D keyboard scancode of
      (keyboard, Inr (Some event)) \<Rightarrow> kb_process D keyboard event
    | (keyboard, _) \<Rightarrow> (keyboard, None))"

section \<open>The shell task\<close>

record ('q, 'w, 'k) Kernel =
  k_input :: "('q, 'w) Input"
  k_sys :: System
  k_shells :: "Shell option list"
  k_keyboard :: 'k
  k_dropped :: u64

text \<open>\<open>while queue.pop().is_some() {}\<close>, which ends because the queue shrinks.\<close>

partial_function (option) drain_queue :: "'q queue_ops \<Rightarrow> 'q \<Rightarrow> 'q option" where
  "drain_queue Q q = (case q_pop Q q of None \<Rightarrow> Some q | Some (q', _) \<Rightarrow> drain_queue Q q')"

definition drain_input :: "'q queue_ops \<Rightarrow> ('q, 'w) Input \<Rightarrow> ('q, 'w) Input option" where
  "drain_input Q inp = (case in_queue inp of
      None \<Rightarrow> Some inp
    | Some q \<Rightarrow> do { q' \<leftarrow> drain_queue Q q; Some (inp\<lparr>in_queue := Some q'\<rparr>) })"

definition resize_shell :: "nat option \<Rightarrow> nat \<Rightarrow> Shell option list \<times> System \<Rightarrow> (Shell option list \<times> System) option" where
  "resize_shell fresh index st = do {
     opn \<leftarrow> is_open (sys_desktop (snd st)) index;
     (if opn \<and> fresh \<noteq> Some index then do {
        let s = set_active_terminal index (snd st);
        slot \<leftarrow> arr_get (fst st) index;
        (case slot of
           None \<Rightarrow> Some (fst st, s)
         | Some shell \<Rightarrow> do {
             (shell', s') \<leftarrow> reset_for_resize shell s;
             shells \<leftarrow> arr_set (fst st) index (Some shell');
             Some (shells, s')
           })
      } else Some st)
   }"

definition resize_open_shells :: "Shell option list \<Rightarrow> nat option \<Rightarrow> System \<Rightarrow> (Shell option list \<times> System) option" where
  "resize_open_shells shells fresh s = do {
     (shells, s) \<leftarrow> for_each (resize_shell fresh) [0, 1] (shells, s);
     Some (shells, set_active_terminal (d_active (sys_desktop s)) s)
   }"

text \<open>A shell operation on the shell of a terminal, if it has one.\<close>

definition on_shell :: "nat \<Rightarrow> (Shell \<Rightarrow> System \<Rightarrow> (Shell \<times> System) option) \<Rightarrow> ('q, 'w, 'k) Kernel \<Rightarrow> ('q, 'w, 'k) Kernel option" where
  "on_shell index f k = do {
     slot \<leftarrow> arr_get (k_shells k) index;
     (case slot of
        None \<Rightarrow> Some k
      | Some shell \<Rightarrow> do {
          (shell', s) \<leftarrow> f shell (k_sys k);
          shells \<leftarrow> arr_set (k_shells k) index (Some shell');
          Some (k\<lparr>k_sys := s, k_shells := shells\<rparr>)
        })
   }"

text \<open>The branch for lost input.\<close>

definition run_shell_lost :: "'q queue_ops \<Rightarrow> ('k, 'e, 'm) decoder_ops \<Rightarrow> ('q, 'w, 'k) Kernel \<Rightarrow> ('q, 'w, 'k) Kernel option" where
  "run_shell_lost Q D k = do {
     let current_dropped = in_dropped (k_input k);
     inp \<leftarrow> drain_input Q (k_input k);
     let k = k\<lparr>k_input := inp, k_keyboard := decoder D, k_dropped := current_dropped\<rparr>;
     let active = d_active (sys_desktop (k_sys k));
     opn \<leftarrow> is_open (sys_desktop (k_sys k)) active;
     (if opn then on_shell active (\<lambda>shell s. input_lost shell (set_active_terminal active s)) k else Some k)
   }"

definition run_shell_close :: "nat \<Rightarrow> ('q, 'w, 'k) Kernel \<Rightarrow> ('q, 'w, 'k) Kernel option" where
  "run_shell_close index k = do {
     s \<leftarrow> close_terminal index (k_sys k);
     (shells, s) \<leftarrow> resize_open_shells (k_shells k) None s;
     Some (k\<lparr>k_sys := s, k_shells := shells\<rparr>)
   }"

definition run_shell_open :: "Env \<Rightarrow> SystemInfo \<Rightarrow> ('q, 'w, 'k) Kernel \<Rightarrow> ('q, 'w, 'k) Kernel option" where
  "run_shell_open env info k = do {
     (s, opened) \<leftarrow> open_terminal (k_sys k);
     (case opened of
        None \<Rightarrow> Some (k\<lparr>k_sys := s\<rparr>)
      | Some index \<Rightarrow> do {
          slot \<leftarrow> arr_get (k_shells k) index;
          (shells, s) \<leftarrow> (case slot of
              Some _ \<Rightarrow> Some (k_shells k, s)
            | None \<Rightarrow> do {
                (shell, s) \<leftarrow> shell_new env info (set_active_terminal index s);
                shells \<leftarrow> arr_set (k_shells k) index (Some shell);
                Some (shells, s)
              });
          (shells, s) \<leftarrow> resize_open_shells shells (if slot = None then Some index else None) s;
          Some (k\<lparr>k_sys := s, k_shells := shells\<rparr>)
        })
   }"

definition run_shell_key :: "Env \<Rightarrow> SystemInfo \<Rightarrow> DecodedKey \<Rightarrow> ('q, 'w, 'k) Kernel \<Rightarrow> ('q, 'w, 'k) Kernel option" where
  "run_shell_key env info key k =
     (if key = Unicode 0x03 then do {
        let active = d_active (sys_desktop (k_sys k));
        opn \<leftarrow> is_open (sys_desktop (k_sys k)) active;
        (if opn then run_shell_close active k else Some k)
      }
      else if key = Unicode 0x11 then run_shell_open env info k
      else do {
        let active = d_active (sys_desktop (k_sys k));
        opn \<leftarrow> is_open (sys_desktop (k_sys k)) active;
        (if opn then on_shell active (\<lambda>shell s. handle_key env shell key s)
             (k\<lparr>k_sys := set_active_terminal active (k_sys k)\<rparr>)
         else Some k)
      })"

text \<open>The body of the loop of \<open>run_shell\<close>.\<close>

definition run_shell_event :: "'q queue_ops \<Rightarrow> ('k, 'e, 'm) decoder_ops \<Rightarrow> Env \<Rightarrow> SystemInfo \<Rightarrow> InputEvent
    \<Rightarrow> ('q, 'w, 'k) Kernel \<Rightarrow> ('q, 'w, 'k) Kernel option" where
  "run_shell_event Q D env info event k =
     (if in_dropped (k_input k) \<noteq> k_dropped k then run_shell_lost Q D k
      else (case event of
          OpenTerminal \<Rightarrow> run_shell_key env info (Unicode 0x11) k
        | CloseTerminal index \<Rightarrow> run_shell_close index k
        | Scancode scancode \<Rightarrow> (case decode D scancode (k_keyboard k) of
              (keyboard, None) \<Rightarrow> Some (k\<lparr>k_keyboard := keyboard\<rparr>)
            | (keyboard, Some key) \<Rightarrow> run_shell_key env info key (k\<lparr>k_keyboard := keyboard\<rparr>))))"

text \<open>The start of \<open>run_shell\<close>, on the statics as the kernel starts with them.\<close>

definition run_shell_start :: "'q queue_ops \<Rightarrow> 'w waker_ops \<Rightarrow> ('k, 'e, 'm) decoder_ops \<Rightarrow> frame \<Rightarrow> ('q, 'w, 'k) Kernel option" where
  "run_shell_start Q W D vga = do {
     inp \<leftarrow> stream_new Q (input_new W);
     s \<leftarrow> refresh (set_active_terminal 0 (system_new vga));
     Some \<lparr>k_input = inp, k_sys = set_active_terminal 0 s, k_shells = [None, None], k_keyboard = decoder D,
       k_dropped = in_dropped inp\<rparr>
   }"

section \<open>The kernel's input side\<close>

datatype kernel_event = IrqMouse u8 | IrqKey u8 | Repaint | PollShell Env

definition mouse_interrupt :: "'q queue_ops \<Rightarrow> 'w waker_ops \<Rightarrow> u8 \<Rightarrow> ('q, 'w, 'k) Kernel \<Rightarrow> ('q, 'w, 'k) Kernel option" where
  "mouse_interrupt Q W byte k = do {
     s \<leftarrow> mouse_irq byte (k_sys k);
     Some (k\<lparr>k_sys := s\<lparr>sys_events := []\<rparr>, k_input := fold (desktop_action Q W) (sys_events s) (k_input k)\<rparr>)
   }"

definition keyboard_interrupt :: "'q queue_ops \<Rightarrow> 'w waker_ops \<Rightarrow> u8 \<Rightarrow> ('q, 'w, 'k) Kernel \<Rightarrow> ('q, 'w, 'k) Kernel" where
  "keyboard_interrupt Q W scancode k = k\<lparr>k_input := add_scancode Q W scancode (k_input k)\<rparr>"

text \<open>One iteration of the shell's loop as the task \<open>task\<close>: nothing, when no event is ready.\<close>

definition poll_shell :: "'q queue_ops \<Rightarrow> 'w waker_ops \<Rightarrow> ('k, 'e, 'm) decoder_ops \<Rightarrow> nat \<Rightarrow> Env \<Rightarrow> SystemInfo
    \<Rightarrow> ('q, 'w, 'k) Kernel \<Rightarrow> ('q, 'w, 'k) Kernel option" where
  "poll_shell Q W D task env info k = do {
     (inp, ready) \<leftarrow> poll_next Q W task [] [] (k_input k);
     (case ready of
        None \<Rightarrow> Some (k\<lparr>k_input := inp\<rparr>)
      | Some event \<Rightarrow> run_shell_event Q D env info event (k\<lparr>k_input := inp\<rparr>))
   }"

definition kernel_step :: "'q queue_ops \<Rightarrow> 'w waker_ops \<Rightarrow> ('k, 'e, 'm) decoder_ops \<Rightarrow> nat \<Rightarrow> SystemInfo \<Rightarrow> kernel_event
    \<Rightarrow> ('q, 'w, 'k) Kernel \<Rightarrow> ('q, 'w, 'k) Kernel option" where
  "kernel_step Q W D task info event k = (case event of
      IrqMouse byte \<Rightarrow> mouse_interrupt Q W byte k
    | IrqKey scancode \<Rightarrow> Some (keyboard_interrupt Q W scancode k)
    | Repaint \<Rightarrow> do { (s, _) \<leftarrow> redraw_poll (k_sys k); Some (k\<lparr>k_sys := s\<rparr>) }
    | PollShell env \<Rightarrow> poll_shell Q W D task env info k)"

end
