(* ===== verification/Shell_Properties.thy ===== *)
theory Shell_Properties
  imports Shell_Safety
begin

text \<open>
  The properties of the shell: keys and commands never panic, completion finds the longest common
  prefix, \<open>echo\<close> inverts the quoting of the argument parser; and two defects, the draft that
  survives a resize and the mouse interrupt that makes a key panic.
\<close>

section \<open>Completion\<close>

lemma common_step:
  assumes "m \<le> length first"
  shows "m \<le> length (takeWhile (\<lambda>(a, b). a = b) (take n (zip first name))) \<longleftrightarrow>
    m \<le> n \<and> starts_with name (take m first)"
proof -
  have "m \<le> length (takeWhile (\<lambda>(a, b). a = b) (take n (zip first name))) \<longleftrightarrow>
      m \<le> n \<and> m \<le> length name \<and> (\<forall>i<m. first ! i = name ! i)"
  proof
    assume l: "m \<le> length (takeWhile (\<lambda>(a, b). a = b) (take n (zip first name)))"
    then have le: "m \<le> n" "m \<le> length name"
      using length_takeWhile_le [of "\<lambda>(a, b). a = b" "take n (zip first name)"] by auto
    moreover have "first ! i = name ! i" if "i < m" for i
      using nth_length_takeWhile [of "\<lambda>(a, b). a = b" "take n (zip first name)"]
        takeWhile_nth [of i "\<lambda>(a, b). a = b" "take n (zip first name)"] set_takeWhileD
        nth_mem [of i "takeWhile (\<lambda>(a, b). a = b) (take n (zip first name))"] that l assms le
      by fastforce
    ultimately show "m \<le> n \<and> m \<le> length name \<and> (\<forall>i<m. first ! i = name ! i)" by blast
  next
    assume r: "m \<le> n \<and> m \<le> length name \<and> (\<forall>i<m. first ! i = name ! i)"
    show "m \<le> length (takeWhile (\<lambda>(a, b). a = b) (take n (zip first name)))"
    proof (rule ccontr)
      let ?k = "length (takeWhile (\<lambda>(a, b). a = b) (take n (zip first name)))"
      assume "\<not> m \<le> ?k"
      then have k: "?k < m" by simp
      then have "?k < length (take n (zip first name))" using r assms by simp
      from nth_length_takeWhile [OF this] show False using r k assms by auto
    qed
  qed
  also have "\<dots> \<longleftrightarrow> m \<le> n \<and> starts_with name (take m first)"
    using assms by (auto simp: starts_with_def list_eq_iff_nth_eq)
  finally show ?thesis .
qed

lemma common_len_spec:
  assumes "m \<le> length first"
  shows "m \<le> common_len first rest \<longleftrightarrow> (\<forall>name\<in>set rest. starts_with name (take m first))"
proof -
  have "m \<le> foldl (\<lambda>n name. length (takeWhile (\<lambda>(a, b). a = b) (take n (zip first name)))) n rest
      \<longleftrightarrow> m \<le> n \<and> (\<forall>name\<in>set rest. starts_with name (take m first))" for n
    by (induction rest arbitrary: n) (auto simp: common_step [OF assms])
  then show ?thesis using assms by (simp add: common_len_def)
qed

lemma common_len_le: "common_len first rest \<le> length first"
proof -
  have "foldl (\<lambda>n name. length (takeWhile (\<lambda>(a, b). a = b) (take n (zip first name)))) n rest \<le> length first"
    if "n \<le> length first" for n
    using that
  proof (induction rest arbitrary: n)
    case (Cons name rest)
    have "length (takeWhile (\<lambda>(a, b). a = b) (take n (zip first name))) \<le> length first"
      using length_takeWhile_le [of "\<lambda>(a, b). a = b" "take n (zip first name)"] by simp
    then show ?case using Cons.IH by simp
  qed simp
  then show ?thesis by (simp add: common_len_def)
qed

text \<open>The longest common prefix of a list of names, as a relation.\<close>

definition longest_common_prefix :: "char list list \<Rightarrow> char list \<Rightarrow> bool" where
  "longest_common_prefix names t \<longleftrightarrow> list_all (\<lambda>n. starts_with n t) names
     \<and> (\<forall>t'. list_all (\<lambda>n. starts_with n t') names \<longrightarrow> starts_with t t')"

lemma starts_with_take: "starts_with s (take n s)"
  by (cases "n \<le> length s") (simp_all add: starts_with_def)

lemma common_prefix_longest: "longest_common_prefix (first # rest) (take (common_len first rest) first)"
proof -
  let ?n = "common_len first rest"
  have "list_all (\<lambda>n. starts_with n (take ?n first)) (first # rest)"
    using common_len_spec [OF common_len_le, of first rest rest] starts_with_take by (auto simp: list_all_iff)
  moreover have "starts_with (take ?n first) t'" if a: "list_all (\<lambda>n. starts_with n t') (first # rest)" for t'
  proof -
    have t: "t' = take (length t') first" using a by (simp add: starts_with_def)
    then have l: "length t' \<le> length first" by (metis length_take min.cobounded1)
    have "length t' \<le> ?n" using common_len_spec [OF l] a t by (simp add: list_all_iff)
    then show ?thesis using t by (simp add: starts_with_def min_def)
  qed
  ultimately show ?thesis by (simp add: longest_common_prefix_def)
qed

lemma names_short: "list_all (\<lambda>name. length name < 10 \<and> list_all printable name) (map fst COMMANDS)"
  by (simp add: COMMANDS_def ascii_simps)

lemma completions_mem: "name \<in> set (completions p) \<Longrightarrow>
    starts_with name p \<and> length name < 10 \<and> list_all printable name"
  using names_short by (auto simp: completions_def list_all_iff)

text \<open>What the console calls leave of the shell.\<close>

lemma outs_fst: "outs calls st = Some st' \<Longrightarrow> fst st' = fst st"
  by (auto simp: outs_def panic_simps)

lemma redraw_fst: "redraw n st = Some st' \<Longrightarrow> fst st' = fst st"
  by (auto simp: redraw_def panic_simps dest: outs_fst)

lemma set_prompt_line: "set_prompt st = Some st' \<Longrightarrow> sh_line (fst st') = sh_line (fst st)"
  by (auto simp: set_prompt_def panic_simps)

lemma line_view_end: "l_cursor l = l_len l \<Longrightarrow> line_inv l \<Longrightarrow> line_view l = (line_text l, [])"
  using line_invD(5) [of l] by (simp add: line_view_def)

lemma line_text_view: "line_view l = (a, b) \<Longrightarrow> line_text l = a @ b"
  using line_view_append [of l] by simp

lemma insert_suffix:
  assumes inv: "line_inv l" and cur: "l_cursor l = l_len l" and x: "starts_with x (line_text l)"
    "list_all printable x" "length x < 256"
  shows "\<exists>l'. insert_each line_insert l (drop (l_len l) x) = Some l' \<and> line_inv l' \<and> line_view l' = (x, [])"
proof -
  have len: "l_len l = length (line_text l)" using line_invD [OF inv] by simp
  have xe: "x = line_text l @ drop (l_len l) x" using x(1) unfolding starts_with_def len by (metis append_take_drop_id)
  have pr: "list_all printable (drop (l_len l) x)" using x(2) by (auto simp: list_all_iff dest: in_set_dropD)
  have "length (line_text l) + length (drop (l_len l) x) \<le> MAX_INPUT"
    using arg_cong [OF xe, of length] x(3) by (simp add: MAX_INPUT_def)
  then show ?thesis
    using led.insert_each_fits [OF inv pr] line_view_end [OF cur inv] xe by simp
qed

text \<open>The line after a completion.\<close>

lemma complete_line:
  assumes inv: "line_inv (sh_line sh)" and cur: "l_cursor (sh_line sh) = l_len (sh_line sh)"
    and sp: "CHR '' '' \<notin> set (line_text (sh_line sh))" and names: "completions (line_text (sh_line sh)) = first # rest"
    and res: "complete sh s = Some (sh', s')"
  shows "line_text (sh_line sh') = take (common_len first rest) first @ (if rest = [] then '' '' else [])"
proof -
  let ?p = "line_text (sh_line sh)" let ?x = "take (common_len first rest) first"
  have f: "starts_with first ?p" "length first < 10" "list_all printable first"
    using completions_mem [of first ?p] names by auto
  have "list_all (\<lambda>n. starts_with n ?p) (first # rest)"
    using completions_mem names by (metis list_all_iff)
  then have x: "starts_with ?x ?p" using common_prefix_longest [of first rest] by (auto simp: longest_common_prefix_def)
  have px: "list_all printable ?x" "length ?x < 256" using f by (auto simp: list_all_iff dest: in_set_takeD)
  obtain l where l: "insert_each line_insert (sh_line sh) (drop (l_len (sh_line sh)) ?x) = Some l" "line_inv l"
    "line_view l = (?x, [])"
    using insert_suffix [OF inv cur x px] by blast
  have lt: "line_text l = ?x" using line_text_view [OF l(3)] by simp
  have nc: "\<not> (l_cursor (sh_line sh) \<noteq> l_len (sh_line sh) \<or> CHR '' '' \<in> set ?p)" using cur sp by blast
  note eq = complete_def line_as_str_text [OF inv] bind.bind_lunit if_not_P [OF nc] names list.case Let_def l(1) prod.case
  show ?thesis
  proof (cases "rest = []")
    case True
    obtain l2 where l2: "line_insert l (CHR '' '') = Some (l2, True)" "line_view l2 = (?x @ '' '', [])"
      using led.ins_fits [OF l(2), of "CHR '' ''"] l(3) px(2) by (auto simp: ascii_simps MAX_INPUT_def)
    have "redraw (l_len (sh_line sh)) (sh\<lparr>sh_line := l2\<rparr>, s) = Some (sh', s')"
      using res unfolding eq if_P [OF True] l2(1) by simp
    from redraw_fst [OF this] show ?thesis using line_text_view [OF l2(2)] True by simp
  next
    case False
    then have "sh_line sh' = l \<or> sh_line sh' = l\<lparr>l_cursor := l_len l\<rparr>"
      using res unfolding eq if_not_P [OF False]
      by (auto simp: panic_simps split: if_splits dest!: redraw_fst outs_fst set_prompt_line)
    then have "line_text (sh_line sh') = line_text l" by (auto simp: line_text_def)
    then show ?thesis using lt False by simp
  qed
qed

section \<open>Echo\<close>

fun op_text :: "wop \<Rightarrow> nat list" where
  "op_text (WWrite cs) = cs"
| "op_text _ = []"

definition calls_text :: "wop list list \<Rightarrow> nat list" where
  "calls_text calls = concat (map op_text (concat calls))"

lemma calls_text_simps [simp]:
  "calls_text [] = []" "calls_text (c # cs) = concat (map op_text c) @ calls_text cs"
  "calls_text (a @ b) = calls_text a @ calls_text b"
  by (simp_all add: calls_text_def)

lemma print_text [simp]:
  "list_all is_ascii s \<Longrightarrow> concat (map op_text (print_str s)) = map code s"
  "list_all is_ascii s \<Longrightarrow> concat (map op_text (println s)) = map code s @ [10]"
  "concat (map op_text (print_str '' '')) = [32]"
  by (simp_all add: print_str_def println_def wstr_def list_all_iff is_ascii_def str_chars_ascii)

lemma echo_words:
  assumes "list_all (list_all is_ascii) ws" "1 \<le> n"
  shows "calls_text (concat (map (\<lambda>(index, w). (if index > 1 then [print_str '' ''] else []) @ [print_str w]) (enumerate n ws)))
    = (if n > 1 \<and> ws \<noteq> [] then [32] else []) @ map code (unwords ws)"
  using assms
proof (induction ws arbitrary: n rule: induct_list012)
  case (2 w)
  then show ?case by simp
next
  case (3 v w ws)
  show ?case
    using "3.IH"(2) [of "Suc n"] "3.prems" by simp
qed simp

section \<open>Errors of a command\<close>

lemma execute_parse_error: "tokens t = Inl e \<Longrightarrow> execute env sh t = Some [println (''crabsh: '' @ e)]"
  using arguments_parse_tokens [of t] by (simp add: execute_def)

lemma execute_blank: "tokens t = Inr [] \<Longrightarrow> execute env sh t = Some []"
  using arguments_parse_tokens [of t] by (auto simp: execute_def holds_args_len)

text \<open>The command of a line that is not a request for help.\<close>

lemma execute_command:
  assumes t: "tokens t = Inr (c # ws)" and hlp: "ws = [''--help''] \<Longrightarrow> c \<notin> set (map fst COMMANDS)"
  shows "\<exists>a. holds_args a (c # ws) \<and> execute env sh t = run_command env sh a c"
proof -
  obtain a where a: "arguments_parse t = Some (Inr a)" "holds_args a (c # ws)"
    using arguments_parse_tokens [of t] t by auto
  have g: "arguments_get a 0 = Some c" "a_len a \<noteq> 0" using holds_args_get [OF a(2), of 0] holds_args_len [OF a(2)] by simp_all
  have "(if a_len a = 2 then do {
                x \<leftarrow> arguments_get a 1;
                Some (if x = ''--help'' then find (\<lambda>(name, _). name = c) COMMANDS else None)
              } else Some None) = Some None"
  proof (cases "a_len a = 2")
    case True
    then obtain w where w: "ws = [w]" using holds_args_len [OF a(2)] by (auto simp: length_Suc_conv)
    then have "arguments_get a 1 = Some w" using holds_args_get [OF a(2), of 1] by simp
    then show ?thesis using True hlp w by (force simp: find_None_iff)
  qed simp
  then have "execute env sh t = run_command env sh a c"
    unfolding execute_def a(1) bind.bind_lunit sum.case if_not_P [OF g(2)] g(1) by simp
  then show ?thesis using a(2) by blast
qed

lemma execute_unknown:
  assumes "tokens t = Inr (c # ws)" "c \<notin> set (map fst COMMANDS)"
  shows "execute env sh t =
    Some [println (''crabsh: '' @ c @ '': command not found. Try '' @ [SQUOTE] @ ''help'' @ [SQUOTE] @ ''.'')]"
proof -
  obtain a where a: "execute env sh t = run_command env sh a c" using execute_command [OF assms(1)] assms(2) by blast
  have ne: "c \<noteq> ''fastfetch''" "c \<noteq> ''echo''" "c \<noteq> ''uname''" "c \<noteq> ''browse''"
    using assms(2) by (auto simp: COMMANDS_def)
  have "\<not> list_ex (\<lambda>(name, _). name = c) COMMANDS" using assms(2) by (force simp: list_ex_iff)
  then show ?thesis unfolding a run_command_def using ne by simp
qed

lemma execute_echo:
  assumes t: "tokens t = Inr (''echo'' # ws)" and "ws \<noteq> [''--help'']" "list_all (list_all is_ascii) ws"
  shows "\<exists>calls. execute env sh t = Some calls \<and> calls_text calls = map code (unwords ws) @ [10]"
proof -
  obtain a where a: "holds_args a (''echo'' # ws)" "execute env sh t = run_command env sh a ''echo''"
    using execute_command [OF t] assms(2) by blast
  have "run_command env sh a ''echo'' = cmd_echo a" by (simp add: run_command_def)
  then show ?thesis
    using cmd_echo_eq [OF a(1)] a(2) echo_words [OF assms(3), of 1] by simp
qed

section \<open>Properties\<close>

text \<open>C4: No key makes the shell panic. On a terminal that is in its invariant and a shell whose
  anchor lies within it, every key the decoder can deliver, printable, control or special, is
  handled without a failed assertion, an index out of range, an overflow or the
  \<open>unreachable!\<close> arm; afterwards shell and terminal are in their invariant again and the desktop, the
  other terminal and the terminal's width are unchanged.\<close>

theorem handle_key_safe:
  assumes "seq_ok s" "shell_ok sh (active_writer s)" "env_ok env"
  shows "\<exists>sh' s'. handle_key env sh key s = Some (sh', s') \<and> seq_ok s' \<and> shell_ok sh' (active_writer s')
    \<and> sys_frame (sys_active s) s s' \<and> sh_info sh' = sh_info sh"
  using handle_key_ok [OF assms, of key] by (auto simp: step_ok_def)

definition example_env :: Env where
  "example_env = \<lparr>env_uptime = 75, env_requested = 128, env_i225_v = None, env_status = None, env_fetch = (\<lambda>_. Inl ''down'')\<rparr>"

definition example_info :: SystemInfo where
  "example_info = \<lparr>usable_memory = 1048576, vendor = replicate 12 (CHR ''x''), brand = replicate 48 (CHR 0x00), virtualized = True\<rparr>"

lemma example_start:
  "\<exists>sh s. shell_new example_env example_info (system_new (replicate 2000 BLANK)) = Some (sh, s)
     \<and> seq_ok s \<and> shell_ok sh (active_writer s)"
proof -
  have "seq_ok (system_new (replicate 2000 BLANK))"
    using system_new_inv [of "replicate 2000 BLANK"] by (simp add: seq_ok_def system_new_def)
  from shell_new_ok [OF this] show ?thesis by blast
qed

theorem handle_key_safe_witness:
  "\<exists>sh s sh' s'. shell_new example_env example_info (system_new (replicate 2000 BLANK)) = Some (sh, s)
    \<and> handle_key example_env sh (Unicode 0x61) s = Some (sh', s') \<and> seq_ok s' \<and> shell_ok sh' (active_writer s')
    \<and> sys_frame (sys_active s) s s' \<and> sh_info sh' = sh_info sh"
proof -
  obtain sh s where s: "shell_new example_env example_info (system_new (replicate 2000 BLANK)) = Some (sh, s)"
    "seq_ok s" "shell_ok sh (active_writer s)" using example_start by blast
  have "env_ok example_env" by (simp add: env_ok_def example_env_def)
  from handle_key_safe [OF s(2,3) this, of "Unicode 0x61"] show ?thesis using s(1) by blast
qed

text \<open>C30: Executing any text returns, and every error is reported as one message: text the
  parser rejects gives the parser's error, blank text nothing, and a first word that is no command
  the message that it was not found. The built-in commands only write, set colours and clear.\<close>

theorem execute_reports_errors:
  assumes "env_ok env" "history_inv (sh_history sh)"
  shows "\<exists>calls. execute env sh t = Some calls \<and> list_all (list_all out_op) calls
    \<and> (case tokens t of
         Inl e \<Rightarrow> calls = [println (''crabsh: '' @ e)]
       | Inr [] \<Rightarrow> calls = []
       | Inr (c # ws) \<Rightarrow> c \<notin> set (map fst COMMANDS) \<longrightarrow>
           calls = [println (''crabsh: '' @ c @ '': command not found. Try '' @ [SQUOTE] @ ''help'' @ [SQUOTE] @ ''.'')])"
proof -
  obtain calls where calls: "execute env sh t = Some calls" "list_all (list_all out_op) calls"
    using execute_out [OF assms] by blast
  have "case tokens t of
         Inl e \<Rightarrow> calls = [println (''crabsh: '' @ e)]
       | Inr [] \<Rightarrow> calls = []
       | Inr (c # ws) \<Rightarrow> c \<notin> set (map fst COMMANDS) \<longrightarrow>
           calls = [println (''crabsh: '' @ c @ '': command not found. Try '' @ [SQUOTE] @ ''help'' @ [SQUOTE] @ ''.'')]"
    using calls(1) execute_unknown [of t _ _ env sh] execute_parse_error [of t _ env sh] execute_blank [of t env sh]
    by (auto split: sum.split list.split)
  with calls show ?thesis by blast
qed

theorem execute_reports_errors_witness:
  "\<exists>calls. execute example_env
      \<lparr>sh_info = example_info, sh_line = line_new, sh_history = history_new, sh_anchor = \<lparr>p_line = 0, p_column = 0\<rparr>\<rparr> ''ls'' = Some calls
    \<and> calls = [println (''crabsh: '' @ ''ls'' @ '': command not found. Try '' @ [SQUOTE] @ ''help'' @ [SQUOTE] @ ''.'')]"
proof -
  let ?sh = "\<lparr>sh_info = example_info, sh_line = line_new, sh_history = history_new, sh_anchor = \<lparr>p_line = 0, p_column = 0\<rparr>\<rparr>"
  have t: "tokens ''ls'' = Inr [''ls'']" by code_simp
  have n: "''ls'' \<notin> set (map fst COMMANDS)" by (simp add: COMMANDS_def)
  have "env_ok example_env" "history_inv (sh_history ?sh)" by (simp_all add: env_ok_def example_env_def)
  from execute_reports_errors [OF this, of "''ls''"] show ?thesis using n unfolding t by auto
qed

text \<open>C31: Tab completes to the longest common prefix. With the cursor at the end of a line without
  spaces, the new line is the old one when no command starts with it, the command and a space when
  exactly one does, and otherwise the longest common prefix of the commands that do.\<close>

theorem complete_finds_longest_prefix:
  assumes "seq_ok s" "shell_ok sh (active_writer s)" "l_cursor (sh_line sh) = l_len (sh_line sh)"
    "CHR '' '' \<notin> set (line_text (sh_line sh))"
  shows "\<exists>sh' s'. complete sh s = Some (sh', s') \<and> (case completions (line_text (sh_line sh)) of
      [] \<Rightarrow> sh' = sh
    | [name] \<Rightarrow> line_text (sh_line sh') = name @ '' ''
    | names \<Rightarrow> longest_common_prefix names (line_text (sh_line sh')))"
proof -
  have inv: "line_inv (sh_line sh)" using assms(2) by (simp add: shell_ok_def)
  obtain sh' s' where c: "complete sh s = Some (sh', s')" using complete_ok [OF assms(1,2)] by (auto simp: step_ok_def)
  have "sh' = sh" if "completions (line_text (sh_line sh)) = []"
    using c that assms(3,4) by (simp add: complete_def line_as_str_text [OF inv])
  moreover have "line_text (sh_line sh') = name @ '' ''" if "completions (line_text (sh_line sh)) = [name]" for name
    using complete_line [OF inv assms(3,4) that c] by (simp add: common_len_def)
  moreover have "longest_common_prefix (n # m # ns) (line_text (sh_line sh'))"
    if "completions (line_text (sh_line sh)) = n # m # ns" for n m ns
    using complete_line [OF inv assms(3,4) that c] common_prefix_longest [of n "m # ns"] by simp
  ultimately show ?thesis using c by (auto split: list.split)
qed

lemma example_line: "list_all printable t \<Longrightarrow> length t \<le> 256 \<Longrightarrow>
    \<exists>l. line_inv l \<and> line_text l = t \<and> l_cursor l = l_len l"
proof -
  assume t: "list_all printable t" "length t \<le> 256"
  obtain l where l: "line_inv l" "line_view l = (t, [])"
    using led.insert_each_fits [of line_new t] t by (auto simp: MAX_INPUT_def)
  then have "line_text l = t" "l_cursor l = l_len l"
    using line_text_view [OF l(2)] line_invD [OF l(1)] by (auto simp: line_view_def min_def split: if_splits)
  then show ?thesis using l(1) by blast
qed

theorem complete_finds_longest_prefix_witness:
  "\<exists>sh s sh' s'. line_text (sh_line sh) = ''he'' \<and> complete sh s = Some (sh', s')
    \<and> line_text (sh_line sh') = ''help ''"
proof -
  obtain sh s where s: "seq_ok s" "shell_ok sh (active_writer s)" using example_start by blast
  obtain l where l: "line_inv l" "line_text l = ''he''" "l_cursor l = l_len l"
    using example_line [of "''he''"] by (auto simp: ascii_simps)
  let ?sh = "sh\<lparr>sh_line := l\<rparr>"
  have ok: "shell_ok ?sh (active_writer s)" using s(2) l(1) by (simp add: shell_ok_def)
  have c: "completions ''he'' = [''help'']" by (simp add: completions_def COMMANDS_def starts_with_def)
  have "\<exists>sh' s'. complete ?sh s = Some (sh', s') \<and> line_text (sh_line sh') = ''help ''"
    using complete_finds_longest_prefix [OF s(1) ok] l by (simp add: c)
  moreover have "line_text (sh_line ?sh) = ''he''" using l(2) by simp
  ultimately show ?thesis by blast
qed

text \<open>C32: Quoting, parsing and echoing is the identity: the words of an \<open>echo\<close> command, quoted,
  come out on the console separated by spaces and ended by a line feed, whatever ASCII bytes
  (operators, quotes, blanks) they contain.\<close>

theorem echo_roundtrip:
  assumes "length ws \<le> 31" "list_all (list_all is_ascii) ws" "ws \<noteq> [''--help'']"
    "length (unwords (map shell_quote (''echo'' # ws))) \<le> 256"
  shows "\<exists>calls. execute env sh (unwords (map shell_quote (''echo'' # ws))) = Some calls
    \<and> calls_text calls = map code (unwords ws) @ [10]"
proof (rule execute_echo)
  have a: "list_all (list_all is_ascii) (''echo'' # ws)" using assms(2) by (simp add: is_ascii_def)
  then have "list_all is_ascii (unwords (map shell_quote (''echo'' # ws)))" by (rule unwords_quote_ascii)
  then show "tokens (unwords (map shell_quote (''echo'' # ws))) = Inr (''echo'' # ws)"
    using assms(1,4) tok_unwords [of "[]" "''echo'' # ws"] by (simp add: tokens_def MAX_INPUT_def MAX_ARGS_def)
qed (rule assms)+

theorem echo_roundtrip_witness:
  "\<exists>calls. execute example_env
      \<lparr>sh_info = example_info, sh_line = line_new, sh_history = history_new, sh_anchor = \<lparr>p_line = 0, p_column = 0\<rparr>\<rparr>
      (unwords (map shell_quote (''echo'' # [''a | b'', ''c'']))) = Some calls
    \<and> calls_text calls = map code (unwords [''a | b'', ''c'']) @ [10]"
  by (rule echo_roundtrip) (simp_all add: is_ascii_def shell_quote_def)

text \<open>A resize does not discard the unfinished command for good. If the user has pressed Up
  while typing, the reset shell shows an empty line but still browses the history, and Down brings
  the old line back, overflow mark included.\<close>

theorem resize_keeps_draft:
  assumes "seq_ok s" "history_inv (sh_history sh)" "line_inv (sh_line sh)" "h_browsing (sh_history sh) = None"
    "0 < h_len (sh_history sh)"
  shows "\<exists>sh1 sh2 s2 sh3. edit_key sh (RawKey KC_ArrowUp) = Some (Some sh1)
    \<and> reset_for_resize sh1 s = Some (sh2, s2) \<and> line_text (sh_line sh2) = []
    \<and> edit_key sh2 (RawKey KC_ArrowDown) = Some (Some sh3) \<and> sh_line sh3 = sh_line sh"
proof -
  have ne: "history_entries (sh_history sh) \<noteq> []" using assms(5) by (simp flip: length_0_conv)
  obtain h where h: "history_previous (sh_history sh) (sh_line sh) = Some (h, line_end (last (history_entries (sh_history sh))))"
    "history_inv h" "history_entries h = history_entries (sh_history sh)"
    "h_browsing h = Some (length (history_entries (sh_history sh)) - 1)" "h_draft h = sh_line sh"
    using history_previous_start [OF assms(2,3) ne assms(4)] by blast
  have len: "h_len h = h_len (sh_history sh)" using arg_cong [OF h(3), of length] by simp
  let ?sh1 = "sh\<lparr>sh_history := h, sh_line := line_end (last (history_entries (sh_history sh)))\<rparr>"
  obtain sh2 s2 where r: "reset_for_resize ?sh1 s = Some (sh2, s2)"
    using reset_for_resize_ok [OF assms(1), of ?sh1] h(2) by (auto simp: step_ok_def)
  then have sh2: "sh_line sh2 = line_new" "sh_history sh2 = h" using reset_for_resize_fields by auto
  obtain h' where "history_next h line_new = Some (h', h_draft h)"
    using history_next_end [OF h(2,4), of line_new] len assms(5) by auto
  then show ?thesis using h(1,5) r sh2 by (auto simp: edit_key_def Let_def)
qed

theorem resize_keeps_draft_witness:
  "\<exists>s sh. line_text (sh_line sh) = ''rm'' \<and> h_browsing (sh_history sh) = None \<and> (\<exists>sh1 sh2 s2 sh3.
      edit_key sh (RawKey KC_ArrowUp) = Some (Some sh1)
    \<and> reset_for_resize sh1 s = Some (sh2, s2) \<and> line_text (sh_line sh2) = []
    \<and> edit_key sh2 (RawKey KC_ArrowDown) = Some (Some sh3) \<and> sh_line sh3 = sh_line sh)"
proof -
  obtain s where s: "seq_ok s" using example_start by blast
  obtain l where l: "line_inv l" "line_text l = ''rm''" using example_line [of "''rm''"] by (auto simp: ascii_simps)
  let ?sh = "\<lparr>sh_info = example_info, sh_line = l, sh_history = history_new\<lparr>h_len := 2\<rparr>, sh_anchor = \<lparr>p_line = 0, p_column = 0\<rparr>\<rparr>"
  have "h_browsing (sh_history ?sh) = None" by (simp add: history_new_def)
  then show ?thesis
    using resize_keeps_draft [OF s, of ?sh] history_example_inv l by (intro exI [of _ s] exI [of _ ?sh]) simp
qed

section \<open>A mouse interrupt during a key\<close>

text \<open>Two open terminals; the second has scrolled past its first line; the pointer is over it.\<close>

definition race_desktop :: Desktop where
  "race_desktop = DESKTOP\<lparr>d_windows := [\<lparr>win_x = 1, win_y = 4\<rparr>, \<lparr>win_x = 41, win_y = 4\<rparr>], d_open := [True, True]\<rparr>"

definition race_writer :: Writer where
  "race_writer = writer_new\<lparr>w_columns := 36, w_first_line := 1, w_last_line := 128,
     w_cursor := \<lparr>p_line = 128, p_column = 0\<rparr>, w_view_top := 113\<rparr>"

definition race_system :: "u8 list list \<Rightarrow> System" where
  "race_system irqs = (system_new (replicate 2000 BLANK))\<lparr>sys_desktop := race_desktop,
     sys_terminals := [writer_new\<lparr>w_columns := 36\<rparr>, race_writer], sys_irqs := irqs\<rparr>"

definition race_shell :: "nat \<Rightarrow> Shell" where
  "race_shell n = \<lparr>sh_info = example_info, sh_line = line_new, sh_history = history_new, sh_anchor = \<lparr>p_line = n, p_column = 0\<rparr>\<rparr>"

lemma race_inv: "system_inv (race_system irqs)"
  using system_new_inv [of "replicate 2000 BLANK"]
  by (simp add: system_inv_def race_system_def system_new_def race_desktop_def race_writer_def writer_new_def
      writer_shape_def live_top_def vga_consts desktop_inv_def screen_inv_def DESKTOP_def window_ok_def drag_ok_def)

lemma race_shells:
  "shell_ok (race_shell 0) (sys_terminals (race_system irqs) ! 0)"
  "shell_ok (race_shell 128) (sys_terminals (race_system irqs) ! 1)"
  using race_inv [of irqs]
  by (simp_all add: shell_ok_def race_system_def race_shell_def writer_ready_def system_inv_def)
    (simp_all add: race_writer_def writer_new_def)

lemma click_switches:
  "\<exists>d evs. mouse_byte race_desktop 9 \<bind> (\<lambda>(d, _, _). mouse_byte d 0) \<bind> (\<lambda>(d, _, _). mouse_byte d 0) = Some (d, evs, True)
    \<and> d_active d = 1"
  by (simp add: race_desktop_def DESKTOP_def mouse_byte_def mouse_packet_def mouse_motion_def mouse_press_def mouse_drag_def
      layout_def find_hit_def hit_test_def arr_get_def arr_set_def i16_def Let_def trunc_div_def trunc_mod_def clamp_def
      desktop_consts)

lemma click_irq:
  "\<exists>s. for_each mouse_irq [9, 0, 0] ((race_system irqs)\<lparr>sys_irqs := rest\<rparr>) = Some s \<and> sys_active s = 1
    \<and> sys_terminals s = [writer_new\<lparr>w_columns := 36\<rparr>, race_writer]"
proof -
  obtain d1 e1 f1 d2 e2 f2 d3 e3 where m: "mouse_byte race_desktop 9 = Some (d1, e1, f1)" "mouse_byte d1 0 = Some (d2, e2, f2)"
    "mouse_byte d2 0 = Some (d3, e3, True)" "d_active d3 = 1"
    using click_switches by (auto simp: panic_simps)
  then show ?thesis
    by (cases f1; cases f2) (simp_all add: race_system_def system_new_def mouse_irq_def set_active_terminal_def)
qed

text \<open>C23: A mouse interrupt in the middle of a key can crash the kernel. Both terminals and both shells
  are in their invariants, and without an interrupt the key is handled; but when the click that
  focuses the other terminal arrives after \<open>run_shell\<close> has chosen the shell and before the shell's
  \<open>with_writer\<close> reads \<open>ACTIVE_TERMINAL\<close>, the first shell redraws its line on the second terminal, whose
  ring no longer holds the line of its anchor, and the assertion of \<open>replace_input\<close> fails.\<close>

theorem click_during_key_panics:
  "system_inv (race_system irqs) \<and> shell_ok (race_shell 0) (sys_terminals (race_system irqs) ! 0)
    \<and> shell_ok (race_shell 128) (sys_terminals (race_system irqs) ! 1)
    \<and> handle_key example_env (race_shell 0) (Unicode 0x61) (race_system []) \<noteq> None
    \<and> handle_key example_env (race_shell 0) (Unicode 0x61) (race_system [[9, 0, 0]]) = None"
proof (intro conjI race_inv race_shells)
  have "seq_ok (race_system [])" using race_inv by (simp add: seq_ok_def) (simp add: race_system_def)
  moreover have "shell_ok (race_shell 0) (active_writer (race_system []))"
    using race_shells(1) [of "[]"] by (simp add: race_system_def system_new_def)
  moreover have "env_ok example_env" by (simp add: env_ok_def example_env_def)
  ultimately show "handle_key example_env (race_shell 0) (Unicode 0x61) (race_system []) \<noteq> None"
    using handle_key_ok [of "race_system []" "race_shell 0" example_env "Unicode 0x61"] by (auto simp: step_ok_def)
  obtain l ok where l: "line_insert line_new (char_of (97::nat)) = Some (l, ok)" "line_inv l"
    using line_insert_inv [of line_new] by blast
  have e: "edit_key (race_shell 0) (Unicode 0x61) = Some (Some ((race_shell 0)\<lparr>sh_line := l\<rparr>))"
    using l(1) by (simp add: edit_key_def race_shell_def)
  obtain s where s: "for_each mouse_irq [9, 0, 0] ((race_system [[9, 0, 0]])\<lparr>sys_irqs := []\<rparr>) = Some s" "sys_active s = 1"
    "sys_terminals s = [writer_new\<lparr>w_columns := 36\<rparr>, race_writer]" using click_irq by blast
  have t: "take_irqs (race_system [[9, 0, 0]]) = Some s"
    using s(1) by (simp add: take_irqs_def race_system_def del: for_each.simps)
  have w: "replace_input race_writer \<lparr>p_line = 0, p_column = 0\<rparr> x c n = None" for x c n
    by (simp add: replace_input_def race_writer_def rust_assert_def)
  show "handle_key example_env (race_shell 0) (Unicode 0x61) (race_system [[9, 0, 0]]) = None"
    using s(2,3) t w line_as_str_text [OF l(2)]
    by (simp add: handle_key_def e redraw_def outs_def console_def with_writer_def with_closure_def arr_get_def)
      (simp add: race_shell_def)
qed

end
