(* ===== verification/Run_Shell_Safety.thy ===== *)
theory Run_Shell_Safety
  imports Run_Shell Shell_Properties
begin

text \<open>
  The invariant of the kernel's input side, that every step keeps it, and the properties of
  \<open>run_shell\<close>: no interleaving of interrupts, repaints and events makes the kernel panic as long as
  interrupts fall between events; queued events are all consumed; lost input discards the partial
  line; closing and reopening a terminal keeps its history.
\<close>

section \<open>Console operations in sequential execution\<close>

text \<open>Everything but the terminals, the screen and the desktop.\<close>

definition sys_rest :: "System \<Rightarrow> System \<Rightarrow> bool" where
  "sys_rest s s' \<longleftrightarrow> sys_irqs s' = sys_irqs s \<and> sys_events s' = sys_events s \<and> sys_redraw s' = sys_redraw s"

lemma sys_rest_refl [simp]: "sys_rest s s"
  by (simp add: sys_rest_def)

lemma sys_rest_trans: "sys_rest s t \<Longrightarrow> sys_rest t u \<Longrightarrow> sys_rest s u"
  by (simp add: sys_rest_def)

lemma set_active_ok: "seq_ok s \<Longrightarrow> seq_ok (set_active_terminal i s)" "sys_rest s (set_active_terminal i s)"
  "sys_desktop (set_active_terminal i s) = sys_desktop s" "sys_terminals (set_active_terminal i s) = sys_terminals s"
  using set_active_inv [of s i] by (auto simp: seq_ok_def sys_rest_def set_active_terminal_def)

text \<open>The same, and a screen that was up to date still is.\<close>

definition sys_keeps :: "System \<Rightarrow> System \<Rightarrow> bool" where
  "sys_keeps s s' \<longleftrightarrow> sys_rest s s' \<and> (painted s \<longrightarrow> painted s')"

lemma sys_keeps_refl [simp]: "sys_keeps s s"
  by (simp add: sys_keeps_def)

lemma sys_keeps_trans: "sys_keeps s t \<Longrightarrow> sys_keeps t u \<Longrightarrow> sys_keeps s u"
  using sys_rest_trans by (auto simp: sys_keeps_def)

lemma set_active_painted [simp]: "painted (set_active_terminal i s) = painted s"
  by (simp add: painted_def set_active_terminal_def)

lemma set_active_keeps: "sys_keeps s (set_active_terminal i s)"
  by (simp add: sys_keeps_def set_active_ok(2))

lemma frame_keeps: "sys_frame i s s' \<Longrightarrow> sys_keeps s s' \<and> sys_desktop s' = sys_desktop s"
  by (simp add: sys_frame_def sys_keeps_def sys_rest_def)

lemma frame_rest: "sys_frame i s s' \<Longrightarrow> sys_rest s s' \<and> sys_desktop s' = sys_desktop s"
  by (simp add: sys_frame_def sys_rest_def)

lemma refresh_ok:
  assumes "seq_ok s"
  shows "\<exists>s'. refresh s = Some s' \<and> seq_ok s' \<and> sys_rest s s' \<and> sys_desktop s' = sys_desktop s
    \<and> sys_terminals s' = sys_terminals s \<and> sys_active s' = sys_active s \<and> painted s'"
proof -
  have w: "writer_shape (active_writer s)" "length (sys_terminals s) = 2"
    using assms system_inv_terminal [of s "sys_active s"] by (auto simp: seq_ok_def system_inv_def)
  obtain s' where s': "refresh s = Some s'" "seq_ok s'" "sys_frame (sys_active s) s s'" "active_writer s' = active_writer s"
    "painted s'"
    using console_ok [OF assms, of "[]" "active_writer s"] w(1) by (auto simp: refresh_def)
  have "length (sys_terminals s') = 2" using s'(2) by (simp add: seq_ok_def system_inv_def)
  moreover have "sys_terminals s' ! j = sys_terminals s ! j" for j
    using s'(3,4) by (cases "j = sys_active s") (auto simp: sys_frame_def)
  ultimately have "sys_terminals s' = sys_terminals s" using w(2) by (intro nth_equalityI) auto
  then show ?thesis using s' frame_rest [OF s'(3)] by (auto simp: sys_frame_def)
qed

lemma set_columns_ok:
  assumes "seq_ok s" "i < 2" "36 \<le> c" "c \<le> 80"
  shows "\<exists>s'. set_terminal_columns i c s = Some s' \<and> seq_ok s' \<and> sys_rest s s' \<and> sys_desktop s' = sys_desktop s"
proof -
  have i: "min i 1 = i" "i < length (sys_terminals s)" using assms by (auto simp: seq_ok_def system_inv_def)
  let ?w = "(sys_terminals s ! i)\<lparr>w_columns := c\<rparr>"
  have "writer_shape (sys_terminals s ! i)" using assms(1,2) system_inv_terminal by (simp add: seq_ok_def)
  then have "writer_shape ?w" using assms(3,4) by (simp add: writer_shape_def BUFFER_WIDTH_def live_top_def)
  then have "system_inv (s\<lparr>sys_terminals := (sys_terminals s)[i := ?w]\<rparr>)"
    using assms(1) by (intro system_inv_update) (simp_all add: seq_ok_def)
  then show ?thesis
    using assms i by (simp add: set_terminal_columns_def arr_get_def arr_set_def set_columns_def rust_assert_def
        BUFFER_WIDTH_def seq_ok_def sys_rest_def)
qed

lemma sync_ok:
  assumes "seq_ok s"
  shows "\<exists>s'. sync_terminal_widths s = Some s' \<and> seq_ok s' \<and> sys_rest s s' \<and> sys_desktop s' = sys_desktop s"
proof -
  let ?c = "\<lambda>rect. case rect of None \<Rightarrow> 76 | Some (_, _, width) \<Rightarrow> as_usize (width - 2)"
  have "screen_inv (sys_desktop s)" using assms by (simp add: seq_ok_def system_inv_def desktop_inv_def)
  then obtain r0 r1 where l: "layout (sys_desktop s) = Some [r0, r1]" "\<And>r. r0 = Some r \<Longrightarrow> rect_ok r" "\<And>r. r1 = Some r \<Longrightarrow> rect_ok r"
    using layout_spec by blast
  have c: "36 \<le> ?c x \<and> ?c x \<le> 80" if "\<And>r. x = Some r \<Longrightarrow> rect_ok r" for x
    using that by (cases x) (auto simp: rect_ok_def as_usize_def desktop_consts)
  obtain s1 where s1: "set_terminal_columns 0 (?c r0) s = Some s1" "seq_ok s1" "sys_rest s s1" "sys_desktop s1 = sys_desktop s"
    using set_columns_ok [OF assms, of 0 "?c r0"] c [OF l(2)] by auto
  obtain s2 where "set_terminal_columns 1 (?c r1) s1 = Some s2" "seq_ok s2" "sys_rest s1 s2" "sys_desktop s2 = sys_desktop s1"
    using set_columns_ok [OF s1(2), of 1 "?c r1"] c [OF l(3)] by auto
  then show ?thesis using s1 l(1) sys_rest_trans by (auto simp: sync_terminal_widths_def)
qed

lemma with_desktop_ok: "seq_ok s \<Longrightarrow> desktop_inv d \<Longrightarrow> seq_ok (s\<lparr>sys_desktop := d\<rparr>) \<and> sys_rest s (s\<lparr>sys_desktop := d\<rparr>)"
  by (simp add: seq_ok_def system_inv_def sys_rest_def)

text \<open>The common end of opening and closing: widths, focus, repaint.\<close>

lemma settle_ok:
  assumes s: "seq_ok s" and d: "desktop_inv d"
  shows "\<exists>s1. sync_terminal_widths (s\<lparr>sys_desktop := d\<rparr>) = Some s1 \<and> sys_desktop s1 = d
    \<and> (\<exists>s'. refresh (set_active_terminal i s1) = Some s' \<and> seq_ok s' \<and> sys_keeps s s' \<and> sys_desktop s' = d)"
proof -
  note sd = with_desktop_ok [OF s d]
  obtain s1 where s1: "sync_terminal_widths (s\<lparr>sys_desktop := d\<rparr>) = Some s1" "seq_ok s1"
    "sys_rest (s\<lparr>sys_desktop := d\<rparr>) s1" "sys_desktop s1 = d"
    using sync_ok [of "s\<lparr>sys_desktop := d\<rparr>"] sd by auto
  obtain s' where "refresh (set_active_terminal i s1) = Some s'" "seq_ok s'" "sys_rest (set_active_terminal i s1) s'"
    "sys_desktop s' = sys_desktop (set_active_terminal i s1)" "painted s'"
    using refresh_ok [OF set_active_ok(1) [OF s1(2)]] by blast
  then show ?thesis using s1 set_active_ok(2) [of s1 i] set_active_ok(3) [of i s1] sd sys_rest_trans sys_keeps_def by metis
qed

lemma close_terminal_ok:
  assumes "seq_ok s"
  shows "\<exists>s'. close_terminal n s = Some s' \<and> seq_ok s' \<and> sys_keeps s s'
    \<and> d_open (sys_desktop s') = (d_open (sys_desktop s))[min n 1 := False]"
proof -
  have "desktop_inv (sys_desktop s)" using assms by (simp add: seq_ok_def system_inv_def)
  then obtain d where d: "close_desktop (sys_desktop s) n = Some d" "desktop_inv d"
    "d_open d = (d_open (sys_desktop s))[min n 1 := False]" using close_desktop_spec by blast
  obtain s1 s' where "sync_terminal_widths (s\<lparr>sys_desktop := d\<rparr>) = Some s1" "sys_desktop s1 = d"
    "refresh (set_active_terminal (d_active d) s1) = Some s'" "seq_ok s'" "sys_keeps s s'" "sys_desktop s' = d"
    using settle_ok [OF assms d(2), of "d_active d"] by blast
  then show ?thesis using d by (simp add: close_terminal_def)
qed

lemma open_terminal_ok:
  assumes "seq_ok s"
  shows "\<exists>s' r. open_terminal s = Some (s', r) \<and> seq_ok s' \<and> sys_keeps s s'
    \<and> (case r of None \<Rightarrow> s' = s \<and> list_all (\<lambda>o'. o') (d_open (sys_desktop s))
       | Some i \<Rightarrow> i < 2 \<and> \<not> d_open (sys_desktop s) ! i
           \<and> d_open (sys_desktop s') = (d_open (sys_desktop s))[i := True] \<and> d_active (sys_desktop s') = i)"
proof -
  have "desktop_inv (sys_desktop s)" using assms by (simp add: seq_ok_def system_inv_def)
  from open_desktop_spec [OF this] obtain d r where d: "open_desktop (sys_desktop s) = Some (d, r)" "desktop_inv d"
    "case r of None \<Rightarrow> d = sys_desktop s \<and> list_all (\<lambda>o'. o') (d_open (sys_desktop s))
       | Some i \<Rightarrow> i < 2 \<and> \<not> d_open (sys_desktop s) ! i \<and> d_open d = (d_open (sys_desktop s))[i := True] \<and> d_active d = i"
    by blast
  show ?thesis
  proof (cases r)
    case None
    then show ?thesis using d assms by (simp add: open_terminal_def)
  next
    case (Some i)
    obtain s1 s' where "sync_terminal_widths (s\<lparr>sys_desktop := d\<rparr>) = Some s1"
      "refresh (set_active_terminal i s1) = Some s'" "seq_ok s'" "sys_keeps s s'" "sys_desktop s' = d"
      using settle_ok [OF assms d(2), of i] by blast
    then show ?thesis using d Some by (simp add: open_terminal_def)
  qed
qed

section \<open>The shells and their terminals\<close>

text \<open>A slot between a change of the widths and the reset of its shell, and a slot at rest.\<close>

definition slot_kept :: "System \<Rightarrow> Shell option list \<Rightarrow> nat \<Rightarrow> bool" where
  "slot_kept s shells i = (case shells ! i of
      None \<Rightarrow> \<not> d_open (sys_desktop s) ! i
    | Some sh \<Rightarrow> history_inv (sh_history sh))"

definition slot_ok :: "System \<Rightarrow> Shell option list \<Rightarrow> nat \<Rightarrow> bool" where
  "slot_ok s shells i \<longleftrightarrow> slot_kept s shells i
     \<and> (\<forall>sh. shells ! i = Some sh \<and> d_open (sys_desktop s) ! i \<longrightarrow> shell_ok sh (sys_terminals s ! i))"

definition shells_ok :: "System \<Rightarrow> Shell option list \<Rightarrow> bool" where
  "shells_ok s shells \<longleftrightarrow> length shells = 2 \<and> slot_ok s shells 0 \<and> slot_ok s shells 1"

abbreviation histories :: "Shell option list \<Rightarrow> History option list" where
  "histories shells \<equiv> map (map_option sh_history) shells"

lemma slot_ok_frame:
  assumes "shells' ! j = shells ! j" "sys_terminals s' ! j = sys_terminals s ! j" "sys_desktop s' = sys_desktop s"
  shows "slot_kept s' shells' j = slot_kept s shells j" "slot_ok s' shells' j = slot_ok s shells j"
  using assms by (simp_all add: slot_kept_def slot_ok_def cong: option.case_cong)

lemma desktop_open_len: "seq_ok s \<Longrightarrow> length (d_open (sys_desktop s)) = 2"
  by (simp add: seq_ok_def system_inv_def desktop_inv_def screen_inv_def)

lemma is_open_eq: "seq_ok s \<Longrightarrow> i < 2 \<Longrightarrow> is_open (sys_desktop s) i = Some (d_open (sys_desktop s) ! i)"
  using desktop_open_len [of s] by (simp add: is_open_def arr_get_def min_def)

text \<open>A shell operation on the terminal of its slot.\<close>

lemma slot_step:
  assumes s: "seq_ok s" "i < 2" and sh: "shells ! i = Some sh" "length shells = 2"
    and step: "step_ok sh (set_active_terminal i s) r"
  shows "\<exists>sh' s'. r = Some (sh', s') \<and> seq_ok s' \<and> sys_keeps s s' \<and> sys_desktop s' = sys_desktop s
    \<and> slot_ok s' (shells[i := Some sh']) i \<and> (\<forall>j. j \<noteq> i \<longrightarrow> slot_ok s' (shells[i := Some sh']) j = slot_ok s shells j)
    \<and> (\<forall>j. j \<noteq> i \<longrightarrow> slot_kept s' (shells[i := Some sh']) j = slot_kept s shells j)
    \<and> sh_info sh' = sh_info sh"
proof -
  obtain sh' s' where r: "r = Some (sh', s')" "seq_ok s'" "sys_frame i (set_active_terminal i s) s'"
    "shell_ok sh' (sys_terminals s' ! i)" "sh_info sh' = sh_info sh"
    using step s(2) by (auto simp: step_ok_def sys_frame_def set_active_terminal_def min_def)
  have f: "sys_keeps s s'" "sys_desktop s' = sys_desktop s" "\<And>j. j \<noteq> i \<Longrightarrow> sys_terminals s' ! j = sys_terminals s ! j"
    using frame_keeps [OF r(3)] r(3) set_active_keeps set_active_ok(3,4) sys_keeps_trans by (auto simp: sys_frame_def set_active_terminal_def sys_keeps_def sys_rest_def)
  have "slot_ok s' (shells[i := Some sh']) i" using r(4) s(2) sh(2) by (simp add: slot_ok_def slot_kept_def shell_ok_def)
  moreover have "slot_ok s' (shells[i := Some sh']) j = slot_ok s shells j"
    "slot_kept s' (shells[i := Some sh']) j = slot_kept s shells j" if "j \<noteq> i" for j
    using slot_ok_frame [of "shells[i := Some sh']" j shells s' s] f that by simp_all
  ultimately show ?thesis using r f by blast
qed

lemma resize_shell_ok:
  assumes s: "seq_ok s" "length shells = 2" "i < 2" and k: "slot_kept s shells i"
    and fresh: "fresh = Some i \<Longrightarrow> slot_ok s shells i"
  shows "\<exists>shells' s'. resize_shell fresh i (shells, s) = Some (shells', s') \<and> seq_ok s' \<and> sys_keeps s s'
    \<and> sys_desktop s' = sys_desktop s \<and> length shells' = 2 \<and> slot_ok s' shells' i
    \<and> (\<forall>j. j \<noteq> i \<longrightarrow> slot_ok s' shells' j = slot_ok s shells j)
    \<and> (\<forall>j. j \<noteq> i \<longrightarrow> slot_kept s' shells' j = slot_kept s shells j) \<and> histories shells' = histories shells"
proof (cases "d_open (sys_desktop s) ! i \<and> fresh \<noteq> Some i")
  case False
  then have "slot_ok s shells i" using k fresh by (auto simp: slot_ok_def)
  then show ?thesis using False s by (auto simp: resize_shell_def is_open_eq)
next
  case True
  then obtain sh where sh: "shells ! i = Some sh" "history_inv (sh_history sh)"
    using k by (auto simp: slot_kept_def split: option.splits)
  have "step_ok sh (set_active_terminal i s) (reset_for_resize sh (set_active_terminal i s))"
    by (rule reset_for_resize_ok [OF set_active_ok(1) [OF s(1)] sh(2)])
  from slot_step [OF s(1,3) sh(1) s(2) this] obtain sh' s' where
    r: "reset_for_resize sh (set_active_terminal i s) = Some (sh', s')" "seq_ok s'" "sys_keeps s s'"
    "sys_desktop s' = sys_desktop s" "slot_ok s' (shells[i := Some sh']) i"
    "\<forall>j. j \<noteq> i \<longrightarrow> slot_ok s' (shells[i := Some sh']) j = slot_ok s shells j"
    "\<forall>j. j \<noteq> i \<longrightarrow> slot_kept s' (shells[i := Some sh']) j = slot_kept s shells j" by blast
  have "histories (shells[i := Some sh']) = histories shells"
    using reset_for_resize_fields [OF r(1)] sh(1) s(2,3) by (simp add: map_update list_update_same_conv)
  then show ?thesis
    using r s sh(1) True by (simp add: resize_shell_def is_open_eq arr_get_def arr_set_def)
qed

lemma resize_open_shells_ok:
  assumes s: "seq_ok s" "length shells = 2" and k: "slot_kept s shells 0" "slot_kept s shells 1"
    and fresh: "\<And>i. fresh = Some i \<Longrightarrow> slot_ok s shells i"
  shows "\<exists>shells' s'. resize_open_shells shells fresh s = Some (shells', s') \<and> seq_ok s' \<and> sys_keeps s s'
    \<and> sys_desktop s' = sys_desktop s \<and> shells_ok s' shells' \<and> histories shells' = histories shells"
proof -
  obtain sh1 s1 where s1: "resize_shell fresh 0 (shells, s) = Some (sh1, s1)" "seq_ok s1" "sys_keeps s s1"
    "sys_desktop s1 = sys_desktop s" "length sh1 = 2" "slot_ok s1 sh1 0"
    "\<And>j. j \<noteq> 0 \<Longrightarrow> slot_ok s1 sh1 j = slot_ok s shells j" "\<And>j. j \<noteq> 0 \<Longrightarrow> slot_kept s1 sh1 j = slot_kept s shells j"
    "histories sh1 = histories shells"
    using resize_shell_ok [OF s, of 0 fresh] k(1) fresh by auto
  obtain sh2 s2 where s2: "resize_shell fresh 1 (sh1, s1) = Some (sh2, s2)" "seq_ok s2" "sys_keeps s1 s2"
    "sys_desktop s2 = sys_desktop s1" "length sh2 = 2" "slot_ok s2 sh2 1"
    "\<And>j. j \<noteq> 1 \<Longrightarrow> slot_ok s2 sh2 j = slot_ok s1 sh1 j" "histories sh2 = histories sh1"
    using resize_shell_ok [OF s1(2,5), of 1 fresh] k(2) fresh s1(7,8) by auto
  let ?s = "set_active_terminal (d_active (sys_desktop s2)) s2"
  have "slot_ok ?s sh2 j = slot_ok s2 sh2 j" for j by (rule slot_ok_frame) (simp_all add: set_active_ok)
  then have "shells_ok ?s sh2" using s1(6) s2(5,6,7) by (simp add: shells_ok_def)
  moreover have "sys_keeps s ?s" using s1(3) s2(3) set_active_keeps sys_keeps_trans by blast
  ultimately show ?thesis
    using s1(1,4,9) s2(1,2,4,8) set_active_ok(1,3) by (simp add: resize_open_shells_def)
qed

section \<open>The loop body\<close>

definition core_ok :: "('q, 'w, 'k) Kernel \<Rightarrow> bool" where
  "core_ok k \<longleftrightarrow> seq_ok (k_sys k) \<and> sys_events (k_sys k) = [] \<and> shells_ok (k_sys k) (k_shells k)"

text \<open>A step of the shell task that returns, keeps the invariant and leaves the input alone.\<close>

definition core_step :: "('q, 'w, 'k) Kernel \<Rightarrow> ('q, 'w, 'k) Kernel option \<Rightarrow> bool" where
  "core_step k r \<longleftrightarrow> (\<exists>k'. r = Some k' \<and> core_ok k' \<and> k_input k' = k_input k \<and> k_dropped k' = k_dropped k
     \<and> k_keyboard k' = k_keyboard k \<and> sys_keeps (k_sys k) (k_sys k'))"

lemma core_active:
  assumes "core_ok k"
  shows "d_active (sys_desktop (k_sys k)) < 2"
    "is_open (sys_desktop (k_sys k)) (d_active (sys_desktop (k_sys k))) = Some (d_open (sys_desktop (k_sys k)) ! d_active (sys_desktop (k_sys k)))"
  using assms is_open_eq [of "k_sys k"] by (auto simp: core_ok_def seq_ok_def system_inv_def desktop_inv_def screen_inv_def)

lemma shells_ok_slot: "shells_ok s shells \<Longrightarrow> i < 2 \<Longrightarrow> slot_ok s shells i"
  by (auto simp: shells_ok_def less_2_cases_iff)

lemma core_okD:
  assumes "core_ok k"
  shows "seq_ok (k_sys k)" "sys_events (k_sys k) = []" "length (k_shells k) = 2"
    "\<And>i. i < 2 \<Longrightarrow> slot_ok (k_sys k) (k_shells k) i"
proof -
  show "seq_ok (k_sys k)" "sys_events (k_sys k) = []" "length (k_shells k) = 2"
    using assms by (simp_all add: core_ok_def shells_ok_def)
  show "slot_ok (k_sys k) (k_shells k) i" if "i < 2" for i
    by (rule shells_ok_slot [OF _ that]) (use assms in \<open>simp add: core_ok_def\<close>)
qed

lemma on_shell_ok:
  assumes k: "seq_ok s" "sys_events s = []" "shells_ok s (k_shells k)" and i: "i < 2" "d_open (sys_desktop s) ! i"
    and f: "\<And>sh. shell_ok sh (active_writer (set_active_terminal i s)) \<Longrightarrow> step_ok sh (set_active_terminal i s) (f sh (k_sys k))"
  shows "\<exists>k' sh sh'. on_shell i f k = Some k' \<and> core_ok k' \<and> k_input k' = k_input k \<and> k_dropped k' = k_dropped k
    \<and> k_keyboard k' = k_keyboard k \<and> sys_keeps s (k_sys k') \<and> sys_desktop (k_sys k') = sys_desktop s
    \<and> f sh (k_sys k) = Some (sh', k_sys k') \<and> k_shells k' = (k_shells k)[i := Some sh']"
proof -
  have so: "slot_ok s (k_shells k) i" "length (k_shells k) = 2" using shells_ok_slot [OF k(3) i(1)] k(3) by (simp_all add: shells_ok_def)
  then obtain sh where sh: "k_shells k ! i = Some sh" "shell_ok sh (sys_terminals s ! i)"
    using i(2) by (auto simp: slot_ok_def slot_kept_def split: option.splits)
  have "shell_ok sh (active_writer (set_active_terminal i s))" using sh(2) i(1) by (simp add: set_active_terminal_def min_def)
  from slot_step [OF k(1) i(1) sh(1) so(2) f [OF this]] obtain sh' s' where r: "f sh (k_sys k) = Some (sh', s')" "seq_ok s'"
    "sys_keeps s s'" "slot_ok s' ((k_shells k)[i := Some sh']) i" "sys_desktop s' = sys_desktop s"
    "\<And>j. j \<noteq> i \<Longrightarrow> slot_ok s' ((k_shells k)[i := Some sh']) j = slot_ok s (k_shells k) j" by blast
  have "slot_ok s' ((k_shells k)[i := Some sh']) j" if "j < 2" for j
    using r(4,6) shells_ok_slot [OF k(3) that] by (cases "j = i") auto
  then have "core_ok (k\<lparr>k_sys := s', k_shells := (k_shells k)[i := Some sh']\<rparr>)"
    using r(2,3) k(2) so(2) by (simp add: core_ok_def shells_ok_def sys_keeps_def sys_rest_def)
  then show ?thesis
    using r(1,3,5) sh(1) so(2) i(1)
    by (intro exI [of _ "k\<lparr>k_sys := s', k_shells := (k_shells k)[i := Some sh']\<rparr>"] exI [of _ sh] exI [of _ sh'])
      (simp add: on_shell_def arr_get_def arr_set_def)
qed

lemma resize_core:
  assumes "seq_ok s" "sys_events s = []" "length shells = 2" "slot_kept s shells 0" "slot_kept s shells 1"
    "\<And>i. fresh = Some i \<Longrightarrow> slot_ok s shells i"
  shows "\<exists>shells' s'. resize_open_shells shells fresh s = Some (shells', s') \<and> histories shells' = histories shells
    \<and> sys_desktop s' = sys_desktop s \<and> core_ok (k\<lparr>k_sys := s', k_shells := shells'\<rparr>) \<and> sys_keeps s s'"
  using resize_open_shells_ok [OF assms(1,3-6)] assms(2) by (fastforce simp: core_ok_def sys_keeps_def sys_rest_def)

lemma run_shell_close_ok:
  assumes "core_ok k"
  shows "\<exists>k'. run_shell_close n k = Some k' \<and> core_ok k' \<and> k_input k' = k_input k \<and> k_dropped k' = k_dropped k \<and> k_keyboard k' = k_keyboard k
    \<and> sys_keeps (k_sys k) (k_sys k')
    \<and> histories (k_shells k') = histories (k_shells k)
    \<and> d_open (sys_desktop (k_sys k')) = (d_open (sys_desktop (k_sys k)))[min n 1 := False]"
proof -
  have k: "seq_ok (k_sys k)" "sys_events (k_sys k) = []" "length (k_shells k) = 2" "\<And>i. i < 2 \<Longrightarrow> slot_ok (k_sys k) (k_shells k) i"
    using core_okD [OF assms] by blast+
  obtain s where s: "close_terminal n (k_sys k) = Some s" "seq_ok s" "sys_keeps (k_sys k) s"
    "d_open (sys_desktop s) = (d_open (sys_desktop (k_sys k)))[min n 1 := False]"
    using close_terminal_ok [OF k(1)] by blast
  have sk: "slot_kept s (k_shells k) i" if "i < 2" for i
    using k(4) [OF that] s(4) that desktop_open_len [OF k(1)]
    by (auto simp: slot_ok_def slot_kept_def nth_list_update split: option.splits)
  obtain shells' s' where r: "resize_open_shells (k_shells k) None s = Some (shells', s')"
    "histories shells' = histories (k_shells k)" "sys_desktop s' = sys_desktop s" "core_ok (k\<lparr>k_sys := s', k_shells := shells'\<rparr>)" "sys_keeps s s'"
    using resize_core [OF s(2) _ k(3), of None k] s(3) k(2) sk by (auto simp: sys_keeps_def sys_rest_def)
  then show ?thesis using s(1,4) sys_keeps_trans [OF s(3)] by (simp add: run_shell_close_def)
qed

lemma run_shell_open_ok:
  assumes "core_ok k"
  shows "\<exists>k'. run_shell_open env info k = Some k' \<and> core_ok k' \<and> k_input k' = k_input k \<and> k_dropped k' = k_dropped k \<and> k_keyboard k' = k_keyboard k
    \<and> sys_keeps (k_sys k) (k_sys k')
    \<and> (\<forall>i<2. k_shells k ! i \<noteq> None \<longrightarrow> histories (k_shells k') ! i = histories (k_shells k) ! i)
    \<and> (\<forall>i<2. \<not> d_open (sys_desktop (k_sys k)) ! i \<longrightarrow> (\<exists>j<2. \<not> d_open (sys_desktop (k_sys k)) ! j
        \<and> d_open (sys_desktop (k_sys k')) = (d_open (sys_desktop (k_sys k)))[j := True] \<and> d_active (sys_desktop (k_sys k')) = j))"
proof -
  have k: "seq_ok (k_sys k)" "sys_events (k_sys k) = []" "length (k_shells k) = 2" "\<And>i. i < 2 \<Longrightarrow> slot_ok (k_sys k) (k_shells k) i"
    using core_okD [OF assms] by blast+
  note len = desktop_open_len [OF k(1)]
  obtain s r where s: "open_terminal (k_sys k) = Some (s, r)" "seq_ok s" "sys_keeps (k_sys k) s"
    "case r of None \<Rightarrow> s = k_sys k \<and> list_all (\<lambda>o'. o') (d_open (sys_desktop (k_sys k)))
       | Some i \<Rightarrow> i < 2 \<and> \<not> d_open (sys_desktop (k_sys k)) ! i
           \<and> d_open (sys_desktop s) = (d_open (sys_desktop (k_sys k)))[i := True] \<and> d_active (sys_desktop s) = i"
    using open_terminal_ok [OF k(1)] by blast
  have ev: "sys_events s = []" using s(3) k(2) by (simp add: sys_keeps_def sys_rest_def)
  show ?thesis
  proof (cases r)
    case None
    then show ?thesis using s assms len by (auto simp: run_shell_open_def list_all_length)
  next
    case (Some i)
    then have i: "i < 2" "\<not> d_open (sys_desktop (k_sys k)) ! i" "d_active (sys_desktop s) = i"
      "d_open (sys_desktop s) = (d_open (sys_desktop (k_sys k)))[i := True]" using s(4) by simp_all
    show ?thesis
    proof (cases "k_shells k ! i")
      case sh: (Some sh)
      have sk: "slot_kept s (k_shells k) j" if "j < 2" for j
        using k(4) [OF that] i(4) that sh len
        by (cases "i = j") (auto simp: slot_ok_def slot_kept_def split: option.splits)
      obtain shells' s' where "resize_open_shells (k_shells k) None s = Some (shells', s')"
        "histories shells' = histories (k_shells k)" "sys_desktop s' = sys_desktop s" "core_ok (k\<lparr>k_sys := s', k_shells := shells'\<rparr>)" "sys_keeps s s'"
        using resize_core [OF s(2) ev k(3), of None k] sk by auto
      then show ?thesis using s(1) Some sh i k(3) sys_keeps_trans [OF s(3)] by (auto simp: run_shell_open_def arr_get_def)
    next
      case None
      obtain sh' s1 where n: "shell_new env info (set_active_terminal i s) = Some (sh', s1)" "seq_ok s1"
        "sys_frame i (set_active_terminal i s) s1" "shell_ok sh' (sys_terminals s1 ! i)"
        using shell_new_ok [OF set_active_ok(1) [OF s(2)], of env info i] i(1)
        by (auto simp: sys_frame_def set_active_terminal_def min_def)
      have f: "sys_keeps s s1" "sys_desktop s1 = sys_desktop s"
        using frame_keeps [OF n(3)] set_active_keeps [of s i] sys_keeps_trans by (auto simp: set_active_terminal_def)
      let ?shells = "(k_shells k)[i := Some sh']"
      have fresh: "slot_ok s1 ?shells i" using n(4) i(1) k(3) by (simp add: slot_ok_def slot_kept_def shell_ok_def)
      have sk: "slot_kept s1 ?shells j" if "j < 2" for j
        using k(4) [OF that] i(4) that fresh len k(3)
        by (cases "i = j") (auto simp: slot_ok_def slot_kept_def f(2) split: option.splits)
      have len': "length ?shells = 2" using k(3) by simp
      have ev1: "sys_events s1 = []" using ev f(1) by (simp add: sys_keeps_def sys_rest_def)
      obtain shells' s' where r: "resize_open_shells ?shells (Some i) s1 = Some (shells', s')"
        "histories shells' = histories ?shells" "sys_desktop s' = sys_desktop s1" "core_ok (k\<lparr>k_sys := s', k_shells := shells'\<rparr>)" "sys_keeps s1 s'"
        using resize_core [OF n(2) ev1 len', of "Some i" k] sk fresh by auto
      have "run_shell_open env info k = Some (k\<lparr>k_sys := s', k_shells := shells'\<rparr>)"
        using s(1) Some None i(1) k(3) n(1) r(1) by (simp add: run_shell_open_def arr_get_def arr_set_def)
      moreover have "histories shells' ! j = histories (k_shells k) ! j" if "j < 2" "k_shells k ! j \<noteq> None" for j
        using r(2) None that k(3) by (cases "j = i") (auto simp: map_update)
      moreover have "sys_keeps (k_sys k) s'" using s(3) f(1) r(5) sys_keeps_trans by blast
      ultimately show ?thesis using r f i by (intro exI [of _ "k\<lparr>k_sys := s', k_shells := shells'\<rparr>"]) auto
    qed
  qed
qed

lemma run_shell_key_ok:
  assumes k: "core_ok k" and env: "env_ok env"
  shows "core_step k (run_shell_key env info key k)"
proof -
  let ?a = "d_active (sys_desktop (k_sys k))"
  note act = core_active [OF k]
  have nop: "core_step k (Some k)" using k by (simp add: core_step_def)
  have close: "core_step k (run_shell_close ?a k)" using run_shell_close_ok [OF k] by (auto simp: core_step_def)
  have opn: "core_step k (run_shell_open env info k)" using run_shell_open_ok [OF k] by (fastforce simp: core_step_def)
  have hk: "core_step k (on_shell ?a (\<lambda>shell s. handle_key env shell key s) (k\<lparr>k_sys := set_active_terminal ?a (k_sys k)\<rparr>))"
    if o': "d_open (sys_desktop (k_sys k)) ! ?a"
  proof -
    let ?k = "k\<lparr>k_sys := set_active_terminal ?a (k_sys k)\<rparr>"
    have "\<exists>k' sh sh'. on_shell ?a (\<lambda>shell s. handle_key env shell key s) ?k = Some k' \<and> core_ok k' \<and> k_input k' = k_input ?k
      \<and> k_dropped k' = k_dropped ?k \<and> k_keyboard k' = k_keyboard ?k \<and> sys_keeps (k_sys k) (k_sys k') \<and> sys_desktop (k_sys k') = sys_desktop (k_sys k)
      \<and> handle_key env sh key (k_sys ?k) = Some (sh', k_sys k') \<and> k_shells k' = (k_shells ?k)[?a := Some sh']"
      by (rule on_shell_ok)
        (use core_okD [OF k] k act(1) o' handle_key_ok [OF set_active_ok(1)] env in \<open>simp_all add: core_ok_def\<close>)
    then show ?thesis by (auto simp: core_step_def)
  qed
  show ?thesis
    using act(2) nop close opn hk by (auto simp: run_shell_key_def Let_def)
qed

text \<open>Draining ends, with an empty queue.\<close>

context input_queue
begin

lemma drain_empties: "\<exists>q'. drain_queue Q q = Some q' \<and> items q' = [] \<and> cap q' = cap q"
proof (induction "length (items q)" arbitrary: q)
  case 0
  then show ?case using q_pop_none [of q] by (simp add: drain_queue.simps)
next
  case (Suc n)
  then obtain x xs where x: "items q = x # xs" "length xs = n" by (metis length_Suc_conv)
  obtain q1 where q1: "q_pop Q q = Some (q1, x)" "items q1 = xs" "cap q1 = cap q" using q_pop_some [OF x(1)] by blast
  then show ?case using Suc(1) [of q1] x(2) by (simp add: drain_queue.simps [of Q q])
qed

end

definition kernel_inv :: "('q \<Rightarrow> InputEvent list) \<Rightarrow> ('q \<Rightarrow> nat) \<Rightarrow> ('q, 'w, 'k) Kernel \<Rightarrow> bool" where
  "kernel_inv items cap k \<longleftrightarrow> core_ok k
     \<and> (\<exists>q. in_queue (k_input k) = Some q \<and> cap q = 100 \<and> length (items q) \<le> 100)"

lemma kernel_inv_core:
  "kernel_inv items cap k \<Longrightarrow> core_step k r \<Longrightarrow> \<exists>k'. r = Some k' \<and> kernel_inv items cap k' \<and> k_input k' = k_input k
    \<and> sys_keeps (k_sys k) (k_sys k')"
  by (auto simp: kernel_inv_def core_step_def)

lemma input_lost_line: "input_lost sh s = Some (sh', s') \<Longrightarrow> sh_line sh' = line_new"
  by (auto simp: input_lost_def set_prompt_def outs_def panic_simps)

context input_queue
begin

text \<open>Lost input: the queue and the partial line are discarded, the decoder starts afresh.\<close>

lemma run_shell_lost_ok:
  assumes "kernel_inv items cap k"
  shows "\<exists>k' q. run_shell_lost Q D k = Some k' \<and> kernel_inv items cap k' \<and> in_queue (k_input k') = Some q \<and> items q = []
    \<and> k_input k' = (k_input k)\<lparr>in_queue := Some q\<rparr> \<and> sys_keeps (k_sys k) (k_sys k')
    \<and> k_keyboard k' = decoder D \<and> k_dropped k' = in_dropped (k_input k') \<and> sys_desktop (k_sys k') = sys_desktop (k_sys k)
    \<and> (\<forall>sh. d_open (sys_desktop (k_sys k)) ! d_active (sys_desktop (k_sys k))
          \<and> k_shells k' ! d_active (sys_desktop (k_sys k)) = Some sh \<longrightarrow> line_text (sh_line sh) = [])"
proof -
  have k: "core_ok k" using assms by (simp add: kernel_inv_def)
  obtain q where q: "in_queue (k_input k) = Some q" "cap q = 100" using assms by (auto simp: kernel_inv_def)
  obtain q' where q': "drain_queue Q q = Some q'" "items q' = []" "cap q' = cap q" using drain_empties by blast
  let ?a = "d_active (sys_desktop (k_sys k))"
  let ?k = "k\<lparr>k_input := (k_input k)\<lparr>in_queue := Some q'\<rparr>, k_keyboard := decoder D, k_dropped := in_dropped (k_input k)\<rparr>"
  have k1: "core_ok ?k" using k by (simp add: core_ok_def)
  note act = core_active [OF k]
  have eq: "run_shell_lost Q D k = (if d_open (sys_desktop (k_sys k)) ! ?a
      then on_shell ?a (\<lambda>shell s. input_lost shell (set_active_terminal ?a s)) ?k else Some ?k)"
    using q(1) q'(1) act by (simp add: run_shell_lost_def drain_input_def Let_def)
  show ?thesis
  proof (cases "d_open (sys_desktop (k_sys k)) ! ?a")
    case False
    then show ?thesis unfolding eq using k1 q q' by (auto simp: kernel_inv_def)
  next
    case True
    have "\<exists>k' sh sh'. on_shell ?a (\<lambda>shell s. input_lost shell (set_active_terminal ?a s)) ?k = Some k' \<and> core_ok k'
      \<and> k_input k' = k_input ?k \<and> k_dropped k' = k_dropped ?k \<and> k_keyboard k' = k_keyboard ?k
      \<and> sys_keeps (k_sys k) (k_sys k') \<and> sys_desktop (k_sys k') = sys_desktop (k_sys k)
      \<and> input_lost sh (set_active_terminal ?a (k_sys ?k)) = Some (sh', k_sys k') \<and> k_shells k' = (k_shells ?k)[?a := Some sh']"
      by (rule on_shell_ok)
        (use core_okD [OF k] k act(1) True input_lost_ok [OF set_active_ok(1)] in \<open>simp_all add: core_ok_def\<close>)
    then obtain k' sh sh' where k': "on_shell ?a (\<lambda>shell s. input_lost shell (set_active_terminal ?a s)) ?k = Some k'" "core_ok k'"
      "k_input k' = k_input ?k" "k_dropped k' = k_dropped ?k" "k_keyboard k' = k_keyboard ?k"
      "sys_desktop (k_sys k') = sys_desktop (k_sys k)"
      "input_lost sh (set_active_terminal ?a (k_sys ?k)) = Some (sh', k_sys k')" "k_shells k' = (k_shells k)[?a := Some sh']"
      "sys_keeps (k_sys k) (k_sys k')"
      by auto
    have "line_text (sh_line sh') = []" using input_lost_line [OF k'(7)] by simp
    then show ?thesis
      unfolding eq using k' True q q'(2,3) act(1) core_okD(3) [OF k] by (auto simp: kernel_inv_def)
  qed
qed

end

section \<open>Steps of the kernel\<close>

text \<open>The mouse changes neither the open terminals nor their contents.\<close>

lemma mouse_motion_open: "mouse_motion d = Some d' \<Longrightarrow> d_open d' = d_open d"
  by (auto simp: mouse_motion_def panic_simps)

lemma mouse_press_open: "mouse_press d = Some (d', evs) \<Longrightarrow> d_open d' = d_open d"
  by (auto simp: mouse_press_def panic_simps Let_def split: option.splits if_splits)

lemma mouse_drag_open: "mouse_drag d = Some d' \<Longrightarrow> d_open d' = d_open d"
  by (auto simp: mouse_drag_def panic_simps Let_def split: option.splits)

lemma mouse_packet_open: "mouse_packet d = Some (d', evs) \<Longrightarrow> d_open d' = d_open d"
  by (auto simp: mouse_packet_def panic_simps split: if_splits
      dest!: mouse_motion_open mouse_press_open mouse_drag_open)

lemma mouse_byte_open: "mouse_byte d b = Some (d', evs, f) \<Longrightarrow> d_open d' = d_open d"
  by (auto simp: mouse_byte_def panic_simps Let_def split: if_splits dest!: mouse_packet_open)

lemma mouse_irq_ok:
  assumes "seq_ok s"
  shows "\<exists>s'. mouse_irq b s = Some s' \<and> seq_ok s' \<and> sys_terminals s' = sys_terminals s
    \<and> d_open (sys_desktop s') = d_open (sys_desktop s)"
proof -
  have inv: "desktop_inv (sys_desktop s)" using assms by (simp add: seq_ok_def system_inv_def)
  obtain d evs f where d: "mouse_byte (sys_desktop s) b = Some (d, evs, f)" "desktop_inv d"
    using mouse_byte_spec [OF inv] by blast
  show ?thesis
    using d mouse_byte_open [OF d(1)] assms
    by (simp add: mouse_irq_def Let_def set_active_terminal_def seq_ok_def system_inv_def min_def)
qed

lemma shells_ok_same:
  assumes "sys_terminals s' = sys_terminals s" "d_open (sys_desktop s') = d_open (sys_desktop s)"
  shows "shells_ok s' shells = shells_ok s shells"
  using assms by (simp add: shells_ok_def slot_ok_def slot_kept_def cong: option.case_cong)

lemma redraw_poll_ok:
  assumes "seq_ok s"
  shows "\<exists>s' b. redraw_poll s = Some (s', b) \<and> seq_ok s' \<and> sys_terminals s' = sys_terminals s
    \<and> sys_desktop s' = sys_desktop s \<and> sys_events s' = sys_events s"
proof -
  have "seq_ok (s\<lparr>sys_redraw := False\<rparr>)" using assms by (simp add: seq_ok_def system_inv_def)
  from refresh_ok [OF this] show ?thesis using assms by (auto simp: redraw_poll_def sys_rest_def)
qed

context input_stream
begin

lemma desktop_action_queue:
  assumes "in_queue inp = Some q" "length (items q) \<le> cap q"
  shows "\<exists>q'. in_queue (desktop_action Q W e inp) = Some q' \<and> cap q' = cap q \<and> length (items q') \<le> cap q'"
  using assms q_push_fits [of q e] q_push_full [of q e]
  by (cases "length (items q) < cap q") (auto simp: desktop_action_def wake_simps)

lemma desktop_actions_queue:
  assumes "in_queue inp = Some q" "length (items q) \<le> cap q"
  shows "\<exists>q'. in_queue (fold (desktop_action Q W) evs inp) = Some q' \<and> cap q' = cap q \<and> length (items q') \<le> cap q'"
  using assms
proof (induction evs arbitrary: inp q)
  case (Cons e evs)
  obtain q1 where "in_queue (desktop_action Q W e inp) = Some q1" "cap q1 = cap q" "length (items q1) \<le> cap q1"
    using desktop_action_queue [OF Cons.prems] by blast
  then show ?case using Cons.IH by fastforce
qed simp

lemma run_shell_event_ok:
  assumes "kernel_inv items cap k" "env_ok env" "in_queue (k_input k) = Some q"
  shows "\<exists>k' q'. run_shell_event Q D env info e k = Some k' \<and> kernel_inv items cap k'
    \<and> k_input k' = (k_input k)\<lparr>in_queue := Some q'\<rparr> \<and> (items q' = items q \<or> items q' = [])
    \<and> sys_keeps (k_sys k) (k_sys k')"
proof (cases "in_dropped (k_input k) \<noteq> k_dropped k")
  case True
  then show ?thesis using run_shell_lost_ok [OF assms(1), of D] by (fastforce simp: run_shell_event_def)
next
  case False
  have core: "core_ok k" using assms(1) by (simp add: kernel_inv_def)
  have cl: "core_step k (run_shell_close n k)" for n using run_shell_close_ok [OF core] by (auto simp: core_step_def)
  have upd: "kernel_inv items cap (k\<lparr>k_keyboard := kb\<rparr>)" "core_ok (k\<lparr>k_keyboard := kb\<rparr>)" for kb
    using assms(1) core by (simp_all add: kernel_inv_def core_ok_def)
  have "\<exists>k'. run_shell_event Q D env info e k = Some k' \<and> kernel_inv items cap k' \<and> k_input k' = k_input k
    \<and> sys_keeps (k_sys k) (k_sys k')"
  proof (cases e)
    case (Scancode b)
    obtain kb key where dec: "decode D b (k_keyboard k) = (kb, key)" by fastforce
    show ?thesis
    proof (cases key)
      case None
      then show ?thesis using False Scancode dec upd(1) by (simp add: run_shell_event_def)
    next
      case (Some x)
      have "run_shell_event Q D env info e k = run_shell_key env info x (k\<lparr>k_keyboard := kb\<rparr>)"
        using False Scancode dec Some by (simp add: run_shell_event_def)
      moreover have "core_step (k\<lparr>k_keyboard := kb\<rparr>) (run_shell_key env info x (k\<lparr>k_keyboard := kb\<rparr>))"
        by (rule run_shell_key_ok [OF upd(2) assms(2)])
      ultimately show ?thesis using kernel_inv_core [OF upd(1)] by simp
    qed
  next
    case OpenTerminal
    have "core_step k (run_shell_key env info (Unicode 0x11) k)" by (rule run_shell_key_ok [OF core assms(2)])
    then show ?thesis using False OpenTerminal kernel_inv_core [OF assms(1)] by (simp add: run_shell_event_def)
  next
    case (CloseTerminal n)
    then show ?thesis using False kernel_inv_core [OF assms(1) cl [of n]] by (simp add: run_shell_event_def)
  qed
  then obtain k' where "run_shell_event Q D env info e k = Some k'" "kernel_inv items cap k'" "k_input k' = k_input k"
    "sys_keeps (k_sys k) (k_sys k')" by blast
  then show ?thesis using assms(3) by (intro exI [of _ k'] exI [of _ q]) simp
qed

lemma poll_shell_ok:
  assumes "kernel_inv items cap k" "env_ok env" "in_queue (k_input k) = Some q"
  shows "\<exists>k' q'. poll_shell Q W D task env info k = Some k' \<and> kernel_inv items cap k'
    \<and> in_queue (k_input k') = Some q' \<and> (items q' = tl (items q) \<or> items q' = [])"
proof (cases "items q")
  case Nil
  then show ?thesis
    using poll_pending [OF assms(3) Nil, of task] assms by (auto simp: poll_shell_def kernel_inv_def core_ok_def)
next
  case (Cons e es)
  obtain q1 where q1: "poll_next Q W task [] [] (k_input k) = Some ((k_input k)\<lparr>in_queue := Some q1\<rparr>, Some e)"
    "items q1 = es" "cap q1 = cap q" using poll_ready [OF assms(3) Cons] by blast
  let ?k = "k\<lparr>k_input := (k_input k)\<lparr>in_queue := Some q1\<rparr>\<rparr>"
  have "kernel_inv items cap ?k" using assms(1,3) q1 Cons by (auto simp: kernel_inv_def core_ok_def)
  from run_shell_event_ok [OF this assms(2), of q1 D info e] show ?thesis
    using q1 Cons by (fastforce simp: poll_shell_def)
qed

lemma kernel_step_ok:
  assumes inv: "kernel_inv items cap k" and env: "\<And>env. e = PollShell env \<Longrightarrow> env_ok env"
  shows "\<exists>k'. kernel_step Q W D task info e k = Some k' \<and> kernel_inv items cap k'"
proof -
  obtain q where q: "in_queue (k_input k) = Some q" "cap q = 100" "length (items q) \<le> 100"
    using inv by (auto simp: kernel_inv_def)
  have k: "core_ok k" using inv by (simp add: kernel_inv_def)
  show ?thesis
  proof (cases e)
    case (IrqMouse b)
    obtain s where s: "mouse_irq b (k_sys k) = Some s" "seq_ok s" "sys_terminals s = sys_terminals (k_sys k)"
      "d_open (sys_desktop s) = d_open (sys_desktop (k_sys k))" using mouse_irq_ok core_okD(1) [OF k] by blast
    have "seq_ok (s\<lparr>sys_events := []\<rparr>)" using s(2) by (simp add: seq_ok_def system_inv_def)
    moreover have "shells_ok (s\<lparr>sys_events := []\<rparr>) (k_shells k)"
      using shells_ok_same [of "s\<lparr>sys_events := []\<rparr>" "k_sys k" "k_shells k"] s k by (simp add: core_ok_def)
    moreover obtain q' where "in_queue (fold (desktop_action Q W) (sys_events s) (k_input k)) = Some q'" "cap q' = 100" "length (items q') \<le> 100"
      using desktop_actions_queue [OF q(1), of "sys_events s"] q by auto
    ultimately show ?thesis
      using s(1) IrqMouse by (simp add: kernel_step_def mouse_interrupt_def kernel_inv_def core_ok_def)
  next
    case (IrqKey b)
    obtain q' r where "in_queue (fold (input_irq Q W) [Scancode b] (k_input k)) = Some q'" "cap q' = cap q" "length (items q') \<le> cap q"
      using irqs_queue [OF q(1), of "[Scancode b]"] q by auto
    then show ?thesis
      using IrqKey k q(2) by (simp add: kernel_step_def keyboard_interrupt_def kernel_inv_def core_ok_def input_irq_def)
  next
    case Repaint
    obtain s b where s: "redraw_poll (k_sys k) = Some (s, b)" "seq_ok s" "sys_terminals s = sys_terminals (k_sys k)"
      "sys_desktop s = sys_desktop (k_sys k)" "sys_events s = sys_events (k_sys k)" using redraw_poll_ok core_okD(1) [OF k] by blast
    have "shells_ok s (k_shells k)" using shells_ok_same [of s "k_sys k"] s k by (simp add: core_ok_def)
    then show ?thesis using Repaint s k q by (simp add: kernel_step_def kernel_inv_def core_ok_def)
  next
    case (PollShell env)
    from poll_shell_ok [OF inv assms(2) [OF PollShell] q(1), of D task info] PollShell
    show ?thesis by (auto simp: kernel_step_def)
  qed
qed

lemma run_shell_start_ok:
  assumes "length vga = 2000"
  shows "\<exists>k. run_shell_start Q W D vga = Some k \<and> kernel_inv items cap k"
proof -
  have "system_inv (system_new vga)" by (rule system_new_inv [OF assms])
  then have "seq_ok (set_active_terminal 0 (system_new vga))"
    using set_active_ok(1) by (simp add: seq_ok_def system_new_def)
  from refresh_ok [OF this] obtain s where s: "refresh (set_active_terminal 0 (system_new vga)) = Some s" "seq_ok s"
    "sys_rest (set_active_terminal 0 (system_new vga)) s" "sys_desktop s = DESKTOP"
    by (auto simp: set_active_terminal_def system_new_def)
  have "sys_events s = []" using s(3) by (simp add: sys_rest_def set_active_terminal_def system_new_def)
  moreover have "shells_ok (set_active_terminal 0 s) [None, None]"
    using s(4) by (simp add: shells_ok_def slot_ok_def slot_kept_def set_active_terminal_def DESKTOP_def)
  ultimately show ?thesis
    using s(1) set_active_ok(1) [OF s(2)] q_new_spec [of 100]
    by (simp add: run_shell_start_def stream_new_def input_new_def kernel_inv_def core_ok_def)
      (simp add: set_active_terminal_def)
qed

text \<open>The shell task empties the queue in as many steps as it holds events.\<close>

lemma polls_empty:
  assumes "kernel_inv items cap k" "list_all env_ok envs" "in_queue (k_input k) = Some q" "length (items q) \<le> length envs"
  shows "\<exists>k' q'. for_each (\<lambda>env. poll_shell Q W D task env info) envs k = Some k' \<and> kernel_inv items cap k'
    \<and> in_queue (k_input k') = Some q' \<and> items q' = []"
  using assms
proof (induction envs arbitrary: k q)
  case (Cons env envs)
  obtain k1 q1 where k1: "poll_shell Q W D task env info k = Some k1" "kernel_inv items cap k1"
    "in_queue (k_input k1) = Some q1" "items q1 = tl (items q) \<or> items q1 = []"
    using poll_shell_ok [OF Cons.prems(1) _ Cons.prems(3), of env D task info] Cons.prems(2) by auto
  have "length (items q1) \<le> length envs" using k1(4) Cons.prems(4) by auto
  then show ?case using Cons.IH [OF k1(2) _ k1(3)] Cons.prems(2) k1(1) by simp
qed simp

end

section \<open>Properties\<close>

definition event_ok :: "kernel_event \<Rightarrow> bool" where
  "event_ok e = (case e of PollShell env \<Rightarrow> env_ok env | _ \<Rightarrow> True)"

text \<open>A decoder for the witnesses: every scancode is a key of its own.\<close>

definition example_decoder :: "(unit, u8, unit) decoder_ops" where
  "example_decoder = \<lparr>kb_us104 = (\<lambda>key _ _. RawKey key), kb_new = (\<lambda>_ _. ()), kb_add_byte = (\<lambda>kb b. (kb, Inr (Some b))),
     kb_process = (\<lambda>kb b. (kb, Some (Unicode (unat b))))\<rparr>"

lemma example_env_ok: "env_ok example_env"
  by (simp add: env_ok_def example_env_def)

text \<open>The kernel's input side never panics. From power-on, whatever bytes the mouse and the keyboard
  send, in whatever order they interleave with repaints and with the events the shell task
  handles, and whatever the keyboard decoder makes of them, every handler returns, every open
  terminal has a shell anchored inside its scrollback, the desktop is in its invariant and the
  queue within its bound. Interrupts fall between two events here.\<close>

theorem kernel_session_safe:
  assumes "input_stream Q items cap W registered" "length vga = 2000" "list_all event_ok es"
  shows "\<exists>k0 k. run_shell_start Q W D vga = Some k0 \<and> for_each (kernel_step Q W D task info) es k0 = Some k
    \<and> kernel_inv items cap k"
proof -
  obtain k0 where k0: "run_shell_start Q W D vga = Some k0" "kernel_inv items cap k0"
    using input_stream.run_shell_start_ok [OF assms(1,2)] by blast
  have "\<exists>k'. kernel_step Q W D task info e k = Some k' \<and> kernel_inv items cap k'"
    if "e \<in> set es" "kernel_inv items cap k" for e and k :: "('a, 'b, 'c) Kernel"
    using input_stream.kernel_step_ok [OF assms(1) that(2), of e D task info] assms(3) that(1)
    by (auto simp: list_all_iff event_ok_def split: kernel_event.splits)
  then show ?thesis
    using for_each_inv [of "kernel_inv items cap" k0 es "kernel_step Q W D task info"] k0 by blast
qed

theorem kernel_session_safe_witness:
  "\<exists>k0 k. run_shell_start list_queue slot_waker example_decoder (replicate 2000 BLANK) = Some k0
    \<and> for_each (kernel_step list_queue slot_waker example_decoder 0 example_info)
        [IrqKey 17, PollShell example_env, IrqKey 104, IrqMouse 9, PollShell example_env, Repaint] k0 = Some k
    \<and> kernel_inv snd fst k"
  by (rule kernel_session_safe [OF list_stream.input_stream_axioms]) (simp_all add: event_ok_def example_env_ok)

text \<open>Input is eventually consumed. However full the queue is, as many iterations of the shell's
  loop as it holds events empty it: no event makes the task stop or feeds the queue again.\<close>

theorem shell_drains_queue:
  assumes "input_stream Q items cap W registered" "kernel_inv items cap k" "list_all env_ok envs"
    "in_queue (k_input k) = Some q" "length (items q) \<le> length envs"
  shows "\<exists>k' q'. for_each (\<lambda>env. poll_shell Q W D task env info) envs k = Some k' \<and> kernel_inv items cap k'
    \<and> in_queue (k_input k') = Some q' \<and> items q' = []"
  by (rule input_stream.polls_empty [OF assms])

lemma example_kernel:
  "\<exists>k. run_shell_start list_queue slot_waker example_decoder (replicate 2000 BLANK) = Some k \<and> kernel_inv snd fst k
    \<and> in_queue (k_input k) = Some (100, [])"
proof -
  obtain k where k: "run_shell_start list_queue slot_waker example_decoder (replicate 2000 BLANK) = Some k" "kernel_inv snd fst k"
    using list_stream.run_shell_start_ok [of "replicate 2000 BLANK" example_decoder] by auto
  then have "in_queue (k_input k) = Some (100, [])"
    by (auto simp: run_shell_start_def stream_new_def input_new_def list_queue_def panic_simps)
  then show ?thesis using k by blast
qed

theorem shell_drains_queue_witness:
  "\<exists>k k' q'. for_each (\<lambda>env. poll_shell list_queue slot_waker example_decoder 0 env example_info) [example_env, example_env] k = Some k'
    \<and> in_queue (k_input k) = Some (100, [Scancode 17, Scancode 97]) \<and> in_queue (k_input k') = Some q' \<and> snd q' = []"
proof -
  obtain k :: "(nat \<times> InputEvent list, nat option, unit) Kernel" where k: "kernel_inv snd fst k" "in_queue (k_input k) = Some (100, [])" using example_kernel by blast
  let ?k = "k\<lparr>k_input := (k_input k)\<lparr>in_queue := Some (100, [Scancode 17, Scancode 97])\<rparr>\<rparr>"
  have i: "kernel_inv snd fst ?k" "in_queue (k_input ?k) = Some (100, [Scancode 17, Scancode 97])"
    using k by (simp_all add: kernel_inv_def core_ok_def)
  have e: "list_all env_ok [example_env, example_env]" by (simp add: example_env_ok)
  have "length (snd (100::nat, [Scancode 17, Scancode 97])) \<le> length [example_env, example_env]" by simp
  from shell_drains_queue [OF list_stream.input_stream_axioms i(1) e i(2) this, of example_decoder 0 example_info] i(2)
  show ?thesis by blast
qed

text \<open>C29: Lost input is discarded as a unit. When scancodes have been dropped since the last event, the
  next one empties the queue, starts a new decoder (so that no modifier stays latched), clears the
  line of the terminal in focus and changes nothing of the desktop, and the shell continues.\<close>

theorem lost_input_discarded:
  assumes "input_stream Q items cap W registered" "kernel_inv items cap k" "in_dropped (k_input k) \<noteq> k_dropped k"
  shows "\<exists>k' q. run_shell_event Q D env info e k = Some k' \<and> kernel_inv items cap k'
    \<and> in_queue (k_input k') = Some q \<and> items q = [] \<and> k_keyboard k' = decoder D
    \<and> k_dropped k' = in_dropped (k_input k') \<and> sys_desktop (k_sys k') = sys_desktop (k_sys k)
    \<and> (\<forall>sh. d_open (sys_desktop (k_sys k)) ! d_active (sys_desktop (k_sys k))
          \<and> k_shells k' ! d_active (sys_desktop (k_sys k)) = Some sh \<longrightarrow> line_text (sh_line sh) = [])"
proof -
  have "input_queue Q items cap" using assms(1) by (simp add: input_stream_def)
  moreover have "run_shell_event Q D env info e k = run_shell_lost Q D k" using assms(3) by (simp add: run_shell_event_def)
  ultimately show ?thesis using input_queue.run_shell_lost_ok [OF _ assms(2), of Q D] by auto
qed

theorem lost_input_discarded_witness:
  "\<exists>(k :: (nat \<times> InputEvent list, nat option, unit) Kernel) k' q. in_dropped (k_input k) = 1 \<and> k_dropped k = 0
    \<and> run_shell_event list_queue example_decoder example_env example_info (Scancode 97) k = Some k'
    \<and> in_queue (k_input k') = Some q \<and> snd q = [] \<and> k_dropped k' = in_dropped (k_input k')"
proof -
  obtain k :: "(nat \<times> InputEvent list, nat option, unit) Kernel" where k: "kernel_inv snd fst k" using example_kernel by blast
  let ?k = "k\<lparr>k_input := (k_input k)\<lparr>in_dropped := 1\<rparr>, k_dropped := 0\<rparr>"
  have "kernel_inv snd fst ?k" "in_dropped (k_input ?k) \<noteq> k_dropped ?k" using k by (simp_all add: kernel_inv_def core_ok_def)
  from lost_input_discarded [OF list_stream.input_stream_axioms this, of example_decoder example_env example_info "Scancode 97"]
  moreover have "in_dropped (k_input ?k) = 1" "k_dropped ?k = 0" by simp_all
  ultimately show ?thesis by blast
qed

text \<open>Closing a terminal and opening one again keeps the command histories: every shell that
  existed has exactly its old history, the invariant holds and the terminal in focus is open.\<close>

theorem history_survives_reopening:
  assumes "core_ok k" "run_shell_close n k = Some k1" "run_shell_open env info k1 = Some k2"
  shows "core_ok k2 \<and> (\<forall>i<2. k_shells k ! i \<noteq> None \<longrightarrow>
      map_option sh_history (k_shells k2 ! i) = map_option sh_history (k_shells k ! i))
    \<and> d_open (sys_desktop (k_sys k2)) ! d_active (sys_desktop (k_sys k2))"
proof -
  have k1: "core_ok k1" "histories (k_shells k1) = histories (k_shells k)"
    "d_open (sys_desktop (k_sys k1)) = (d_open (sys_desktop (k_sys k)))[min n 1 := False]"
    using run_shell_close_ok [OF assms(1), of n] assms(2) by auto
  have k2: "core_ok k2" "\<And>i. i < 2 \<Longrightarrow> k_shells k1 ! i \<noteq> None \<Longrightarrow> histories (k_shells k2) ! i = histories (k_shells k1) ! i"
    "\<And>i. i < 2 \<Longrightarrow> \<not> d_open (sys_desktop (k_sys k1)) ! i \<Longrightarrow> (\<exists>j<2. \<not> d_open (sys_desktop (k_sys k1)) ! j
        \<and> d_open (sys_desktop (k_sys k2)) = (d_open (sys_desktop (k_sys k1)))[j := True] \<and> d_active (sys_desktop (k_sys k2)) = j)"
    using run_shell_open_ok [OF k1(1), of env info] assms(3) by auto
  have len: "length (d_open (sys_desktop (k_sys k))) = 2" "length (k_shells k) = 2" "length (k_shells k1) = 2" "length (k_shells k2) = 2"
    using desktop_open_len core_okD(1,3) assms(1) k1(1) k2(1) by blast+
  have closed: "\<not> d_open (sys_desktop (k_sys k1)) ! min n 1" using k1(3) len(1) by simp
  obtain j where "j < 2" "d_open (sys_desktop (k_sys k2)) = (d_open (sys_desktop (k_sys k1)))[j := True]"
    "d_active (sys_desktop (k_sys k2)) = j" using k2(3) [OF _ closed] by fastforce
  then have "d_open (sys_desktop (k_sys k2)) ! d_active (sys_desktop (k_sys k2))" using k1(3) len(1) by simp
  moreover have "map_option sh_history (k_shells k2 ! i) = map_option sh_history (k_shells k ! i)"
    if "i < 2" "k_shells k ! i \<noteq> None" for i
  proof -
    have a: "map_option sh_history (k_shells k1 ! i) = map_option sh_history (k_shells k ! i)"
      using arg_cong [OF k1(2), of "\<lambda>xs. xs ! i"] that(1) len by simp
    then have "k_shells k1 ! i \<noteq> None" using that(2) by auto
    then show ?thesis using k2(2) [OF that(1)] a that(1) len by simp
  qed
  ultimately show ?thesis using k2(1) by blast
qed

theorem history_survives_reopening_witness:
  "\<exists>(k :: (nat \<times> InputEvent list, nat option, unit) Kernel) k1 k2. run_shell_open example_env example_info k = Some k1 \<and> run_shell_close 0 k1 = Some k2
    \<and> (\<exists>k3. run_shell_open example_env example_info k2 = Some k3 \<and> core_ok k3
    \<and> (\<forall>i<2. k_shells k1 ! i \<noteq> None \<longrightarrow> map_option sh_history (k_shells k3 ! i) = map_option sh_history (k_shells k1 ! i))
    \<and> d_open (sys_desktop (k_sys k3)) ! d_active (sys_desktop (k_sys k3)))"
proof -
  obtain k :: "(nat \<times> InputEvent list, nat option, unit) Kernel" where "kernel_inv snd fst k" using example_kernel by blast
  then have k: "core_ok k" by (simp add: kernel_inv_def)
  obtain k1 where k1: "run_shell_open example_env example_info k = Some k1" "core_ok k1" using run_shell_open_ok [OF k] by blast
  obtain k2 where k2: "run_shell_close 0 k1 = Some k2" "core_ok k2" using run_shell_close_ok [OF k1(2)] by blast
  obtain k3 where k3: "run_shell_open example_env example_info k2 = Some k3" using run_shell_open_ok [OF k2(2)] by blast
  from history_survives_reopening [OF k1(2) k2(1) k3] show ?thesis using k1(1) k2(1) k3 by blast
qed

end
