(* ===== verification/Machine.thy ===== *)
theory Machine
  imports Executor Run_Shell_Safety Timer
begin

text \<open>
  The running kernel: the loop of \<^verbatim>\<open>src/src/task/executor.rs\<close> with the two tasks that \<open>kernel_main\<close> spawns, the
  shell task of \<^verbatim>\<open>src/src/task/keyboard.rs\<close> and the redraw worker of \<^verbatim>\<open>src/src/desktop.rs\<close>, under arbitrary interrupts.

  The tasks advance in steps as small as their use of the two wakers asks for: each access to the
  input queue, to a waker or to the redraw flag is a step of its own, and an interrupt may arrive
  between any two. Handling one input event and painting the screen are single steps. Neither task
  ever completes, so the executor's table of tasks does not change.
\<close>

section \<open>State\<close>

text \<open>Where the processor is: in the executor, in the shell task (with the event it handles), or in
  the redraw worker.\<close>

datatype machine_pc = Exec exec_pc
  | ShellBegin | ShellPop | ShellRegister | ShellPopAgain | ShellTake InputEvent | ShellHandle InputEvent
  | RedrawRegister | RedrawSwap | RedrawRefresh

record ('t, 'q, 'w, 'k) Machine =
  mc_pc :: machine_pc
  mc_enabled :: bool
  mc_ready :: 't
  mc_kernel :: "('q, 'w, 'k) Kernel"
  mc_started :: bool
  mc_redraw_waker :: 'w
  mc_ticks :: u64

text \<open>The identifiers the two tasks get.\<close>

abbreviation (input) SHELL_TASK :: nat where "SHELL_TASK \<equiv> 0"
abbreviation (input) REDRAW_TASK :: nat where "REDRAW_TASK \<equiv> 1"

section \<open>Tasks\<close>

text \<open>The shell task up to its loop, on the statics as interrupts have left them.\<close>

definition shell_begin :: "'q queue_ops \<Rightarrow> ('k, 'e, 'm) decoder_ops \<Rightarrow> ('q, 'w, 'k) Kernel \<Rightarrow> ('q, 'w, 'k) Kernel option" where
  "shell_begin Q D k = do {
     inp \<leftarrow> stream_new Q (k_input k);
     s \<leftarrow> refresh (set_active_terminal 0 (k_sys k));
     Some (k\<lparr>k_input := inp, k_sys := set_active_terminal 0 s, k_shells := [None, None], k_keyboard := decoder D,
       k_dropped := in_dropped inp\<rparr>)
   }"

text \<open>One \<open>queue.pop()\<close> of \<open>poll_next\<close>.\<close>

definition poll_pop :: "'q queue_ops \<Rightarrow> ('q, 'w) Input \<Rightarrow> (('q, 'w) Input \<times> InputEvent option) option" where
  "poll_pop Q inp = do {
     q \<leftarrow> in_queue inp;
     Some (case q_pop Q q of
         Some (q', event) \<Rightarrow> (inp\<lparr>in_queue := Some q'\<rparr>, Some event)
       | None \<Rightarrow> (inp, None))
   }"

text \<open>The steps of the shell task.\<close>

definition shell_advance :: "'q queue_ops \<Rightarrow> 'w waker_ops \<Rightarrow> ('k, 'e, 'm) decoder_ops \<Rightarrow> SystemInfo \<Rightarrow> Env
    \<Rightarrow> ('t, 'q, 'w, 'k) Machine \<Rightarrow> ('t, 'q, 'w, 'k) Machine option" where
  "shell_advance Q W D info env m = (let k = mc_kernel m; inp = k_input k in case mc_pc m of
      ShellBegin \<Rightarrow> do {
        k \<leftarrow> shell_begin Q D k;
        Some (m\<lparr>mc_kernel := k, mc_started := True, mc_pc := ShellPop\<rparr>)
      }
    | ShellPop \<Rightarrow> do {
        (inp, event) \<leftarrow> poll_pop Q inp;
        Some (m\<lparr>mc_kernel := k\<lparr>k_input := inp\<rparr>,
          mc_pc := (case event of Some e \<Rightarrow> ShellHandle e | None \<Rightarrow> ShellRegister)\<rparr>)
      }
    | ShellRegister \<Rightarrow>
        Some (m\<lparr>mc_kernel := k\<lparr>k_input := inp\<lparr>in_waker := wk_register W (in_waker inp) SHELL_TASK\<rparr>\<rparr>, mc_pc := ShellPopAgain\<rparr>)
    | ShellPopAgain \<Rightarrow> do {
        (inp, event) \<leftarrow> poll_pop Q inp;
        Some (m\<lparr>mc_kernel := k\<lparr>k_input := inp\<rparr>,
          mc_pc := (case event of Some e \<Rightarrow> ShellTake e | None \<Rightarrow> Exec RunReady)\<rparr>)
      }
    | ShellTake e \<Rightarrow>
        Some (m\<lparr>mc_kernel := k\<lparr>k_input := inp\<lparr>in_waker := fst (wk_take W (in_waker inp))\<rparr>\<rparr>, mc_pc := ShellHandle e\<rparr>)
    | ShellHandle e \<Rightarrow> do {
        k \<leftarrow> run_shell_event Q D env info e k;
        Some (m\<lparr>mc_kernel := k, mc_pc := ShellPop\<rparr>)
      }
    | _ \<Rightarrow> None)"

text \<open>The steps of the redraw worker.\<close>

definition redraw_advance :: "'w waker_ops \<Rightarrow> ('t, 'q, 'w, 'k) Machine \<Rightarrow> ('t, 'q, 'w, 'k) Machine option" where
  "redraw_advance W m = (let k = mc_kernel m; s = k_sys k in case mc_pc m of
      RedrawRegister \<Rightarrow>
        Some (m\<lparr>mc_redraw_waker := wk_register W (mc_redraw_waker m) REDRAW_TASK, mc_pc := RedrawSwap\<rparr>)
    | RedrawSwap \<Rightarrow>
        Some (m\<lparr>mc_kernel := k\<lparr>k_sys := s\<lparr>sys_redraw := False\<rparr>\<rparr>,
          mc_pc := (if sys_redraw s then RedrawRefresh else Exec RunReady)\<rparr>)
    | RedrawRefresh \<Rightarrow> do {
        s \<leftarrow> refresh s;
        Some (m\<lparr>mc_kernel := k\<lparr>k_sys := s\<rparr>, mc_pc := RedrawRegister\<rparr>)
      }
    | _ \<Rightarrow> None)"

section \<open>The executor\<close>

text \<open>The steps of \<open>run\<close>: take the next task, or go to sleep.\<close>

definition exec_advance :: "'t task_queue \<Rightarrow> exec_pc \<Rightarrow> ('t, 'q, 'w, 'k) Machine \<Rightarrow> ('t, 'q, 'w, 'k) Machine option" where
  "exec_advance T pc m = (case pc of
      RunReady \<Rightarrow> (case q_pop T (mc_ready m) of
          None \<Rightarrow> Some (m\<lparr>mc_pc := Exec DisableInterrupts\<rparr>)
        | Some (q, task_id) \<Rightarrow> Some (m\<lparr>mc_ready := q,
            mc_pc := (if task_id = of_nat SHELL_TASK then if mc_started m then ShellPop else ShellBegin
              else if task_id = of_nat REDRAW_TASK then RedrawRegister else Exec RunReady)\<rparr>))
    | DisableInterrupts \<Rightarrow> Some (m\<lparr>mc_pc := Exec CheckQueue, mc_enabled := False\<rparr>)
    | CheckQueue \<Rightarrow> Some (m\<lparr>mc_pc := Exec (if q_is_empty T (mc_ready m) then EnableAndHlt else EnableInterrupts)\<rparr>)
    | EnableAndHlt \<Rightarrow> Some (m\<lparr>mc_pc := Exec Asleep, mc_enabled := True\<rparr>)
    | EnableInterrupts \<Rightarrow> Some (m\<lparr>mc_pc := Exec RunReady, mc_enabled := True\<rparr>)
    | _ \<Rightarrow> None)"

definition advance :: "'t task_queue \<Rightarrow> 'q queue_ops \<Rightarrow> 'w waker_ops \<Rightarrow> ('k, 'e, 'm) decoder_ops \<Rightarrow> SystemInfo \<Rightarrow> Env
    \<Rightarrow> ('t, 'q, 'w, 'k) Machine \<Rightarrow> ('t, 'q, 'w, 'k) Machine option" where
  "advance T Q W D info env m = (case mc_pc m of
      Exec pc \<Rightarrow> exec_advance T pc m
    | RedrawRegister \<Rightarrow> redraw_advance W m
    | RedrawSwap \<Rightarrow> redraw_advance W m
    | RedrawRefresh \<Rightarrow> redraw_advance W m
    | _ \<Rightarrow> shell_advance Q W D info env m)"

section \<open>Interrupts\<close>

datatype irq = Tick | KeyByte u8 | MouseByte u8

text \<open>\<open>TaskWaker::wake\<close> for the tasks woken through \<open>WAKER\<close>, and \<open>REDRAW_WAKER.wake()\<close>.\<close>

definition deliver_woken :: "'t task_queue \<Rightarrow> ('t, 'q, 'w, 'k) Machine \<Rightarrow> ('t, 'q, 'w, 'k) Machine option" where
  "deliver_woken T m = (let k = mc_kernel m; inp = k_input k in do {
     q \<leftarrow> for_each (wake_task T) (map of_nat (in_woken inp)) (mc_ready m);
     Some (m\<lparr>mc_ready := q, mc_kernel := k\<lparr>k_input := inp\<lparr>in_woken := []\<rparr>\<rparr>\<rparr>)
   })"

definition redraw_wake :: "'t task_queue \<Rightarrow> 'w waker_ops \<Rightarrow> ('t, 'q, 'w, 'k) Machine \<Rightarrow> ('t, 'q, 'w, 'k) Machine option" where
  "redraw_wake T W m = (case wk_take W (mc_redraw_waker m) of
      (w, None) \<Rightarrow> Some (m\<lparr>mc_redraw_waker := w\<rparr>)
    | (w, Some task) \<Rightarrow> do {
        q \<leftarrow> wake_task T (of_nat task) (mc_ready m);
        Some (m\<lparr>mc_redraw_waker := w, mc_ready := q\<rparr>)
      })"

text \<open>An interrupt handler; \<open>None\<close> is its panic. When it returns, a halted processor goes on.\<close>

definition handle_irq :: "'t task_queue \<Rightarrow> 'q queue_ops \<Rightarrow> 'w waker_ops \<Rightarrow> irq
    \<Rightarrow> ('t, 'q, 'w, 'k) Machine \<Rightarrow> ('t, 'q, 'w, 'k) Machine option" where
  "handle_irq T Q W i m = do {
     m \<leftarrow> (case i of
         Tick \<Rightarrow> Some (m\<lparr>mc_ticks := timer_interrupt (mc_ticks m)\<rparr>)
       | KeyByte b \<Rightarrow> deliver_woken T (m\<lparr>mc_kernel := keyboard_interrupt Q W b (mc_kernel m)\<rparr>)
       | MouseByte b \<Rightarrow> do {
           (_, _, finished) \<leftarrow> mouse_byte (sys_desktop (k_sys (mc_kernel m))) b;
           k \<leftarrow> mouse_interrupt Q W b (mc_kernel m);
           m \<leftarrow> deliver_woken T (m\<lparr>mc_kernel := k\<rparr>);
           (if finished then redraw_wake T W m else Some m)
         });
     Some (if mc_pc m = Exec Asleep then m\<lparr>mc_pc := Exec RunReady\<rparr> else m)
   }"

section \<open>Runs\<close>

text \<open>A step is labelled by the interrupt that causes it, if any. \<open>Env\<close> is what the shell's commands
  see of the rest of the system; it may differ from step to step.\<close>

inductive machine_step :: "'t task_queue \<Rightarrow> 'q queue_ops \<Rightarrow> 'w waker_ops \<Rightarrow> ('k, 'e, 'm) decoder_ops \<Rightarrow> SystemInfo \<Rightarrow> Env set
    \<Rightarrow> ('t, 'q, 'w, 'k) Machine \<Rightarrow> irq option \<Rightarrow> ('t, 'q, 'w, 'k) Machine \<Rightarrow> bool"
  for T Q W D info envs where
  run: "mc_pc m \<noteq> Exec Asleep \<Longrightarrow> mc_pc m \<noteq> Exec Panicked \<Longrightarrow> env \<in> envs \<Longrightarrow> advance T Q W D info env m = Some m' \<Longrightarrow>
    machine_step T Q W D info envs m None m'"
| run_panic: "mc_pc m \<noteq> Exec Asleep \<Longrightarrow> mc_pc m \<noteq> Exec Panicked \<Longrightarrow> env \<in> envs \<Longrightarrow> advance T Q W D info env m = None \<Longrightarrow>
    machine_step T Q W D info envs m None (m\<lparr>mc_pc := Exec Panicked\<rparr>)"
| irq: "mc_enabled m \<Longrightarrow> mc_pc m \<noteq> Exec Panicked \<Longrightarrow> handle_irq T Q W i m = Some m' \<Longrightarrow>
    machine_step T Q W D info envs m (Some i) m'"
| irq_panic: "mc_enabled m \<Longrightarrow> mc_pc m \<noteq> Exec Panicked \<Longrightarrow> handle_irq T Q W i m = None \<Longrightarrow>
    machine_step T Q W D info envs m (Some i) (m\<lparr>mc_pc := Exec Panicked\<rparr>)"

inductive_cases machine_stepE: "machine_step T Q W D info envs m l m'"

text \<open>Runs with the labels of their steps. \<open>allowed\<close> says which interrupts arrive at which point;
  \<open>any_time\<close> does not restrict them.\<close>

inductive machine_run :: "(machine_pc \<Rightarrow> irq option \<Rightarrow> bool) \<Rightarrow> 't task_queue \<Rightarrow> 'q queue_ops \<Rightarrow> 'w waker_ops
    \<Rightarrow> ('k, 'e, 'm) decoder_ops \<Rightarrow> SystemInfo \<Rightarrow> Env set
    \<Rightarrow> ('t, 'q, 'w, 'k) Machine \<Rightarrow> irq option list \<Rightarrow> ('t, 'q, 'w, 'k) Machine \<Rightarrow> bool"
  for allowed T Q W D info envs where
  run_nil: "machine_run allowed T Q W D info envs m [] m"
| run_step: "machine_run allowed T Q W D info envs m ls m1 \<Longrightarrow> allowed (mc_pc m1) l \<Longrightarrow> machine_step T Q W D info envs m1 l m' \<Longrightarrow>
    machine_run allowed T Q W D info envs m (ls @ [l]) m'"

definition any_time :: "machine_pc \<Rightarrow> irq option \<Rightarrow> bool" where
  "any_time pc l = True"

text \<open>The points at which the waker of the running task is registered: there an interrupt queues a
  task that is being polled.\<close>

definition calm :: "machine_pc \<Rightarrow> irq option \<Rightarrow> bool" where
  "calm pc l = (case l of
      Some (KeyByte _) \<Rightarrow> (case pc of ShellPopAgain \<Rightarrow> False | ShellTake _ \<Rightarrow> False | _ \<Rightarrow> True)
    | Some (MouseByte _) \<Rightarrow> (case pc of ShellPopAgain \<Rightarrow> False | ShellTake _ \<Rightarrow> False
        | RedrawRegister \<Rightarrow> False | RedrawSwap \<Rightarrow> False | RedrawRefresh \<Rightarrow> False | _ \<Rightarrow> True)
    | _ \<Rightarrow> True)"

text \<open>The statics at power-on; those of the shell task do not exist before its first poll.\<close>

definition kernel_boot :: "'w waker_ops \<Rightarrow> ('k, 'e, 'm) decoder_ops \<Rightarrow> frame \<Rightarrow> ('q, 'w, 'k) Kernel" where
  "kernel_boot W D vga = \<lparr>k_input = input_new W, k_sys = system_new vga, k_shells = [None, None],
     k_keyboard = decoder D, k_dropped = 0\<rparr>"

text \<open>The state in which \<open>kernel_main\<close> calls \<open>executor.run()\<close>: tasks queued, none polled yet.\<close>

definition machine_start :: "'w waker_ops \<Rightarrow> ('q, 'w, 'k) Kernel \<Rightarrow> u64 \<Rightarrow> 't \<Rightarrow> ('t, 'q, 'w, 'k) Machine" where
  "machine_start W k ticks ready = \<lparr>mc_pc = Exec RunReady, mc_enabled = True, mc_ready = ready, mc_kernel = k,
     mc_started = False, mc_redraw_waker = wk_new W, mc_ticks = ticks\<rparr>"

lemma run_shell_start_begin: "run_shell_start Q W D vga = shell_begin Q D (kernel_boot W D vga)"
  by (auto simp: run_shell_start_def shell_begin_def kernel_boot_def stream_new_def input_new_def)

text \<open>The small steps make up \<open>poll_next\<close>: one \<open>pop\<close>, the registration, another \<open>pop\<close>, with interrupts
  around the registration.\<close>

lemma poll_next_small_steps:
  "poll_next Q W task irqs1 irqs2 inp = do {
     (inp, event) \<leftarrow> poll_pop Q inp;
     (case event of
        Some e \<Rightarrow> Some (inp, Some e)
      | None \<Rightarrow> do {
          let inp = fold (input_irq Q W) irqs1 inp;
          let inp = inp\<lparr>in_waker := wk_register W (in_waker inp) task\<rparr>;
          let inp = fold (input_irq Q W) irqs2 inp;
          (inp, event) \<leftarrow> poll_pop Q inp;
          Some (case event of
              Some e \<Rightarrow> (inp\<lparr>in_waker := fst (wk_take W (in_waker inp))\<rparr>, Some e)
            | None \<Rightarrow> (inp, None))
        })
   }"
  by (cases "in_queue inp") (auto simp: poll_next_def poll_pop_def Let_def bind_eq_None_conv split: option.split prod.split intro!: bind_option_cong)

end
