(* ===== verification/Machine_Safety.thy ===== *)
theory Machine_Safety
  imports Machine
begin

text \<open>
  The running kernel keeps its invariant under arbitrary interrupts: every task can be reached (it is
  queued, running, or registered with nothing to do), the data of the components is well formed and
  the screen is up to date or a repaint is on its way. The contracts of the input queue, the wakers
  and the ready queue are the locale \<open>machine_tasks\<close>; the properties rest on it.
\<close>

section \<open>Invariant\<close>

text \<open>The input events waiting; none before the queue exists.\<close>

definition pending :: "('q \<Rightarrow> InputEvent list) \<Rightarrow> ('q, 'w, 'k) Kernel \<Rightarrow> InputEvent list" where
  "pending items k = (case in_queue (k_input k) of None \<Rightarrow> [] | Some q \<Rightarrow> items q)"

text \<open>Before and after the first poll of the shell task.\<close>

definition boot_inv :: "('q, 'w, 'k) Kernel \<Rightarrow> bool" where
  "boot_inv k \<longleftrightarrow> core_ok k \<and> k_shells k = [None, None] \<and> in_queue (k_input k) = None"

definition shell_pc :: "machine_pc \<Rightarrow> bool" where
  "shell_pc pc \<longleftrightarrow> (case pc of ShellPop \<Rightarrow> True | ShellRegister \<Rightarrow> True | ShellTake _ \<Rightarrow> True | ShellHandle _ \<Rightarrow> True | _ \<Rightarrow> False)"

text \<open>The redraw flag is no part of the invariant.\<close>

lemma core_ok_redraw: "core_ok k \<Longrightarrow> core_ok (k\<lparr>k_sys := (k_sys k)\<lparr>sys_redraw := b\<rparr>\<rparr>)"
  using shells_ok_same [of "(k_sys k)\<lparr>sys_redraw := b\<rparr>" "k_sys k" "k_shells k"]
  by (simp add: core_ok_def seq_ok_def system_inv_def)

lemmas shell_pc_simps [simp] = shell_pc_def

locale machine_tasks = stream: input_stream Q items cap W registered + ready: task_queues T titems tcap
  for Q :: "'q queue_ops" and items cap and W :: "'w waker_ops" and registered and T :: "'t task_queue" and titems tcap
begin

text \<open>Every task can be reached: it is queued, or it is running, or its waker is registered and it has
  nothing to do.\<close>

definition shell_live :: "('t, 'q, 'w, 'k) Machine \<Rightarrow> bool" where
  "shell_live m \<longleftrightarrow> (case mc_pc m of
      ShellBegin \<Rightarrow> \<not> mc_started m
    | ShellPopAgain \<Rightarrow> mc_started m \<and> (registered (in_waker (k_input (mc_kernel m))) = Some SHELL_TASK \<or> pending items (mc_kernel m) \<noteq> [])
    | pc \<Rightarrow> if shell_pc pc then mc_started m
        else of_nat SHELL_TASK \<in> set (titems (mc_ready m))
          \<or> mc_started m \<and> registered (in_waker (k_input (mc_kernel m))) = Some SHELL_TASK \<and> pending items (mc_kernel m) = [])"

definition redraw_live :: "('t, 'q, 'w, 'k) Machine \<Rightarrow> bool" where
  "redraw_live m \<longleftrightarrow> (case mc_pc m of
      RedrawRegister \<Rightarrow> True
    | RedrawRefresh \<Rightarrow> True
    | RedrawSwap \<Rightarrow> registered (mc_redraw_waker m) = Some REDRAW_TASK \<or> sys_redraw (k_sys (mc_kernel m))
    | _ \<Rightarrow> of_nat REDRAW_TASK \<in> set (titems (mc_ready m))
          \<or> registered (mc_redraw_waker m) = Some REDRAW_TASK \<and> \<not> sys_redraw (k_sys (mc_kernel m)))"

definition exec_ok :: "('t, 'q, 'w, 'k) Machine \<Rightarrow> bool" where
  "exec_ok m \<longleftrightarrow> (mc_enabled m \<longleftrightarrow> mc_pc m \<notin> Exec ` {CheckQueue, EnableAndHlt, EnableInterrupts})
     \<and> (mc_pc m \<in> Exec ` {EnableAndHlt, Asleep} \<longrightarrow> titems (mc_ready m) = []) \<and> mc_pc m \<noteq> Exec Panicked"

definition data_ok :: "('t, 'q, 'w, 'k) Machine \<Rightarrow> bool" where
  "data_ok m \<longleftrightarrow> (if mc_started m then kernel_inv items cap (mc_kernel m) else boot_inv (mc_kernel m))
     \<and> in_woken (k_input (mc_kernel m)) = []
     \<and> registered (in_waker (k_input (mc_kernel m))) \<in> {None, Some SHELL_TASK}
     \<and> registered (mc_redraw_waker m) \<in> {None, Some REDRAW_TASK}
     \<and> tcap (mc_ready m) = 100 \<and> length (titems (mc_ready m)) \<le> 100
     \<and> set (titems (mc_ready m)) \<subseteq> {of_nat SHELL_TASK, of_nat REDRAW_TASK}"

definition screen_fresh :: "('t, 'q, 'w, 'k) Machine \<Rightarrow> bool" where
  "screen_fresh m \<longleftrightarrow> mc_started m \<longrightarrow>
     painted (k_sys (mc_kernel m)) \<or> sys_redraw (k_sys (mc_kernel m)) \<or> mc_pc m = RedrawRefresh"

definition machine_inv :: "('t, 'q, 'w, 'k) Machine \<Rightarrow> bool" where
  "machine_inv m \<longleftrightarrow> data_ok m \<and> shell_live m \<and> redraw_live m \<and> exec_ok m \<and> screen_fresh m"

lemmas inv_defs = machine_inv_def data_ok_def shell_live_def redraw_live_def exec_ok_def screen_fresh_def

text \<open>The work that is left until the processor sleeps if no interrupt arrives.\<close>

definition rank :: "('t, 'q, 'w, 'k) Machine \<Rightarrow> nat" where
  "rank m = (case mc_pc m of
      Exec pc \<Rightarrow> (case pc of
          RunReady \<Rightarrow> 6
        | DisableInterrupts \<Rightarrow> if titems (mc_ready m) = [] then 3 else 9
        | CheckQueue \<Rightarrow> if titems (mc_ready m) = [] then 2 else 8
        | EnableInterrupts \<Rightarrow> 7
        | EnableAndHlt \<Rightarrow> 1
        | _ \<Rightarrow> 0)
    | ShellBegin \<Rightarrow> 10 | ShellPop \<Rightarrow> 9 | ShellRegister \<Rightarrow> 8 | ShellPopAgain \<Rightarrow> 7 | ShellTake _ \<Rightarrow> 11 | ShellHandle _ \<Rightarrow> 10
    | RedrawRegister \<Rightarrow> 9 | RedrawSwap \<Rightarrow> 8 | RedrawRefresh \<Rightarrow> 10)"

definition work :: "('t, 'q, 'w, 'k) Machine \<Rightarrow> nat" where
  "work m = 20 * (length (pending items (mc_kernel m)) + length (titems (mc_ready m))
     + (if sys_redraw (k_sys (mc_kernel m)) then 1 else 0)) + rank m"

text \<open>A task is queued at most once, and then it is neither running nor registered; only between the
  registration of a waker and its use is a running task registered.\<close>

definition single :: "('t, 'q, 'w, 'k) Machine \<Rightarrow> bool" where
  "single m \<longleftrightarrow> (let queued = count_list (titems (mc_ready m)) (of_nat SHELL_TASK);
      waits = (if registered (in_waker (k_input (mc_kernel m))) = Some SHELL_TASK then 1 else 0) in
      case mc_pc m of
        ShellPopAgain \<Rightarrow> queued = 0
      | ShellTake _ \<Rightarrow> queued = 0
      | ShellBegin \<Rightarrow> queued + waits = 0
      | pc \<Rightarrow> queued + waits \<le> (if shell_pc pc then 0 else 1))
    \<and> (let queued = count_list (titems (mc_ready m)) (of_nat REDRAW_TASK);
      waits = (if registered (mc_redraw_waker m) = Some REDRAW_TASK then 1 else 0) in
      case mc_pc m of RedrawRegister \<Rightarrow> queued = 0 | RedrawSwap \<Rightarrow> queued = 0 | RedrawRefresh \<Rightarrow> queued = 0
      | _ \<Rightarrow> queued + waits \<le> 1)"

text \<open>A step of the running code: it returns, keeps the invariants and makes progress.\<close>

definition good_step :: "('t, 'q, 'w, 'k) Machine \<Rightarrow> ('t, 'q, 'w, 'k) Machine option \<Rightarrow> bool" where
  "good_step m r \<longleftrightarrow> (\<exists>m'. r = Some m' \<and> machine_inv m' \<and> work m' < work m \<and> (single m \<longrightarrow> single m'))"

lemma pop_some:
  assumes "in_queue inp = Some q" "items q = e # es"
  shows "\<exists>q'. poll_pop Q inp = Some (inp\<lparr>in_queue := Some q'\<rparr>, Some e) \<and> items q' = es \<and> cap q' = cap q"
  using stream.q_pop_some [OF assms(2)] assms(1) by (auto simp: poll_pop_def)

lemma pop_none: "in_queue inp = Some q \<Longrightarrow> items q = [] \<Longrightarrow> poll_pop Q inp = Some (inp, None)"
  using stream.q_pop_none [of q] by (simp add: poll_pop_def)

lemma started_queue:
  assumes "data_ok m" "mc_started m"
  shows "\<exists>q. in_queue (k_input (mc_kernel m)) = Some q \<and> pending items (mc_kernel m) = items q \<and> cap q = 100 \<and> length (items q) \<le> 100"
  using assms by (auto simp: data_ok_def kernel_inv_def pending_def)

lemma exec_good:
  assumes inv: "machine_inv m" and pc: "mc_pc m = Exec pc" "pc \<noteq> Asleep"
  shows "good_step m (exec_advance T pc m)"
proof (cases pc)
  case RunReady
  show ?thesis
  proof (cases "titems (mc_ready m)")
    case Nil
    then show ?thesis
      using inv pc RunReady ready.q_pop_none [OF Nil]
      by (auto simp: inv_defs good_step_def exec_advance_def work_def rank_def single_def Let_def)
  next
    case (Cons t ts)
    obtain q where q: "q_pop T (mc_ready m) = Some (q, t)" "titems q = ts" "tcap q = tcap (mc_ready m)"
      using ready.q_pop_some [OF Cons] by blast
    have t: "t = of_nat SHELL_TASK \<or> t = of_nat REDRAW_TASK" using inv Cons by (auto simp: inv_defs)
    let ?m = "m\<lparr>mc_ready := q, mc_pc := (if t = of_nat SHELL_TASK then if mc_started m then ShellPop else ShellBegin else RedrawRegister)\<rparr>"
    have e: "exec_advance T pc m = Some ?m" using RunReady q(1) t by (auto simp: exec_advance_def)
    have "machine_inv ?m" using inv pc RunReady q Cons t by (auto simp: inv_defs)
    moreover have "work ?m < work m" using pc RunReady q(2) Cons by (simp add: work_def rank_def)
    moreover have "single m \<longrightarrow> single ?m" using pc RunReady q(2) Cons t by (auto simp: single_def Let_def)
    ultimately show ?thesis using e by (simp add: good_step_def)
  qed
qed (use inv pc ready.q_is_empty_spec in \<open>auto simp: inv_defs good_step_def exec_advance_def work_def rank_def single_def Let_def\<close>)

lemma redraw_good:
  assumes inv: "machine_inv m" and pc: "mc_pc m \<in> {RedrawRegister, RedrawSwap, RedrawRefresh}"
  shows "good_step m (redraw_advance W m)"
proof -
  let ?k = "mc_kernel m"
  have core: "core_ok ?k" using inv by (auto simp: inv_defs kernel_inv_def boot_inv_def split: if_splits)
  consider (reg) "mc_pc m = RedrawRegister" | (swap) "mc_pc m = RedrawSwap" | (refresh) "mc_pc m = RedrawRefresh" using pc by blast
  then show ?thesis
  proof cases
    case reg
    let ?m = "m\<lparr>mc_redraw_waker := wk_register W (mc_redraw_waker m) REDRAW_TASK, mc_pc := RedrawSwap\<rparr>"
    have "machine_inv ?m" using inv reg stream.wk_register_spec by (auto simp: inv_defs)
    moreover have "work ?m < work m" using reg by (simp add: work_def rank_def)
    moreover have "single m \<longrightarrow> single ?m" using reg by (simp add: single_def)
    ultimately show ?thesis using reg by (simp add: good_step_def redraw_advance_def Let_def)
  next
    case swap
    let ?m = "m\<lparr>mc_kernel := ?k\<lparr>k_sys := (k_sys ?k)\<lparr>sys_redraw := False\<rparr>\<rparr>, mc_pc := (if sys_redraw (k_sys ?k) then RedrawRefresh else Exec RunReady)\<rparr>"
    have e: "redraw_advance W m = Some ?m" using swap by (simp add: redraw_advance_def Let_def)
    have "core_ok (?k\<lparr>k_sys := (k_sys ?k)\<lparr>sys_redraw := False\<rparr>\<rparr>)" using core by (rule core_ok_redraw)
    then have "machine_inv ?m" using inv swap by (auto simp: inv_defs kernel_inv_def boot_inv_def pending_def painted_def)
    moreover have "work ?m < work m" using swap by (simp add: work_def rank_def pending_def)
    moreover have "single m \<longrightarrow> single ?m" using swap by (simp add: single_def Let_def)
    ultimately show ?thesis using e by (simp add: good_step_def)
  next
    case refresh
    obtain s where s: "refresh (k_sys ?k) = Some s" "seq_ok s" "sys_rest (k_sys ?k) s" "sys_desktop s = sys_desktop (k_sys ?k)"
      "sys_terminals s = sys_terminals (k_sys ?k)" "painted s" using refresh_ok core_okD(1) [OF core] by blast
    let ?m = "m\<lparr>mc_kernel := ?k\<lparr>k_sys := s\<rparr>, mc_pc := RedrawRegister\<rparr>"
    have e: "redraw_advance W m = Some ?m" using refresh s(1) by (simp add: redraw_advance_def Let_def)
    have "core_ok (?k\<lparr>k_sys := s\<rparr>)"
      using s core shells_ok_same [of s "k_sys ?k" "k_shells ?k"] by (simp add: core_ok_def sys_rest_def)
    then have "machine_inv ?m" using inv refresh s(3,6) by (auto simp: inv_defs kernel_inv_def boot_inv_def pending_def sys_rest_def)
    moreover have "work ?m < work m" using refresh s(3) by (simp add: work_def rank_def pending_def sys_rest_def)
    moreover have "single m \<longrightarrow> single ?m" using refresh by (simp add: single_def)
    ultimately show ?thesis using e by (simp add: good_step_def)
  qed
qed

lemma shell_begin_ok:
  assumes "boot_inv k"
  shows "\<exists>k' q. shell_begin Q D k = Some k' \<and> kernel_inv items cap k' \<and> k_input k' = (k_input k)\<lparr>in_queue := Some q\<rparr>
    \<and> items q = [] \<and> painted (k_sys k') \<and> sys_redraw (k_sys k') = sys_redraw (k_sys k)
    \<and> sys_desktop (k_sys k') = sys_desktop (k_sys k)"
proof -
  have k: "seq_ok (k_sys k)" "sys_events (k_sys k) = []" "shells_ok (k_sys k) [None, None]" "in_queue (k_input k) = None"
    using assms by (auto simp: boot_inv_def core_ok_def)
  obtain s where s: "refresh (set_active_terminal 0 (k_sys k)) = Some s" "seq_ok s" "sys_rest (set_active_terminal 0 (k_sys k)) s"
    "sys_desktop s = sys_desktop (k_sys k)" "sys_terminals s = sys_terminals (k_sys k)" "painted s"
    using refresh_ok [OF set_active_ok(1) [OF k(1), of 0]] by (auto simp: set_active_ok)
  have "shells_ok (set_active_terminal 0 s) [None, None]"
    using shells_ok_same [of "set_active_terminal 0 s" "k_sys k"] s(4,5) k(3) by (simp add: set_active_ok)
  moreover have "sys_events s = []" "sys_redraw s = sys_redraw (k_sys k)"
    using s(3) k(2) by (simp_all add: sys_rest_def set_active_terminal_def)
  ultimately show ?thesis
    using s(1,4,6) set_active_ok(1) [OF s(2), of 0] k(4) stream.q_new_spec [of 100]
    by (simp add: shell_begin_def stream_new_def kernel_inv_def core_ok_def)
      (auto simp: set_active_terminal_def intro: exI [of _ "q_new Q 100"])
qed

text \<open>The two \<open>pop\<close>s of \<open>poll_next\<close> and the rest of the shell task.\<close>

lemma shell_pop_good:
  assumes inv: "machine_inv m" and pc: "mc_pc m \<in> {ShellPop, ShellPopAgain}"
  shows "good_step m (shell_advance Q W D info env m)"
proof -
  let ?k = "mc_kernel m"
  have st: "mc_started m" using inv pc by (auto simp: inv_defs)
  obtain q where q: "in_queue (k_input ?k) = Some q" "pending items ?k = items q" "cap q = 100" "length (items q) \<le> 100"
    using started_queue [of m] inv st by (auto simp: machine_inv_def)
  show ?thesis
  proof (cases "items q")
    case Nil
    let ?m = "m\<lparr>mc_pc := (if mc_pc m = ShellPop then ShellRegister else Exec RunReady)\<rparr>"
    have e: "shell_advance Q W D info env m = Some ?m"
      using pc pop_none [OF q(1) Nil] by (auto simp: shell_advance_def Let_def)
    have "machine_inv ?m" using inv pc Nil q(2) st by (elim insertE) (simp_all add: inv_defs)
    moreover have "work ?m < work m" using pc by (auto simp: work_def rank_def)
    moreover have "single m \<longrightarrow> single ?m" using pc by (auto simp: single_def Let_def)
    ultimately show ?thesis using e unfolding good_step_def by blast
  next
    case (Cons e es)
    obtain q' where q': "poll_pop Q (k_input ?k) = Some ((k_input ?k)\<lparr>in_queue := Some q'\<rparr>, Some e)" "items q' = es" "cap q' = 100"
      using pop_some [OF q(1) Cons] q(3) by auto
    let ?m = "m\<lparr>mc_kernel := ?k\<lparr>k_input := (k_input ?k)\<lparr>in_queue := Some q'\<rparr>\<rparr>,
      mc_pc := (if mc_pc m = ShellPop then ShellHandle e else ShellTake e)\<rparr>"
    have e: "shell_advance Q W D info env m = Some ?m"
      using pc q'(1) by (auto simp: shell_advance_def Let_def)
    have "kernel_inv items cap (?k\<lparr>k_input := (k_input ?k)\<lparr>in_queue := Some q'\<rparr>\<rparr>)"
      using inv st q' q Cons by (simp add: inv_defs kernel_inv_def core_ok_def)
    then have "machine_inv ?m" using inv pc st by (elim insertE) (simp_all add: inv_defs)
    moreover have "work ?m < work m" using pc q(2) q'(2) Cons by (auto simp: work_def rank_def pending_def)
    moreover have "single m \<longrightarrow> single ?m" using pc by (auto simp: single_def Let_def)
    ultimately show ?thesis using e unfolding good_step_def by blast
  qed
qed

lemma shell_good:
  assumes inv: "machine_inv m" and env: "env_ok env" and pc: "mc_pc m = ShellBegin \<or> mc_pc m = ShellPopAgain \<or> shell_pc (mc_pc m)"
  shows "good_step m (shell_advance Q W D info env m)"
proof (cases "mc_pc m")
  case ShellBegin
  let ?k = "mc_kernel m"
  obtain k q where k: "shell_begin Q D ?k = Some k" "kernel_inv items cap k" "k_input k = (k_input ?k)\<lparr>in_queue := Some q\<rparr>"
    "items q = []" "painted (k_sys k)" "sys_redraw (k_sys k) = sys_redraw (k_sys ?k)"
    using shell_begin_ok [of ?k D] inv ShellBegin by (auto simp: inv_defs)
  let ?m = "m\<lparr>mc_kernel := k, mc_started := True, mc_pc := ShellPop\<rparr>"
  have "machine_inv ?m" using inv ShellBegin k by (auto simp: inv_defs)
  moreover have "work ?m < work m" using ShellBegin k by (simp add: work_def rank_def pending_def)
  moreover have "single m \<longrightarrow> single ?m" using ShellBegin k(3) by (simp add: single_def Let_def)
  ultimately show ?thesis using ShellBegin k(1) by (simp add: good_step_def shell_advance_def)
next
  case ShellRegister
  let ?m = "m\<lparr>mc_kernel := (mc_kernel m)\<lparr>k_input := (k_input (mc_kernel m))\<lparr>in_waker := wk_register W (in_waker (k_input (mc_kernel m))) SHELL_TASK\<rparr>\<rparr>, mc_pc := ShellPopAgain\<rparr>"
  have "machine_inv ?m" using inv ShellRegister stream.wk_register_spec by (auto simp: inv_defs kernel_inv_def core_ok_def pending_def)
  moreover have "work ?m < work m" using ShellRegister by (simp add: work_def rank_def pending_def)
  moreover have "single m \<longrightarrow> single ?m" using ShellRegister stream.wk_register_spec by (simp add: single_def Let_def)
  ultimately show ?thesis using ShellRegister by (simp add: good_step_def shell_advance_def Let_def)
next
  case (ShellTake e)
  let ?m = "m\<lparr>mc_kernel := (mc_kernel m)\<lparr>k_input := (k_input (mc_kernel m))\<lparr>in_waker := fst (wk_take W (in_waker (k_input (mc_kernel m))))\<rparr>\<rparr>, mc_pc := ShellHandle e\<rparr>"
  have "machine_inv ?m" using inv ShellTake stream.wk_take_spec by (auto simp: inv_defs kernel_inv_def core_ok_def pending_def)
  moreover have "work ?m < work m" using ShellTake by (simp add: work_def rank_def pending_def)
  moreover have "single m \<longrightarrow> single ?m" using ShellTake stream.wk_take_spec by (simp add: single_def Let_def)
  ultimately show ?thesis using ShellTake by (simp add: good_step_def shell_advance_def Let_def)
next
  case (ShellHandle e)
  let ?k = "mc_kernel m"
  have st: "mc_started m" "kernel_inv items cap ?k" using inv ShellHandle by (auto simp: inv_defs)
  obtain q where q: "in_queue (k_input ?k) = Some q" "pending items ?k = items q"
    using started_queue [of m] inv st by (auto simp: machine_inv_def)
  obtain k q' where k: "run_shell_event Q D env info e ?k = Some k" "kernel_inv items cap k"
    "k_input k = (k_input ?k)\<lparr>in_queue := Some q'\<rparr>" "items q' = items q \<or> items q' = []" "sys_keeps (k_sys ?k) (k_sys k)"
    using stream.run_shell_event_ok [OF st(2) env q(1), of D info e] by blast
  let ?m = "m\<lparr>mc_kernel := k, mc_pc := ShellPop\<rparr>"
  have "machine_inv ?m" using inv ShellHandle st k by (auto simp: inv_defs sys_keeps_def sys_rest_def)
  moreover have "work ?m < work m" using ShellHandle k q(2) by (auto simp: work_def rank_def pending_def sys_keeps_def sys_rest_def)
  moreover have "single m \<longrightarrow> single ?m" using ShellHandle k(3) by (simp add: single_def Let_def)
  ultimately show ?thesis using ShellHandle k(1) by (simp add: good_step_def shell_advance_def)
qed (use pc shell_pop_good [OF inv] in auto)

lemma advance_good:
  assumes "machine_inv m" "env_ok env" "mc_pc m \<noteq> Exec Asleep"
  shows "good_step m (advance T Q W D info env m)"
proof (cases "mc_pc m")
  case (Exec pc)
  then show ?thesis using exec_good [OF assms(1) Exec] assms(3) by (simp add: advance_def)
qed (use redraw_good [OF assms(1)] shell_good [OF assms(1,2), of D info] in \<open>simp_all add: advance_def\<close>)

end

section \<open>Interrupts keep the invariant\<close>

text \<open>The mouse handler: the events of the packet go to the queue, a finished packet asks for a repaint,
  an unfinished one does not show.\<close>

lemma unfinished_packet: "mouse_byte d b = Some (d', evs, False) \<Longrightarrow> evs = [] \<and> picture d' ts = picture d ts"
  by (auto simp: mouse_byte_def panic_simps Let_def split: if_splits)

lemma mouse_interrupt_eq:
  assumes k: "core_ok k" and d: "mouse_byte (sys_desktop (k_sys k)) b = Some (d, evs, finished)"
  shows "\<exists>s. mouse_interrupt Q W b k = Some (k\<lparr>k_sys := s, k_input := fold (desktop_action Q W) evs (k_input k)\<rparr>)
    \<and> core_ok (k\<lparr>k_sys := s, k_input := fold (desktop_action Q W) evs (k_input k)\<rparr>)
    \<and> sys_redraw s = (finished \<or> sys_redraw (k_sys k)) \<and> (\<not> finished \<longrightarrow> painted s = painted (k_sys k))"
proof -
  obtain s where s: "mouse_irq b (k_sys k) = Some s" "seq_ok s" "sys_terminals s = sys_terminals (k_sys k)"
    "d_open (sys_desktop s) = d_open (sys_desktop (k_sys k))" using mouse_irq_ok core_okD(1) [OF k] by blast
  let ?s = "s\<lparr>sys_events := []\<rparr>"
  have "seq_ok ?s" using s(2) by (simp add: seq_ok_def system_inv_def)
  moreover have "shells_ok ?s (k_shells k)"
    using shells_ok_same [of ?s "k_sys k" "k_shells k"] s k by (simp add: core_ok_def)
  moreover have "sys_events s = evs" "sys_redraw s = (finished \<or> sys_redraw (k_sys k))"
    using s(1) d core_okD(2) [OF k] by (auto simp: mouse_irq_def Let_def set_active_terminal_def split: if_splits)
  moreover have "\<not> finished \<longrightarrow> painted ?s = painted (k_sys k)"
    using s(1) d unfinished_packet [of "sys_desktop (k_sys k)" b d evs "sys_terminals (k_sys k)"]
    by (cases finished) (auto simp: mouse_irq_def Let_def painted_def)
  ultimately show ?thesis using s(1) by (intro exI [of _ ?s]) (simp add: mouse_interrupt_def core_ok_def)
qed

context input_stream
begin

text \<open>Delivering events: the queue is not empty afterwards and its waker has been used.\<close>

lemma actions_queue:
  assumes "in_queue inp = Some q" "length (items q) \<le> cap q" "0 < cap q"
  shows "\<exists>q'. in_queue (fold (desktop_action Q W) evs inp) = Some q' \<and> cap q' = cap q \<and> length (items q') \<le> cap q'
    \<and> (evs \<noteq> [] \<or> items q \<noteq> [] \<longrightarrow> items q' \<noteq> [])"
  using assms
proof (induction evs arbitrary: inp q)
  case (Cons e evs)
  have "\<exists>q1. in_queue (desktop_action Q W e inp) = Some q1 \<and> cap q1 = cap q \<and> length (items q1) \<le> cap q1 \<and> items q1 \<noteq> []"
    using Cons.prems q_push_fits [of q e] q_push_full [of q e]
    by (cases "length (items q) < cap q") (auto simp: desktop_action_def wake_simps)
  then obtain q1 where q1: "in_queue (desktop_action Q W e inp) = Some q1" "cap q1 = cap q" "length (items q1) \<le> cap q1" "items q1 \<noteq> []"
    by blast
  then show ?case using Cons.IH [OF q1(1,3)] Cons.prems(3) by simp
qed simp

lemma actions_wake:
  assumes "in_queue inp = Some q"
  shows "registered (in_waker (fold (desktop_action Q W) evs inp)) = (if evs = [] then registered (in_waker inp) else None)
    \<and> in_woken (fold (desktop_action Q W) evs inp) = in_woken inp
      @ (if evs = [] then [] else case registered (in_waker inp) of None \<Rightarrow> [] | Some t \<Rightarrow> [t])"
  using assms
proof (induction evs arbitrary: inp q)
  case (Cons e evs)
  have i: "registered (in_waker (desktop_action Q W e inp)) = None"
    "in_woken (desktop_action Q W e inp) = in_woken inp @ (case registered (in_waker inp) of None \<Rightarrow> [] | Some t \<Rightarrow> [t])"
    using Cons.prems by (simp_all add: desktop_action_def wake_simps split: option.split)
  obtain q1 where "in_queue (desktop_action Q W e inp) = Some q1"
    using Cons.prems by (cases "q_push Q q e") (auto simp: desktop_action_def wake_simps)
  from Cons.IH [OF this] i show ?case by simp
qed simp

end

lemma actions_uninit: "in_queue inp = None \<Longrightarrow> fold (desktop_action Q W) evs inp = inp"
  by (induction evs) (simp_all add: desktop_action_def)

context machine_tasks
begin

lemma wakes_eq:
  "length (titems q) \<le> tcap q \<Longrightarrow> for_each (wake_task T) ids q = Some q' \<Longrightarrow>
    titems q' = titems q @ ids \<and> tcap q' = tcap q \<and> length (titems q') \<le> tcap q"
  using ready.wakes_fit [of q ids] ready.wakes_overflow [of q ids]
  by (cases "length (titems q) + length ids \<le> tcap q") auto

text \<open>What an interrupt does to the shell's side (\<open>k'\<close>, waking \<open>a\<close>) and to the redraw worker's side
  (\<open>w'\<close>, waking \<open>b\<close>).\<close>

definition input_effect :: "bool \<Rightarrow> ('q, 'w, 'k) Kernel \<Rightarrow> ('q, 'w, 'k) Kernel \<Rightarrow> u64 list \<Rightarrow> bool" where
  "input_effect started k k' a \<longleftrightarrow>
     (if started then kernel_inv items cap k' else boot_inv k') \<and> in_woken (k_input k') = []
     \<and> (a = [] \<and> registered (in_waker (k_input k')) = registered (in_waker (k_input k)) \<and> pending items k' = pending items k
        \<or> started \<and> registered (in_waker (k_input k')) = None \<and> pending items k' \<noteq> []
          \<and> a = (if registered (in_waker (k_input k)) = None then [] else [of_nat SHELL_TASK]))"

definition redraw_effect :: "('q, 'w, 'k) Kernel \<Rightarrow> 'w \<Rightarrow> ('q, 'w, 'k) Kernel \<Rightarrow> 'w \<Rightarrow> u64 list \<Rightarrow> bool" where
  "redraw_effect k w k' w' b \<longleftrightarrow>
     b = [] \<and> w' = w \<and> sys_redraw (k_sys k') = sys_redraw (k_sys k) \<and> painted (k_sys k') = painted (k_sys k)
     \<or> registered w' = None \<and> sys_redraw (k_sys k') \<and> b = (if registered w = None then [] else [of_nat REDRAW_TASK])"

definition irq_result :: "('t, 'q, 'w, 'k) Machine \<Rightarrow> 't \<Rightarrow> ('q, 'w, 'k) Kernel \<Rightarrow> 'w \<Rightarrow> u64 \<Rightarrow> ('t, 'q, 'w, 'k) Machine" where
  "irq_result m q k w t = m\<lparr>mc_ready := q, mc_kernel := k, mc_redraw_waker := w, mc_ticks := t,
     mc_pc := (if mc_pc m = Exec Asleep then Exec RunReady else mc_pc m)\<rparr>"

lemma irq_result_inv:
  assumes inv: "machine_inv m" and en: "mc_enabled m"
    and i: "input_effect (mc_started m) (mc_kernel m) k a" and r: "redraw_effect (mc_kernel m) (mc_redraw_waker m) k w b"
    and q: "titems q = titems (mc_ready m) @ a @ b" "tcap q = 100" "length (titems q) \<le> 100"
  shows "machine_inv (irq_result m q k w t)"
proof -
  let ?m = "irq_result m q k w t"
  have "data_ok ?m"
    using inv i r q by (auto simp: machine_inv_def data_ok_def irq_result_def input_effect_def redraw_effect_def)
  moreover have "exec_ok ?m" using inv en by (auto simp: machine_inv_def exec_ok_def irq_result_def)
  moreover have "screen_fresh ?m" using inv r by (auto simp: machine_inv_def screen_fresh_def irq_result_def redraw_effect_def)
  moreover have "shell_live ?m"
    using inv i q(1) by (cases "mc_pc m") (auto simp: machine_inv_def data_ok_def shell_live_def irq_result_def input_effect_def)
  moreover have "redraw_live ?m"
    using inv r q(1) by (cases "mc_pc m") (auto simp: machine_inv_def data_ok_def redraw_live_def irq_result_def redraw_effect_def)
  ultimately show ?thesis by (simp add: machine_inv_def)
qed

end

context machine_tasks
begin

lemma key_effect:
  assumes "machine_inv m"
  shows "\<exists>k' a. input_effect (mc_started m) (mc_kernel m) k' a \<and> k_sys k' = k_sys (mc_kernel m)
    \<and> deliver_woken T (m\<lparr>mc_kernel := keyboard_interrupt Q W b (mc_kernel m)\<rparr>)
      = map_option (\<lambda>q. m\<lparr>mc_kernel := k', mc_ready := q\<rparr>) (for_each (wake_task T) a (mc_ready m))"
proof -
  let ?k = "mc_kernel m" and ?i = "k_input (mc_kernel m)"
  let ?i' = "input_irq Q W (Scancode b) ?i"
  have d: "data_ok m" using assms by (simp add: machine_inv_def)
  have irq: "keyboard_interrupt Q W b ?k = ?k\<lparr>k_input := ?i'\<rparr>" by (simp add: keyboard_interrupt_def input_irq_def)
  show ?thesis
  proof (cases "mc_started m")
    case False
    then have "?i' = ?i" "input_effect False ?k ?k []"
      using d by (simp_all add: data_ok_def boot_inv_def input_irq_def add_scancode_def input_effect_def)
    then show ?thesis
      using False d by (intro exI [of _ ?k] exI [of _ "[]"]) (simp add: irq deliver_woken_def Let_def data_ok_def)
  next
    case True
    obtain q where q: "in_queue ?i = Some q" "cap q = 100" "length (items q) \<le> 100" using started_queue [OF d True] by blast
    obtain q' where q': "in_queue ?i' = Some q'" "cap q' = 100" "length (items q') \<le> 100" "items q' \<noteq> []"
      using stream.irq_fits [OF q(1), of "Scancode b"] stream.irq_full [OF q(1), of "Scancode b"] q(2,3)
      by (cases "length (items q) < cap q") fastforce+
    let ?k' = "?k\<lparr>k_input := ?i'\<lparr>in_woken := []\<rparr>\<rparr>" and ?a = "if registered (in_waker ?i) = None then [] else [of_nat SHELL_TASK]"
    have w: "registered (in_waker ?i') = None" "map of_nat (in_woken ?i') = ?a"
      using stream.irq_wakes [OF q(1), of "Scancode b"] d by (auto simp: data_ok_def)
    have "kernel_inv items cap ?k'" using d True q' by (simp add: data_ok_def kernel_inv_def core_ok_def)
    then have "input_effect True ?k ?k' ?a" using w(1) q'(1,4) by (simp add: input_effect_def pending_def)
    then show ?thesis
      using True by (intro exI [of _ ?k'] exI [of _ ?a])
        (cases "for_each (wake_task T) ?a (mc_ready m)", simp_all add: irq deliver_woken_def Let_def w(2) del: for_each.simps)
  qed
qed

lemma mouse_effect:
  assumes "machine_inv m" and b: "mouse_byte (sys_desktop (k_sys (mc_kernel m))) b = Some (d, evs, finished)"
  shows "\<exists>k k' a. mouse_interrupt Q W b (mc_kernel m) = Some k \<and> input_effect (mc_started m) (mc_kernel m) k' a
    \<and> sys_redraw (k_sys k') = (finished \<or> sys_redraw (k_sys (mc_kernel m)))
    \<and> (\<not> finished \<longrightarrow> painted (k_sys k') = painted (k_sys (mc_kernel m)))
    \<and> deliver_woken T (m\<lparr>mc_kernel := k\<rparr>) = map_option (\<lambda>q. m\<lparr>mc_kernel := k', mc_ready := q\<rparr>) (for_each (wake_task T) a (mc_ready m))"
proof -
  let ?k = "mc_kernel m" and ?i = "k_input (mc_kernel m)"
  let ?i' = "fold (desktop_action Q W) evs ?i"
  have dt: "data_ok m" using assms by (simp add: machine_inv_def)
  have core: "core_ok ?k" using dt by (auto simp: data_ok_def kernel_inv_def boot_inv_def split: if_splits)
  obtain s where s: "mouse_interrupt Q W b ?k = Some (?k\<lparr>k_sys := s, k_input := ?i'\<rparr>)" "core_ok (?k\<lparr>k_sys := s, k_input := ?i'\<rparr>)"
    "sys_redraw s = (finished \<or> sys_redraw (k_sys ?k))" "\<not> finished \<longrightarrow> painted s = painted (k_sys ?k)"
    using mouse_interrupt_eq [OF core b] by blast
  let ?k' = "?k\<lparr>k_sys := s, k_input := ?i'\<lparr>in_woken := []\<rparr>\<rparr>"
  have core': "core_ok ?k'" using s(2) by (simp add: core_ok_def)
  have "\<exists>a. input_effect (mc_started m) ?k ?k' a \<and> map of_nat (in_woken ?i') = a"
  proof (cases "mc_started m")
    case False
    then have "in_queue ?i = None" using dt by (simp add: data_ok_def boot_inv_def)
    then have "?i' = ?i" by (rule actions_uninit)
    then show ?thesis using False dt core' by (simp add: input_effect_def data_ok_def boot_inv_def pending_def)
  next
    case True
    obtain q where q: "in_queue ?i = Some q" "cap q = 100" "length (items q) \<le> 100" using started_queue [OF dt True] by blast
    obtain q' where q': "in_queue ?i' = Some q'" "cap q' = 100" "length (items q') \<le> 100" "evs \<noteq> [] \<longrightarrow> items q' \<noteq> []"
      using stream.actions_queue [OF q(1), of evs] q(2,3) by auto
    have "kernel_inv items cap ?k'" using core' q' by (simp add: kernel_inv_def)
    then show ?thesis
      using True stream.actions_wake [OF q(1), of evs] q(1) q'(1,4) dt
      by (cases "evs = []") (auto simp: input_effect_def pending_def data_ok_def)
  qed
  then obtain a where a: "input_effect (mc_started m) ?k ?k' a" "map of_nat (in_woken ?i') = a" by blast
  show ?thesis
    using s a by (intro exI [of _ "?k\<lparr>k_sys := s, k_input := ?i'\<rparr>"] exI [of _ ?k'] exI [of _ a])
      (cases "for_each (wake_task T) a (mc_ready m)", simp_all add: deliver_woken_def Let_def)
qed

text \<open>Every interrupt handler changes the state in this way and panics exactly when the tasks it wakes
  do not fit.\<close>

lemma handle_irq_spec:
  assumes inv: "machine_inv m"
  shows "\<exists>k w t a b. input_effect (mc_started m) (mc_kernel m) k a \<and> redraw_effect (mc_kernel m) (mc_redraw_waker m) k w b
    \<and> (i = Tick \<longrightarrow> a = []) \<and> ((\<forall>c. i \<noteq> MouseByte c) \<longrightarrow> b = [])
    \<and> handle_irq T Q W i m = map_option (\<lambda>q. irq_result m q k w t) (for_each (wake_task T) (a @ b) (mc_ready m))"
proof (cases i)
  case Tick
  have "input_effect (mc_started m) (mc_kernel m) (mc_kernel m) []" using inv by (simp add: machine_inv_def data_ok_def input_effect_def)
  then show ?thesis
    using Tick by (intro exI [of _ "mc_kernel m"] exI [of _ "mc_redraw_waker m"] exI [of _ "timer_interrupt (mc_ticks m)"] exI [of _ "[]"])
      (simp add: redraw_effect_def handle_irq_def irq_result_def)
next
  case (KeyByte b)
  obtain k a where k: "input_effect (mc_started m) (mc_kernel m) k a" "k_sys k = k_sys (mc_kernel m)"
    "deliver_woken T (m\<lparr>mc_kernel := keyboard_interrupt Q W b (mc_kernel m)\<rparr>)
      = map_option (\<lambda>q. m\<lparr>mc_kernel := k, mc_ready := q\<rparr>) (for_each (wake_task T) a (mc_ready m))"
    using key_effect [OF inv] by blast
  then show ?thesis
    using KeyByte by (intro exI [of _ k] exI [of _ "mc_redraw_waker m"] exI [of _ "mc_ticks m"] exI [of _ a] exI [of _ "[]"])
      (cases "for_each (wake_task T) a (mc_ready m)", simp_all add: redraw_effect_def handle_irq_def irq_result_def)
next
  case (MouseByte b)
  have "desktop_inv (sys_desktop (k_sys (mc_kernel m)))"
    using inv by (auto simp: machine_inv_def data_ok_def kernel_inv_def boot_inv_def core_ok_def seq_ok_def system_inv_def split: if_splits)
  then obtain d evs finished where b: "mouse_byte (sys_desktop (k_sys (mc_kernel m))) b = Some (d, evs, finished)"
    using mouse_byte_spec by blast
  obtain k0 k a where k: "mouse_interrupt Q W b (mc_kernel m) = Some k0" "input_effect (mc_started m) (mc_kernel m) k a"
    "sys_redraw (k_sys k) = (finished \<or> sys_redraw (k_sys (mc_kernel m)))"
    "\<not> finished \<longrightarrow> painted (k_sys k) = painted (k_sys (mc_kernel m))"
    "deliver_woken T (m\<lparr>mc_kernel := k0\<rparr>) = map_option (\<lambda>q. m\<lparr>mc_kernel := k, mc_ready := q\<rparr>) (for_each (wake_task T) a (mc_ready m))"
    using mouse_effect [OF inv b] by blast
  obtain w r where w: "wk_take W (mc_redraw_waker m) = (w, r)" by fastforce
  then have r: "r = registered (mc_redraw_waker m)" "registered w = None" "r \<in> {None, Some REDRAW_TASK}"
    using stream.wk_take_spec [of "mc_redraw_waker m"] inv by (auto simp: machine_inv_def data_ok_def)
  let ?b = "if finished \<and> r \<noteq> None then [of_nat REDRAW_TASK] else []" and ?w = "if finished then w else mc_redraw_waker m"
  have "redraw_effect (mc_kernel m) (mc_redraw_waker m) k ?w ?b" using r k(3,4) by (auto simp: redraw_effect_def)
  moreover have "handle_irq T Q W i m = map_option (\<lambda>q. irq_result m q k ?w (mc_ticks m)) (for_each (wake_task T) (a @ ?b) (mc_ready m))"
  proof (cases "for_each (wake_task T) a (mc_ready m)")
    case None
    then show ?thesis using MouseByte b k(1,5) by (simp add: handle_irq_def for_each_append)
  next
    case (Some q)
    show ?thesis
    proof (cases "finished \<and> r \<noteq> None")
      case True
      then have "r = Some REDRAW_TASK" using r(3) by auto
      then show ?thesis
        using MouseByte b k(1,5) w Some True
        by (cases "wake_task T (of_nat REDRAW_TASK) q")
          (simp_all add: handle_irq_def redraw_wake_def irq_result_def for_each_append)
    next
      case False
      then show ?thesis using MouseByte b k(1,5) w Some by (auto simp: handle_irq_def redraw_wake_def irq_result_def)
    qed
  qed
  ultimately show ?thesis using k(2) MouseByte by blast
qed

lemma irq_inv:
  assumes "machine_inv m" "mc_enabled m" "handle_irq T Q W i m = Some m'"
  shows "machine_inv m'"
proof -
  obtain k w t a b where e: "input_effect (mc_started m) (mc_kernel m) k a" "redraw_effect (mc_kernel m) (mc_redraw_waker m) k w b"
    "handle_irq T Q W i m = map_option (\<lambda>q. irq_result m q k w t) (for_each (wake_task T) (a @ b) (mc_ready m))"
    using handle_irq_spec [OF assms(1), of i] by blast
  obtain q where q: "for_each (wake_task T) (a @ b) (mc_ready m) = Some q" "m' = irq_result m q k w t"
    using e(3) assms(3) by (cases "for_each (wake_task T) (a @ b) (mc_ready m)") auto
  have "length (titems (mc_ready m)) \<le> tcap (mc_ready m)" "tcap (mc_ready m) = 100" using assms(1) by (simp_all add: machine_inv_def data_ok_def)
  then have "titems q = titems (mc_ready m) @ a @ b" "tcap q = 100" "length (titems q) \<le> 100" using wakes_eq [OF _ q(1)] by auto
  from irq_result_inv [OF assms(1,2) e(1,2) this] show ?thesis using q(2) by simp
qed

end

section \<open>Reachable states\<close>

lemma two_ids: "set xs \<subseteq> {a, b} \<Longrightarrow> a \<noteq> b \<Longrightarrow> length xs = count_list xs a + count_list xs b"
  by (induction xs) auto

context machine_tasks
begin

lemma single_length: "machine_inv m \<Longrightarrow> single m \<Longrightarrow> length (titems (mc_ready m)) \<le> 2"
proof -
  assume m: "machine_inv m" "single m"
  have "count_list (titems (mc_ready m)) 0 \<le> 1" "count_list (titems (mc_ready m)) 1 \<le> 1"
    using m(2) by (cases "mc_pc m", simp_all add: single_def Let_def split: if_splits)+
  then show ?thesis using two_ids [of "titems (mc_ready m)" 0 1] m(1) by (simp add: machine_inv_def data_ok_def)
qed

lemma irq_single:
  assumes inv: "machine_inv m" and s: "single m" and c: "calm (mc_pc m) (Some i)"
  shows "\<exists>m'. handle_irq T Q W i m = Some m' \<and> single m'"
proof -
  obtain k w t a b where e: "input_effect (mc_started m) (mc_kernel m) k a" "redraw_effect (mc_kernel m) (mc_redraw_waker m) k w b"
    "i = Tick \<longrightarrow> a = []" "(\<forall>c. i \<noteq> MouseByte c) \<longrightarrow> b = []"
    "handle_irq T Q W i m = map_option (\<lambda>q. irq_result m q k w t) (for_each (wake_task T) (a @ b) (mc_ready m))"
    using handle_irq_spec [OF inv, of i] by blast
  have d: "data_ok m" using inv by (simp add: machine_inv_def)
  have "length (titems (mc_ready m)) \<le> 2" by (rule single_length [OF inv s])
  moreover have "length a \<le> 1" "length b \<le> 1" using e(1,2) by (auto simp: input_effect_def redraw_effect_def)
  ultimately obtain q where q: "for_each (wake_task T) (a @ b) (mc_ready m) = Some q" "titems q = titems (mc_ready m) @ a @ b"
    using ready.wakes_fit [of "mc_ready m" "a @ b"] d by (auto simp: data_ok_def)
  have a: "count_list a 0 = length a" "count_list b 0 = 0" "count_list a 1 = 0" "count_list b 1 = length b"
    using e(1,2) by (auto simp: input_effect_def redraw_effect_def)
  let ?r = "\<lambda>w t. if registered w = Some t then 1 else 0 :: nat"
  have sh: "length a + ?r (in_waker (k_input k)) SHELL_TASK \<le> ?r (in_waker (k_input (mc_kernel m))) SHELL_TASK"
    using e(1) d by (auto simp: input_effect_def data_ok_def)
  have rd: "length b + ?r w REDRAW_TASK \<le> ?r (mc_redraw_waker m) REDRAW_TASK"
    using e(2) d by (auto simp: redraw_effect_def data_ok_def)
  have shell: "a = []" if "mc_pc m = ShellPopAgain \<or> (\<exists>e. mc_pc m = ShellTake e)" using c e(3) that by (cases i) (auto simp: calm_def)
  have redraw: "b = []" if "mc_pc m \<in> {RedrawRegister, RedrawSwap, RedrawRefresh}" using c e(4) that by (cases i) (auto simp: calm_def)
  have "single (irq_result m q k w t)"
    using s q(2) a sh rd shell redraw by (cases "mc_pc m") (simp_all add: single_def irq_result_def Let_def)
  then show ?thesis using e(5) q(1) by simp
qed

end

context machine_tasks
begin

lemma start_inv:
  assumes "boot_inv k" "in_woken (k_input k) = []" "registered (in_waker (k_input k)) = None"
    "titems q = map of_nat [SHELL_TASK, REDRAW_TASK]" "tcap q = 100"
  shows "machine_inv (machine_start W k ticks q)" "single (machine_start W k ticks q)"
  using assms stream.wk_new_spec by (simp_all add: inv_defs machine_start_def single_def)

lemma step_inv:
  assumes "machine_inv m" "machine_step T Q W D info envs m l m'" "\<forall>env\<in>envs. env_ok env"
  shows "if mc_pc m' = Exec Panicked then (\<exists>i. l = Some i) \<and> 99 \<le> length (titems (mc_ready m)) else machine_inv m'"
  using assms(2)
proof cases
  case (run env)
  then obtain m1 where "advance T Q W D info env m = Some m1" "machine_inv m1"
    using advance_good [OF assms(1), of env D info] assms(3) by (auto simp: good_step_def)
  then show ?thesis using run by (simp add: machine_inv_def exec_ok_def)
next
  case (run_panic env)
  then show ?thesis using advance_good [OF assms(1), of env D info] assms(3) by (auto simp: good_step_def)
next
  case (irq i)
  then show ?thesis using irq_inv [OF assms(1)] by (simp add: machine_inv_def exec_ok_def)
next
  case (irq_panic i)
  obtain k w t a b where e: "input_effect (mc_started m) (mc_kernel m) k a" "redraw_effect (mc_kernel m) (mc_redraw_waker m) k w b"
    "handle_irq T Q W i m = map_option (\<lambda>q. irq_result m q k w t) (for_each (wake_task T) (a @ b) (mc_ready m))"
    using handle_irq_spec [OF assms(1), of i] by blast
  have "length a \<le> 1" "length b \<le> 1" using e(1,2) by (auto simp: input_effect_def redraw_effect_def)
  then have "99 \<le> length (titems (mc_ready m))"
    using ready.wakes_fit [of "mc_ready m" "a @ b"] e(3) irq_panic(5) assms(1)
    by (cases "length (titems (mc_ready m)) + length (a @ b) \<le> 100") (auto simp: machine_inv_def data_ok_def)
  then show ?thesis using irq_panic by simp
qed

lemma run_inv:
  assumes "machine_run allowed T Q W D info envs m0 ls m" "machine_inv m0" "\<forall>env\<in>envs. env_ok env"
  shows "mc_pc m = Exec Panicked \<or> machine_inv m"
  using assms
proof induction
  case (run_step m ls m1 l m')
  have "mc_pc m1 \<noteq> Exec Panicked" using run_step.hyps(3) by cases auto
  then have "machine_inv m1" using run_step by blast
  from step_inv [OF this run_step.hyps(3) run_step.prems(2)] show ?case by (auto split: if_splits)
qed simp

lemma calm_run:
  assumes "machine_run calm T Q W D info envs m0 ls m" "machine_inv m0" "single m0" "\<forall>env\<in>envs. env_ok env"
  shows "machine_inv m \<and> single m"
  using assms
proof induction
  case (run_step m ls m1 l m')
  then have m1: "machine_inv m1" "single m1" by blast+
  from run_step.hyps(3) show ?case
  proof cases
    case (run env)
    then show ?thesis using advance_good [OF m1(1), of env D info] m1(2) run_step.prems(3) by (auto simp: good_step_def)
  next
    case (run_panic env)
    then show ?thesis using advance_good [OF m1(1), of env D info] run_step.prems(3) by (auto simp: good_step_def)
  next
    case (irq i)
    then show ?thesis using irq_inv [OF m1(1) irq(2,4)] irq_single [OF m1, of i] run_step.hyps(2) by auto
  next
    case (irq_panic i)
    then show ?thesis using irq_single [OF m1, of i] run_step.hyps(2) by auto
  qed
qed simp

text \<open>Without interrupts the processor falls asleep within as many steps as there is work.\<close>

lemma run_prepend:
  assumes "machine_run allowed T Q W D info envs m1 ls m'" "machine_step T Q W D info envs m l m1" "allowed (mc_pc m) l"
  shows "machine_run allowed T Q W D info envs m (l # ls) m'"
  using assms
proof (induction rule: machine_run.induct)
  case (run_nil m1)
  then show ?case using machine_run.run_step [OF machine_run.run_nil] by fastforce
next
  case (run_step m1 ls m2 l' m')
  then show ?case using machine_run.run_step [of allowed T Q W D info envs m "l # ls"] by simp
qed

lemma falls_asleep:
  assumes "machine_inv m" "env \<in> envs" "\<forall>env\<in>envs. env_ok env"
  shows "\<exists>n m'. n \<le> work m \<and> machine_run any_time T Q W D info envs m (replicate n None) m' \<and> machine_inv m' \<and> mc_pc m' = Exec Asleep"
  using assms(1)
proof (induction "work m" arbitrary: m rule: less_induct)
  case less
  show ?case
  proof (cases "mc_pc m = Exec Asleep")
    case True
    then show ?thesis using less.prems machine_run.run_nil by (intro exI [of _ 0] exI [of _ m]) (auto intro: machine_run.run_nil)
  next
    case False
    obtain m1 where m1: "advance T Q W D info env m = Some m1" "machine_inv m1" "work m1 < work m"
      using advance_good [OF less.prems _ False, of env D info] assms(2,3) by (auto simp: good_step_def)
    obtain n m' where n: "n \<le> work m1" "machine_run any_time T Q W D info envs m1 (replicate n None) m'" "machine_inv m'" "mc_pc m' = Exec Asleep"
      using less.hyps [OF m1(3,2)] by blast
    have "mc_pc m \<noteq> Exec Panicked" using less.prems by (simp add: machine_inv_def exec_ok_def)
    then have "machine_step T Q W D info envs m None m1" using False assms(2) m1(1) machine_step.run by blast
    then have "machine_run any_time T Q W D info envs m (replicate (Suc n) None) m'" using run_prepend [OF n(2)] by (simp add: any_time_def)
    then show ?thesis using n(1,3,4) m1(3) by (intro exI [of _ "Suc n"] exI [of _ m']) simp
  qed
qed

lemma work_bound: "machine_inv m \<Longrightarrow> work m \<le> 4031"
proof -
  assume m: "machine_inv m"
  have "length (pending items (mc_kernel m)) \<le> 100"
    using m by (auto simp: machine_inv_def data_ok_def kernel_inv_def boot_inv_def pending_def split: if_splits)
  moreover have "length (titems (mc_ready m)) \<le> 100" using m by (simp add: machine_inv_def data_ok_def)
  moreover have "rank m \<le> 11" by (auto simp: rank_def split: machine_pc.split exec_pc.split)
  ultimately show ?thesis by (simp add: work_def)
qed

lemma asleep_done:
  assumes "machine_inv m" "mc_pc m = Exec Asleep"
  shows "mc_started m \<and> titems (mc_ready m) = [] \<and> pending items (mc_kernel m) = []
    \<and> \<not> sys_redraw (k_sys (mc_kernel m)) \<and> painted (k_sys (mc_kernel m))"
  using assms by (auto simp: inv_defs)

end

text \<open>The kernel before the shell task starts: interrupts change the desktop only.\<close>

lemma kernel_boot_inv: "length vga = 2000 \<Longrightarrow> boot_inv (kernel_boot W D vga)"
  using system_new_inv [of vga]
  by (simp add: boot_inv_def kernel_boot_def core_ok_def seq_ok_def shells_ok_def slot_ok_def slot_kept_def input_new_def)
    (simp add: system_new_def DESKTOP_def)

lemma boot_interrupts:
  assumes "length vga = 2000"
  shows "\<exists>k. for_each (mouse_interrupt Q W) bytes (kernel_boot W D vga) = Some k \<and> boot_inv k \<and> k_input k = input_new W"
proof (rule for_each_inv)
  show "boot_inv (kernel_boot W D vga) \<and> k_input (kernel_boot W D vga) = input_new W"
    using kernel_boot_inv [OF assms] by (simp add: kernel_boot_def)
  fix b and k :: "('a, 'b, 'c) Kernel"
  assume k: "boot_inv k \<and> k_input k = input_new W"
  then have c: "core_ok k" "in_queue (k_input k) = None" by (auto simp: boot_inv_def)
  have "desktop_inv (sys_desktop (k_sys k))" using c(1) by (simp add: core_ok_def seq_ok_def system_inv_def)
  then obtain d evs finished where d: "mouse_byte (sys_desktop (k_sys k)) b = Some (d, evs, finished)" using mouse_byte_spec by blast
  have q: "fold (desktop_action Q W) evs (k_input k) = k_input k" by (rule actions_uninit [OF c(2)])
  obtain s where s: "mouse_interrupt Q W b k = Some (k\<lparr>k_sys := s, k_input := k_input k\<rparr>)" "core_ok (k\<lparr>k_sys := s, k_input := k_input k\<rparr>)"
    using mouse_interrupt_eq [OF c(1) d, of Q W] unfolding q by blast
  then show "\<exists>k'. mouse_interrupt Q W b k = Some k' \<and> boot_inv k' \<and> k_input k' = input_new W"
    using k by (auto simp: boot_inv_def)
qed

text \<open>The state in which the executor starts.\<close>

definition executor_starts :: "('t \<Rightarrow> u64 list) \<Rightarrow> ('t \<Rightarrow> nat) \<Rightarrow> 'q queue_ops \<Rightarrow> 'w waker_ops \<Rightarrow> ('k, 'e, 'm) decoder_ops
    \<Rightarrow> frame \<Rightarrow> u8 list \<Rightarrow> ('t, 'q, 'w, 'k) Machine \<Rightarrow> bool" where
  "executor_starts titems tcap Q W D vga bytes m \<longleftrightarrow> length vga = 2000
     \<and> (\<exists>k ticks ready. for_each (mouse_interrupt Q W) bytes (kernel_boot W D vga) = Some k
         \<and> m = machine_start W k ticks ready \<and> titems ready = map of_nat [SHELL_TASK, REDRAW_TASK] \<and> tcap ready = 100)"

context machine_tasks
begin

lemma executor_starts_inv:
  assumes "executor_starts titems tcap Q W D vga bytes m"
  shows "machine_inv m" "single m"
proof -
  obtain k ticks ready where m: "length vga = 2000" "for_each (mouse_interrupt Q W) bytes (kernel_boot W D vga) = Some k"
    "m = machine_start W k ticks ready" "titems ready = map of_nat [SHELL_TASK, REDRAW_TASK]" "tcap ready = 100"
    using assms by (auto simp: executor_starts_def)
  have k: "boot_inv k" "k_input k = input_new W" using boot_interrupts [OF m(1), of Q W bytes D] m(2) by auto
  then have "in_woken (k_input k) = []" "registered (in_waker (k_input k)) = None"
    using stream.wk_new_spec by (simp_all add: input_new_def)
  from start_inv [OF k(1) this m(4,5), of ticks] show "machine_inv m" "single m" by (simp_all add: m(3))
qed

end

section \<open>The contracts hold for the reference queue and waker\<close>

interpretation list_machine: machine_tasks list_queue snd fst slot_waker id list_queue snd fst
  by unfold_locales

lemma machine_tasksI:
  "input_stream Q items cap W registered \<Longrightarrow> array_queue T titems tcap \<Longrightarrow> machine_tasks Q items cap W registered T titems tcap"
  by (simp add: machine_tasks_def task_queues_def)

text \<open>For the witnesses: the machine as the executor starts, and the run in which it falls asleep.\<close>

definition example_start :: "(nat \<times> u64 list, nat \<times> InputEvent list, nat option, unit) Machine" where
  "example_start = machine_start slot_waker (kernel_boot slot_waker example_decoder (replicate 2000 BLANK)) 0 (100, [0, 1])"

lemma example_starts: "executor_starts snd fst list_queue slot_waker example_decoder (replicate 2000 BLANK) [] example_start"
  unfolding executor_starts_def example_start_def
  by (intro conjI exI [of _ "kernel_boot slot_waker example_decoder (replicate 2000 BLANK)"] exI [of _ 0] exI [of _ "(100, [0, 1])"]) simp_all

lemma example_sleeps:
  "\<exists>n m. machine_run any_time list_queue list_queue slot_waker example_decoder example_info {example_env} example_start (replicate n None) m
    \<and> mc_pc m = Exec Asleep"
  using list_machine.falls_asleep [OF list_machine.executor_starts_inv(1) [OF example_starts], of example_env "{example_env}" example_decoder example_info]
    example_env_ok by blast

section \<open>Properties\<close>







end
