(* ===== verification/Machine_Overflow.thy ===== *)
theory Machine_Overflow
  imports Machine_Safety
begin

text \<open>
  How the queue of ready tasks overflows. The redraw worker of \<^verbatim>\<open>src/src/desktop.rs\<close> registers its waker
  before it looks at the redraw flag and leaves it registered while it repaints; a mouse packet in
  that time queues the worker although it is running, and its loop then finds the flag set again. A
  hundred and one such packets in one poll fill the queue of \<^verbatim>\<open>src/src/task/executor.rs\<close>.
\<close>

section \<open>Packets without a button\<close>

lemma packet_byte:
  assumes "desktop_inv d" "d_packet_len d < 2" "d_packet_len d = 0 \<Longrightarrow> b AND 8 \<noteq> 0"
  shows "mouse_byte d b = Some (d\<lparr>d_packet := (d_packet d)[d_packet_len d := b], d_packet_len := d_packet_len d + 1\<rparr>, [], False)"
  using assms by (auto simp: mouse_byte_def desktop_inv_def screen_inv_def arr_set_def Let_def)

lemma packet_end:
  assumes "desktop_inv d" "d_packet_len d = 2" "d_packet d ! 0 AND 1 = 0"
  shows "\<exists>d'. mouse_byte d b = Some (d', [], True) \<and> d_packet_len d' = 0"
proof -
  let ?d = "d\<lparr>d_packet := (d_packet d)[2 := b], d_packet_len := 3\<rparr>"
  have len: "length (d_packet d) = 3" and inv: "screen_inv d" using assms(1) by (auto simp: desktop_inv_def screen_inv_def)
  have "screen_inv ?d" by (rule screen_inv_packet [OF inv]) (simp add: len)
  then obtain d1 where d1: "mouse_motion ?d = Some d1" using mouse_motion_spec by blast
  have "mouse_packet ?d = Some (d1\<lparr>d_drag := None, d_buttons := d_packet d ! 0 AND 7, d_packet_len := 0\<rparr>, [])"
    using d1 assms(3) len by (simp add: mouse_packet_def arr_get_def mouse_drag_def)
  then show ?thesis using assms(2) len by (simp add: mouse_byte_def arr_set_def Let_def)
qed

context machine_tasks
begin

lemma inv_desktop:
  "machine_inv m \<Longrightarrow> desktop_inv (sys_desktop (k_sys (mc_kernel m))) \<and> sys_events (k_sys (mc_kernel m)) = []
    \<and> in_woken (k_input (mc_kernel m)) = []"
  by (auto simp: machine_inv_def data_ok_def kernel_inv_def boot_inv_def core_ok_def seq_ok_def system_inv_def split: if_splits)

lemma irq_byte:
  assumes "machine_inv m" "mc_enabled m" "mc_pc m \<noteq> Exec Asleep" "mouse_byte (sys_desktop (k_sys (mc_kernel m))) b = Some (d, [], False)"
  shows "\<exists>m'. handle_irq T Q W (MouseByte b) m = Some m' \<and> machine_inv m' \<and> mc_pc m' = mc_pc m \<and> mc_enabled m'
    \<and> mc_ready m' = mc_ready m \<and> mc_redraw_waker m' = mc_redraw_waker m \<and> sys_desktop (k_sys (mc_kernel m')) = d"
proof -
  have "\<exists>m'. handle_irq T Q W (MouseByte b) m = Some m' \<and> mc_pc m' = mc_pc m \<and> mc_enabled m'
    \<and> mc_ready m' = mc_ready m \<and> mc_redraw_waker m' = mc_redraw_waker m \<and> sys_desktop (k_sys (mc_kernel m')) = d"
    using assms inv_desktop [OF assms(1)] by (simp add: handle_irq_def mouse_interrupt_def mouse_irq_def deliver_woken_def Let_def)
  then show ?thesis using irq_inv [OF assms(1,2)] by blast
qed

lemma irq_packet:
  assumes "machine_inv m" "mc_enabled m" "mc_pc m \<noteq> Exec Asleep" "mouse_byte (sys_desktop (k_sys (mc_kernel m))) b = Some (d, [], True)"
    "registered (mc_redraw_waker m) = Some REDRAW_TASK"
  shows "\<exists>g. handle_irq T Q W (MouseByte b) m = map_option g (wake_task T (of_nat REDRAW_TASK) (mc_ready m))
    \<and> (\<forall>q. mc_pc (g q) = mc_pc m \<and> mc_enabled (g q) \<and> mc_ready (g q) = q \<and> sys_desktop (k_sys (mc_kernel (g q))) = d
        \<and> sys_redraw (k_sys (mc_kernel (g q))))"
proof -
  obtain w where w: "wk_take W (mc_redraw_waker m) = (w, Some REDRAW_TASK)"
    using stream.wk_take_spec [of "mc_redraw_waker m"] assms(5) by (metis prod.collapse)
  let ?k = "(mc_kernel m)\<lparr>k_sys := ((set_active_terminal (d_active d) ((k_sys (mc_kernel m))\<lparr>sys_desktop := d\<rparr>))\<lparr>sys_redraw := True, sys_events := []\<rparr>),
    k_input := (k_input (mc_kernel m))\<lparr>in_woken := []\<rparr>\<rparr>"
  have "handle_irq T Q W (MouseByte b) m = map_option (\<lambda>q. m\<lparr>mc_kernel := ?k, mc_redraw_waker := w, mc_ready := q\<rparr>)
      (wake_task T (of_nat REDRAW_TASK) (mc_ready m))"
    using assms(3,4) inv_desktop [OF assms(1)] w
    by (cases "wake_task T (of_nat REDRAW_TASK) (mc_ready m)")
      (simp_all add: handle_irq_def mouse_interrupt_def mouse_irq_def deliver_woken_def redraw_wake_def set_active_terminal_def Let_def)
  then show ?thesis using assms(2) by (intro exI) (auto simp: set_active_terminal_def)
qed

end

section \<open>One repaint with a packet in it\<close>

lemma run_trans:
  assumes "machine_run allowed T Q W D info envs m1 ls' m2" "machine_run allowed T Q W D info envs m ls m1"
  shows "machine_run allowed T Q W D info envs m (ls @ ls') m2"
  using assms
proof induction
  case (run_step m1 ls' m3 l m')
  then have "machine_run allowed T Q W D info envs m ((ls @ ls') @ [l]) m'" using machine_run.run_step by blast
  then show ?case by simp
qed simp

definition packet_round :: "irq option list" where
  "packet_round = [None, Some (MouseByte 8), Some (MouseByte 0), Some (MouseByte 0), None, None]"

context machine_tasks
begin

text \<open>The worker about to look for a request, between two mouse packets.\<close>

definition worker_ready :: "('t, 'q, 'w, 'k) Machine \<Rightarrow> nat \<Rightarrow> bool" where
  "worker_ready m n \<longleftrightarrow> machine_inv m \<and> mc_pc m = RedrawRegister \<and> d_packet_len (sys_desktop (k_sys (mc_kernel m))) = 0
     \<and> length (titems (mc_ready m)) = n"

lemma enabledI: "machine_inv m \<Longrightarrow> mc_pc m \<notin> range Exec \<Longrightarrow> mc_enabled m"
  by (auto simp: machine_inv_def exec_ok_def)

text \<open>The registration and the first two bytes of a packet.\<close>

lemma packet_begins:
  assumes m: "worker_ready m n" and env: "env \<in> envs" "env_ok env"
  shows "\<exists>m' d. machine_run any_time T Q W D info envs m [None, Some (MouseByte 8), Some (MouseByte 0)] m' \<and> machine_inv m'
    \<and> mc_pc m' = RedrawSwap \<and> mc_enabled m' \<and> mc_ready m' = mc_ready m \<and> registered (mc_redraw_waker m') = Some REDRAW_TASK
    \<and> mouse_byte (sys_desktop (k_sys (mc_kernel m'))) 0 = Some (d, [], True) \<and> d_packet_len d = 0"
proof -
  let ?m = "m\<lparr>mc_redraw_waker := wk_register W (mc_redraw_waker m) REDRAW_TASK, mc_pc := RedrawSwap\<rparr>"
  have w: "machine_inv m" "mc_pc m = RedrawRegister" "d_packet_len (sys_desktop (k_sys (mc_kernel m))) = 0"
    using m by (simp_all add: worker_ready_def)
  have a: "advance T Q W D info env m = Some ?m" using w(2) by (simp add: advance_def redraw_advance_def Let_def)
  have i: "machine_inv ?m" using advance_good [OF w(1) env(2), of D info] w(2) a by (simp add: good_step_def)
  have e: "mc_enabled ?m" by (rule enabledI [OF i]) auto
  have s1: "machine_step T Q W D info envs m None ?m" by (rule machine_step.run [OF _ _ env(1) a]) (simp_all add: w(2))
  let ?d = "sys_desktop (k_sys (mc_kernel m))"
  let ?d1 = "?d\<lparr>d_packet := (d_packet ?d)[0 := 8], d_packet_len := 1\<rparr>"
  have inv: "desktop_inv ?d" using inv_desktop [OF w(1)] by simp
  have "mouse_byte ?d 8 = Some (?d1, [], False)" using packet_byte [OF inv, of 8] w(3) by simp
  then obtain m2 where m2: "handle_irq T Q W (MouseByte 8) ?m = Some m2" "machine_inv m2" "mc_pc m2 = RedrawSwap" "mc_enabled m2"
    "mc_ready m2 = mc_ready m" "mc_redraw_waker m2 = mc_redraw_waker ?m" "sys_desktop (k_sys (mc_kernel m2)) = ?d1"
    using irq_byte [OF i e, of 8 ?d1] by auto
  have i2: "desktop_inv ?d1" using inv_desktop [OF m2(2)] m2(7) by simp
  let ?d2 = "?d1\<lparr>d_packet := (d_packet ?d1)[1 := 0], d_packet_len := 2\<rparr>"
  have "mouse_byte ?d1 0 = Some (?d2, [], False)" using packet_byte [OF i2, of 0] by simp
  then obtain m3 where m3: "handle_irq T Q W (MouseByte 0) m2 = Some m3" "machine_inv m3" "mc_pc m3 = RedrawSwap" "mc_enabled m3"
    "mc_ready m3 = mc_ready m" "mc_redraw_waker m3 = mc_redraw_waker ?m" "sys_desktop (k_sys (mc_kernel m3)) = ?d2"
    using irq_byte [OF m2(2,4), of 0 ?d2] m2(3,5-7) by auto
  have i3: "desktop_inv ?d2" using inv_desktop [OF m3(2)] m3(7) by simp
  have "length (d_packet ?d) = 3" using inv by (simp add: desktop_inv_def screen_inv_def)
  then obtain d where d: "mouse_byte ?d2 0 = Some (d, [], True)" "d_packet_len d = 0" using packet_end [OF i3, of 0] by auto
  have "machine_step T Q W D info envs ?m (Some (MouseByte 8)) m2" by (rule machine_step.irq [OF e _ m2(1)]) simp
  moreover have "machine_step T Q W D info envs m2 (Some (MouseByte 0)) m3" by (rule machine_step.irq [OF m2(4) _ m3(1)]) (simp add: m2(3))
  ultimately have "machine_run any_time T Q W D info envs m [None, Some (MouseByte 8), Some (MouseByte 0)] m3"
    using s1 run_prepend machine_run.run_nil any_time_def by metis
  moreover have "registered (mc_redraw_waker m3) = Some REDRAW_TASK" using m3(6) stream.wk_register_spec by simp
  ultimately show ?thesis using m3 d by auto
qed

lemma packet_round_queues:
  assumes m: "worker_ready m n" and n: "n < 100" and env: "env \<in> envs" "env_ok env"
  shows "\<exists>m'. machine_run any_time T Q W D info envs m packet_round m' \<and> worker_ready m' (Suc n)"
proof -
  obtain m3 d where m3: "machine_run any_time T Q W D info envs m [None, Some (MouseByte 8), Some (MouseByte 0)] m3" "machine_inv m3"
    "mc_pc m3 = RedrawSwap" "mc_enabled m3" "mc_ready m3 = mc_ready m" "registered (mc_redraw_waker m3) = Some REDRAW_TASK"
    "mouse_byte (sys_desktop (k_sys (mc_kernel m3))) 0 = Some (d, [], True)" "d_packet_len d = 0"
    using packet_begins [OF m env] by blast
  have ln: "length (titems (mc_ready m)) = n" "tcap (mc_ready m) = 100" using m by (simp_all add: worker_ready_def machine_inv_def data_ok_def)
  then obtain q where q: "wake_task T (of_nat REDRAW_TASK) (mc_ready m3) = Some q" "titems q = titems (mc_ready m) @ [of_nat REDRAW_TASK]"
    using ready.wakes_fit [of "mc_ready m" "[of_nat REDRAW_TASK]"] n m3(5) by auto
  obtain m4 where m4: "handle_irq T Q W (MouseByte 0) m3 = Some m4" "mc_pc m4 = RedrawSwap" "mc_ready m4 = q"
    "sys_desktop (k_sys (mc_kernel m4)) = d" "sys_redraw (k_sys (mc_kernel m4))"
    using irq_packet [OF m3(2,4) _ m3(7,6)] m3(3) q(1) by auto
  have i4: "machine_inv m4" by (rule irq_inv [OF m3(2,4) m4(1)])
  let ?k = "mc_kernel m4"
  let ?m5 = "m4\<lparr>mc_kernel := ?k\<lparr>k_sys := (k_sys ?k)\<lparr>sys_redraw := False\<rparr>\<rparr>, mc_pc := RedrawRefresh\<rparr>"
  have a4: "advance T Q W D info env m4 = Some ?m5" using m4(2,5) by (simp add: advance_def redraw_advance_def Let_def)
  have i5: "machine_inv ?m5" using advance_good [OF i4 env(2), of D info] m4(2) a4 by (simp add: good_step_def)
  have "seq_ok (k_sys (mc_kernel ?m5))" using i5 by (auto simp: machine_inv_def data_ok_def kernel_inv_def boot_inv_def core_ok_def split: if_splits)
  from refresh_ok [OF this] obtain s where s: "refresh (k_sys (mc_kernel ?m5)) = Some s" "sys_desktop s = d"
    using m4(4) by auto
  let ?m6 = "?m5\<lparr>mc_kernel := (mc_kernel ?m5)\<lparr>k_sys := s\<rparr>, mc_pc := RedrawRegister\<rparr>"
  have a5: "advance T Q W D info env ?m5 = Some ?m6" using s(1) by (simp add: advance_def redraw_advance_def Let_def)
  have i6: "machine_inv ?m6" using advance_good [OF i5 env(2), of D info] a5 by (simp add: good_step_def)
  have "worker_ready ?m6 (Suc n)" using i6 s(2) m3(8) m4(3) q(2) ln(1) by (simp add: worker_ready_def)
  moreover have "machine_step T Q W D info envs m3 (Some (MouseByte 0)) m4" by (rule machine_step.irq [OF m3(4) _ m4(1)]) (simp add: m3(3))
  moreover have "machine_step T Q W D info envs m4 None ?m5" by (rule machine_step.run [OF _ _ env(1) a4]) (simp_all add: m4(2))
  moreover have "machine_step T Q W D info envs ?m5 None ?m6" by (rule machine_step.run [OF _ _ env(1) a5]) simp_all
  ultimately have "machine_run any_time T Q W D info envs m3 [Some (MouseByte 0), None, None] ?m6"
    using run_prepend machine_run.run_nil any_time_def by metis
  from run_trans [OF this m3(1)] show ?thesis using \<open>worker_ready ?m6 (Suc n)\<close> by (auto simp: packet_round_def)
qed

lemma full_queue_panics:
  assumes m: "worker_ready m 100" and env: "env \<in> envs" "env_ok env"
  shows "\<exists>m'. machine_run any_time T Q W D info envs m (take 4 packet_round) m' \<and> mc_pc m' = Exec Panicked"
proof -
  obtain m3 d where m3: "machine_run any_time T Q W D info envs m [None, Some (MouseByte 8), Some (MouseByte 0)] m3" "machine_inv m3"
    "mc_pc m3 = RedrawSwap" "mc_enabled m3" "mc_ready m3 = mc_ready m" "registered (mc_redraw_waker m3) = Some REDRAW_TASK"
    "mouse_byte (sys_desktop (k_sys (mc_kernel m3))) 0 = Some (d, [], True)" "d_packet_len d = 0"
    using packet_begins [OF m env] by blast
  have "wake_task T (of_nat REDRAW_TASK) (mc_ready m3) = None"
    using ready.q_push_full [of "mc_ready m"] m m3(5) by (simp add: wake_task_def worker_ready_def machine_inv_def data_ok_def)
  then have "handle_irq T Q W (MouseByte 0) m3 = None" using irq_packet [OF m3(2,4) _ m3(7,6)] m3(3) by auto
  then have "machine_step T Q W D info envs m3 (Some (MouseByte 0)) (m3\<lparr>mc_pc := Exec Panicked\<rparr>)"
    by (intro machine_step.irq_panic [OF m3(4)]) (simp_all add: m3(3))
  from machine_run.run_step [OF m3(1) _ this] show ?thesis by (auto simp: packet_round_def any_time_def)
qed

lemma rounds_panic:
  assumes "worker_ready m n" "n + k = 100" "env \<in> envs" "env_ok env"
  shows "\<exists>m'. machine_run any_time T Q W D info envs m (concat (replicate k packet_round) @ take 4 packet_round) m' \<and> mc_pc m' = Exec Panicked"
  using assms(1,2)
proof (induction k arbitrary: m n)
  case 0
  then show ?case using full_queue_panics [OF _ assms(3,4)] by simp
next
  case (Suc k)
  obtain m1 where m1: "machine_run any_time T Q W D info envs m packet_round m1" "worker_ready m1 (Suc n)"
    using packet_round_queues [OF Suc.prems(1) _ assms(3,4)] Suc.prems(2) by auto
  obtain m' where m': "machine_run any_time T Q W D info envs m1 (concat (replicate k packet_round) @ take 4 packet_round) m'" "mc_pc m' = Exec Panicked"
    using Suc.IH [OF m1(2)] Suc.prems(2) by auto
  from run_trans [OF m'(1) m1(1)] show ?case using m'(2) by auto
qed

end

section \<open>From the start of the executor\<close>

context machine_tasks
begin

text \<open>The first poll of the shell task ends with its waker registered; then the worker is polled.\<close>

lemma first_polls:
  fixes m :: "('t, 'q, 'w, 'k) Machine"
  assumes m: "machine_inv m" "mc_pc m = Exec RunReady" "\<not> mc_started m" "d_packet_len (sys_desktop (k_sys (mc_kernel m))) = 0"
    "titems (mc_ready m) = map of_nat [SHELL_TASK, REDRAW_TASK]" and env: "env \<in> envs" "env_ok env"
  shows "\<exists>m'. machine_run any_time T Q W D info envs m (replicate 6 None) m' \<and> worker_ready m' 0"
proof -
  have step: "\<exists>m'. advance T Q W D info env m = Some m' \<and> machine_inv m' \<and> machine_step T Q W D info envs m None m'"
    if i: "machine_inv m" and p: "mc_pc m \<noteq> Exec Asleep" for m :: "('t, 'q, 'w, 'k) Machine"
  proof -
    obtain m' where "advance T Q W D info env m = Some m'" "machine_inv m'"
      using advance_good [OF i env(2) p, of D info] by (auto simp: good_step_def)
    moreover have "mc_pc m \<noteq> Exec Panicked" using i by (simp add: machine_inv_def exec_ok_def)
    ultimately show ?thesis using machine_step.run p env(1) by blast
  qed
  obtain q where q: "q_pop T (mc_ready m) = Some (q, 0)" "titems q = [1]" using ready.q_pop_some [of "mc_ready m" 0 "[1]"] m(5) by auto
  obtain m1 where m1: "machine_step T Q W D info envs m None m1" "machine_inv m1" "mc_pc m1 = ShellBegin" "mc_ready m1 = q"
    "mc_kernel m1 = mc_kernel m" using step [OF m(1)] m(2,3) q(1) by (auto simp: advance_def exec_advance_def)
  obtain k qi where k: "shell_begin Q D (mc_kernel m) = Some k" "k_input k = (k_input (mc_kernel m))\<lparr>in_queue := Some qi\<rparr>" "items qi = []"
    "sys_desktop (k_sys k) = sys_desktop (k_sys (mc_kernel m))"
    using shell_begin_ok [of "mc_kernel m" D] m(1,3) by (auto simp: machine_inv_def data_ok_def)
  obtain m2 where m2: "machine_step T Q W D info envs m1 None m2" "machine_inv m2" "mc_pc m2 = ShellPop" "mc_ready m2 = q" "mc_kernel m2 = k"
    using step [OF m1(2)] m1(3-5) k(1) by (auto simp: advance_def shell_advance_def Let_def)
  have pop: "poll_pop Q (k_input k) = Some (k_input k, None)" by (rule pop_none [of _ qi]) (simp_all add: k)
  obtain m3 where m3: "machine_step T Q W D info envs m2 None m3" "machine_inv m3" "mc_pc m3 = ShellRegister" "mc_ready m3 = q" "mc_kernel m3 = k"
    using step [OF m2(2)] m2(3-5) pop by (auto simp: advance_def shell_advance_def Let_def)
  let ?k = "k\<lparr>k_input := (k_input k)\<lparr>in_waker := wk_register W (in_waker (k_input k)) SHELL_TASK\<rparr>\<rparr>"
  obtain m4 where m4: "machine_step T Q W D info envs m3 None m4" "machine_inv m4" "mc_pc m4 = ShellPopAgain" "mc_ready m4 = q" "mc_kernel m4 = ?k"
    using step [OF m3(2)] m3(3-5) by (auto simp: advance_def shell_advance_def Let_def)
  have pop': "poll_pop Q (k_input ?k) = Some (k_input ?k, None)" by (rule pop_none [of _ qi]) (simp_all add: k)
  obtain m5 where m5: "machine_step T Q W D info envs m4 None m5" "machine_inv m5" "mc_pc m5 = Exec RunReady" "mc_ready m5 = q" "mc_kernel m5 = ?k"
    using step [OF m4(2)] m4(3-5) pop' by (auto simp: advance_def shell_advance_def Let_def)
  obtain q' where q': "q_pop T q = Some (q', 1)" "titems q' = []" using ready.q_pop_some [OF q(2)] by auto
  obtain m6 where m6: "machine_step T Q W D info envs m5 None m6" "machine_inv m6" "mc_pc m6 = RedrawRegister" "mc_ready m6 = q'" "mc_kernel m6 = ?k"
    using step [OF m5(2)] m5(3-5) q'(1) by (auto simp: advance_def exec_advance_def)
  have "worker_ready m6 0" using m6(2-5) q'(2) k(4) m(4) by (simp add: worker_ready_def)
  moreover have "machine_run any_time T Q W D info envs m [None, None, None, None, None, None] m6"
    using m1(1) m2(1) m3(1) m4(1) m5(1) m6(1) by (intro run_prepend) (auto simp: any_time_def intro: machine_run.run_nil)
  ultimately show ?thesis by (auto simp: numeral_eq_Suc)
qed

end

context machine_tasks
begin

lemma overflow_run:
  assumes "executor_starts titems tcap Q W D vga [] m" "env \<in> envs" "env_ok env"
  shows "\<exists>m'. machine_run any_time T Q W D info envs m (replicate 6 None @ concat (replicate 100 packet_round) @ take 4 packet_round) m'
    \<and> mc_pc m' = Exec Panicked"
proof -
  have i: "machine_inv m" by (rule executor_starts_inv [OF assms(1)])
  have "mc_pc m = Exec RunReady" "\<not> mc_started m" "d_packet_len (sys_desktop (k_sys (mc_kernel m))) = 0"
    "titems (mc_ready m) = map of_nat [SHELL_TASK, REDRAW_TASK]"
    using assms(1) by (auto simp: executor_starts_def machine_start_def kernel_boot_def system_new_def DESKTOP_def)
  from first_polls [OF i this assms(2,3)] obtain m1 where m1: "machine_run any_time T Q W D info envs m (replicate 6 None) m1" "worker_ready m1 0"
    by blast
  obtain m' where "machine_run any_time T Q W D info envs m1 (concat (replicate 100 packet_round) @ take 4 packet_round) m'" "mc_pc m' = Exec Panicked"
    using rounds_panic [OF m1(2) _ assms(2,3), of 100] by auto
  then show ?thesis using run_trans [OF _ m1(1)] by blast
qed

end

section \<open>Properties\<close>



text \<open>C22: Mouse packets during repaints crash the kernel. Right after boot there is a run in which every
  packet arrives after the redraw worker has registered its waker and before it takes the redraw
  flag: each of them queues the worker once more although it is running, the worker's loop never
  returns to the executor, and the hundred and first packet finds the queue of ready tasks full and
  panics inside the interrupt handler.\<close>

theorem repaints_overflow_ready_queue:
  assumes "input_stream Q items cap W registered" "array_queue T titems tcap" "env \<in> envs" "env_ok env"
    "executor_starts titems tcap Q W D vga [] m0"
  shows "\<exists>m. machine_run any_time T Q W D info envs m0
      (replicate 6 None @ concat (replicate 100 packet_round) @ take 4 packet_round) m \<and> mc_pc m = Exec Panicked"
  by (rule machine_tasks.overflow_run [OF machine_tasksI [OF assms(1,2)] assms(5,3,4)])

theorem repaints_overflow_ready_queue_witness:
  "\<exists>m. machine_run any_time list_queue list_queue slot_waker example_decoder example_info {example_env} example_start
      (replicate 6 None @ concat (replicate 100 packet_round) @ take 4 packet_round) m \<and> mc_pc m = Exec Panicked"
  by (rule repaints_overflow_ready_queue [OF list_stream.input_stream_axioms list_queue.array_queue_axioms _ example_env_ok example_starts]) simp

end
