(* ===== verification/Locks.thy ===== *)
theory Locks
  imports Prelude
begin

text \<open>
  Spin locks and the interrupt flag. The kernel runs on one processor and protects its statics by
  locks of the crate \<^verbatim>\<open>spin\<close> and by switching interrupts off; a lock that is taken while it is held is waited
  for without end, since the holder is the waiting code itself or the code it has interrupted.

  Code is reduced to its actions on locks and on the interrupt flag (\<open>act\<close>), in the order in which the
  source performs them: a guard is acquired where it is created and released where it goes out of
  scope. This theory holds the actions, their execution on a processor that can be interrupted
  wherever the flag allows it (\<open>lock_step\<close>), a discipline on lists of actions that can be checked by
  evaluation (\<open>safe\<close>), and the proof that code which keeps it is never blocked. The actions of the
  kernel's own functions are in theory \<^verbatim>\<open>Lock_Use\<close>.
\<close>

section \<open>Actions\<close>

text \<open>The locks of the kernel: the statics of \<^verbatim>\<open>vga_buffer.rs\<close>, \<^verbatim>\<open>desktop.rs\<close>, \<^verbatim>\<open>interrupts.rs\<close>, \<^verbatim>\<open>serial.rs\<close>,
  \<^verbatim>\<open>allocator.rs\<close> and \<^verbatim>\<open>net/mod.rs\<close>.\<close>

datatype lock = L_TERMINALS nat | L_FRAME | L_PREVIOUS_FRAME | L_DESKTOP | L_PICS | L_SERIAL1 | L_ALLOCATOR | L_DEVICE

text \<open>What code does besides: run the closure given to \<open>with_writer\<close>, write to the video memory, to the
  serial port or to the exit port of the emulator, wake a task, halt the processor.\<close>

datatype effect = Closure | Video | Uart | Exit_port u32 | Wake | Hlt

datatype act = Acquire lock | Release lock | Cli | Sti | Do effect

definition guarded :: "lock \<Rightarrow> act list \<Rightarrow> act list" where
  "guarded l body = Acquire l # body @ [Release l]"

text \<open>\<open>without_interrupts\<close> restores the flag it finds; \<open>enabled\<close> is its value on entry.\<close>

definition without_interrupts :: "bool \<Rightarrow> act list \<Rightarrow> act list" where
  "without_interrupts enabled body = (if enabled then Cli # body @ [Sti] else body)"

section \<open>Execution\<close>

text \<open>The locks held and the interrupt flag. \<open>None\<close>: the lock is held, or the processor halts with
  interrupts off; it will not go on.\<close>

type_synonym lock_state = "lock list \<times> bool"

fun perform :: "act \<Rightarrow> lock_state \<Rightarrow> lock_state option" where
  "perform (Acquire l) (held, e) = (if l \<in> set held then None else Some (l # held, e))"
| "perform (Release l) (held, e) = Some (remove1 l held, e)"
| "perform Cli (held, e) = Some (held, False)"
| "perform Sti (held, e) = Some (held, True)"
| "perform (Do Hlt) (held, e) = (if e then Some (held, e) else None)"
| "perform (Do _) (held, e) = Some (held, e)"

definition run_acts :: "act list \<Rightarrow> lock_state \<Rightarrow> lock_state option" where
  "run_acts acts s = for_each perform acts s"

text \<open>The processor: the code of the tasks, and that of an interrupt handler while one runs. Handlers
  are entered with interrupts off, and returning from one switches them on again.\<close>

record Processor =
  pr_held :: "lock list"
  pr_enabled :: bool
  pr_task :: "act list"
  pr_handler :: "act list option"

inductive lock_step :: "act list set \<Rightarrow> Processor \<Rightarrow> Processor \<Rightarrow> bool" for handlers where
  task: "pr_handler p = None \<Longrightarrow> pr_task p = a # as \<Longrightarrow> perform a (pr_held p, pr_enabled p) = Some (held, e) \<Longrightarrow>
    lock_step handlers p (p\<lparr>pr_held := held, pr_enabled := e, pr_task := as\<rparr>)"
| interrupt: "pr_handler p = None \<Longrightarrow> pr_enabled p \<Longrightarrow> as \<in> handlers \<Longrightarrow>
    lock_step handlers p (p\<lparr>pr_enabled := False, pr_handler := Some as\<rparr>)"
| handler: "pr_handler p = Some (a # as) \<Longrightarrow> perform a (pr_held p, pr_enabled p) = Some (held, e) \<Longrightarrow>
    lock_step handlers p (p\<lparr>pr_held := held, pr_enabled := e, pr_handler := Some as\<rparr>)"
| return: "pr_handler p = Some [] \<Longrightarrow> lock_step handlers p (p\<lparr>pr_enabled := True, pr_handler := None\<rparr>)"

inductive_cases lock_stepE: "lock_step handlers p p'"

inductive lock_run :: "act list set \<Rightarrow> Processor \<Rightarrow> Processor \<Rightarrow> bool" for handlers where
  lock_run_refl: "lock_run handlers p p"
| lock_run_step: "lock_run handlers p p' \<Longrightarrow> lock_step handlers p' p'' \<Longrightarrow> lock_run handlers p p''"

text \<open>What runs next, and whether it can.\<close>

definition next_acts :: "Processor \<Rightarrow> act list" where
  "next_acts p = (case pr_handler p of Some as \<Rightarrow> as | None \<Rightarrow> pr_task p)"

definition blocked :: "Processor \<Rightarrow> bool" where
  "blocked p = (case next_acts p of [] \<Rightarrow> False | a # _ \<Rightarrow> perform a (pr_held p, pr_enabled p) = None)"

definition processor :: "bool \<Rightarrow> act list \<Rightarrow> Processor" where
  "processor e acts = \<lparr>pr_held = [], pr_enabled = e, pr_task = acts, pr_handler = None\<rparr>"

section \<open>The discipline\<close>

text \<open>Sequentially, no action of the code blocks, and the locks in \<open>shielded\<close> are never held while
  interrupts are on.\<close>

definition unshielded :: "(lock \<Rightarrow> bool) \<Rightarrow> lock_state \<Rightarrow> bool" where
  "unshielded shielded s \<longleftrightarrow> (snd s \<longrightarrow> \<not> list_ex shielded (fst s))"

text \<open>The closure of \<open>with_writer\<close> runs with interrupts off and under the lock of one terminal only.\<close>

fun act_ok :: "lock_state \<Rightarrow> act \<Rightarrow> bool" where
  "act_ok ([L_TERMINALS _], False) (Do Closure) = True"
| "act_ok _ a = (a \<noteq> Do Closure)"

fun safe :: "(lock \<Rightarrow> bool) \<Rightarrow> lock_state \<Rightarrow> act list \<Rightarrow> bool" where
  "safe shielded s [] = unshielded shielded s"
| "safe shielded s (a # as) = (unshielded shielded s \<and> act_ok s a
     \<and> (case perform a s of None \<Rightarrow> False | Some s' \<Rightarrow> safe shielded s' as))"

text \<open>The locks that a list of actions names; the code of a handler neither halts nor touches the flag.\<close>

fun act_locks :: "act \<Rightarrow> lock list" where
  "act_locks (Acquire l) = [l]"
| "act_locks (Release l) = [l]"
| "act_locks _ = []"

definition handler_act :: "act \<Rightarrow> bool" where
  "handler_act a \<longleftrightarrow> a \<noteq> Cli \<and> a \<noteq> Sti \<and> a \<noteq> Do Hlt"

lemma act_ok_Closure: "act_ok (held, e) (Do Closure) \<longleftrightarrow> \<not> e \<and> (\<exists>i. held = [L_TERMINALS i])"
  by (cases "((held, e), Do Closure)" rule: act_ok.cases) auto

lemma run_acts_simps [simp]:
  "run_acts [] s = Some s"
  "run_acts (a # as) s = Option.bind (perform a s) (run_acts as)"
  by (simp_all add: run_acts_def [abs_def])

lemma run_acts_append [simp]: "run_acts (as @ bs) s = Option.bind (run_acts as s) (run_acts bs)"
  by (induction as arbitrary: s) (auto simp: bind_eq_None_conv split: bind_split)

lemma safe_unshielded: "safe shielded s as \<Longrightarrow> unshielded shielded s"
  by (cases as) auto

lemma safe_append:
  "safe shielded s (as @ bs) \<longleftrightarrow> safe shielded s as \<and> (\<exists>s'. run_acts as s = Some s' \<and> safe shielded s' bs)"
  by (induction as arbitrary: s) (auto simp: safe_unshielded split: option.splits)

text \<open>Code that starts and ends without locks and with the same flag can be repeated.\<close>

definition closed_acts :: "(lock \<Rightarrow> bool) \<Rightarrow> bool \<Rightarrow> act list \<Rightarrow> bool" where
  "closed_acts shielded e as \<longleftrightarrow> safe shielded ([], e) as \<and> run_acts as ([], e) = Some ([], e)"

lemma closed_acts_Nil [simp]: "closed_acts shielded e []"
  by (simp add: closed_acts_def unshielded_def)

lemma closed_acts_append: "closed_acts shielded e as \<Longrightarrow> closed_acts shielded e bs \<Longrightarrow> closed_acts shielded e (as @ bs)"
  by (auto simp: closed_acts_def safe_append)

lemma closed_acts_concat: "list_all (closed_acts shielded e) ass \<Longrightarrow> closed_acts shielded e (concat ass)"
  by (induction ass) (auto intro: closed_acts_append)

text \<open>Locks that the code does not name stay as they are.\<close>

lemma perform_frame:
  assumes "perform a (held, e) = Some (held', e')" "\<forall>l \<in> set (act_locks a). l \<notin> set h"
  shows "perform a (held @ h, e) = Some (held' @ h, e')"
  using assms by (cases "(a, held, e)" rule: perform.cases) (auto simp: remove1_append remove1_idem split: if_splits)

lemma run_acts_frame:
  assumes "run_acts as (held, e) = Some (held', e')" "\<forall>a \<in> set as. \<forall>l \<in> set (act_locks a). l \<notin> set h"
  shows "run_acts as (held @ h, e) = Some (held' @ h, e')"
  using assms
proof (induction as arbitrary: held e)
  case (Cons a as)
  then obtain held1 e1 where s: "perform a (held, e) = Some (held1, e1)" "run_acts as (held1, e1) = Some (held', e')"
    by (auto split: bind_splits)
  with Cons show ?case using perform_frame [OF s(1), of h] by simp
qed simp

lemma handler_act_flag: "handler_act a \<Longrightarrow> perform a (held, e) = Some (held', e') \<Longrightarrow> e' = e"
  by (cases "(a, held, e)" rule: perform.cases) (auto simp: handler_act_def split: if_splits)

text \<open>Running a stretch of code without interruption.\<close>

lemma lock_run_trans: "lock_run handlers p p' \<Longrightarrow> lock_run handlers p' p'' \<Longrightarrow> lock_run handlers p p''"
  by (rotate_tac, induction rule: lock_run.induct) (auto intro: lock_run.intros)

lemma lock_run_task:
  "run_acts as (held, e) = Some (held', e') \<Longrightarrow>
    lock_run handlers \<lparr>pr_held = held, pr_enabled = e, pr_task = as @ bs, pr_handler = None\<rparr>
      \<lparr>pr_held = held', pr_enabled = e', pr_task = bs, pr_handler = None\<rparr>"
proof (induction as arbitrary: held e)
  case (Cons a as)
  then obtain h1 e1 where s: "perform a (held, e) = Some (h1, e1)" "run_acts as (h1, e1) = Some (held', e')"
    by (auto split: bind_splits)
  let ?p = "\<lparr>pr_held = held, pr_enabled = e, pr_task = (a # as) @ bs, pr_handler = None\<rparr>"
  have "lock_step handlers ?p \<lparr>pr_held = h1, pr_enabled = e1, pr_task = as @ bs, pr_handler = None\<rparr>"
    using lock_step.task [of ?p a "as @ bs" h1 e1 handlers] s(1) by simp
  with Cons.IH [OF s(2)] show ?case by (blast intro: lock_run_trans lock_run.intros)
qed (simp add: lock_run_refl)

lemma lock_run_handler:
  "run_acts as (held, False) = Some (held', False) \<Longrightarrow> list_all handler_act as \<Longrightarrow>
    lock_run handlers \<lparr>pr_held = held, pr_enabled = False, pr_task = ts, pr_handler = Some (as @ bs)\<rparr>
      \<lparr>pr_held = held', pr_enabled = False, pr_task = ts, pr_handler = Some bs\<rparr>"
proof (induction as arbitrary: held)
  case (Cons a as)
  then obtain h1 e1 where s: "perform a (held, False) = Some (h1, e1)" "run_acts as (h1, e1) = Some (held', False)"
    by (auto split: bind_splits)
  then have e1: "e1 = False" using handler_act_flag [OF _ s(1)] Cons.prems(2) by simp
  let ?p = "\<lparr>pr_held = held, pr_enabled = False, pr_task = ts, pr_handler = Some ((a # as) @ bs)\<rparr>"
  have "lock_step handlers ?p \<lparr>pr_held = h1, pr_enabled = False, pr_task = ts, pr_handler = Some (as @ bs)\<rparr>"
    using lock_step.handler [of ?p a "as @ bs" h1 False handlers] s(1) e1 by simp
  moreover have "lock_run handlers \<lparr>pr_held = h1, pr_enabled = False, pr_task = ts, pr_handler = Some (as @ bs)\<rparr>
      \<lparr>pr_held = held', pr_enabled = False, pr_task = ts, pr_handler = Some bs\<rparr>"
    using Cons.IH s(2) e1 Cons.prems(2) by simp
  ultimately show ?case by (blast intro: lock_run_trans lock_run.intros)
qed (simp add: lock_run_refl)

section \<open>Handlers and tasks together\<close>

text \<open>The contract between interrupt handlers and the rest: a handler takes only the locks in
  \<open>taken\<close>, which are shielded from it, gives back what it takes and leaves the flag alone.\<close>

locale interrupt_handlers =
  fixes shielded taken :: "lock \<Rightarrow> bool" and handlers :: "act list set"
  assumes taken_shielded: "taken l \<Longrightarrow> shielded l"
    and handler_closed: "as \<in> handlers \<Longrightarrow> run_acts as ([], False) = Some ([], False)"
    and handler_locks: "as \<in> handlers \<Longrightarrow> a \<in> set as \<Longrightarrow> l \<in> set (act_locks a) \<Longrightarrow> taken l"
    and handler_acts: "as \<in> handlers \<Longrightarrow> a \<in> set as \<Longrightarrow> handler_act a"
begin

text \<open>A handler in progress: \<open>own\<close> are the locks it holds itself.\<close>

definition in_handler :: "lock list \<Rightarrow> act list \<Rightarrow> bool" where
  "in_handler own as \<longleftrightarrow> run_acts as (own, False) = Some ([], False) \<and> list_all taken own
     \<and> (\<forall>a \<in> set as. handler_act a \<and> list_all taken (act_locks a))"

definition lock_inv :: "Processor \<Rightarrow> bool" where
  "lock_inv p \<longleftrightarrow> (case pr_handler p of
      None \<Rightarrow> safe shielded (pr_held p, pr_enabled p) (pr_task p)
    | Some as \<Rightarrow> \<not> pr_enabled p \<and> (\<exists>own held. pr_held p = own @ held \<and> in_handler own as
        \<and> safe shielded (held, True) (pr_task p)))"

lemma in_handler_start: "as \<in> handlers \<Longrightarrow> in_handler [] as"
  using handler_closed handler_locks handler_acts by (auto simp: in_handler_def list_all_iff)

lemma in_handler_perform:
  assumes "in_handler own (a # as)" "\<not> list_ex shielded held"
  obtains own' where "perform a (own @ held, False) = Some (own' @ held, False)" "in_handler own' as"
proof -
  obtain own' e where s: "perform a (own, False) = Some (own', e)" "run_acts as (own', e) = Some ([], False)"
    using assms(1) by (auto simp: in_handler_def split: bind_splits)
  have "e = False" using handler_act_flag [OF _ s(1)] assms(1) by (simp add: in_handler_def)
  moreover have "perform a (own @ held, False) = Some (own' @ held, e)"
    using perform_frame [OF s(1), of held] assms taken_shielded by (fastforce simp: in_handler_def list_all_iff list_ex_iff)
  moreover have "list_all taken own'"
    using s(1) assms(1) by (cases "(a, own, False)" rule: perform.cases)
      (auto simp: in_handler_def list_all_iff split: if_splits dest: notin_set_remove1)
  ultimately show thesis using that [of own'] s(2) assms(1) by (simp add: in_handler_def)
qed

lemma safe_task_shield: "safe shielded (held, True) as \<Longrightarrow> \<not> list_ex shielded held"
  using safe_unshielded by (fastforce simp: unshielded_def)

lemma lock_inv_step: "lock_step handlers p p' \<Longrightarrow> lock_inv p \<Longrightarrow> lock_inv p'"
proof (induction rule: lock_step.induct)
  case (interrupt p as)
  then show ?case using in_handler_start by (fastforce simp: lock_inv_def)
next
  case (handler p a as held e)
  then obtain own h where h: "pr_held p = own @ h" "in_handler own (a # as)" "safe shielded (h, True) (pr_task p)" "\<not> pr_enabled p"
    by (auto simp: lock_inv_def)
  obtain own' where "perform a (own @ h, False) = Some (own' @ h, False)" "in_handler own' as"
    using in_handler_perform [OF h(2) safe_task_shield [OF h(3)]] by blast
  then show ?case using handler h by (auto simp: lock_inv_def)
next
  case (return p)
  then show ?case by (auto simp: lock_inv_def in_handler_def)
qed (auto simp: lock_inv_def)

lemma lock_inv_run: "lock_run handlers p p' \<Longrightarrow> lock_inv p \<Longrightarrow> lock_inv p'"
  by (induction rule: lock_run.induct) (auto intro: lock_inv_step)

lemma lock_inv_not_blocked: "lock_inv p \<Longrightarrow> \<not> blocked p"
proof (cases "pr_handler p")
  case (Some as)
  assume "lock_inv p"
  with Some obtain own h where h: "pr_held p = own @ h" "in_handler own as" "safe shielded (h, True) (pr_task p)" "\<not> pr_enabled p"
    by (auto simp: lock_inv_def)
  show ?thesis
  proof (cases as)
    case (Cons a as')
    with h(2) have "in_handler own (a # as')" by simp
    then obtain own' where "perform a (own @ h, False) = Some (own' @ h, False)"
      by (rule in_handler_perform [OF _ safe_task_shield [OF h(3)]])
    then show ?thesis using Some h Cons by (simp add: blocked_def next_acts_def)
  qed (simp add: blocked_def next_acts_def Some)
qed (auto simp: lock_inv_def blocked_def next_acts_def split: list.split option.splits)

text \<open>Whenever interrupts are on, no shielded lock is held; when a handler runs, the shielded locks
  that are held are its own.\<close>

lemma lock_inv_shielded:
  assumes "lock_inv p" "pr_enabled p"
  shows "\<not> list_ex shielded (pr_held p)"
  using assms safe_unshielded by (fastforce simp: lock_inv_def unshielded_def split: option.splits)

lemma lock_inv_handler:
  assumes "lock_inv p" "pr_handler p \<noteq> None"
  shows "\<not> pr_enabled p \<and> (\<forall>l \<in> set (pr_held p). shielded l \<longrightarrow> taken l)"
  using assms safe_task_shield by (fastforce simp: lock_inv_def in_handler_def list_all_iff list_ex_iff)

lemma lock_inv_closure:
  assumes "lock_inv p" "next_acts p = Do Closure # as" "pr_handler p = None"
  shows "\<not> pr_enabled p \<and> (\<exists>i. pr_held p = [L_TERMINALS i])"
  using assms by (simp add: lock_inv_def next_acts_def act_ok_Closure)

lemma disciplined_inv:
  assumes "safe shielded ([], e) as" "lock_run handlers (processor e as) p"
  shows "lock_inv p"
  using lock_inv_run [OF assms(2)] assms(1) by (simp add: lock_inv_def processor_def)

end

end
