(* ===== verification/Lock_Use.thy ===== *)
theory Lock_Use
  imports Locks
begin

text \<open>
  The locks of the kernel in use. Each definition \<open>f_acts\<close> lists what the function \<open>f\<close> of the source does to
  the locks and to the interrupt flag, in its order; \<open>e\<close> is the flag on entry. Values that decide which
  branch is taken (which terminal is active, which windows are open) are parameters, so that the
  theorems hold for all of them.

  \<open>AtomicWaker\<close>, \<open>ArrayQueue\<close>, \<open>OnceCell::try_get\<close> and the atomics are lock-free. Waking a task drops a reference
  to its waker; the executor's cache holds another, so the handler does not free memory.
\<close>

section \<open>Desktop and console\<close>

text \<open>What decides the way through the compositor: the open windows and the focused one.\<close>

record view =
  vw_open :: "nat \<Rightarrow> bool"
  vw_focus :: nat

definition active_terminal_acts :: "bool \<Rightarrow> act list" where
  "active_terminal_acts e = without_interrupts e (guarded L_DESKTOP [])"

definition is_open_acts :: "bool \<Rightarrow> act list" where
  "is_open_acts e = without_interrupts e (guarded L_DESKTOP [])"

definition pointer_acts :: "bool \<Rightarrow> act list" where
  "pointer_acts e = without_interrupts e (guarded L_DESKTOP [])"

definition windows_acts :: "bool \<Rightarrow> act list" where
  "windows_acts e = without_interrupts e (guarded L_DESKTOP [])"

definition draw_window_acts :: "act list" where
  "draw_window_acts = active_terminal_acts False"

text \<open>One iteration of the loop over the windows, and the cursor.\<close>

definition draw_open_acts :: "view \<Rightarrow> nat \<Rightarrow> act list" where
  "draw_open_acts v index = (if vw_open v index then draw_window_acts @ guarded (L_TERMINALS index) [] else [])"

definition draw_cursor_acts :: "view \<Rightarrow> act list" where
  "draw_cursor_acts v = (if vw_open v (vw_focus v) then guarded (L_TERMINALS (vw_focus v)) [] else [])"

definition render_desktop_acts :: "bool \<Rightarrow> view \<Rightarrow> act list" where
  "render_desktop_acts e v = without_interrupts e (guarded L_FRAME
     (windows_acts False @ active_terminal_acts False
      @ draw_open_acts v (1 - vw_focus v) @ draw_open_acts v (vw_focus v) @ draw_cursor_acts v
      @ pointer_acts False @ guarded L_PREVIOUS_FRAME [Do Video]))"

definition with_writer_acts :: "bool \<Rightarrow> nat \<Rightarrow> view \<Rightarrow> act list" where
  "with_writer_acts e active v =
     without_interrupts e (guarded (L_TERMINALS active) [Do Closure]) @ render_desktop_acts e v"

definition set_terminal_columns_acts :: "bool \<Rightarrow> nat \<Rightarrow> act list" where
  "set_terminal_columns_acts e index = without_interrupts e (guarded (L_TERMINALS (min index 1)) [])"

definition sync_terminal_widths_acts :: "bool \<Rightarrow> act list" where
  "sync_terminal_widths_acts e = windows_acts e @ set_terminal_columns_acts e 0 @ set_terminal_columns_acts e 1"

definition close_terminal_acts :: "bool \<Rightarrow> nat \<Rightarrow> view \<Rightarrow> act list" where
  "close_terminal_acts e active v = without_interrupts e (guarded L_DESKTOP []) @ sync_terminal_widths_acts e
     @ active_terminal_acts e @ with_writer_acts e active v"

definition open_terminal_acts :: "bool \<Rightarrow> bool \<Rightarrow> nat \<Rightarrow> view \<Rightarrow> act list" where
  "open_terminal_acts e opened active v = without_interrupts e (guarded L_DESKTOP [])
     @ (if opened then sync_terminal_widths_acts e @ with_writer_acts e active v else [])"

section \<open>Heap, network, serial port, executor\<close>

text \<open>\<open>alloc\<close>, \<open>dealloc\<close> and \<open>init\<close> of the global allocator hold its lock to their end.\<close>

definition alloc_acts :: "act list" where
  "alloc_acts = guarded L_ALLOCATOR []"

definition serial_print_acts :: "bool \<Rightarrow> act list" where
  "serial_print_acts e = without_interrupts e (guarded L_SERIAL1 [Do Uart])"

definition net_status_acts :: "act list" where
  "net_status_acts = guarded L_DEVICE []"

text \<open>\<open>fetch\<close> keeps the device while it allocates and waits; \<open>waits\<close> says for each step which of the two
  it does.\<close>

definition fetch_acts :: "bool list \<Rightarrow> act list" where
  "fetch_acts waits = guarded L_DEVICE (concat (map (\<lambda>wait. if wait then [Do Hlt] else alloc_acts) waits))"

definition pci_access_acts :: "bool \<Rightarrow> act list" where
  "pci_access_acts e = without_interrupts e []"

definition drain_acts :: "bool \<Rightarrow> act list" where
  "drain_acts e = without_interrupts e []"

definition sleep_if_idle_acts :: "bool \<Rightarrow> act list" where
  "sleep_if_idle_acts idle = Cli # (if idle then [Sti, Do Hlt] else [Sti])"

section \<open>Interrupt handlers\<close>

definition timer_acts :: "act list" where
  "timer_acts = guarded L_PICS []"

text \<open>\<open>add_scancode\<close> wakes the shell task when the queue exists.\<close>

definition keyboard_acts :: "bool \<Rightarrow> act list" where
  "keyboard_acts exists = (if exists then [Do Wake] else []) @ guarded L_PICS []"

text \<open>\<open>mouse_byte\<close>: a click on the icon or on a close button wakes the shell task under the lock of the
  desktop; a complete packet wakes the redraw worker after its release.\<close>

definition mouse_acts :: "bool \<Rightarrow> bool \<Rightarrow> act list" where
  "mouse_acts action complete = guarded L_DESKTOP (if action then [Do Wake] else [])
     @ (if complete then [Do Wake] else []) @ guarded L_PICS []"

definition kernel_handlers :: "act list set" where
  "kernel_handlers = {timer_acts} \<union> range keyboard_acts \<union> {mouse_acts action complete | action complete. True}"

section \<open>The kernel\<close>

text \<open>\<open>init\<close>: the lock of the interrupt controllers is taken before interrupts are on.\<close>

definition crab_init_acts :: "act list" where
  "crab_init_acts = guarded L_PICS [] @ guarded L_PICS [] @ [Sti]"

text \<open>What the executor and the two tasks do, call by call.\<close>

datatype kernel_op = Console_call nat view | Close_call nat view | Open_call bool nat view | Is_open_call
  | Active_terminal_call | Drain_call | Heap_call | Pci_call | Net_status_call | Fetch_call "bool list" | Sleep_call bool

fun op_acts :: "kernel_op \<Rightarrow> act list" where
  "op_acts (Console_call active v) = with_writer_acts True active v"
| "op_acts (Close_call active v) = close_terminal_acts True active v"
| "op_acts (Open_call opened active v) = open_terminal_acts True opened active v"
| "op_acts Is_open_call = is_open_acts True"
| "op_acts Active_terminal_call = active_terminal_acts True"
| "op_acts Drain_call = drain_acts True"
| "op_acts Heap_call = alloc_acts"
| "op_acts Pci_call = pci_access_acts True"
| "op_acts Net_status_call = net_status_acts"
| "op_acts (Fetch_call waits) = fetch_acts waits"
| "op_acts (Sleep_call idle) = sleep_if_idle_acts idle"

text \<open>\<open>kernel_main\<close>: board, heap, network (\<open>device\<close>: the card is stored; \<open>failed\<close>: the error is printed), then
  the calls of the executor and its tasks.\<close>

definition kernel_main_acts :: "bool \<Rightarrow> bool \<Rightarrow> kernel_op list \<Rightarrow> act list" where
  "kernel_main_acts device failed ops = crab_init_acts @ alloc_acts @ pci_access_acts True
     @ (if device then guarded L_DEVICE [] else []) @ (if failed then serial_print_acts True else [])
     @ concat (map op_acts ops)"

section \<open>Panics\<close>

text \<open>\<open>panic\<close> of \<^verbatim>\<open>main.rs\<close> up to its halt loop, entered with the locks that are held at the time; and the
  handler of the test build.\<close>

definition panic_acts :: "bool \<Rightarrow> nat \<Rightarrow> view \<Rightarrow> act list" where
  "panic_acts e active v = with_writer_acts e active v @ serial_print_acts e"

definition exit_qemu_acts :: "u32 \<Rightarrow> act list" where
  "exit_qemu_acts exit_code = [Do (Exit_port exit_code)]"

definition test_panic_acts :: "bool \<Rightarrow> act list" where
  "test_panic_acts e = serial_print_acts e @ serial_print_acts e @ exit_qemu_acts 0x11"

text \<open>The effects of code that runs from a state, and the lock at which it is stuck, if at any.\<close>

fun report :: "act list \<Rightarrow> lock_state \<Rightarrow> effect list \<times> lock option" where
  "report [] s = ([], None)"
| "report (a # as) s = (case perform a s of
      None \<Rightarrow> ([], (case a of Acquire l \<Rightarrow> Some l | _ \<Rightarrow> None))
    | Some s' \<Rightarrow> (case a of Do x \<Rightarrow> apfst (Cons x) (report as s') | _ \<Rightarrow> report as s'))"

section \<open>The discipline is kept\<close>

lemmas section_defs = guarded_def without_interrupts_def active_terminal_acts_def is_open_acts_def pointer_acts_def
  windows_acts_def set_terminal_columns_acts_def sync_terminal_widths_acts_def alloc_acts_def serial_print_acts_def
  net_status_acts_def pci_access_acts_def drain_acts_def sleep_if_idle_acts_def

lemmas render_defs = draw_window_acts_def draw_open_acts_def draw_cursor_acts_def render_desktop_acts_def with_writer_acts_def

text \<open>The locks that are never held with interrupts on: all but those of the heap and of the network
  device, which no handler takes.\<close>

fun shielded :: "lock \<Rightarrow> bool" where
  "shielded L_ALLOCATOR = False"
| "shielded L_DEVICE = False"
| "shielded _ = True"

fun handler_lock :: "lock \<Rightarrow> bool" where
  "handler_lock L_DESKTOP = True"
| "handler_lock L_PICS = True"
| "handler_lock _ = False"

interpretation kernel: interrupt_handlers shielded handler_lock kernel_handlers
proof unfold_locales
  show "handler_lock l \<Longrightarrow> shielded l" for l by (cases l) simp_all
qed (auto simp: kernel_handlers_def timer_acts_def keyboard_acts_def mouse_acts_def guarded_def handler_act_def split: if_splits)

lemma with_writer_closed: "closed_acts shielded True (with_writer_acts True active v)"
  by (simp add: closed_acts_def render_defs section_defs unshielded_def)

lemma sync_closed: "closed_acts shielded True (sync_terminal_widths_acts True)"
  by (simp add: closed_acts_def section_defs unshielded_def)

lemma section_closed:
  "closed_acts shielded True (without_interrupts True (guarded L_DESKTOP []))"
  "closed_acts shielded True (active_terminal_acts True)" "closed_acts shielded True (is_open_acts True)"
  "closed_acts shielded True (drain_acts True)" "closed_acts shielded True alloc_acts" "closed_acts shielded True (pci_access_acts True)"
  "closed_acts shielded True net_status_acts" "closed_acts shielded True (serial_print_acts True)"
  "closed_acts shielded True (sleep_if_idle_acts idle)"
  by (simp_all add: closed_acts_def section_defs unshielded_def)

text \<open>Waiting and allocating under the lock of the device.\<close>

lemma fetch_closed: "closed_acts shielded True (fetch_acts waits)"
proof -
  let ?part = "\<lambda>wait. if wait then [Do Hlt] else alloc_acts" and ?s = "([L_DEVICE], True)"
  have body: "safe shielded ?s (concat (map ?part waits)) \<and> run_acts (concat (map ?part waits)) ?s = Some ?s"
    by (induction waits) (simp_all add: section_defs unshielded_def)
  then show ?thesis by (simp add: closed_acts_def fetch_acts_def guarded_def unshielded_def safe_append)
qed

lemma op_acts_closed: "closed_acts shielded True (op_acts c)"
  by (cases c) (simp_all add: close_terminal_acts_def open_terminal_acts_def closed_acts_append with_writer_closed sync_closed
      section_closed fetch_closed)

lemma kernel_main_safe: "safe shielded ([], False) (kernel_main_acts device failed ops)"
proof -
  have "closed_acts shielded True (concat (map op_acts ops))"
    by (rule closed_acts_concat) (simp add: list_all_iff op_acts_closed)
  moreover have "closed_acts shielded True (if device then guarded L_DEVICE [] else [])"
    "closed_acts shielded True (if failed then serial_print_acts True else [])"
    using section_closed by (simp_all add: net_status_acts_def)
  ultimately have "closed_acts shielded True (alloc_acts @ pci_access_acts True @ (if device then guarded L_DEVICE [] else [])
      @ (if failed then serial_print_acts True else []) @ concat (map op_acts ops))"
    by (intro closed_acts_append section_closed)
  then show ?thesis by (simp add: kernel_main_acts_def crab_init_acts_def closed_acts_def guarded_def unshielded_def)
qed

text \<open>Reporting a panic gets as far as the locks allow.\<close>

lemma panic_report_free:
  assumes "\<forall>l \<in> set held. \<not> shielded l \<or> l = L_PICS"
  shows "report (panic_acts e active v) (held, e) = ([Closure, Video, Uart], None)"
proof -
  have "L_TERMINALS i \<notin> set held" "L_FRAME \<notin> set held" "L_PREVIOUS_FRAME \<notin> set held" "L_DESKTOP \<notin> set held" "L_SERIAL1 \<notin> set held" for i
    using assms by auto
  then show ?thesis by (simp add: panic_acts_def render_defs section_defs)
qed

lemma panic_report_desktop:
  assumes "\<forall>l \<in> set held. shielded l \<longrightarrow> handler_lock l" "L_DESKTOP \<in> set held"
  shows "report (panic_acts e active v) (held, e) = ([Closure], Some L_DESKTOP)"
proof -
  have "L_TERMINALS i \<notin> set held" "L_FRAME \<notin> set held" for i using assms(1) by auto
  with assms(2) show ?thesis by (simp add: panic_acts_def render_defs section_defs)
qed

text \<open>Where a console call can be interrupted: before its closure and before the repaint, at no other
  action. These are the two points of the schedule in theory \<^verbatim>\<open>Console\<close>.\<close>

fun flags :: "lock_state \<Rightarrow> act list \<Rightarrow> bool list" where
  "flags s [] = []"
| "flags s (a # as) = snd s # (case perform a s of None \<Rightarrow> [] | Some s' \<Rightarrow> flags s' as)"

lemma with_writer_interrupt_points:
  "\<exists>m. flags ([], True) (with_writer_acts True active v) = True # replicate 4 False @ True # replicate m False"
proof -
  let ?body = "tl (render_desktop_acts True v)"
  have "\<exists>m. flags ([], False) ?body = replicate m False"
    by (simp add: render_defs section_defs) (metis replicate_0 replicate_Suc)
  then show ?thesis
    by (simp add: with_writer_acts_def section_defs render_desktop_acts_def numeral_eq_Suc)
qed

section \<open>Properties\<close>

text \<open>C2: The kernel never deadlocks. Whatever the tasks call and in whatever order, whichever windows
  are open, and wherever the enabled interrupts arrive, no code of a task or of a handler ever waits
  for a lock that is held, and the processor never halts with interrupts off; and whenever interrupts
  are on, no lock but those of the heap and of the network device is held.\<close>

theorem locks_never_deadlock:
  assumes "lock_run kernel_handlers (processor False (kernel_main_acts device failed ops)) p"
  shows "\<not> blocked p \<and> (pr_enabled p \<longrightarrow> set (pr_held p) \<subseteq> {L_ALLOCATOR, L_DEVICE})"
proof -
  have inv: "kernel.lock_inv p" by (rule kernel.disciplined_inv [OF kernel_main_safe assms])
  then have "set (pr_held p) \<subseteq> {L_ALLOCATOR, L_DEVICE}" if "pr_enabled p"
    using kernel.lock_inv_shielded [OF inv that] by (auto simp: list_ex_iff elim: shielded.elims)
  with kernel.lock_inv_not_blocked [OF inv] show ?thesis by blast
qed

text \<open>For the witnesses: a click on a close button while a page is fetched, and a console call.\<close>

definition example_view :: view where
  "example_view = \<lparr>vw_open = (\<lambda>i. i = 0), vw_focus = 0\<rparr>"

definition click_during_fetch :: Processor where
  "click_during_fetch = \<lparr>pr_held = [L_DESKTOP, L_ALLOCATOR, L_DEVICE], pr_enabled = False,
     pr_task = [Release L_ALLOCATOR, Do Hlt, Release L_DEVICE],
     pr_handler = Some [Do Wake, Release L_DESKTOP, Do Wake, Acquire L_PICS, Release L_PICS]\<rparr>"

lemma click_during_fetch_run:
  "lock_run kernel_handlers (processor False (kernel_main_acts True False [Fetch_call [False, True]])) click_during_fetch"
proof -
  let ?pre = "crab_init_acts @ alloc_acts @ pci_access_acts True @ guarded L_DEVICE [] @ [Acquire L_DEVICE, Acquire L_ALLOCATOR]"
  let ?rest = "[Release L_ALLOCATOR, Do Hlt, Release L_DEVICE]"
  have acts: "kernel_main_acts True False [Fetch_call [False, True]] = ?pre @ ?rest"
    by (simp add: kernel_main_acts_def fetch_acts_def guarded_def alloc_acts_def)
  have "run_acts ?pre ([], False) = Some ([L_ALLOCATOR, L_DEVICE], True)"
    by (simp add: crab_init_acts_def section_defs)
  then have 1: "lock_run kernel_handlers (processor False (kernel_main_acts True False [Fetch_call [False, True]]))
      \<lparr>pr_held = [L_ALLOCATOR, L_DEVICE], pr_enabled = True, pr_task = ?rest, pr_handler = None\<rparr>"
    unfolding processor_def acts by (rule lock_run_task)
  let ?p = "\<lparr>pr_held = [L_ALLOCATOR, L_DEVICE], pr_enabled = True, pr_task = ?rest, pr_handler = None\<rparr>"
  have "mouse_acts True True \<in> kernel_handlers" by (auto simp: kernel_handlers_def)
  then have 2: "lock_step kernel_handlers ?p
      \<lparr>pr_held = [L_ALLOCATOR, L_DEVICE], pr_enabled = False, pr_task = ?rest, pr_handler = Some (mouse_acts True True)\<rparr>"
    using lock_step.interrupt [of ?p "mouse_acts True True" kernel_handlers] by simp
  have 3: "lock_run kernel_handlers
      \<lparr>pr_held = [L_ALLOCATOR, L_DEVICE], pr_enabled = False, pr_task = ?rest, pr_handler = Some (mouse_acts True True)\<rparr> click_during_fetch"
    unfolding click_during_fetch_def
    using lock_run_handler [of "[Acquire L_DESKTOP]" "[L_ALLOCATOR, L_DEVICE]" "[L_DESKTOP, L_ALLOCATOR, L_DEVICE]" kernel_handlers ?rest]
    by (simp add: mouse_acts_def guarded_def handler_act_def)
  from 1 2 3 show ?thesis by (blast intro: lock_run_trans lock_run.intros)
qed

definition console_closure :: Processor where
  "console_closure = \<lparr>pr_held = [L_TERMINALS 1], pr_enabled = False,
     pr_task = Do Closure # Release (L_TERMINALS 1) # Sti # render_desktop_acts True example_view, pr_handler = None\<rparr>"

lemma console_closure_run:
  "lock_run kernel_handlers (processor False (kernel_main_acts False True [Console_call 1 example_view])) console_closure"
proof -
  let ?pre = "crab_init_acts @ alloc_acts @ pci_access_acts True @ serial_print_acts True @ [Cli, Acquire (L_TERMINALS 1)]"
  have acts: "kernel_main_acts False True [Console_call 1 example_view] = ?pre @ pr_task console_closure"
    by (simp add: kernel_main_acts_def with_writer_acts_def console_closure_def guarded_def without_interrupts_def)
  have "run_acts ?pre ([], False) = Some ([L_TERMINALS 1], False)"
    by (simp add: crab_init_acts_def section_defs)
  from lock_run_task [OF this, of kernel_handlers "pr_task console_closure"] show ?thesis
    unfolding processor_def acts by (simp add: console_closure_def)
qed

theorem locks_never_deadlock_witness:
  "\<not> blocked click_during_fetch \<and> pr_handler click_during_fetch \<noteq> None"
  using locks_never_deadlock [OF click_during_fetch_run] by (simp add: click_during_fetch_def)

text \<open>C15: Which panics are reported. If a task panics at a point where interrupts are on, the message
  reaches the screen and the serial port. If an interrupt handler panics, it does so unless the
  handler holds the lock of the desktop: then the text is put into the terminal, but the repaint waits
  for that lock forever and neither screen nor serial port shows it. If the closure given to
  \<open>with_writer\<close> panics, the handler waits for the terminal it already holds and nothing is reported.
  The handler of the test build, which only uses the serial port, reports in all three cases.\<close>

theorem panic_report_depends_on_locks:
  assumes "lock_run kernel_handlers (processor False (kernel_main_acts device failed ops)) p"
  shows "(pr_enabled p \<longrightarrow> report (panic_acts True active v) (pr_held p, True) = ([Closure, Video, Uart], None))
    \<and> (pr_handler p \<noteq> None \<longrightarrow> report (panic_acts False active v) (pr_held p, False) =
        (if L_DESKTOP \<in> set (pr_held p) then ([Closure], Some L_DESKTOP) else ([Closure, Video, Uart], None)))
    \<and> (pr_handler p = None \<and> next_acts p = Do Closure # rest \<longrightarrow>
        (\<exists>i. pr_held p = [L_TERMINALS i] \<and> report (panic_acts False i v) (pr_held p, False) = ([], Some (L_TERMINALS i))))
    \<and> (pr_enabled p \<or> pr_handler p \<noteq> None \<or> next_acts p = Do Closure # rest \<longrightarrow>
        report (test_panic_acts (pr_enabled p)) (pr_held p, pr_enabled p) = ([Uart, Uart, Exit_port 0x11], None))"
proof -
  have inv: "kernel.lock_inv p" by (rule kernel.disciplined_inv [OF kernel_main_safe assms])
  have on: "\<forall>l \<in> set (pr_held p). \<not> shielded l" if "pr_enabled p"
    using kernel.lock_inv_shielded [OF inv that] by (auto simp: list_ex_iff)
  have irq: "\<forall>l \<in> set (pr_held p). shielded l \<longrightarrow> handler_lock l" if "pr_handler p \<noteq> None"
    using kernel.lock_inv_handler [OF inv that] by blast
  have cl: "\<exists>i. pr_held p = [L_TERMINALS i]" if "pr_handler p = None" "next_acts p = Do Closure # rest"
    using kernel.lock_inv_closure [OF inv that(2,1)] by blast
  have "\<forall>l \<in> set (pr_held p). \<not> shielded l \<or> l = L_PICS" if "pr_handler p \<noteq> None" "L_DESKTOP \<notin> set (pr_held p)"
    using irq [OF that(1)] that(2) by (auto elim: handler_lock.elims)
  then have 2: "pr_handler p \<noteq> None \<longrightarrow> report (panic_acts False active v) (pr_held p, False) =
      (if L_DESKTOP \<in> set (pr_held p) then ([Closure], Some L_DESKTOP) else ([Closure, Video, Uart], None))"
    using panic_report_free panic_report_desktop irq by simp
  have 3: "report (panic_acts False i v) ([L_TERMINALS i], False) = ([], Some (L_TERMINALS i))" for i
    by (simp add: panic_acts_def with_writer_acts_def without_interrupts_def guarded_def)
  have "L_SERIAL1 \<notin> set (pr_held p)" if "pr_enabled p \<or> pr_handler p \<noteq> None \<or> next_acts p = Do Closure # rest"
    using that on irq cl by (cases "pr_handler p") fastforce+
  then have 4: "pr_enabled p \<or> pr_handler p \<noteq> None \<or> next_acts p = Do Closure # rest \<longrightarrow>
      report (test_panic_acts (pr_enabled p)) (pr_held p, pr_enabled p) = ([Uart, Uart, Exit_port 0x11], None)"
    by (simp add: test_panic_acts_def exit_qemu_acts_def section_defs)
  show ?thesis using panic_report_free on 2 3 4 cl by fastforce
qed

theorem panic_report_depends_on_locks_witness:
  "report (panic_acts False 0 example_view) (pr_held click_during_fetch, False) = ([Closure], Some L_DESKTOP)
   \<and> report (panic_acts False 1 example_view) (pr_held console_closure, False) = ([], Some (L_TERMINALS 1))"
  using panic_report_depends_on_locks [OF click_during_fetch_run, of 0 example_view]
    panic_report_depends_on_locks [OF console_closure_run, of 0 example_view]
  by (simp add: click_during_fetch_def console_closure_def next_acts_def)

end
