(* ===== verification/Board.thy ===== *)
theory Board
  imports Timer "HOL-Library.Monad_Syntax"
begin

unbundle bit_operations_syntax

text \<open>
  Bringing the processor and the board up: the descriptor tables of \<^verbatim>\<open>src/src/gdt.rs\<close>, the interrupt table and
  the programming of timer, mouse and interrupt controllers of \<^verbatim>\<open>src/src/interrupts.rs\<close>, and \<open>init\<close> of
  \<^verbatim>\<open>src/src/lib.rs\<close>.

  Parameters: the port instructions and the crate \<open>pic8259\<close> (\<open>board_ops\<close>, on a state of the hardware),
  and the table type of the crate \<open>x86_64\<close> (\<open>gdt_ops\<close>). The locales \<open>board\<close> and \<open>descriptor_table\<close> state their
  documented behaviour: for the ports, what the timer and the keyboard controller do with a byte.
\<close>

section \<open>Descriptor tables\<close>

definition DOUBLE_FAULT_IST_INDEX :: nat where "DOUBLE_FAULT_IST_INDEX = 0"
definition STACK_SIZE :: nat where "STACK_SIZE = 4096 * 5"

record TaskStateSegment =
  interrupt_stack_table :: "nat list"

text \<open>\<open>VirtAddr + u64\<close>, which panics when the sum is not a canonical address of the lower half; \<open>STACK\<close>
  lies there.\<close>

definition virt_add :: "nat \<Rightarrow> nat \<Rightarrow> nat option" where
  "virt_add a n = (if a + n < 2 ^ 47 then Some (a + n) else None)"

definition TSS :: "nat \<Rightarrow> TaskStateSegment option" where
  "TSS stack_start = do {
     stack_end \<leftarrow> virt_add stack_start STACK_SIZE;
     ist \<leftarrow> arr_set (replicate 7 0) DOUBLE_FAULT_IST_INDEX stack_end;
     Some \<lparr>interrupt_stack_table = ist\<rparr>
   }"

datatype Descriptor = kernel_code_segment | tss_segment TaskStateSegment

text \<open>\<open>append\<close> panics when the table is full; otherwise it returns the new table and the selector.\<close>

record 'g gdt_ops =
  gdt_new :: 'g
  gdt_append :: "'g \<Rightarrow> Descriptor \<Rightarrow> ('g \<times> u16) option"

record Selectors =
  code_selector :: u16
  tss_selector :: u16

definition GDT :: "'g gdt_ops \<Rightarrow> nat \<Rightarrow> ('g \<times> Selectors) option" where
  "GDT G stack_start = do {
     let gdt = gdt_new G;
     (gdt, code) \<leftarrow> gdt_append G gdt kernel_code_segment;
     tss \<leftarrow> TSS stack_start;
     (gdt, tss) \<leftarrow> gdt_append G gdt (tss_segment tss);
     Some (gdt, \<lparr>code_selector = code, tss_selector = tss\<rparr>)
   }"

section \<open>The interrupt table\<close>

datatype Handler = breakpoint_handler | double_fault_handler | timer_interrupt_handler | keyboard_interrupt_handler
  | mouse_interrupt_handler | page_fault_handler

record Gate =
  g_handler :: Handler
  g_stack_index :: "nat option"

definition gate :: "Handler \<Rightarrow> Gate" where
  "gate h = \<lparr>g_handler = h, g_stack_index = None\<rparr>"

text \<open>By vector; breakpoint, double fault and page fault are the exceptions 3, 8 and 14.\<close>

definition IDT :: "nat \<Rightarrow> Gate option" where
  "IDT = Map.empty(3 \<mapsto> gate breakpoint_handler,
     8 \<mapsto> (gate double_fault_handler)\<lparr>g_stack_index := Some DOUBLE_FAULT_IST_INDEX\<rparr>,
     interrupt_as_u8 TimerIrq \<mapsto> gate timer_interrupt_handler,
     interrupt_as_u8 KeyboardIrq \<mapsto> gate keyboard_interrupt_handler,
     interrupt_as_u8 MouseIrq \<mapsto> gate mouse_interrupt_handler,
     14 \<mapsto> gate page_fault_handler)"

text \<open>The vector a handler reports to \<open>notify_end_of_interrupt\<close>; the exception handlers report none.\<close>

fun end_of_interrupt :: "Handler \<Rightarrow> nat option" where
  "end_of_interrupt timer_interrupt_handler = Some (interrupt_as_u8 TimerIrq)"
| "end_of_interrupt keyboard_interrupt_handler = Some (interrupt_as_u8 KeyboardIrq)"
| "end_of_interrupt mouse_interrupt_handler = Some (interrupt_as_u8 MouseIrq)"
| "end_of_interrupt _ = None"

section \<open>Timer and mouse\<close>

record 'h board_ops =
  io_write :: "nat \<Rightarrow> u8 \<Rightarrow> 'h \<Rightarrow> 'h"
  io_read :: "nat \<Rightarrow> 'h \<Rightarrow> 'h \<times> u8"
  pics_initialize :: "nat \<Rightarrow> nat \<Rightarrow> 'h \<Rightarrow> 'h"
  pics_write_masks :: "u8 \<Rightarrow> u8 \<Rightarrow> 'h \<Rightarrow> 'h"

definition init_timer :: "'h board_ops \<Rightarrow> 'h \<Rightarrow> 'h" where
  "init_timer B h = (let
     h = io_write B 0x43 0x36 h;
     h = io_write B 0x40 (of_nat PIT_DIVISOR) h;
     h = io_write B 0x40 (of_nat (PIT_DIVISOR div 2 ^ 8)) h in h)"

text \<open>\<open>while command.read() & 1 == 0 {}\<close> and \<open>while command.read() & 2 != 0 {}\<close>\<close>

partial_function (option) wait_output :: "'h board_ops \<Rightarrow> 'h \<Rightarrow> 'h option" where
  "wait_output B h = (case io_read B 0x64 h of (h, status) \<Rightarrow> if status AND 1 = 0 then wait_output B h else Some h)"

partial_function (option) wait_input :: "'h board_ops \<Rightarrow> 'h \<Rightarrow> 'h option" where
  "wait_input B h = (case io_read B 0x64 h of (h, status) \<Rightarrow> if status AND 2 \<noteq> 0 then wait_input B h else Some h)"

text \<open>A command for the mouse, with its acknowledgement read and dropped.\<close>

definition mouse_command :: "'h board_ops \<Rightarrow> u8 \<Rightarrow> 'h \<Rightarrow> 'h option" where
  "mouse_command B command h = do {
     let h = io_write B 0x64 0xd4 h;
     h \<leftarrow> wait_input B h;
     let h = io_write B 0x60 command h;
     h \<leftarrow> wait_output B h;
     Some (fst (io_read B 0x60 h))
   }"

definition init_mouse :: "'h board_ops \<Rightarrow> 'h \<Rightarrow> 'h option" where
  "init_mouse B h = do {
     let h = io_write B 0x64 0xa8 h;
     let h = io_write B 0x64 0x20 h;
     h \<leftarrow> wait_output B h;
     let (h, config) = io_read B 0x60 h;
     let config = (config OR 2) AND NOT 0x20;
     let h = io_write B 0x64 0x60 h;
     h \<leftarrow> wait_input B h;
     let h = io_write B 0x60 config h;
     h \<leftarrow> mouse_command B 0xf6 h;
     h \<leftarrow> mouse_command B 0xf4 h;
     Some (pics_write_masks B 0b11111000 0b11101111 h)
   }"

section \<open>Initialisation\<close>

record ('g, 'h) Cpu =
  cpu_gdt :: "'g option"
  cpu_cs :: u16
  cpu_tr :: u16
  cpu_idt :: "(nat \<Rightarrow> Gate option) option"
  cpu_interrupts :: bool
  cpu_hw :: 'h

definition gdt_init :: "'g gdt_ops \<Rightarrow> nat \<Rightarrow> ('g, 'h) Cpu \<Rightarrow> ('g, 'h) Cpu option" where
  "gdt_init G stack_start c = do {
     (gdt, selectors) \<leftarrow> GDT G stack_start;
     Some (c\<lparr>cpu_gdt := Some gdt, cpu_cs := code_selector selectors, cpu_tr := tss_selector selectors\<rparr>)
   }"

definition init_idt :: "('g, 'h) Cpu \<Rightarrow> ('g, 'h) Cpu" where
  "init_idt c = c\<lparr>cpu_idt := Some IDT\<rparr>"

definition crab_init :: "'g gdt_ops \<Rightarrow> 'h board_ops \<Rightarrow> nat \<Rightarrow> ('g, 'h) Cpu \<Rightarrow> ('g, 'h) Cpu option" where
  "crab_init G B stack_start c = do {
     c \<leftarrow> gdt_init G stack_start c;
     let c = init_idt c;
     let h = pics_initialize B PIC_1_OFFSET PIC_2_OFFSET (cpu_hw c);
     let h = init_timer B h;
     h \<leftarrow> init_mouse B h;
     Some (c\<lparr>cpu_hw := h, cpu_interrupts := True\<rparr>)
   }"

section \<open>The contracts\<close>

text \<open>A table of descriptors with seven free slots; a task state segment takes two.\<close>

definition slots :: "Descriptor \<Rightarrow> nat" where
  "slots d = (case d of kernel_code_segment \<Rightarrow> 1 | tss_segment _ \<Rightarrow> 2)"

locale descriptor_table =
  fixes G :: "'g gdt_ops"
    and used :: "'g \<Rightarrow> nat"
    and descriptor :: "'g \<Rightarrow> u16 \<Rightarrow> Descriptor option"
  assumes new_empty: "used (gdt_new G) = 0"
    and append_fits: "used g + slots d \<le> 7 \<Longrightarrow> \<exists>g' sel. gdt_append G g d = Some (g', sel) \<and> used g' = used g + slots d
      \<and> descriptor g sel = None \<and> descriptor g' = (descriptor g)(sel \<mapsto> d)"
begin

text \<open>The code segment and the task state segment get selectors of their own.\<close>

lemma gdt_selects:
  assumes "stack_start + STACK_SIZE < 2 ^ 47"
  shows "\<exists>gdt sels tss. GDT G stack_start = Some (gdt, sels) \<and> descriptor gdt (code_selector sels) = Some kernel_code_segment
    \<and> descriptor gdt (tss_selector sels) = Some (tss_segment tss)
    \<and> interrupt_stack_table tss ! DOUBLE_FAULT_IST_INDEX = stack_start + STACK_SIZE"
proof -
  obtain g1 c where g1: "gdt_append G (gdt_new G) kernel_code_segment = Some (g1, c)" "used g1 = 1" "descriptor g1 c = Some kernel_code_segment"
    using append_fits [of "gdt_new G" kernel_code_segment] new_empty by (auto simp: slots_def)
  let ?tss = "\<lparr>interrupt_stack_table = (replicate 7 0)[0 := stack_start + STACK_SIZE]\<rparr>"
  obtain g2 t where g2: "gdt_append G g1 (tss_segment ?tss) = Some (g2, t)" "descriptor g1 t = None"
    "descriptor g2 = (descriptor g1)(t \<mapsto> tss_segment ?tss)"
    using append_fits [of g1 "tss_segment ?tss"] g1(2) by (auto simp: slots_def)
  have "c \<noteq> t" using g1(3) g2(2) by auto
  moreover have "TSS stack_start = Some ?tss" using assms by (simp add: TSS_def virt_add_def arr_set_def DOUBLE_FAULT_IST_INDEX_def)
  ultimately show ?thesis
    using g1 g2 by (simp add: GDT_def DOUBLE_FAULT_IST_INDEX_def)
qed

end

text \<open>The state of the timer (bytes since the last mode command), the keyboard controller (its
  configuration byte, the bytes to be read, the command waiting for its data byte, the commands sent
  to the mouse) and the interrupt controllers.\<close>

record Chips =
  pit_bytes :: "u8 list"
  kb_config :: u8
  kb_auxiliary :: bool
  kb_output :: "u8 list"
  kb_expects :: "u8 option"
  kb_mouse :: "u8 list"
  pic_masks :: "u8 \<times> u8"
  pic_offsets :: "nat \<times> nat"

text \<open>What a byte written to a port does.\<close>

definition chip_write :: "nat \<Rightarrow> u8 \<Rightarrow> Chips \<Rightarrow> Chips" where
  "chip_write port v c =
     (if port = 0x43 then c\<lparr>pit_bytes := []\<rparr>
      else if port = 0x40 then c\<lparr>pit_bytes := pit_bytes c @ [v]\<rparr>
      else if port = 0x64 then
        (if v = 0xa8 then c\<lparr>kb_auxiliary := True\<rparr>
         else if v = 0x20 then c\<lparr>kb_output := kb_output c @ [kb_config c]\<rparr>
         else c\<lparr>kb_expects := Some v\<rparr>)
      else (case kb_expects c of
          None \<Rightarrow> c
        | Some command \<Rightarrow>
            if command = 0x60 then c\<lparr>kb_config := v, kb_expects := None\<rparr>
            else c\<lparr>kb_mouse := kb_mouse c @ [v], kb_output := kb_output c @ [0xfa], kb_expects := None\<rparr>))"

text \<open>The controller may take its time: while \<open>delay\<close> is positive the status bits may say \<open>not yet\<close>,
  and every look at them counts down. A byte is never announced that is not there.\<close>

locale board =
  fixes B :: "'h board_ops"
    and chips :: "'h \<Rightarrow> Chips"
    and delay :: "'h \<Rightarrow> nat"
  assumes write_chips: "port \<in> {0x40, 0x43, 0x60, 0x64} \<Longrightarrow> chips (io_write B port v h) = chip_write port v (chips h)"
    and read_status: "chips (fst (io_read B 0x64 h)) = chips h"
    and status_counts: "0 < delay h \<Longrightarrow> delay (fst (io_read B 0x64 h)) < delay h"
    and status_true: "snd (io_read B 0x64 h) AND 1 \<noteq> 0 \<Longrightarrow> kb_output (chips h) \<noteq> []"
    and status_ready: "delay h = 0 \<Longrightarrow> (snd (io_read B 0x64 h) AND 1 = 0 \<longleftrightarrow> kb_output (chips h) = []) \<and> snd (io_read B 0x64 h) AND 2 = 0"
    and read_data: "kb_output (chips h) = b # bs \<Longrightarrow> snd (io_read B 0x60 h) = b \<and> chips (fst (io_read B 0x60 h)) = (chips h)\<lparr>kb_output := bs\<rparr>"
    and initialize_chips: "chips (pics_initialize B o1 o2 h) = (chips h)\<lparr>pic_offsets := (o1, o2)\<rparr>"
    and masks_chips: "chips (pics_write_masks B a b h) = (chips h)\<lparr>pic_masks := (a, b)\<rparr>"
begin

lemma wait_output_ends:
  assumes "kb_output (chips h) \<noteq> []"
  shows "\<exists>h'. wait_output B h = Some h' \<and> chips h' = chips h"
  using assms
proof (induction "delay h" arbitrary: h rule: less_induct)
  case less
  obtain h1 s where r: "io_read B 0x64 h = (h1, s)" by fastforce
  have c: "chips h1 = chips h" using read_status [of h] r by simp
  show ?case
  proof (cases "s AND 1 = 0")
    case False
    then show ?thesis using r c by (simp add: wait_output.simps [of B h])
  next
    case True
    then have "0 < delay h" using status_ready [of h] less.prems r by auto
    then show ?thesis
      using less.hyps [of h1] status_counts [of h] less.prems r c True by (simp add: wait_output.simps [of B h])
  qed
qed

lemma wait_input_ends: "\<exists>h'. wait_input B h = Some h' \<and> chips h' = chips h"
proof (induction "delay h" arbitrary: h rule: less_induct)
  case less
  obtain h1 s where r: "io_read B 0x64 h = (h1, s)" by fastforce
  have c: "chips h1 = chips h" using read_status [of h] r by simp
  show ?case
  proof (cases "s AND 2 \<noteq> 0")
    case False
    then show ?thesis using r c by (simp add: wait_input.simps [of B h])
  next
    case True
    then have "0 < delay h" using status_ready [of h] r by (cases "delay h") auto
    then show ?thesis using less.hyps [of h1] status_counts [of h] r c True by (simp add: wait_input.simps [of B h])
  qed
qed

lemma init_timer_chips: "chips (init_timer B h) = (chips h)\<lparr>pit_bytes := [of_nat PIT_DIVISOR, of_nat (PIT_DIVISOR div 2 ^ 8)]\<rparr>"
  by (simp add: init_timer_def write_chips chip_write_def)

text \<open>A command reaches the mouse and the oldest byte of the output buffer is dropped.\<close>

lemma mouse_command_chips:
  "\<exists>h'. mouse_command B v h = Some h'
    \<and> chips h' = (chips h)\<lparr>kb_mouse := kb_mouse (chips h) @ [v], kb_output := tl (kb_output (chips h) @ [0xfa]), kb_expects := None\<rparr>"
proof -
  obtain h1 where h1: "wait_input B (io_write B 0x64 0xd4 h) = Some h1" "chips h1 = (chips h)\<lparr>kb_expects := Some 0xd4\<rparr>"
    using wait_input_ends [of "io_write B 0x64 0xd4 h"] by (auto simp: write_chips chip_write_def)
  let ?h = "io_write B 0x60 v h1"
  have c: "chips ?h = (chips h)\<lparr>kb_mouse := kb_mouse (chips h) @ [v], kb_output := kb_output (chips h) @ [0xfa], kb_expects := None\<rparr>"
    using h1(2) by (simp add: write_chips chip_write_def)
  obtain h2 where h2: "wait_output B ?h = Some h2" "chips h2 = chips ?h" using wait_output_ends [of ?h] c by auto
  obtain b bs where o: "kb_output (chips h) @ [0xfa] = b # bs" by (cases "kb_output (chips h)") auto
  have "chips (fst (io_read B 0x60 h2)) = (chips h2)\<lparr>kb_output := bs\<rparr>" using read_data [of h2 b bs] h2(2) c o by simp
  then show ?thesis using h1(1) h2 c o by (simp add: mouse_command_def)
qed

lemma init_mouse_chips:
  assumes "kb_output (chips h) @ [kb_config (chips h)] = b # bs"
  shows "\<exists>h'. init_mouse B h = Some h' \<and> chips h' = (chips h)\<lparr>kb_auxiliary := True, kb_config := (b OR 2) AND NOT 0x20, kb_expects := None,
      kb_output := tl (tl (bs @ [0xfa]) @ [0xfa]), kb_mouse := kb_mouse (chips h) @ [0xf6, 0xf4], pic_masks := (0b11111000, 0b11101111)\<rparr>"
proof -
  let ?h = "io_write B 0x64 0x20 (io_write B 0x64 0xa8 h)"
  have c: "chips ?h = (chips h)\<lparr>kb_auxiliary := True, kb_output := b # bs\<rparr>" using assms by (simp add: write_chips chip_write_def)
  obtain h1 where h1: "wait_output B ?h = Some h1" "chips h1 = chips ?h" using wait_output_ends [of ?h] c by auto
  obtain h2 where h2: "io_read B 0x60 h1 = (h2, b)" "chips h2 = (chips h)\<lparr>kb_auxiliary := True, kb_output := bs\<rparr>"
    using read_data [of h1 b bs] h1(2) c by (cases "io_read B 0x60 h1") simp
  obtain h3 where h3: "wait_input B (io_write B 0x64 0x60 h2) = Some h3"
    "chips h3 = (chips h)\<lparr>kb_auxiliary := True, kb_output := bs, kb_expects := Some 0x60\<rparr>"
    using wait_input_ends [of "io_write B 0x64 0x60 h2"] h2(2) by (auto simp: write_chips chip_write_def)
  let ?h4 = "io_write B 0x60 ((b OR 2) AND NOT 0x20) h3"
  have c4: "chips ?h4 = (chips h)\<lparr>kb_auxiliary := True, kb_output := bs, kb_config := (b OR 2) AND NOT 0x20, kb_expects := None\<rparr>"
    using h3(2) by (simp add: write_chips chip_write_def)
  obtain h5 where h5: "mouse_command B 0xf6 ?h4 = Some h5" "chips h5 = (chips ?h4)\<lparr>kb_mouse := kb_mouse (chips h) @ [0xf6],
      kb_output := tl (bs @ [0xfa]), kb_expects := None\<rparr>" using mouse_command_chips [of "0xf6" ?h4] c4 by auto
  obtain h6 where h6: "mouse_command B 0xf4 h5 = Some h6" "chips h6 = (chips h5)\<lparr>kb_mouse := kb_mouse (chips h) @ [0xf6, 0xf4],
      kb_output := tl (tl (bs @ [0xfa]) @ [0xfa]), kb_expects := None\<rparr>" using mouse_command_chips [of "0xf4" h5] h5(2) by auto
  show ?thesis
    using h1(1) h2(1) h3(1) h5(1) h6 h5(2) c4 by (simp add: init_mouse_def Let_def masks_chips)
qed

end

section \<open>Reference hardware\<close>

text \<open>A table that is the list of its descriptors, and a controller that says \<open>not yet\<close> three times
  after every write.\<close>

fun table_lookup :: "nat \<Rightarrow> Descriptor list \<Rightarrow> nat \<Rightarrow> Descriptor option" where
  "table_lookup p [] k = None"
| "table_lookup p (d # ds) k = (if k = p then Some d else table_lookup (p + 8 * slots d) ds k)"

abbreviation table_used :: "Descriptor list \<Rightarrow> nat" where
  "table_used g \<equiv> sum_list (map slots g)"

definition list_table :: "Descriptor list gdt_ops" where
  "list_table = \<lparr>gdt_new = [], gdt_append = (\<lambda>g d. if table_used g + slots d \<le> 7
     then Some (g @ [d], of_nat (8 + 8 * table_used g)) else None)\<rparr>"

lemma table_lookup_append:
  "table_lookup p (g @ [d]) = (table_lookup p g)(p + 8 * table_used g \<mapsto> d) \<and> table_lookup p g (p + 8 * table_used g) = None"
proof (induction g arbitrary: p)
  case (Cons a g)
  have "0 < slots a" by (simp add: slots_def split: Descriptor.split)
  then show ?case using Cons [of "p + 8 * slots a"] by (auto simp: fun_eq_iff algebra_simps)
qed (auto simp: fun_eq_iff)

lemma unat_u16: "n < 2 ^ 16 \<Longrightarrow> unat (of_nat n :: u16) = n"
  by (simp add: unat_of_nat)

interpretation list_table: descriptor_table list_table table_used "\<lambda>g s. table_lookup 8 g (unat s)"
proof
  fix g d assume fit: "table_used g + slots d \<le> 7"
  then have "8 + 8 * table_used g < 2 ^ 16" by simp
  then have u: "unat (of_nat (8 + 8 * table_used g) :: u16) = 8 + 8 * table_used g"
    by (rule unat_u16)
  show "\<exists>g' sel. gdt_append list_table g d = Some (g', sel) \<and> table_used g' = table_used g + slots d
      \<and> table_lookup 8 g (unat sel) = None \<and> (\<lambda>s. table_lookup 8 g' (unat s)) = (\<lambda>s. table_lookup 8 g (unat s))(sel \<mapsto> d)"
  proof (intro exI conjI)
    show "gdt_append list_table g d = Some (g @ [d], of_nat (8 + 8 * table_used g))" using fit by (simp add: list_table_def)
    show "table_lookup 8 g (unat (of_nat (8 + 8 * table_used g) :: u16)) = None" unfolding u using table_lookup_append by blast
    show "(\<lambda>s :: u16. table_lookup 8 (g @ [d]) (unat s)) = (\<lambda>s. table_lookup 8 g (unat s))(of_nat (8 + 8 * table_used g) \<mapsto> d)"
    proof (rule ext)
      fix s :: u16
      have "unat s = 8 + 8 * table_used g \<longleftrightarrow> s = of_nat (8 + 8 * table_used g)" using u word_unat_eq_iff [of s "of_nat (8 + 8 * table_used g)"] by (simp only:)
      then show "table_lookup 8 (g @ [d]) (unat s) = ((\<lambda>s. table_lookup 8 g (unat s))(of_nat (8 + 8 * table_used g) \<mapsto> d)) s"
        using table_lookup_append [of 8 g d] by simp
    qed
  qed simp
qed (simp add: list_table_def)

definition slow_board :: "(Chips \<times> nat) board_ops" where
  "slow_board = \<lparr>io_write = (\<lambda>port v (c, n). (chip_write port v c, 3)),
     io_read = (\<lambda>port (c, n).
       if port = 0x64 then ((c, n - 1), if 0 < n then 2 else if kb_output c = [] then 0 else 1)
       else ((c\<lparr>kb_output := tl (kb_output c)\<rparr>, n), hd (kb_output c))),
     pics_initialize = (\<lambda>o1 o2 (c, n). (c\<lparr>pic_offsets := (o1, o2)\<rparr>, n)),
     pics_write_masks = (\<lambda>a b (c, n). (c\<lparr>pic_masks := (a, b)\<rparr>, n))\<rparr>"

interpretation slow_board: board slow_board fst snd
  by unfold_locales (auto simp: slow_board_def split: if_splits)

section \<open>Properties\<close>

text \<open>The period the timer is programmed with, and the vector of an interrupt line; the second
  controller holds the lines from 8.\<close>

definition pit_reload :: "Chips \<Rightarrow> nat" where
  "pit_reload c = (case pit_bytes c of [lo, hi] \<Rightarrow> unat lo + 256 * unat hi | _ \<Rightarrow> 0)"

definition line_vector :: "Chips \<Rightarrow> nat \<Rightarrow> nat" where
  "line_vector c line = (if line < 8 then fst (pic_offsets c) + line else snd (pic_offsets c) + (line - 8))"

definition line_masked :: "Chips \<Rightarrow> nat \<Rightarrow> bool" where
  "line_masked c line = (if line < 8 then bit (fst (pic_masks c)) line else bit (snd (pic_masks c)) (line - 8))"

lemma config_bits: "bit ((w OR 2) AND NOT 0x20 :: u8) i \<longleftrightarrow> i = 1 \<or> i \<noteq> 5 \<and> bit w i"
proof (cases "i < 8")
  case True
  then have "i \<in> {0, 1, 2, 3, 4, 5, 6, 7}" by auto
  then show ?thesis by (elim insertE) (simp_all add: bit_simps bit_numeral_rec)
qed (auto simp: bit_simps dest: bit_imp_le_length)

lemma mask_lines:
  "list_all (\<lambda>line. (\<not> (if line < 8 then bit (0b11111000 :: u8) line else bit (0b11101111 :: u8) (line - 8))) = (line \<in> {0, 1, 2, 12})) [0..<16]"
  by code_simp

lemma crab_init_spec:
  assumes "descriptor_table G used descriptor" "board B chips delay" "stack_start + STACK_SIZE < 2 ^ 47"
    "kb_output (chips (cpu_hw c)) = []"
  shows "\<exists>c' gdt tss. crab_init G B stack_start c = Some c' \<and> cpu_interrupts c' \<and> cpu_idt c' = Some IDT \<and> cpu_gdt c' = Some gdt
    \<and> descriptor gdt (cpu_cs c') = Some kernel_code_segment \<and> descriptor gdt (cpu_tr c') = Some (tss_segment tss)
    \<and> interrupt_stack_table tss ! DOUBLE_FAULT_IST_INDEX = stack_start + STACK_SIZE
    \<and> chips (cpu_hw c') = (chips (cpu_hw c))\<lparr>pit_bytes := [of_nat PIT_DIVISOR, of_nat (PIT_DIVISOR div 2 ^ 8)],
        kb_config := (kb_config (chips (cpu_hw c)) OR 2) AND NOT 0x20, kb_auxiliary := True, kb_output := [], kb_expects := None,
        kb_mouse := kb_mouse (chips (cpu_hw c)) @ [0xf6, 0xf4], pic_masks := (0b11111000, 0b11101111), pic_offsets := (PIC_1_OFFSET, PIC_2_OFFSET)\<rparr>"
proof -
  obtain gdt sels tss where g: "GDT G stack_start = Some (gdt, sels)" "descriptor gdt (code_selector sels) = Some kernel_code_segment"
    "descriptor gdt (tss_selector sels) = Some (tss_segment tss)" "interrupt_stack_table tss ! DOUBLE_FAULT_IST_INDEX = stack_start + STACK_SIZE"
    using descriptor_table.gdt_selects [OF assms(1,3)] by blast
  let ?h = "init_timer B (pics_initialize B PIC_1_OFFSET PIC_2_OFFSET (cpu_hw c))"
  have t: "chips ?h = (chips (cpu_hw c))\<lparr>pit_bytes := [of_nat PIT_DIVISOR, of_nat (PIT_DIVISOR div 2 ^ 8)], pic_offsets := (PIC_1_OFFSET, PIC_2_OFFSET)\<rparr>"
    using board.init_timer_chips [OF assms(2)] board.initialize_chips [OF assms(2)] by simp
  have "kb_output (chips ?h) @ [kb_config (chips ?h)] = [kb_config (chips (cpu_hw c))]" using t assms(4) by simp
  from board.init_mouse_chips [OF assms(2) this] obtain h' where h': "init_mouse B ?h = Some h'"
    "chips h' = (chips ?h)\<lparr>kb_auxiliary := True, kb_config := (kb_config (chips (cpu_hw c)) OR 2) AND NOT 0x20, kb_expects := None,
      kb_output := [], kb_mouse := kb_mouse (chips ?h) @ [0xf6, 0xf4], pic_masks := (0b11111000, 0b11101111)\<rparr>" by auto
  show ?thesis
    using g h'(1) by (simp add: crab_init_def gdt_init_def init_idt_def Let_def h'(2) t)
qed


definition example_chips :: Chips where
  "example_chips = \<lparr>pit_bytes = [], kb_config = 0x65, kb_auxiliary = False, kb_output = [], kb_expects = None, kb_mouse = [],
     pic_masks = (0xff, 0xff), pic_offsets = (8, 0x70)\<rparr>"

definition example_cpu :: "(Descriptor list, Chips \<times> nat) Cpu" where
  "example_cpu = \<lparr>cpu_gdt = None, cpu_cs = 0, cpu_tr = 0, cpu_idt = None, cpu_interrupts = False, cpu_hw = (example_chips, 5)\<rparr>"


text \<open>C26: Every interrupt that can arrive is handled. After \<open>init\<close> the unmasked lines are those of the
  timer, the keyboard, the second controller and the mouse; the vector of each line but that of the
  second controller has a handler in the interrupt table, and this handler reports the end of
  exactly this vector.\<close>

theorem unmasked_interrupts_are_handled:
  assumes "descriptor_table G used descriptor" "board B chips delay" "stack_start + STACK_SIZE < 2 ^ 47"
    "kb_output (chips (cpu_hw c)) = []" "crab_init G B stack_start c = Some c'"
  shows "{line. line < 16 \<and> \<not> line_masked (chips (cpu_hw c')) line} = {0, 1, 2, 12}
    \<and> (\<forall>line\<in>{0, 1, 12}. \<exists>g. IDT (line_vector (chips (cpu_hw c')) line) = Some g
        \<and> end_of_interrupt (g_handler g) = Some (line_vector (chips (cpu_hw c')) line))"
proof -
  have c: "pic_masks (chips (cpu_hw c')) = (0b11111000, 0b11101111)" "pic_offsets (chips (cpu_hw c')) = (PIC_1_OFFSET, PIC_2_OFFSET)"
    using crab_init_spec [OF assms(1-4)] assms(5) by auto
  have "\<not> line_masked (chips (cpu_hw c')) line \<longleftrightarrow> line \<in> {0, 1, 2, 12}" if "line < 16" for line
  proof -
    have "line \<in> set [0..<16]" using that by simp
    then show ?thesis using mask_lines unfolding list_all_iff line_masked_def c(1) fst_conv snd_conv by blast
  qed
  then have "{line. line < 16 \<and> \<not> line_masked (chips (cpu_hw c')) line} = {line. line < 16 \<and> line \<in> {0, 1, 2, 12}}" by blast
  also have "\<dots> = {0, 1, 2, 12}" by auto
  finally show ?thesis
    by (simp add: line_vector_def c(2) IDT_def gate_def PIC_1_OFFSET_def PIC_2_OFFSET_def)
qed

theorem unmasked_interrupts_are_handled_witness:
  "\<exists>c'. crab_init list_table slow_board 0x200000 example_cpu = Some c'
    \<and> {line. line < 16 \<and> \<not> line_masked (fst (cpu_hw c')) line} = {0, 1, 2, 12}"
proof -
  have h: "0x200000 + STACK_SIZE < 2 ^ 47" "kb_output (fst (cpu_hw example_cpu)) = []"
    by (simp_all add: STACK_SIZE_def example_cpu_def example_chips_def)
  obtain c' where c': "crab_init list_table slow_board 0x200000 example_cpu = Some c'"
    using crab_init_spec [OF list_table.descriptor_table_axioms slow_board.board_axioms h] by blast
  from unmasked_interrupts_are_handled [OF list_table.descriptor_table_axioms slow_board.board_axioms h c'] c' show ?thesis by blast
qed

text \<open>C40: A waiting byte is taken for the configuration. \<open>init_mouse\<close> does not empty the output buffer of the
  keyboard controller first: a byte that waits there, such as a key pressed while the kernel was
  loaded, is read instead of the configuration and written back as the new one, and an
  acknowledgement stays behind unread. With the scancode of Enter the keyboard's interrupt is
  switched off and its clock disabled.\<close>

theorem init_mouse_misreads_waiting_byte:
  assumes "board B chips delay" "kb_output (chips h) = [b]"
  shows "\<exists>h'. init_mouse B h = Some h' \<and> kb_config (chips h') = (b OR 2) AND NOT 0x20 \<and> kb_output (chips h') = [0xfa]
    \<and> (b = 0x1c \<longrightarrow> \<not> bit (kb_config (chips h')) 0 \<and> bit (kb_config (chips h')) 4)"
proof -
  have "kb_output (chips h) @ [kb_config (chips h)] = b # [kb_config (chips h)]" using assms(2) by simp
  from board.init_mouse_chips [OF assms(1) this] obtain h' where h': "init_mouse B h = Some h'"
    "kb_config (chips h') = (b OR 2) AND NOT 0x20" "kb_output (chips h') = [0xfa]" by auto
  moreover have "\<not> bit (0x1c :: u8) 0" "bit (0x1c :: u8) 4" by (simp_all add: bit_numeral_rec)
  ultimately show ?thesis using config_bits [of b] by auto
qed

theorem init_mouse_misreads_waiting_byte_witness:
  "\<exists>h'. init_mouse slow_board (example_chips\<lparr>kb_output := [0x1c]\<rparr>, 5) = Some h' \<and> \<not> bit (kb_config (fst h')) 0"
  using init_mouse_misreads_waiting_byte [OF slow_board.board_axioms, of "(example_chips\<lparr>kb_output := [0x1c]\<rparr>, 5)" "0x1c"] by auto

end
