(* ===== verification/Pci.thy ===== *)
theory Pci
  imports Prelude
begin

text \<open>
  PCI configuration space, \<^verbatim>\<open>src/src/pci.rs\<close>: the address word of a configuration register, reading
  and writing through the two ports, the decoding of a memory base address register, switching a
  device on as a bus master, and the scan for a device by vendor and device identifier.

  The ports belong to the hardware. Their state is a type parameter, the two port instructions are
  the fields of \<open>port_ops\<close>, and the locale \<open>pci_host\<close> states the documented behaviour of the host
  bridge: the data port shows the register the selector port names.
\<close>

section \<open>Model\<close>

record 'h port_ops =
  port_out :: "nat \<Rightarrow> u32 \<Rightarrow> 'h \<Rightarrow> 'h"
  port_in :: "nat \<Rightarrow> 'h \<Rightarrow> 'h \<times> u32"

record Address =
  a_bus :: u8
  a_device :: u8
  a_function :: u8

definition config_address :: "Address \<Rightarrow> u8 \<Rightarrow> u32" where
  "config_address a register = 0x80000000 OR push_bit 16 (ucast (a_bus a)) OR push_bit 11 (ucast (a_device a))
     OR push_bit 8 (ucast (a_function a)) OR ucast (register AND 0xfc)"

definition pci_read :: "'h port_ops \<Rightarrow> Address \<Rightarrow> u8 \<Rightarrow> 'h \<Rightarrow> 'h \<times> u32" where
  "pci_read P a register h = port_in P 0xcfc (port_out P 0xcf8 (config_address a register) h)"

definition pci_write :: "'h port_ops \<Rightarrow> Address \<Rightarrow> u8 \<Rightarrow> u32 \<Rightarrow> 'h \<Rightarrow> 'h" where
  "pci_write P a register value h = port_out P 0xcfc value (port_out P 0xcf8 (config_address a register) h)"

definition enable_bus_master :: "'h port_ops \<Rightarrow> Address \<Rightarrow> 'h \<Rightarrow> 'h" where
  "enable_bus_master P a h = (let (h', command) = pci_read P a 0x04 h in pci_write P a 0x04 (command OR 0x00000006) h')"

definition memory_bar0 :: "'h port_ops \<Rightarrow> Address \<Rightarrow> 'h \<Rightarrow> 'h \<times> u64 option" where
  "memory_bar0 P a h =
     (let (h1, bar) = pci_read P a 0x10 h in
      if bar AND 1 \<noteq> 0 then (h1, None)
      else let low = ucast (bar AND NOT 0xf) :: u64; kind = drop_bit 1 bar AND 3 in
        if kind = 0 then (h1, Some low)
        else if kind = 2 then
          let (h2, high) = pci_read P a 0x14 h1 in (h2, Some (low OR push_bit 32 (ucast high)))
        else (h1, None))"

text \<open>The three nested loops of \<open>find\<close>; a match leaves all of them.\<close>

fun find_function :: "'h port_ops \<Rightarrow> u32 \<Rightarrow> u8 \<Rightarrow> u8 \<Rightarrow> nat list \<Rightarrow> 'h \<Rightarrow> 'h \<times> Address option" where
  "find_function P ident bus device [] h = (h, None)"
| "find_function P ident bus device (f # fs) h =
     (let address = \<lparr>a_bus = bus, a_device = device, a_function = of_nat f\<rparr>; (h', v) = pci_read P address 0 h in
      if v = ident then (h', Some address) else find_function P ident bus device fs h')"

fun find_device :: "'h port_ops \<Rightarrow> u32 \<Rightarrow> u8 \<Rightarrow> nat list \<Rightarrow> 'h \<Rightarrow> 'h \<times> Address option" where
  "find_device P ident bus [] h = (h, None)"
| "find_device P ident bus (d # ds) h =
     (let first = \<lparr>a_bus = bus, a_device = of_nat d, a_function = 0\<rparr>; (h1, v) = pci_read P first 0 h in
      if v AND 0xffff = 0xffff then find_device P ident bus ds h1
      else let (h2, header) = pci_read P first 0x0c h1;
               functions = (if header AND 0x00800000 \<noteq> 0 then 8 else 1);
               (h3, found) = find_function P ident bus (of_nat d) [0..<functions] h2 in
        case found of Some a \<Rightarrow> (h3, Some a) | None \<Rightarrow> find_device P ident bus ds h3)"

fun find_bus :: "'h port_ops \<Rightarrow> u32 \<Rightarrow> nat list \<Rightarrow> 'h \<Rightarrow> 'h \<times> Address option" where
  "find_bus P ident [] h = (h, None)"
| "find_bus P ident (b # bs) h =
     (let (h', found) = find_device P ident (of_nat b) [0..<32] h in
      case found of Some a \<Rightarrow> (h', Some a) | None \<Rightarrow> find_bus P ident bs h')"

definition device_ident :: "u16 \<Rightarrow> u16 \<Rightarrow> u32" where
  "device_ident vendor device_id = push_bit 16 (ucast device_id) OR ucast vendor"

definition pci_find :: "'h port_ops \<Rightarrow> u16 \<Rightarrow> u16 \<Rightarrow> 'h \<Rightarrow> 'h \<times> Address option" where
  "pci_find P vendor device_id = find_bus P (device_ident vendor device_id) [0..<256]"

definition find_i225_v :: "'h port_ops \<Rightarrow> 'h \<Rightarrow> 'h \<times> Address option" where
  "find_i225_v P = pci_find P 0x8086 0x15f3"

definition find_qemu_e1000 :: "'h port_ops \<Rightarrow> 'h \<Rightarrow> 'h \<times> Address option" where
  "find_qemu_e1000 P = pci_find P 0x8086 0x100e"

section \<open>The address word\<close>

lemma bit_less_pow: "(w :: 'a::len word) < 2 ^ k \<Longrightarrow> bit w n \<Longrightarrow> n < k"
  using less_mask_eq [of w k] by (metis bit_and_iff bit_mask_iff)

text \<open>The fields of the word do not overlap, so each can be read back.\<close>

lemma config_address_bit:
  assumes "a_device a < 32" "a_function a < 8"
  shows "bit (config_address a r) n \<longleftrightarrow> n = 31 \<or> 16 \<le> n \<and> bit (a_bus a) (n - 16) \<or> 11 \<le> n \<and> bit (a_device a) (n - 11)
    \<or> 8 \<le> n \<and> bit (a_function a) (n - 8) \<or> bit (r AND 0xfc) n"
proof -
  have e: "(0x80000000 :: u32) = push_bit 31 1" by (simp add: push_bit_eq_mult)
  have d: "n < 5" if "bit (a_device a) n" for n using bit_less_pow [of "a_device a" 5 n] assms(1) that by simp
  have f: "n < 3" if "bit (a_function a) n" for n using bit_less_pow [of "a_function a" 3 n] assms(2) that by simp
  have b: "n < 8" if "bit (a_bus a) n" for n using bit_imp_le_length [OF that] by simp
  have r: "n < 8" if "bit (r AND 0xfc) n" for n using bit_imp_le_length [OF that] by simp
  have "bit (0x80000000 :: u32) n \<longleftrightarrow> n = 31" unfolding e bit_push_bit_iff bit_1_iff by auto
  moreover have "bit (push_bit 16 (ucast (a_bus a)) :: u32) n \<longleftrightarrow> 16 \<le> n \<and> bit (a_bus a) (n - 16)"
    using b [of "n - 16"] by (auto simp: bit_simps)
  moreover have "bit (push_bit 11 (ucast (a_device a)) :: u32) n \<longleftrightarrow> 11 \<le> n \<and> bit (a_device a) (n - 11)"
    using d [of "n - 11"] by (auto simp: bit_simps)
  moreover have "bit (push_bit 8 (ucast (a_function a)) :: u32) n \<longleftrightarrow> 8 \<le> n \<and> bit (a_function a) (n - 8)"
    using f [of "n - 8"] by (auto simp: bit_simps)
  moreover have "bit (ucast (r AND 0xfc) :: u32) n \<longleftrightarrow> bit (r AND 0xfc) n"
    using r [of n] by (auto simp: bit_unsigned_iff)
  ultimately show ?thesis unfolding config_address_def bit_or_iff by blast
qed

lemma config_address_fields:
  assumes "a_device a < 32" "a_function a < 8"
  shows "ucast (drop_bit 16 (config_address a r)) = a_bus a"
    and "ucast (drop_bit 11 (config_address a r) AND mask 5) = a_device a"
    and "ucast (drop_bit 8 (config_address a r) AND mask 3) = a_function a"
    and "ucast (config_address a r) = r AND 0xfc"
proof -
  have d: "n < 5" if "bit (a_device a) n" for n using bit_less_pow [of "a_device a" 5 n] assms(1) that by simp
  have f: "n < 3" if "bit (a_function a) n" for n using bit_less_pow [of "a_function a" 3 n] assms(2) that by simp
  have b: "n < 8" if "bit (a_bus a) n" for n using bit_imp_le_length [OF that] by simp
  have r: "n < 8" if "bit (r AND 0xfc) n" for n using bit_imp_le_length [OF that] by simp
  note bits = bit_unsigned_iff bit_drop_bit_eq bit_and_iff bit_mask_iff config_address_bit [OF assms] comp_def
  show "ucast (drop_bit 16 (config_address a r)) = a_bus a"
    by (rule bit_word_eqI, unfold bits, use d f r in fastforce)
  show "ucast (drop_bit 11 (config_address a r) AND mask 5) = a_device a"
    by (rule bit_word_eqI, unfold bits, use d f b r in fastforce)
  show "ucast (drop_bit 8 (config_address a r) AND mask 3) = a_function a"
    by (rule bit_word_eqI, unfold bits, use d f b r in fastforce)
  show "ucast (config_address a r) = r AND 0xfc"
    by (rule bit_word_eqI, unfold bits, use d f b r in fastforce)
qed

section \<open>The host bridge\<close>

definition device_functions :: "(u32 \<Rightarrow> u32) \<Rightarrow> nat \<Rightarrow> nat \<Rightarrow> Address list" where
  "device_functions cfg b d =
     (let first = \<lparr>a_bus = of_nat b, a_device = of_nat d, a_function = 0\<rparr> in
      if cfg (config_address first 0) AND 0xffff = 0xffff then []
      else map (\<lambda>f. \<lparr>a_bus = of_nat b, a_device = of_nat d, a_function = of_nat f\<rparr>)
        [0..<(if cfg (config_address first 0x0c) AND 0x00800000 \<noteq> 0 then 8 else 1)])"

text \<open>Every function that answers, in the order of the scan.\<close>

definition pci_scan :: "(u32 \<Rightarrow> u32) \<Rightarrow> Address list" where
  "pci_scan cfg = concat (map (\<lambda>b. concat (map (device_functions cfg b) [0..<32])) [0..<256])"

lemma find_concat:
  "List.find p (xs @ ys) = (case List.find p xs of Some x \<Rightarrow> Some x | None \<Rightarrow> List.find p ys)"
  by (induction xs) auto

text \<open>What the bus specification says of a base address register and its successor.\<close>

definition bar_address :: "u32 \<Rightarrow> u32 \<Rightarrow> nat option" where
  "bar_address bar high =
     (if odd (unat bar) then None
      else if unat bar div 2 mod 4 = 0 then Some (unat bar div 16 * 16)
      else if unat bar div 2 mod 4 = 2 then Some (unat high * 2 ^ 32 + unat bar div 16 * 16)
      else None)"

lemma bar_flag: "(bar :: u32) AND 1 \<noteq> 0 \<longleftrightarrow> odd (unat bar)"
  using bit_unsigned_iff [of bar 0, where 'a = nat] unfolding and_one_eq by (auto simp: bit_0 odd_iff_mod_2_eq_one)

lemma bar_kind:
  "drop_bit 1 (bar :: u32) AND 3 = 0 \<longleftrightarrow> unat bar div 2 mod 4 = 0"
  "drop_bit 1 (bar :: u32) AND 3 = 2 \<longleftrightarrow> unat bar div 2 mod 4 = 2"
proof -
  have e: "drop_bit 1 bar AND 3 = take_bit 2 (drop_bit 1 bar)" unfolding take_bit_eq_mask by (simp add: mask_eq_exp_minus_1)
  have "unat (drop_bit 1 bar AND 3) = unat bar div 2 mod 4"
    unfolding e unsigned_take_bit_eq unsigned_drop_bit_eq using unsigned_less [of bar, where 'a = nat] by (simp add: take_bit_eq_mod drop_bit_eq_div)
  then show "drop_bit 1 bar AND 3 = 0 \<longleftrightarrow> unat bar div 2 mod 4 = 0" "drop_bit 1 bar AND 3 = 2 \<longleftrightarrow> unat bar div 2 mod 4 = 2"
    by (auto simp: word_unat_eq_iff)
qed

lemma bar_below: "unat (bar :: u32) div 16 * 16 < 2 ^ 32"
proof -
  have "unat bar < 2 ^ 32" using unsigned_less [of bar] by simp
  then show ?thesis using div_times_less_eq_dividend [of "unat bar" 16] by linarith
qed

lemma bar_low: "unat (ucast ((bar :: u32) AND NOT 0xf) :: u64) = unat bar div 16 * 16"
proof -
  have e: "(0xf :: u32) = mask 4" by (simp add: mask_eq_exp_minus_1)
  have "bar AND NOT 0xf = push_bit 4 (drop_bit 4 bar)"
    unfolding e by (rule bit_word_eqI) (auto simp: bit_simps)
  moreover have "unat (push_bit 4 (drop_bit 4 bar)) = unat bar div 16 * 16"
  proof -
    have "unat bar div 16 * 16 < 2 ^ 32" by (rule bar_below)
    then show ?thesis
      unfolding unsigned_push_bit_eq unsigned_drop_bit_eq using unsigned_less [of bar, where 'a = nat] by (simp add: push_bit_eq_mult drop_bit_eq_div take_bit_eq_mod)
  qed
  ultimately show ?thesis unfolding unsigned_ucast_eq using bar_below [of bar] by (simp add: take_bit_eq_mod)
qed

lemma bar_wide:
  "unat (ucast ((bar :: u32) AND NOT 0xf) OR push_bit 32 (ucast (high :: u32)) :: u64) = unat high * 2 ^ 32 + unat bar div 16 * 16"
proof -
  have "unat high < 2 ^ 32" using unsigned_less [of high] by simp
  then have "unat high * 2 ^ 32 < 2 ^ 64" "unat high < 2 ^ 64" by simp_all
  then have h: "unat (push_bit 32 (ucast high) :: u64) = unat high * 2 ^ 32"
    unfolding unsigned_push_bit_eq unsigned_ucast_eq by (simp add: push_bit_eq_mult take_bit_eq_mod)
  have "unat (ucast (bar AND NOT 0xf) OR push_bit 32 (ucast high) :: u64) = (unat bar div 16 * 16) OR (unat high * 2 ^ 32)"
    unfolding unsigned_or_eq bar_low h ..
  also have "\<dots> = unat bar div 16 * 16 + push_bit 32 (unat high)"
  proof -
    have "unat bar div 16 * 16 < 2 ^ 32" by (rule bar_below)
    then have "take_bit 32 (unat bar div 16 * 16) = unat bar div 16 * 16" by (simp add: take_bit_nat_eq_self)
    then have "(unat bar div 16 * 16) AND push_bit 32 (unat high) = 0"
      by (metis bit_and_iff bit_eqI bit_0_eq bit_push_bit_iff bit_take_bit_iff bot_apply bot_bool_def not_le)
    then show ?thesis by (simp add: disjunctive_add_eq_or push_bit_eq_mult)
  qed
  finally show ?thesis by (simp add: push_bit_eq_mult add.commute)
qed

locale pci_host =
  fixes P :: "'h port_ops"
    and cfg :: "'h \<Rightarrow> u32 \<Rightarrow> u32"
    and writable :: "u32 \<Rightarrow> nat \<Rightarrow> bool"
  assumes read_selected: "port_in P 0xcfc (port_out P 0xcf8 a h) = (h', v) \<Longrightarrow> v = cfg h a \<and> cfg h' = cfg h"
    and write_selected: "writable a n \<Longrightarrow> bit (cfg (port_out P 0xcfc v (port_out P 0xcf8 a h)) a) n = bit v n"
    and write_others: "b \<noteq> a \<Longrightarrow> cfg (port_out P 0xcfc v (port_out P 0xcf8 a h)) b = cfg h b"
begin

lemma pci_read_obtain:
  obtains h' where "pci_read P a r h = (h', cfg h (config_address a r))" "cfg h' = cfg h"
  using read_selected unfolding pci_read_def by (metis surj_pair)

lemma find_function_scan:
  "\<exists>h'. find_function P ident b d fs h = (h', List.find (\<lambda>a. cfg h (config_address a 0) = ident)
      (map (\<lambda>f. \<lparr>a_bus = b, a_device = d, a_function = of_nat f\<rparr>) fs)) \<and> cfg h' = cfg h"
proof (induction fs arbitrary: h)
  case (Cons f fs)
  obtain h1 where h1: "pci_read P \<lparr>a_bus = b, a_device = d, a_function = of_nat f\<rparr> 0 h
      = (h1, cfg h (config_address \<lparr>a_bus = b, a_device = d, a_function = of_nat f\<rparr> 0))" "cfg h1 = cfg h"
    by (rule pci_read_obtain)
  show ?case using Cons.IH [of h1] h1 by auto
qed simp

lemma find_device_scan:
  "\<exists>h'. find_device P ident (of_nat b) ds h
      = (h', List.find (\<lambda>a. cfg h (config_address a 0) = ident) (concat (map (device_functions (cfg h) b) ds))) \<and> cfg h' = cfg h"
proof (induction ds arbitrary: h)
  case (Cons d ds)
  let ?first = "\<lparr>a_bus = of_nat b, a_device = of_nat d, a_function = 0\<rparr>"
  obtain h1 where h1: "pci_read P ?first 0 h = (h1, cfg h (config_address ?first 0))" "cfg h1 = cfg h" by (rule pci_read_obtain)
  obtain h2 where h2: "pci_read P ?first 0x0c h1 = (h2, cfg h1 (config_address ?first 0x0c))" "cfg h2 = cfg h1" by (rule pci_read_obtain)
  let ?n = "if cfg h (config_address ?first 0x0c) AND 0x00800000 \<noteq> 0 then 8 else 1 :: nat"
  obtain h3 where h3: "find_function P ident (of_nat b) (of_nat d) [0..<?n] h2 = (h3, List.find (\<lambda>a. cfg h2 (config_address a 0) = ident)
      (map (\<lambda>f. \<lparr>a_bus = of_nat b, a_device = of_nat d, a_function = of_nat f\<rparr>) [0..<?n]))" "cfg h3 = cfg h2"
    using find_function_scan by blast
  show ?case
  proof (cases "cfg h (config_address ?first 0) AND 0xffff = 0xffff")
    case True
    then show ?thesis using Cons.IH [of h1] h1 by (simp add: device_functions_def)
  next
    case False
    have fs: "device_functions (cfg h) b d = map (\<lambda>f. \<lparr>a_bus = of_nat b, a_device = of_nat d, a_function = of_nat f\<rparr>) [0..<?n]"
      using False by (simp only: device_functions_def Let_def if_False)
    show ?thesis
      unfolding find_device.simps Let_def h1 split if_not_P [OF False] h2 h3 list.map concat.simps find_concat fs
      using Cons.IH [of h3] h1(2) h2(2) h3(2) by (auto split: option.split)
  qed
qed simp

lemma find_bus_scan:
  "\<exists>h'. find_bus P ident bs h = (h', List.find (\<lambda>a. cfg h (config_address a 0) = ident)
      (concat (map (\<lambda>b. concat (map (device_functions (cfg h) b) [0..<32])) bs))) \<and> cfg h' = cfg h"
proof (induction bs arbitrary: h)
  case (Cons b bs)
  obtain h1 where h1: "find_device P ident (of_nat b) [0..<32] h = (h1, List.find (\<lambda>a. cfg h (config_address a 0) = ident)
      (concat (map (device_functions (cfg h) b) [0..<32])))" "cfg h1 = cfg h"
    using find_device_scan by blast
  show ?case
    unfolding find_bus.simps Let_def h1(1) split list.map concat.simps find_concat
    using Cons.IH [of h1] h1(2) by (auto split: option.split simp del: upt_rec_numeral)
qed simp

lemma pci_find_scan:
  "\<exists>h'. pci_find P vendor device_id h
      = (h', List.find (\<lambda>a. cfg h (config_address a 0) = device_ident vendor device_id) (pci_scan (cfg h))) \<and> cfg h' = cfg h"
  unfolding pci_find_def pci_scan_def by (rule find_bus_scan)

lemma memory_bar0_result:
  "map_option unat (snd (memory_bar0 P a h)) = bar_address (cfg h (config_address a 0x10)) (cfg h (config_address a 0x14))"
proof -
  let ?bar = "cfg h (config_address a 0x10)"
  obtain h1 where h1: "pci_read P a 0x10 h = (h1, ?bar)" "cfg h1 = cfg h" by (rule pci_read_obtain)
  obtain h2 where h2: "pci_read P a 0x14 h1 = (h2, cfg h1 (config_address a 0x14))" "cfg h2 = cfg h1" by (rule pci_read_obtain)
  show ?thesis
    unfolding memory_bar0_def h1(1) h2(1) Let_def split bar_address_def bar_flag bar_kind h1(2)
    by (simp only: if_distrib [of snd] if_distrib [of "map_option unat"] snd_conv option.map bar_low bar_wide cong: if_cong)
qed

lemma enable_bus_master_bits:
  assumes "\<forall>n\<in>{1, 2}. writable (config_address a 4) n"
  shows "(\<forall>n. writable (config_address a 4) n \<longrightarrow> bit (cfg (enable_bus_master P a h) (config_address a 4)) n
      = (bit (cfg h (config_address a 4)) n \<or> n = 1 \<or> n = 2))
    \<and> (\<forall>b. b \<noteq> config_address a 4 \<longrightarrow> cfg (enable_bus_master P a h) b = cfg h b)"
proof -
  obtain h1 where h1: "pci_read P a 4 h = (h1, cfg h (config_address a 4))" "cfg h1 = cfg h" by (rule pci_read_obtain)
  have "bit (6 :: u32) n \<longleftrightarrow> n = 1 \<or> n = 2" for n
    by (auto simp: bit_numeral_rec bit_1_iff split: nat.splits)
  then have six: "bit (x OR 6 :: u32) n \<longleftrightarrow> bit x n \<or> n = 1 \<or> n = 2" for x n unfolding bit_or_iff by blast
  show ?thesis
    unfolding enable_bus_master_def h1(1) pci_write_def Let_def split
    using write_selected write_others h1(2) by (auto simp: six)
qed

end

text \<open>A host bridge whose registers are plain memory, for the witnesses.\<close>

definition plain_host :: "(u32 \<times> (u32 \<Rightarrow> u32)) port_ops" where
  "plain_host = \<lparr>
     port_out = (\<lambda>port v (sel, space). if port = 0xcf8 then (v, space) else if port = 0xcfc then (sel, space(sel := v)) else (sel, space)),
     port_in = (\<lambda>port (sel, space). ((sel, space), if port = 0xcfc then space sel else sel))\<rparr>"

interpretation plain_host: pci_host plain_host snd "\<lambda>_ _. True"
  by unfold_locales (auto simp: plain_host_def)

section \<open>Properties\<close>

text \<open>No two configuration registers share an address word. On devices below 32 and functions
  below 8 the word determines the bus, the device, the function and the aligned register: a read
  or write reaches the register that was named and no other.\<close>

theorem config_address_injective:
  assumes "a_device a < 32" "a_function a < 8" "a_device b < 32" "a_function b < 8"
  shows "config_address a r = config_address b s \<longleftrightarrow> a = b \<and> r AND 0xfc = s AND 0xfc"
proof
  assume eq: "config_address a r = config_address b s"
  note fa = config_address_fields [OF assms(1,2), of r] and fb = config_address_fields [OF assms(3,4), of s]
  show "a = b \<and> r AND 0xfc = s AND 0xfc" using fa fb unfolding eq by (metis Address.equality unit.exhaust)
qed (simp add: config_address_def)

theorem config_address_injective_witness:
  "config_address \<lparr>a_bus = 0, a_device = 3, a_function = 0\<rparr> 0x10 \<noteq> config_address \<lparr>a_bus = 0, a_device = 3, a_function = 0\<rparr> 0x14"
  using config_address_injective [of "\<lparr>a_bus = 0, a_device = 3, a_function = 0\<rparr>" "\<lparr>a_bus = 0, a_device = 3, a_function = 0\<rparr>" "0x10" "0x14"]
  by simp

text \<open>C38: The scan finds the device. \<open>find\<close> returns the first function, in the order of bus, device and
  function, that answers with the wanted identifier, looking at functions above 0 exactly when the
  header says the device has several; it returns nothing only when no function that answers has
  the identifier; and it leaves every register as it was.\<close>

theorem pci_find_first:
  assumes "pci_host P cfg writable"
  shows "\<exists>h'. pci_find P vendor device_id h = (h', List.find
      (\<lambda>a. cfg h (config_address a 0) = device_ident vendor device_id) (pci_scan (cfg h))) \<and> cfg h' = cfg h"
  by (rule pci_host.pci_find_scan [OF assms])

theorem pci_find_first_witness:
  "\<exists>h'. find_qemu_e1000 plain_host (0, \<lambda>_. 0xffffffff) = (h', None)"
proof -
  have "device_functions (\<lambda>_. 0xffffffff) b d = []" for b d by (simp add: device_functions_def)
  then have "pci_scan (\<lambda>_. 0xffffffff) = []" by (simp add: pci_scan_def concat_eq_Nil_conv del: upt_rec_numeral)
  then show ?thesis
    using pci_find_first [OF plain_host.pci_host_axioms, of "0x8086" "0x100e" "(0, \<lambda>_. 0xffffffff)"] by (auto simp: find_qemu_e1000_def)
qed

text \<open>A base address register is decoded as the bus defines it. A port register and the reserved
  kinds give nothing; a 32-bit register gives its address without the flag bits; a 64-bit register
  the address whose upper half is the next register.\<close>

theorem memory_bar0_decodes:
  assumes "pci_host P cfg writable"
  shows "map_option unat (snd (memory_bar0 P a h)) = bar_address (cfg h (config_address a 0x10)) (cfg h (config_address a 0x14))"
  using pci_host.memory_bar0_result [OF assms] .

theorem memory_bar0_decodes_witness:
  "map_option unat (snd (memory_bar0 plain_host \<lparr>a_bus = 0, a_device = 3, a_function = 0\<rparr> (0, \<lambda>_. 0xfebc0000))) = Some 0xfebc0000"
  using memory_bar0_decodes [OF plain_host.pci_host_axioms, where a = "\<lparr>a_bus = 0, a_device = 3, a_function = 0\<rparr>" and h = "(0, \<lambda>_. 0xfebc0000)"]
  by (simp add: bar_address_def)

text \<open>Bus mastering is switched on and nothing else changes: of the plain bits of the command
  register exactly memory access and bus mastering are set in addition, and no other register is
  written.\<close>

theorem enable_bus_master_sets:
  assumes "pci_host P cfg writable" "\<forall>n\<in>{1, 2}. writable (config_address a 4) n"
  shows "(\<forall>n. writable (config_address a 4) n \<longrightarrow> bit (cfg (enable_bus_master P a h) (config_address a 4)) n
      = (bit (cfg h (config_address a 4)) n \<or> n = 1 \<or> n = 2))
    \<and> (\<forall>b. b \<noteq> config_address a 4 \<longrightarrow> cfg (enable_bus_master P a h) b = cfg h b)"
  by (rule pci_host.enable_bus_master_bits [OF assms])

theorem enable_bus_master_sets_witness:
  "bit (snd (enable_bus_master plain_host \<lparr>a_bus = 0, a_device = 3, a_function = 0\<rparr> (0, \<lambda>_. 1))
    (config_address \<lparr>a_bus = 0, a_device = 3, a_function = 0\<rparr> 4)) 2"
  using enable_bus_master_sets [OF plain_host.pci_host_axioms, where a = "\<lparr>a_bus = 0, a_device = 3, a_function = 0\<rparr>" and h = "(0, \<lambda>_. 1)"] by simp

end
