(* ===== verification/Memory.thy ===== *)
theory Memory
  imports Alloc_Fixed System_Info
begin

text \<open>
  Physical and virtual memory: \<^verbatim>\<open>src/src/memory.rs\<close> (the boot-time frame allocator, the page-table walk,
  the mapping of device registers) and \<open>init_heap\<close> of \<^verbatim>\<open>src/src/allocator.rs\<close>.

  The crate \<open>x86_64\<close> is a parameter: how a virtual address splits into table indices, what a table
  entry means (\<open>paging_ops\<close>) and how a page is mapped (\<open>mapper_ops\<close>). Physical memory is a function
  from the virtual address of a table and an index to the entry. The laws the code relies on are
  the locales \<open>paging\<close> and \<open>page_mapper\<close>.
\<close>

section \<open>Physical frames\<close>

record BootInfoFrameAllocator =
  fa_memory_map :: "MemoryRegion list"
  fa_next :: nat

definition frame_allocator_init :: "MemoryRegion list \<Rightarrow> BootInfoFrameAllocator" where
  "frame_allocator_init memory_map = \<lparr>fa_memory_map = memory_map, fa_next = 0\<rparr>"

text \<open>\<open>(start..end).step_by(4096)\<close>\<close>

definition region_addresses :: "MemoryRegion \<Rightarrow> nat list" where
  "region_addresses r = map (\<lambda>i. mr_start r + 4096 * i) [0..<(mr_end r - mr_start r + 4095) div 4096]"

definition frame_addresses :: "MemoryRegion list \<Rightarrow> nat list" where
  "frame_addresses memory_map = concat (map region_addresses (filter mr_usable memory_map))"

text \<open>\<open>PhysAddr::new\<close> panics above 52 bits; the iterator converts every address up to the one it
  returns.\<close>

definition containing_frame :: "nat \<Rightarrow> nat" where
  "containing_frame addr = addr - addr mod 4096"

definition allocate_frame :: "BootInfoFrameAllocator \<Rightarrow> (BootInfoFrameAllocator \<times> nat option) option" where
  "allocate_frame fa = do {
     let addrs = frame_addresses (fa_memory_map fa);
     rust_assert (list_all (\<lambda>a. a < 2 ^ 52) (take (fa_next fa + 1) addrs));
     let frame = (if fa_next fa < length addrs then Some (containing_frame (addrs ! fa_next fa)) else None);
     Some (fa\<lparr>fa_next := fa_next fa + 1\<rparr>, frame)
   }"

section \<open>The page-table walk\<close>

datatype FrameError = FrameNotPresent | HugeFrame

record paging_ops =
  pg_index :: "nat \<Rightarrow> nat \<Rightarrow> nat"
  pg_offset :: "nat \<Rightarrow> nat"
  pg_add :: "nat \<Rightarrow> nat \<Rightarrow> nat option"
  pg_frame :: "u64 \<Rightarrow> FrameError + nat"

type_synonym page_tables = "nat \<Rightarrow> nat \<Rightarrow> u64"

text \<open>The result \<open>None\<close> is a panic, \<open>Some None\<close> the early return for a page that is not present.\<close>

fun walk_tables :: "paging_ops \<Rightarrow> page_tables \<Rightarrow> nat \<Rightarrow> nat \<Rightarrow> nat list \<Rightarrow> nat \<Rightarrow> nat option option" where
  "walk_tables pg tables offset addr [] frame = Some (Some frame)"
| "walk_tables pg tables offset addr (level # levels) frame = do {
     virt \<leftarrow> pg_add pg offset frame;
     (case pg_frame pg (tables virt (pg_index pg level addr)) of
        Inr frame' \<Rightarrow> walk_tables pg tables offset addr levels frame'
      | Inl FrameNotPresent \<Rightarrow> Some None
      | Inl HugeFrame \<Rightarrow> None)
   }"

definition translate_addr :: "paging_ops \<Rightarrow> page_tables \<Rightarrow> nat \<Rightarrow> nat \<Rightarrow> nat \<Rightarrow> nat option option" where
  "translate_addr pg tables cr3 addr offset = do {
     frame \<leftarrow> walk_tables pg tables offset addr [4, 3, 2, 1] cr3;
     Some (map_option (\<lambda>f. f + pg_offset pg addr) frame)
   }"

text \<open>\<open>memory::init\<close> hands the table found through CR3 to the mapper; its address is where every walk
  starts. The addition panics when the result is not an address.\<close>

definition active_level_4_table :: "paging_ops \<Rightarrow> nat \<Rightarrow> nat \<Rightarrow> nat option" where
  "active_level_4_table pg cr3 offset = pg_add pg offset cr3"

lemma translate_starts_at_level_4:
  "translate_addr pg tables cr3 addr offset = do {
     table \<leftarrow> active_level_4_table pg cr3 offset;
     (case pg_frame pg (tables table (pg_index pg 4 addr)) of
        Inr frame \<Rightarrow> do {
          frame \<leftarrow> walk_tables pg tables offset addr [3, 2, 1] frame;
          Some (map_option (\<lambda>f. f + pg_offset pg addr) frame)
        }
      | Inl FrameNotPresent \<Rightarrow> Some None
      | Inl HugeFrame \<Rightarrow> None)
   }"
  by (auto simp: translate_addr_def active_level_4_table_def bind_eq_None_conv split: sum.split FrameError.split intro!: bind_option_cong)

section \<open>Mappings\<close>

datatype MapToError = FrameAllocationFailed | ParentEntryHugePage | PageAlreadyMapped

datatype PageTableFlag = PRESENT | WRITABLE | NO_CACHE | WRITE_THROUGH

text \<open>\<open>map_to\<close> for the start addresses of a page and a frame; it may take frames for page tables.\<close>

record 'm mapper_ops =
  mp_map_to :: "nat \<Rightarrow> nat \<Rightarrow> PageTableFlag list \<Rightarrow> 'm \<Rightarrow> BootInfoFrameAllocator \<Rightarrow> (MapToError + 'm) \<times> BootInfoFrameAllocator"

definition MMIO_START :: nat where "MMIO_START = 0x555500000000"

definition phys_add :: "nat \<Rightarrow> nat \<Rightarrow> nat option" where
  "phys_add a b = (if a + b < 2 ^ 52 then Some (a + b) else None)"

fun mmio_loop :: "'m mapper_ops \<Rightarrow> nat \<Rightarrow> nat list \<Rightarrow> 'm \<Rightarrow> BootInfoFrameAllocator
    \<Rightarrow> ((MapToError + 'm) \<times> BootInfoFrameAllocator) option" where
  "mmio_loop M physical_page [] m fa = Some (Inr m, fa)"
| "mmio_loop M physical_page (index # indices) m fa = do {
     let page = containing_frame (MMIO_START + index * 4096);
     frame \<leftarrow> phys_add physical_page (index * 4096);
     (case mp_map_to M page (containing_frame frame) [PRESENT, WRITABLE, NO_CACHE, WRITE_THROUGH] m fa of
        (Inl e, fa') \<Rightarrow> Some (Inl e, fa')
      | (Inr m', fa') \<Rightarrow> mmio_loop M physical_page indices m' fa')
   }"

definition map_mmio :: "'m mapper_ops \<Rightarrow> nat \<Rightarrow> nat \<Rightarrow> 'm \<Rightarrow> BootInfoFrameAllocator
    \<Rightarrow> ((MapToError + 'm \<times> nat) \<times> BootInfoFrameAllocator) option" where
  "map_mmio M physical_start len m fa = do {
     let physical_page = physical_start - physical_start mod 4096;
     let offset = physical_start - physical_page;
     total \<leftarrow> usize_add offset len;
     let page_count = (total + 4095) div 4096;
     (r, fa') \<leftarrow> mmio_loop M physical_page [0..<page_count] m fa;
     Some (case r of Inl e \<Rightarrow> Inl e | Inr m' \<Rightarrow> Inr (m', MMIO_START + offset), fa')
   }"

text \<open>The example mapping of the VGA frame, and the allocator that never has a frame.\<close>

definition create_example_mapping :: "'m mapper_ops \<Rightarrow> nat \<Rightarrow> 'm \<Rightarrow> BootInfoFrameAllocator \<Rightarrow> ('m \<times> BootInfoFrameAllocator) option" where
  "create_example_mapping M page m fa =
     (case mp_map_to M page (containing_frame 0xb8000) [PRESENT, WRITABLE] m fa of
        (Inr m', fa') \<Rightarrow> Some (m', fa')
      | (Inl _, _) \<Rightarrow> None)"

definition empty_allocate_frame :: "nat option" where
  "empty_allocate_frame = None"

section \<open>The heap\<close>

definition heap_pages :: "nat list" where
  "heap_pages = map (\<lambda>n. n * 4096) [HEAP_START div 4096..<Suc ((HEAP_START + HEAP_SIZE - 1) div 4096)]"

fun heap_loop :: "'m mapper_ops \<Rightarrow> nat list \<Rightarrow> 'm \<Rightarrow> BootInfoFrameAllocator
    \<Rightarrow> ((MapToError + 'm) \<times> BootInfoFrameAllocator) option" where
  "heap_loop M [] m fa = Some (Inr m, fa)"
| "heap_loop M (page # pages) m fa = do {
     (fa, frame) \<leftarrow> allocate_frame fa;
     (case frame of
        None \<Rightarrow> Some (Inl FrameAllocationFailed, fa)
      | Some frame \<Rightarrow> (case mp_map_to M page frame [PRESENT, WRITABLE] m fa of
            (Inl e, fa') \<Rightarrow> Some (Inl e, fa')
          | (Inr m', fa') \<Rightarrow> heap_loop M pages m' fa'))
   }"

text \<open>\<open>init_heap\<close>, with the initialisation of the global allocator's fallback heap as a parameter.\<close>

definition init_heap :: "('h \<Rightarrow> nat \<Rightarrow> nat \<Rightarrow> 'h option) \<Rightarrow> 'm mapper_ops \<Rightarrow> 'm \<Rightarrow> BootInfoFrameAllocator
    \<Rightarrow> 'h FixedSizeBlockAllocator \<Rightarrow> ((MapToError + 'm \<times> 'h FixedSizeBlockAllocator) \<times> BootInfoFrameAllocator) option" where
  "init_heap heap_init M m fa allocator = do {
     (r, fa') \<leftarrow> heap_loop M heap_pages m fa;
     (case r of
        Inl e \<Rightarrow> Some (Inl e, fa')
      | Inr m' \<Rightarrow> do {
          allocator' \<leftarrow> fixed_init heap_init allocator HEAP_START HEAP_SIZE;
          Some (Inr (m', allocator'), fa')
        })
   }"

section \<open>Frames are handed out once\<close>

definition region_page_ok :: "MemoryRegion \<Rightarrow> bool" where
  "region_page_ok r \<longleftrightarrow> mr_start r mod 4096 = 0 \<and> mr_end r mod 4096 = 0 \<and> mr_start r \<le> mr_end r \<and> mr_end r \<le> 2 ^ 52"

text \<open>What the bootloader promises of its memory map: usable regions consist of whole pages and do not
  overlap.\<close>

definition boot_map_ok :: "MemoryRegion list \<Rightarrow> bool" where
  "boot_map_ok mm \<longleftrightarrow> list_all region_page_ok (filter mr_usable mm)
     \<and> sorted_wrt (\<lambda>r r'. mr_end r \<le> mr_start r' \<or> mr_end r' \<le> mr_start r) (filter mr_usable mm)"

lemma region_addresses_set:
  assumes "region_page_ok r"
  shows "set (region_addresses r) = {a. mr_start r \<le> a \<and> a < mr_end r \<and> a mod 4096 = 0}"
proof -
  obtain s n where sn: "mr_start r = 4096 * s" "mr_end r = 4096 * s + 4096 * n"
  proof -
    have "4096 dvd mr_start r" "4096 dvd (mr_end r - mr_start r)" using assms by (auto simp: region_page_ok_def mod_eq_0_iff_dvd)
    then obtain s n where "mr_start r = 4096 * s" "mr_end r - mr_start r = 4096 * n" by (auto elim!: dvdE)
    moreover have "mr_end r = mr_start r + (mr_end r - mr_start r)" using assms by (simp add: region_page_ok_def)
    ultimately show thesis using that [of s n] by metis
  qed
  have len: "(mr_end r - mr_start r + 4095) div 4096 = n" using sn by simp
  have "a \<in> set (region_addresses r)" if a: "mr_start r \<le> a" "a < mr_end r" "a mod 4096 = 0" for a
  proof -
    obtain k where k: "a = 4096 * k" using a(3) by (auto simp: mod_eq_0_iff_dvd)
    then have "k - s < n" "a = 4096 * s + 4096 * (k - s)" using a sn by auto
    then show ?thesis unfolding region_addresses_def len using sn(1) by auto
  qed
  moreover have "mr_start r \<le> a \<and> a < mr_end r \<and> a mod 4096 = 0" if "a \<in> set (region_addresses r)" for a
    using that sn unfolding region_addresses_def len by auto
  ultimately show ?thesis by (intro equalityI subsetI) simp_all
qed

lemma region_addresses_distinct: "distinct (region_addresses r)"
  by (auto simp: region_addresses_def distinct_map inj_on_def)

lemma frame_addresses_ok:
  assumes "boot_map_ok mm"
  shows "distinct (frame_addresses mm)"
    "set (frame_addresses mm) = {a. a mod 4096 = 0 \<and> (\<exists>r\<in>set mm. mr_usable r \<and> mr_start r \<le> a \<and> a < mr_end r)}"
proof -
  have "distinct (concat (map region_addresses rs))"
    if "list_all region_page_ok rs" "sorted_wrt (\<lambda>r r'. mr_end r \<le> mr_start r' \<or> mr_end r' \<le> mr_start r) rs" for rs
    using that
  proof (induction rs)
    case (Cons r rs)
    have "set (region_addresses r) \<inter> set (region_addresses r') = {}" if "r' \<in> set rs" for r'
      using Cons.prems that region_addresses_set [of r] region_addresses_set [of r'] by (fastforce simp: list_all_iff)
    then show ?case using Cons region_addresses_distinct by auto
  qed simp
  then show "distinct (frame_addresses mm)" using assms by (simp add: boot_map_ok_def frame_addresses_def)
  show "set (frame_addresses mm) = {a. a mod 4096 = 0 \<and> (\<exists>r\<in>set mm. mr_usable r \<and> mr_start r \<le> a \<and> a < mr_end r)}"
    using assms region_addresses_set by (fastforce simp: boot_map_ok_def frame_addresses_def list_all_iff)
qed

lemma frame_addresses_small: "boot_map_ok mm \<Longrightarrow> a \<in> set (frame_addresses mm) \<Longrightarrow> a < 2 ^ 52"
proof -
  assume m: "boot_map_ok mm" and a: "a \<in> set (frame_addresses mm)"
  then obtain r where "r \<in> set mm" "mr_usable r" "a < mr_end r" using frame_addresses_ok(2) [OF m] by auto
  then show ?thesis using m by (fastforce simp: boot_map_ok_def list_all_iff region_page_ok_def)
qed

lemma allocate_frame_ok:
  assumes "boot_map_ok (fa_memory_map fa)"
  shows "allocate_frame fa = Some (fa\<lparr>fa_next := fa_next fa + 1\<rparr>,
    if fa_next fa < length (frame_addresses (fa_memory_map fa)) then Some (frame_addresses (fa_memory_map fa) ! fa_next fa) else None)"
proof -
  let ?as = "frame_addresses (fa_memory_map fa)"
  have "list_all (\<lambda>a. a < 2 ^ 52) (take (fa_next fa + 1) ?as)"
    using frame_addresses_small [OF assms] by (meson in_set_takeD list_all_iff)
  moreover have "containing_frame (?as ! fa_next fa) = ?as ! fa_next fa" if "fa_next fa < length ?as"
    using frame_addresses_ok(2) [OF assms] nth_mem [OF that] by (simp add: containing_frame_def)
  ultimately show ?thesis by (simp add: allocate_frame_def rust_assert_def Let_def)
qed

text \<open>A number of allocations in a row.\<close>

fun allocate_frames :: "nat \<Rightarrow> BootInfoFrameAllocator \<Rightarrow> nat option list option" where
  "allocate_frames 0 fa = Some []"
| "allocate_frames (Suc n) fa = do {
     (fa', frame) \<leftarrow> allocate_frame fa;
     frames \<leftarrow> allocate_frames n fa';
     Some (frame # frames)
   }"

lemma allocate_frames_ok:
  assumes "boot_map_ok (fa_memory_map fa)"
  shows "allocate_frames n fa = Some (map (\<lambda>i. if i < length (frame_addresses (fa_memory_map fa))
    then Some (frame_addresses (fa_memory_map fa) ! i) else None) [fa_next fa..<fa_next fa + n])"
  using assms
proof (induction n arbitrary: fa)
  case (Suc n)
  have "allocate_frames n (fa\<lparr>fa_next := fa_next fa + 1\<rparr>) = Some (map (\<lambda>i. if i < length (frame_addresses (fa_memory_map fa))
    then Some (frame_addresses (fa_memory_map fa) ! i) else None) [Suc (fa_next fa)..<Suc (fa_next fa) + n])"
    using Suc.IH [of "fa\<lparr>fa_next := fa_next fa + 1\<rparr>"] Suc.prems by simp
  moreover have "[fa_next fa..<fa_next fa + Suc n] = fa_next fa # [Suc (fa_next fa)..<Suc (fa_next fa) + n]"
    by (simp add: upt_conv_Cons)
  ultimately show ?case using allocate_frame_ok [OF Suc.prems] by (simp del: upt_Suc)
qed simp

section \<open>Translation is page by page\<close>

locale paging =
  fixes pg :: paging_ops
  assumes index_page: "addr div 4096 = addr' div 4096 \<Longrightarrow> pg_index pg level addr = pg_index pg level addr'"
    and offset_mod: "pg_offset pg addr = addr mod 4096"
    and frame_aligned: "pg_frame pg entry = Inr f \<Longrightarrow> f mod 4096 = 0"
    and frame_small: "pg_frame pg entry = Inr f \<Longrightarrow> f < 2 ^ 52"
begin

lemma walk_same_page:
  assumes "addr div 4096 = addr' div 4096"
  shows "walk_tables pg tables offset addr levels frame = walk_tables pg tables offset addr' levels frame"
  by (induction levels arbitrary: frame) (simp_all add: index_page [OF assms] cong: sum.case_cong)

lemma walk_aligned:
  "walk_tables pg tables offset addr levels frame = Some (Some f) \<Longrightarrow> levels \<noteq> [] \<Longrightarrow> f mod 4096 = 0"
proof (induction levels arbitrary: frame)
  case (Cons l ls)
  then obtain virt where v: "pg_add pg offset frame = Some virt" by (auto simp: panic_simps)
  obtain frame' where fr: "pg_frame pg (tables virt (pg_index pg l addr)) = Inr frame'"
    "walk_tables pg tables offset addr ls frame' = Some (Some f)"
    using Cons.prems(1) v by (auto split: sum.splits FrameError.splits)
  note frame_aligned [OF fr(1)] and fr(2)
  then show ?case using Cons.IH by (cases ls) auto
qed simp

lemma walk_small:
  "walk_tables pg tables offset addr levels frame = Some (Some f) \<Longrightarrow> levels \<noteq> [] \<Longrightarrow> f < 2 ^ 52"
proof (induction levels arbitrary: frame)
  case (Cons l ls)
  then obtain virt where v: "pg_add pg offset frame = Some virt" by (auto simp: panic_simps)
  obtain frame' where fr: "pg_frame pg (tables virt (pg_index pg l addr)) = Inr frame'"
    "walk_tables pg tables offset addr ls frame' = Some (Some f)"
    using Cons.prems(1) v by (auto split: sum.splits FrameError.splits)
  note frame_small [OF fr(1)] and fr(2)
  then show ?case using Cons.IH by (cases ls) auto
qed simp

lemma translate_small: "translate_addr pg tables cr3 addr offset = Some (Some p) \<Longrightarrow> p < 2 ^ 64"
proof -
  assume "translate_addr pg tables cr3 addr offset = Some (Some p)"
  then obtain f where f: "walk_tables pg tables offset addr [4, 3, 2, 1] cr3 = Some (Some f)" "p = f + addr mod 4096"
    by (auto simp: translate_addr_def panic_simps offset_mod)
  have "f < 2 ^ 52" using walk_small [OF f(1)] by simp
  moreover have "addr mod 4096 < 4096" by simp
  ultimately show ?thesis using f(2) by simp
qed

lemma translate_page:
  assumes t: "translate_addr pg tables cr3 addr offset = Some (Some p)" and same: "addr' div 4096 = addr div 4096"
  shows "p mod 4096 = addr mod 4096 \<and> translate_addr pg tables cr3 addr' offset = Some (Some (p - addr mod 4096 + addr' mod 4096))"
proof -
  obtain f where f: "walk_tables pg tables offset addr [4, 3, 2, 1] cr3 = Some (Some f)" "p = f + addr mod 4096"
    using t by (auto simp: translate_addr_def panic_simps offset_mod)
  have "f mod 4096 = 0" using walk_aligned [OF f(1)] by simp
  then have "p mod 4096 = addr mod 4096" using f(2) by (simp add: mod_add_eq [symmetric] del: mod_add_eq)
  moreover have "walk_tables pg tables offset addr' [4, 3, 2, 1] cr3 = Some (Some f)"
    unfolding walk_same_page [OF same] by (rule f(1))
  ultimately show ?thesis using f(2) unfolding translate_addr_def by (simp only: bind.bind_lunit offset_mod) simp
qed

end

text \<open>The paging structures of x86-64, for the statements below: nine bits of index per level, the
  present bit, the huge-page bit and a 40-bit frame number.\<close>

definition x86_paging :: paging_ops where
  "x86_paging = \<lparr>pg_index = (\<lambda>level addr. addr div 4096 div 512 ^ (level - 1) mod 512), pg_offset = (\<lambda>addr. addr mod 4096),
     pg_add = (\<lambda>a b. if a + b < 2 ^ 47 then Some (a + b) else None),
     pg_frame = (\<lambda>entry. if \<not> bit entry 0 then Inl FrameNotPresent else if bit entry 7 then Inl HugeFrame
       else Inr (unat entry div 4096 mod 2 ^ 40 * 4096))\<rparr>"

interpretation x86_paging: paging x86_paging
  by unfold_locales (auto simp: x86_paging_def split: if_splits)

section \<open>Mappings\<close>

lemma MMIO_START_add_mod: "(MMIO_START + x) mod 4096 = x mod 4096"
proof -
  have "MMIO_START mod 4096 = 0" by (simp add: MMIO_START_def)
  then show ?thesis by (metis add_0 mod_add_left_eq)
qed

locale page_mapper =
  fixes M :: "'m mapper_ops"
    and mapping :: "'m \<Rightarrow> nat \<rightharpoonup> nat"
  assumes map_to_maps: "mp_map_to M page frame flags m fa = (Inr m', fa') \<Longrightarrow> mapping m' = (mapping m)(page \<mapsto> frame)"
    and map_to_frames: "mp_map_to M page frame flags m fa = (r, fa') \<Longrightarrow>
      fa_memory_map fa' = fa_memory_map fa \<and> fa_next fa \<le> fa_next fa'"
begin

lemma mmio_loop_maps:
  assumes "mmio_loop M physical_page indices m fa = Some (Inr m', fa')" "physical_page mod 4096 = 0" "distinct indices"
  shows "(\<forall>i\<in>set indices. mapping m' (MMIO_START + i * 4096) = Some (physical_page + i * 4096))
    \<and> (\<forall>page. (\<forall>i\<in>set indices. page \<noteq> MMIO_START + i * 4096) \<longrightarrow> mapping m' page = mapping m page)"
  using assms
proof (induction indices arbitrary: m fa)
  case (Cons i is')
  have al: "containing_frame (MMIO_START + i * 4096) = MMIO_START + i * 4096" "containing_frame (physical_page + i * 4096) = physical_page + i * 4096"
    using Cons.prems(2) by (simp_all add: containing_frame_def MMIO_START_def mod_add_eq [of physical_page, symmetric] del: mod_add_eq)
  obtain m1 fa1 where m1: "mp_map_to M (MMIO_START + i * 4096) (physical_page + i * 4096) [PRESENT, WRITABLE, NO_CACHE, WRITE_THROUGH] m fa = (Inr m1, fa1)"
    "mmio_loop M physical_page is' m1 fa1 = Some (Inr m', fa')"
    using Cons.prems(1) al by (auto simp: panic_simps phys_add_def Let_def split: if_splits prod.splits sum.splits)
  note IH = Cons.IH [OF m1(2) Cons.prems(2)]
  have other: "\<forall>j\<in>set is'. MMIO_START + i * 4096 \<noteq> MMIO_START + j * 4096" using Cons.prems(3) by auto
  then have "mapping m' (MMIO_START + i * 4096) = Some (physical_page + i * 4096)"
    using IH map_to_maps [OF m1(1)] Cons.prems(3) by (simp del: add_left_cancel)
  then show ?case using IH map_to_maps [OF m1(1)] Cons.prems(3) by auto
qed simp

lemma map_mmio_maps:
  assumes "map_mmio M phys len m fa = Some (Inr (m', v), fa')"
  shows "(\<forall>k<len. \<exists>f. mapping m' (containing_frame (v + k)) = Some f \<and> f + (v + k) mod 4096 = phys + k)
    \<and> (\<forall>page<MMIO_START. mapping m' page = mapping m page)"
proof -
  let ?page = "phys - phys mod 4096" and ?off = "phys mod 4096"
  let ?n = "(?off + len + 4095) div 4096"
  have po: "phys - ?page = ?off" "?page mod 4096 = 0" "phys = ?page + ?off"
    using diff_diff_cancel [OF mod_less_eq_dividend [of phys 4096]] by (simp_all add: minus_mod_eq_mult_div)
  have l: "mmio_loop M ?page [0..<?n] m fa = Some (Inr m', fa')" "v = MMIO_START + ?off"
  proof -
    obtain r where r: "mmio_loop M ?page [0..<?n] m fa = Some (r, fa')"
      "(case r of Inl e \<Rightarrow> Inl e | Inr m' \<Rightarrow> Inr (m', MMIO_START + (phys - ?page))) = Inr (m', v)"
      using assms by (auto simp: map_mmio_def panic_simps Let_def po(1))
    then show "mmio_loop M ?page [0..<?n] m fa = Some (Inr m', fa')" "v = MMIO_START + ?off" by (cases r; simp add: po(1))+
  qed
  note mp = mmio_loop_maps [OF l(1) po(2)]
  have "\<exists>f. mapping m' (containing_frame (v + k)) = Some f \<and> f + (v + k) mod 4096 = phys + k" if k: "k < len" for k
  proof -
    let ?i = "(?off + k) div 4096"
    have "?i < ?n" using k by linarith
    then have m: "mapping m' (MMIO_START + ?i * 4096) = Some (?page + ?i * 4096)" using mp by simp
    have vk: "v + k = MMIO_START + (?off + k)" using l(2) by simp
    have vm: "(v + k) mod 4096 = (?off + k) mod 4096" unfolding vk by (rule MMIO_START_add_mod)
    have "v + k = MMIO_START + ?i * 4096 + (?off + k) mod 4096" using vk div_mult_mod_eq [of "?off + k" 4096] by linarith
    then have "containing_frame (v + k) = MMIO_START + ?i * 4096" unfolding containing_frame_def vm by linarith
    moreover have "?page + ?i * 4096 + (v + k) mod 4096 = phys + k" using vm po(3) div_mult_mod_eq [of "?off + k" 4096] by linarith
    ultimately show ?thesis using m by metis
  qed
  moreover have "mapping m' page = mapping m page" if "page < MMIO_START" for page using mp that by auto
  ultimately show ?thesis by blast
qed

lemma heap_loop_maps:
  assumes "heap_loop M pages m fa = Some (Inr m', fa')" "boot_map_ok (fa_memory_map fa)" "distinct pages"
  shows "\<exists>idx. strict_mono_on {..<length pages} idx \<and> (\<forall>k<length pages. fa_next fa \<le> idx k
      \<and> idx k < length (frame_addresses (fa_memory_map fa))
      \<and> mapping m' (pages ! k) = Some (frame_addresses (fa_memory_map fa) ! idx k))
    \<and> (\<forall>page. page \<notin> set pages \<longrightarrow> mapping m' page = mapping m page)"
  using assms
proof (induction pages arbitrary: m fa)
  case (Cons p ps)
  let ?as = "frame_addresses (fa_memory_map fa)"
  obtain m1 fa1 where m1: "fa_next fa < length ?as"
    "mp_map_to M p (?as ! fa_next fa) [PRESENT, WRITABLE] m (fa\<lparr>fa_next := fa_next fa + 1\<rparr>) = (Inr m1, fa1)"
    "heap_loop M ps m1 fa1 = Some (Inr m', fa')"
    using Cons.prems(1) by (auto simp: allocate_frame_ok [OF Cons.prems(2)] split: if_splits prod.splits sum.splits)
  have fa1: "fa_memory_map fa1 = fa_memory_map fa" "Suc (fa_next fa) \<le> fa_next fa1" using map_to_frames [OF m1(2)] by auto
  have "boot_map_ok (fa_memory_map fa1)" "distinct ps" using Cons.prems fa1(1) by auto
  from Cons.IH [OF m1(3) this] obtain idx where idx: "strict_mono_on {..<length ps} idx"
    "\<And>k. k < length ps \<Longrightarrow> fa_next fa1 \<le> idx k \<and> idx k < length ?as \<and> mapping m' (ps ! k) = Some (?as ! idx k)"
    "\<And>page. page \<notin> set ps \<Longrightarrow> mapping m' page = mapping m1 page" using fa1(1) by auto
  let ?idx = "\<lambda>k. case k of 0 \<Rightarrow> fa_next fa | Suc j \<Rightarrow> idx j"
  have "strict_mono_on {..<length (p # ps)} ?idx"
  proof (rule strict_mono_onI)
    fix a b assume ab: "a \<in> {..<length (p # ps)}" "b \<in> {..<length (p # ps)}" "a < b"
    then obtain j where j: "b = Suc j" "j < length ps" by (cases b) auto
    show "?idx a < ?idx b"
      using idx(2) [OF j(2)] fa1(2) strict_mono_onD [OF idx(1)] ab j by (cases a) auto
  qed
  moreover have "mapping m' p = Some (?as ! fa_next fa)"
    using idx(3) [of p] Cons.prems(3) map_to_maps [OF m1(2)] by simp
  ultimately show ?case
    using idx(2,3) m1(1) fa1(2) map_to_maps [OF m1(2)]
    by (intro exI [of _ ?idx]) (auto simp: less_Suc_eq_0_disj intro: order_trans dest!: Suc_leD split: nat.split)
qed (auto simp: strict_mono_on_def)

end

text \<open>A mapper that keeps the mapping itself and needs no frames, for the witnesses.\<close>

definition table_mapper :: "(nat \<rightharpoonup> nat) mapper_ops" where
  "table_mapper = \<lparr>mp_map_to = (\<lambda>page frame flags m fa.
     (if m page \<noteq> None then Inl PageAlreadyMapped else Inr (m(page \<mapsto> frame)), fa))\<rparr>"

interpretation table_mapper: page_mapper table_mapper id
  by unfold_locales (auto simp: table_mapper_def split: if_splits)

lemma table_heap_loop:
  assumes "boot_map_ok (fa_memory_map fa)" "distinct pages" "\<forall>p\<in>set pages. m p = None"
    "fa_next fa + length pages \<le> length (frame_addresses (fa_memory_map fa))"
  shows "\<exists>m' fa'. heap_loop table_mapper pages m fa = Some (Inr m', fa')"
  using assms
proof (induction pages arbitrary: m fa)
  case (Cons p ps)
  let ?fa = "fa\<lparr>fa_next := Suc (fa_next fa)\<rparr>" and ?f = "frame_addresses (fa_memory_map fa) ! fa_next fa"
  have "\<forall>q\<in>set ps. (m(p \<mapsto> ?f)) q = None" using Cons.prems(2,3) by auto
  moreover have "boot_map_ok (fa_memory_map ?fa)" "distinct ps" "fa_next ?fa + length ps \<le> length (frame_addresses (fa_memory_map ?fa))"
    using Cons.prems(1,2,4) by simp_all
  ultimately obtain m' fa' where "heap_loop table_mapper ps (m(p \<mapsto> ?f)) ?fa = Some (Inr m', fa')"
    using Cons.IH [of ?fa "m(p \<mapsto> ?f)"] by blast
  then show ?case using Cons.prems(3,4) allocate_frame_ok [OF Cons.prems(1)] by (simp add: table_mapper_def)
qed simp

lemma heap_pages_eq: "heap_pages = map (\<lambda>k. HEAP_START + k * 4096) [0..<25]"
proof -
  let ?h = "HEAP_START div 4096"
  have ends: "Suc ((HEAP_START + HEAP_SIZE - 1) div 4096) = 25 + ?h" by (simp add: HEAP_START_def HEAP_SIZE_def)
  have "[?h..<25 + ?h] = map (\<lambda>k. k + ?h) [0..<25]" unfolding map_add_upt by simp
  then have "map (\<lambda>k. k * 4096) [?h..<25 + ?h] = map (\<lambda>k. (k + ?h) * 4096) [0..<25]" by (simp del: upt_rec_numeral)
  also have "\<dots> = map (\<lambda>k. HEAP_START + k * 4096) [0..<25]"
    by (rule map_cong) (simp_all add: HEAP_START_def)
  finally show ?thesis using ends by (simp add: heap_pages_def del: upt_rec_numeral)
qed

section \<open>Properties\<close>

text \<open>Physical frames are handed out once each. On a memory map as the bootloader promises it, any
  number of allocations returns the page-aligned addresses of the usable regions, all of them, in
  order and without repetition, and after the last one only \<open>None\<close>.\<close>

theorem frames_allocated_once:
  assumes "boot_map_ok mm"
  shows "allocate_frames n (frame_allocator_init mm) = Some (map (\<lambda>i. if i < length (frame_addresses mm)
      then Some (frame_addresses mm ! i) else None) [0..<n])
    \<and> distinct (frame_addresses mm)
    \<and> set (frame_addresses mm) = {a. a mod 4096 = 0 \<and> (\<exists>r\<in>set mm. mr_usable r \<and> mr_start r \<le> a \<and> a < mr_end r)}"
  using allocate_frames_ok [of "frame_allocator_init mm" n] frame_addresses_ok [OF assms] assms
  by (simp add: frame_allocator_init_def)

definition example_map :: "MemoryRegion list" where
  "example_map = [\<lparr>mr_usable = False, mr_start = 0, mr_end = 4096\<rparr>, \<lparr>mr_usable = True, mr_start = 0x100000, mr_end = 0x200000\<rparr>]"

lemma example_map_ok: "boot_map_ok example_map"
  by (simp add: boot_map_ok_def example_map_def region_page_ok_def)

theorem frames_allocated_once_witness:
  "allocate_frames 2 (frame_allocator_init example_map) = Some [Some 0x100000, Some 0x101000]"
proof -
  have a: "length (frame_addresses example_map) = 256" "frame_addresses example_map ! 0 = 0x100000" "frame_addresses example_map ! 1 = 0x101000"
    by (simp_all add: frame_addresses_def example_map_def region_addresses_def)
  show ?thesis
    using frames_allocated_once [OF example_map_ok, of 2] a by (simp add: upt_conv_Cons numeral_2_eq_2)
qed

text \<open>The page-table walk translates page by page. A translation keeps the offset within the page,
  and every other address of the same page translates to the same frame: a buffer that does not
  cross a page is contiguous in physical memory, which the network driver relies on for DMA.\<close>

theorem translate_addr_pagewise:
  assumes "paging pg" "translate_addr pg tables cr3 addr offset = Some (Some p)" "addr' div 4096 = addr div 4096"
  shows "p mod 4096 = addr mod 4096
    \<and> translate_addr pg tables cr3 addr' offset = Some (Some (p - addr mod 4096 + addr' mod 4096))"
  by (rule paging.translate_page [OF assms])

text \<open>Tables in which every level points to the frame 0x5000.\<close>

theorem translate_addr_pagewise_witness:
  "translate_addr x86_paging (\<lambda>_ _. 0x5003) 0x1000 0x2010 0 = Some (Some 0x5010)
    \<and> translate_addr x86_paging (\<lambda>_ _. 0x5003) 0x1000 0x2800 0 = Some (Some 0x5800)"
proof -
  have b: "bit (0x5003 :: u64) 0" "\<not> bit (0x5003 :: u64) 7" by (simp_all add: bit_numeral_rec)
  have t: "translate_addr x86_paging (\<lambda>_ _. 0x5003) 0x1000 0x2010 0 = Some (Some 0x5010)"
    by (simp add: translate_addr_def x86_paging_def b)
  show ?thesis
    using translate_addr_pagewise [where addr' = "0x2800", OF x86_paging.paging_axioms t] t by simp
qed

text \<open>Device registers are mapped completely. When \<open>map_mmio\<close> returns an address, every byte of the
  requested physical range, whatever its alignment, is reachable at the corresponding virtual
  address, and no page outside the range changed its mapping.\<close>

theorem map_mmio_covers:
  assumes "page_mapper M mapping" "map_mmio M phys len m fa = Some (Inr (m', v), fa')"
  shows "(\<forall>k<len. \<exists>f. mapping m' (containing_frame (v + k)) = Some f \<and> f + (v + k) mod 4096 = phys + k)
    \<and> (\<forall>page<MMIO_START. mapping m' page = mapping m page)"
  by (rule page_mapper.map_mmio_maps [OF assms])

theorem map_mmio_covers_witness:
  "\<exists>m' fa'. map_mmio table_mapper 0xFEBC0010 8 Map.empty (frame_allocator_init []) = Some (Inr (m', MMIO_START + 0x10), fa')
    \<and> (\<exists>f. m' MMIO_START = Some f \<and> f + 0x10 = 0xFEBC0010)"
proof -
  have e: "map_mmio table_mapper 0xFEBC0010 8 Map.empty (frame_allocator_init [])
    = Some (Inr ([MMIO_START \<mapsto> 0xFEBC0000], MMIO_START + 0x10), frame_allocator_init [])"
    by (simp add: map_mmio_def usize_add_def phys_add_def table_mapper_def containing_frame_def MMIO_START_def)
  have "\<forall>k<8. \<exists>f. id [MMIO_START \<mapsto> 0xFEBC0000] (containing_frame (MMIO_START + 0x10 + k)) = Some f
      \<and> f + (MMIO_START + 0x10 + k) mod 4096 = 0xFEBC0010 + k"
    using map_mmio_covers [OF table_mapper.page_mapper_axioms e] by blast
  from spec [OF this, of 0] show ?thesis using e by (auto simp: containing_frame_def MMIO_START_def)
qed

text \<open>C33: The heap has memory behind every byte. When \<open>init_heap\<close> succeeds, the page of every heap
  address is mapped to a frame of usable memory, different pages to different frames, other pages
  are as before, and the global allocator has been given exactly this range.\<close>

theorem init_heap_backs_heap:
  assumes "page_mapper M mapping" "boot_map_ok (fa_memory_map fa)"
    "init_heap heap_init M m fa g = Some (Inr (m', g'), fa')"
  shows "(\<forall>a. HEAP_START \<le> a \<and> a < HEAP_START + HEAP_SIZE \<longrightarrow>
      (\<exists>f\<in>set (frame_addresses (fa_memory_map fa)). mapping m' (containing_frame a) = Some f))
    \<and> inj_on (mapping m') (set heap_pages)
    \<and> (\<forall>page. page \<notin> set heap_pages \<longrightarrow> mapping m' page = mapping m page)
    \<and> heap_init (fallback_allocator g) HEAP_START HEAP_SIZE = Some (fallback_allocator g')"
proof -
  let ?as = "frame_addresses (fa_memory_map fa)"
  obtain r fa1 where r: "heap_loop M heap_pages m fa = Some (r, fa1)" using assms(3) by (auto simp: init_heap_def panic_simps)
  then have l: "heap_loop M heap_pages m fa = Some (Inr m', fa')" "fixed_init heap_init g HEAP_START HEAP_SIZE = Some g'"
    using assms(3) by (cases r; auto simp: init_heap_def panic_simps)+
  have d: "distinct heap_pages" "length heap_pages = 25" by (simp_all add: heap_pages_eq distinct_map inj_on_def del: upt_rec_numeral)
  obtain idx where idx: "strict_mono_on {..<25} idx"
    "\<And>k. k < 25 \<Longrightarrow> idx k < length ?as \<and> mapping m' (heap_pages ! k) = Some (?as ! idx k)"
    "\<And>page. page \<notin> set heap_pages \<Longrightarrow> mapping m' page = mapping m page"
    using page_mapper.heap_loop_maps [OF assms(1) l(1) assms(2) d(1)] d(2) by auto
  have "\<exists>f\<in>set ?as. mapping m' (containing_frame a) = Some f" if a: "HEAP_START \<le> a" "a < HEAP_START + HEAP_SIZE" for a
  proof -
    let ?k = "(a - HEAP_START) div 4096"
    have k: "?k < 25" using a by (simp add: HEAP_SIZE_def HEAP_START_def)
    have "containing_frame a = HEAP_START + ?k * 4096" 
    proof -
      obtain d where d: "a = HEAP_START + d" using a(1) nat_le_iff_add by blast
      have "HEAP_START mod 4096 = 0" by (simp add: HEAP_START_def)
      then have "(HEAP_START + d) mod 4096 = d mod 4096" by (metis add_0 mod_add_left_eq)
      moreover have "d - d mod 4096 = d div 4096 * 4096" "d mod 4096 \<le> d" by (simp_all add: minus_mod_eq_div_mult)
      ultimately show ?thesis using d by (simp add: containing_frame_def)
    qed
    then have "heap_pages ! ?k = containing_frame a" using k by (simp add: heap_pages_eq del: upt_rec_numeral)
    then show ?thesis using idx(2) [OF k] by (metis nth_mem)
  qed
  moreover have "inj_on (mapping m') (set heap_pages)"
  proof (rule inj_onI)
    fix p p' assume p: "p \<in> set heap_pages" "p' \<in> set heap_pages" and eq: "mapping m' p = mapping m' p'"
    obtain k k' where k: "k < 25" "p = heap_pages ! k" "k' < 25" "p' = heap_pages ! k'" using p d(2) by (metis in_set_conv_nth)
    then have "idx k = idx k'"
      using eq idx(2) [OF k(1)] idx(2) [OF k(3)] frame_addresses_ok(1) [OF assms(2)] by (simp add: nth_eq_iff_index_eq)
    then show "p = p'" using strict_mono_on_imp_inj_on [OF idx(1)] k by (metis inj_onD lessThan_iff)
  qed
  ultimately show ?thesis using idx(3) l(2) by (auto simp: fixed_init_def panic_simps)
qed

lemma example_heap:
  "\<exists>m' g' fa'. init_heap list_init table_mapper Map.empty (frame_allocator_init example_map) (fixed_new list_new) = Some (Inr (m', g'), fa')"
proof -
  let ?fa = "frame_allocator_init example_map"
  have ok: "boot_map_ok (fa_memory_map ?fa)" using example_map_ok by (simp add: frame_allocator_init_def)
  have "length (frame_addresses example_map) = 256" by (simp add: frame_addresses_def example_map_def region_addresses_def)
  moreover have "distinct heap_pages" "length heap_pages = 25" by (simp_all add: heap_pages_eq distinct_map inj_on_def del: upt_rec_numeral)
  ultimately obtain m' fa' where "heap_loop table_mapper heap_pages Map.empty ?fa = Some (Inr m', fa')"
    using table_heap_loop [OF ok, of heap_pages Map.empty] by (auto simp: frame_allocator_init_def)
  moreover have "list_init list_new HEAP_START HEAP_SIZE = Some [(HEAP_START, HEAP_SIZE)]"
    using list_init_inv [of HEAP_START HEAP_SIZE] by (simp add: HEAP_START_def HEAP_SIZE_def)
  ultimately show ?thesis by (simp add: init_heap_def fixed_init_def fixed_new_def)
qed

theorem init_heap_backs_heap_witness:
  "\<exists>m' g' fa'. init_heap list_init table_mapper Map.empty (frame_allocator_init example_map) (fixed_new list_new) = Some (Inr (m', g'), fa')
    \<and> inj_on m' (set heap_pages) \<and> fallback_allocator g' = [(HEAP_START, HEAP_SIZE)]"
proof -
  let ?fa = "frame_allocator_init example_map"
  have ok: "boot_map_ok (fa_memory_map ?fa)" using example_map_ok by (simp add: frame_allocator_init_def)
  obtain m' g' fa' where i: "init_heap list_init table_mapper Map.empty ?fa (fixed_new list_new) = Some (Inr (m', g'), fa')"
    using example_heap by blast
  from init_heap_backs_heap [OF table_mapper.page_mapper_axioms ok i] have "inj_on m' (set heap_pages)"
    "list_init (fallback_allocator (fixed_new list_new)) HEAP_START HEAP_SIZE = Some (fallback_allocator g')" by auto
  then show ?thesis using i list_init_inv [of HEAP_START HEAP_SIZE] by (auto simp: fixed_new_def HEAP_START_def HEAP_SIZE_def)
qed

end
