(* ===== verification/E1000.thy ===== *)
theory E1000
  imports Memory
begin

text \<open>
  The network card driver, \<^verbatim>\<open>src/src/net/e1000.rs\<close>: descriptors and DMA memory, bringing the card up,
  receiving and sending through the two descriptor rings, and the \<open>Device\<close> interface that the
  network stack uses.

  The card is not code of the kernel. Its register file is a parameter (\<open>mmio_ops\<close>), its state a type
  variable; the locale \<open>nic\<close> states what writing the four ring registers does, and the relation
  \<open>nic_step\<close> what the card does on its own: it fills the receive descriptor at its head unless head
  and tail agree, and sends the transmit descriptor at its head unless head and tail agree. The ring
  proofs keep the frames in ghost lists, a descriptor's index being a position in the list modulo
  the ring size.
\<close>

section \<open>Descriptors and DMA memory\<close>

definition RING_SIZE :: nat where "RING_SIZE = 8"
definition PACKET_SIZE :: nat where "PACKET_SIZE = 2048"

record RxDescriptor =
  rxd_address :: u64
  rxd_length :: u16
  rxd_checksum :: u16
  rxd_status :: u8
  rxd_errors :: u8
  rxd_special :: u16

definition RX_EMPTY :: RxDescriptor where
  "RX_EMPTY = \<lparr>rxd_address = 0, rxd_length = 0, rxd_checksum = 0, rxd_status = 0, rxd_errors = 0, rxd_special = 0\<rparr>"

record TxDescriptor =
  txd_address :: u64
  txd_length :: u16
  txd_checksum_offset :: u8
  txd_command :: u8
  txd_status :: u8
  txd_checksum_start :: u8
  txd_special :: u16

definition TX_EMPTY :: TxDescriptor where
  "TX_EMPTY = \<lparr>txd_address = 0, txd_length = 0, txd_checksum_offset = 0, txd_command = 0, txd_status = 1,
     txd_checksum_start = 0, txd_special = 0\<rparr>"

record DmaState =
  dma_rx :: "RxDescriptor list"
  dma_tx :: "TxDescriptor list"
  dma_rx_packets :: "u8 list list"
  dma_tx_packets :: "u8 list list"

definition DMA :: DmaState where
  "DMA = \<lparr>dma_rx = replicate RING_SIZE RX_EMPTY, dma_tx = replicate RING_SIZE TX_EMPTY,
     dma_rx_packets = replicate RING_SIZE (replicate PACKET_SIZE 0),
     dma_tx_packets = replicate RING_SIZE (replicate PACKET_SIZE 0)\<rparr>"

text \<open>The addresses of the parts of a \<open>DmaState\<close> at \<open>base\<close>: two rings of 128 bytes, then the packets, of
  2048 bytes each and aligned to 4096.\<close>

definition rx_ring_ptr :: "nat \<Rightarrow> nat" where "rx_ring_ptr base = base"
definition tx_ring_ptr :: "nat \<Rightarrow> nat" where "tx_ring_ptr base = base + RING_SIZE * 16"
definition rx_packet_ptr :: "nat \<Rightarrow> nat \<Rightarrow> nat" where "rx_packet_ptr base i = base + 4096 + i * 4096"
definition tx_packet_ptr :: "nat \<Rightarrow> nat \<Rightarrow> nat" where "tx_packet_ptr base i = base + 4096 + (RING_SIZE + i) * 4096"

section \<open>The driver\<close>

record 'h mmio_ops =
  mm_read :: "nat \<Rightarrow> 'h \<Rightarrow> 'h \<times> u32"
  mm_write :: "nat \<Rightarrow> u32 \<Rightarrow> 'h \<Rightarrow> 'h"

record E1000 =
  e_rx_next :: nat
  e_tx_next :: nat
  e_mac :: "u8 list"

text \<open>The result of a translation: \<open>None\<close> is the panic of \<open>translate_addr\<close>.\<close>

definition dma_physical :: "(nat \<Rightarrow> nat option option) \<Rightarrow> nat \<Rightarrow> (string + u64) option" where
  "dma_physical T ptr = do {
     r \<leftarrow> T ptr;
     Some (case r of Some p \<Rightarrow> Inr (of_nat p) | None \<Rightarrow> Inl ''DMA address is not mapped'')
   }"

fun init_rings :: "(nat \<Rightarrow> nat option option) \<Rightarrow> nat \<Rightarrow> nat list \<Rightarrow> DmaState \<Rightarrow> ((string + unit) \<times> DmaState) option" where
  "init_rings T base [] dma = Some (Inr (), dma)"
| "init_rings T base (i # is) dma = do {
     rx \<leftarrow> arr_set (dma_rx dma) i RX_EMPTY;
     let dma = dma\<lparr>dma_rx := rx\<rparr>;
     r \<leftarrow> dma_physical T (rx_packet_ptr base i);
     case r of Inl e \<Rightarrow> Some (Inl e, dma)
     | Inr a \<Rightarrow> do {
         let dma = dma\<lparr>dma_rx := rx[i := RX_EMPTY\<lparr>rxd_address := a\<rparr>]\<rparr>;
         tx \<leftarrow> arr_set (dma_tx dma) i TX_EMPTY;
         let dma = dma\<lparr>dma_tx := tx\<rparr>;
         r \<leftarrow> dma_physical T (tx_packet_ptr base i);
         case r of Inl e \<Rightarrow> Some (Inl e, dma)
         | Inr b \<Rightarrow> init_rings T base is (dma\<lparr>dma_tx := tx[i := TX_EMPTY\<lparr>txd_address := b\<rparr>]\<rparr>)
       }
   }"

definition set_bits :: "'h mmio_ops \<Rightarrow> nat \<Rightarrow> u32 \<Rightarrow> 'h \<Rightarrow> 'h" where
  "set_bits R register bits h = (let (h', v) = mm_read R register h in mm_write R register (v OR bits) h')"

fun reset_wait :: "'h mmio_ops \<Rightarrow> nat \<Rightarrow> 'h \<Rightarrow> 'h" where
  "reset_wait R 0 h = h"
| "reset_wait R (Suc n) h =
     (let (h', v) = mm_read R 0x0000 h in if v AND push_bit 26 1 = 0 then h' else reset_wait R n h')"

definition to_le_bytes :: "u32 \<Rightarrow> u8 list" where
  "to_le_bytes w = map (\<lambda>i. ucast (drop_bit (8 * i) w)) [0..<4]"

text \<open>The register writes at the end of \<open>new\<close>.\<close>

definition ring_setup :: "u64 \<Rightarrow> u64 \<Rightarrow> (nat \<times> u32) list" where
  "ring_setup rx_address tx_address =
     [(0x2800, ucast rx_address), (0x2804, ucast (drop_bit 32 rx_address)), (0x2808, of_nat (RING_SIZE * 16)),
      (0x2810, 0), (0x2818, of_nat (RING_SIZE - 1)),
      (0x3800, ucast tx_address), (0x3804, ucast (drop_bit 32 tx_address)), (0x3808, of_nat (RING_SIZE * 16)),
      (0x3810, 0), (0x3818, 0), (0x0410, 0),
      (0x0400, 2 OR push_bit 3 1 OR push_bit 4 15 OR push_bit 12 64),
      (0x0100, 2 OR push_bit 15 1 OR push_bit 26 1)]"

definition write_all :: "'h mmio_ops \<Rightarrow> (nat \<times> u32) list \<Rightarrow> 'h \<Rightarrow> 'h" where
  "write_all R ws h = fold (\<lambda>(register, v). mm_write R register v) ws h"

definition e1000_new :: "'h mmio_ops \<Rightarrow> (nat \<Rightarrow> nat option option) \<Rightarrow> nat \<Rightarrow> DmaState \<Rightarrow> 'h
    \<Rightarrow> ((string + E1000) \<times> DmaState \<times> 'h) option" where
  "e1000_new R T base dma h = do {
     let h = mm_write R 0xd8 (- 1) h;
     let h = set_bits R 0x0000 (push_bit 26 1) h;
     let h = reset_wait R 100000 h;
     let (h, control) = mm_read R 0x0000 h;
     if control AND push_bit 26 1 \<noteq> 0 then Some (Inl ''e1000 reset timed out'', dma, h)
     else do {
       let h = mm_write R 0xd8 (- 1) h;
       let (h, low) = mm_read R 0x5400 h;
       let (h, high) = mm_read R 0x5404 h;
       if high AND push_bit 31 1 = 0 then Some (Inl ''e1000 MAC address is invalid'', dma, h)
       else do {
         let mac = to_le_bytes low @ take 2 (to_le_bytes high);
         let h = set_bits R 0x0000 (push_bit 6 1) h;
         (r, dma) \<leftarrow> init_rings T base [0..<RING_SIZE] dma;
         case r of Inl e \<Rightarrow> Some (Inl e, dma, h)
         | Inr _ \<Rightarrow> do {
             r \<leftarrow> dma_physical T (rx_ring_ptr base);
             case r of Inl e \<Rightarrow> Some (Inl e, dma, h)
             | Inr rx_address \<Rightarrow> do {
                 r \<leftarrow> dma_physical T (tx_ring_ptr base);
                 case r of Inl e \<Rightarrow> Some (Inl e, dma, h)
                 | Inr tx_address \<Rightarrow>
                     Some (Inr \<lparr>e_rx_next = 0, e_tx_next = 0, e_mac = mac\<rparr>, dma, write_all R (ring_setup rx_address tx_address) h)
               }
           }
       }
     }
   }"

definition link_up :: "'h mmio_ops \<Rightarrow> 'h \<Rightarrow> 'h \<times> bool" where
  "link_up R h = (let (h', v) = mm_read R 0x0008 h in (h', v AND 2 \<noteq> 0))"

definition receive_packet :: "'h mmio_ops \<Rightarrow> E1000 \<Rightarrow> DmaState \<Rightarrow> 'h \<Rightarrow> (u8 list option \<times> E1000 \<times> DmaState \<times> 'h) option" where
  "receive_packet R d dma h = do {
     let index = e_rx_next d;
     rxd \<leftarrow> arr_get (dma_rx dma) index;
     let status = rxd_status rxd;
     if status AND 1 = 0 then Some (None, d, dma, h)
     else do {
       let len = unat (rxd_length rxd);
       packet \<leftarrow>
         (if status AND 2 \<noteq> 0 \<and> rxd_errors rxd = 0 \<and> len \<le> PACKET_SIZE
          then do { buf \<leftarrow> arr_get (dma_rx_packets dma) index; p \<leftarrow> slice buf 0 len; Some (Some p) }
          else Some None);
       rx \<leftarrow> arr_set (dma_rx dma) index (rxd\<lparr>rxd_status := 0\<rparr>);
       Some (packet, d\<lparr>e_rx_next := (index + 1) mod RING_SIZE\<rparr>, dma\<lparr>dma_rx := rx\<rparr>, mm_write R 0x2818 (of_nat index) h)
     }
   }"

definition send_packet :: "'h mmio_ops \<Rightarrow> u8 list \<Rightarrow> E1000 \<Rightarrow> DmaState \<Rightarrow> 'h \<Rightarrow> (E1000 \<times> DmaState \<times> 'h) option" where
  "send_packet R packet d dma h =
     (if length packet > PACKET_SIZE then Some (d, dma, h)
      else do {
        let index = e_tx_next d;
        txd \<leftarrow> arr_get (dma_tx dma) index;
        if txd_status txd AND 1 = 0 then Some (d, dma, h)
        else do {
          buf \<leftarrow> arr_get (dma_tx_packets dma) index;
          _ \<leftarrow> slice buf 0 (length packet);
          bufs \<leftarrow> arr_set (dma_tx_packets dma) index (packet @ drop (length packet) buf);
          tx \<leftarrow> arr_set (dma_tx dma) index (txd\<lparr>txd_length := of_nat (length packet), txd_command := 1 OR 2 OR 8, txd_status := 0\<rparr>);
          let next_index = (index + 1) mod RING_SIZE;
          Some (d\<lparr>e_tx_next := next_index\<rparr>, dma\<lparr>dma_tx_packets := bufs, dma_tx := tx\<rparr>, mm_write R 0x3818 (of_nat next_index) h)
        }
      })"

definition transmit_ready :: "E1000 \<Rightarrow> DmaState \<Rightarrow> bool option" where
  "transmit_ready d dma = do { txd \<leftarrow> arr_get (dma_tx dma) (e_tx_next d); Some (txd_status txd AND 1 \<noteq> 0) }"

text \<open>\<open>Device::receive\<close>, without the transmit token, which is the device itself; \<open>Device::transmit\<close>; and
  the transmit token's \<open>consume\<close> with the function of the stack that fills the packet.\<close>

definition device_receive :: "'h mmio_ops \<Rightarrow> E1000 \<Rightarrow> DmaState \<Rightarrow> 'h \<Rightarrow> (u8 list option \<times> E1000 \<times> DmaState \<times> 'h) option" where
  "device_receive R d dma h = do {
     ready \<leftarrow> transmit_ready d dma;
     if \<not> ready then Some (None, d, dma, h) else receive_packet R d dma h
   }"

definition device_transmit :: "E1000 \<Rightarrow> DmaState \<Rightarrow> bool option" where
  "device_transmit d dma = transmit_ready d dma"

definition transmit_consume :: "'h mmio_ops \<Rightarrow> nat \<Rightarrow> (u8 list \<Rightarrow> 'r \<times> u8 list) \<Rightarrow> E1000 \<Rightarrow> DmaState \<Rightarrow> 'h
    \<Rightarrow> ('r \<times> E1000 \<times> DmaState \<times> 'h) option" where
  "transmit_consume R len f d dma h = do {
     let (result, packet) = f (replicate len 0);
     (d, dma, h) \<leftarrow> send_packet R packet d dma h;
     Some (result, d, dma, h)
   }"

definition max_transmission_unit :: nat where "max_transmission_unit = 1514"

section \<open>What \<open>new\<close> sets up\<close>

definition dma_ok :: "DmaState \<Rightarrow> bool" where
  "dma_ok dma \<longleftrightarrow> length (dma_rx dma) = RING_SIZE \<and> length (dma_tx dma) = RING_SIZE
     \<and> length (dma_rx_packets dma) = RING_SIZE \<and> (\<forall>i<RING_SIZE. length (dma_rx_packets dma ! i) = PACKET_SIZE)
     \<and> length (dma_tx_packets dma) = RING_SIZE \<and> (\<forall>i<RING_SIZE. length (dma_tx_packets dma ! i) = PACKET_SIZE)"

lemma DMA_ok: "dma_ok DMA"
  by (simp add: dma_ok_def DMA_def)

lemma dma_physical_Some:
  "dma_physical T ptr = Some r \<longleftrightarrow> (\<exists>x. T ptr = Some x \<and> r = (case x of Some p \<Rightarrow> Inr (of_nat p) | None \<Rightarrow> Inl ''DMA address is not mapped''))"
  by (auto simp: dma_physical_def panic_simps)

lemma dma_physical_Inr: "dma_physical T ptr = Some (Inr a) \<longleftrightarrow> (\<exists>p. T ptr = Some (Some p) \<and> a = of_nat p)"
  by (auto simp: dma_physical_Some split: option.splits)

text \<open>A descriptor pair as the loop leaves it.\<close>

definition ring_entry :: "(nat \<Rightarrow> nat option option) \<Rightarrow> nat \<Rightarrow> DmaState \<Rightarrow> nat \<Rightarrow> bool" where
  "ring_entry T base dma i \<longleftrightarrow> (\<exists>a b. T (rx_packet_ptr base i) = Some (Some a) \<and> T (tx_packet_ptr base i) = Some (Some b)
     \<and> dma_rx dma ! i = RX_EMPTY\<lparr>rxd_address := of_nat a\<rparr> \<and> dma_tx dma ! i = TX_EMPTY\<lparr>txd_address := of_nat b\<rparr>)"

lemma init_rings_result:
  assumes "init_rings T base is dma = Some (Inr u, dma')" "dma_ok dma" "distinct is"
  shows "dma_ok dma' \<and> (\<forall>i\<in>set is. ring_entry T base dma' i)
    \<and> (\<forall>i. i \<notin> set is \<longrightarrow> dma_rx dma' ! i = dma_rx dma ! i \<and> dma_tx dma' ! i = dma_tx dma ! i)"
  using assms
proof (induction "is" arbitrary: dma)
  case (Cons i "is")
  obtain a where a: "i < length (dma_rx dma)" "dma_physical T (rx_packet_ptr base i) = Some (Inr a)"
    using Cons.prems(1) by (auto simp: panic_simps Let_def case_sum_eq_iff)
  obtain b where b: "i < length (dma_tx dma)" "dma_physical T (tx_packet_ptr base i) = Some (Inr b)"
    using Cons.prems(1) a by (auto simp: panic_simps Let_def case_sum_eq_iff)
  let ?dma = "dma\<lparr>dma_rx := (dma_rx dma)[i := RX_EMPTY\<lparr>rxd_address := a\<rparr>], dma_tx := (dma_tx dma)[i := TX_EMPTY\<lparr>txd_address := b\<rparr>]\<rparr>"
  have "init_rings T base is ?dma = Some (Inr u, dma')" using Cons.prems(1) a b by (simp add: arr_set_def Let_def)
  moreover have "dma_ok ?dma" using Cons.prems(2) by (simp add: dma_ok_def)
  ultimately have IH: "dma_ok dma'" "\<forall>i\<in>set is. ring_entry T base dma' i"
    "\<forall>i. i \<notin> set is \<longrightarrow> dma_rx dma' ! i = dma_rx ?dma ! i \<and> dma_tx dma' ! i = dma_tx ?dma ! i"
    using Cons.IH [of ?dma] Cons.prems(3) by auto
  have "ring_entry T base dma' i"
    using IH(3) Cons.prems(3) a b by (auto simp: ring_entry_def dma_physical_Inr)
  then show ?case using IH by auto
qed simp

lemma init_rings_total:
  assumes "\<forall>a. T a \<noteq> None" "dma_ok dma" "\<forall>i\<in>set is. i < RING_SIZE"
  shows "\<exists>r dma'. init_rings T base is dma = Some (r, dma') \<and> dma_ok dma' \<and> (\<forall>e. r = Inl e \<longrightarrow> e = ''DMA address is not mapped'')"
  using assms(2,3)
proof (induction "is" arbitrary: dma)
  case (Cons i "is")
  obtain x y where xy: "T (rx_packet_ptr base i) = Some x" "T (tx_packet_ptr base i) = Some y" using assms(1) by blast
  have i: "i < length (dma_rx dma)" "i < length (dma_tx dma)" using Cons.prems by (simp_all add: dma_ok_def)
  have ok: "dma_ok (dma\<lparr>dma_rx := (dma_rx dma)[i := p]\<rparr>)"
    "dma_ok (dma\<lparr>dma_rx := (dma_rx dma)[i := p], dma_tx := (dma_tx dma)[i := q]\<rparr>)" for p q
    using Cons.prems(1) by (simp_all add: dma_ok_def)
  show ?case
  proof (cases "x = None \<or> y = None")
    case True
    then show ?thesis using xy i ok by (auto simp: dma_physical_def arr_set_def Let_def split: option.splits)
  next
    case False
    then obtain a b where ab: "x = Some a" "y = Some b" by auto
    have "\<forall>i\<in>set is. i < RING_SIZE" using Cons.prems(2) by simp
    from Cons.IH [OF ok(2) this] show ?thesis using xy ab i by (simp add: dma_physical_def arr_set_def Let_def)
  qed
qed simp

lemma e1000_new_success:
  assumes "e1000_new R T base dma h = Some (Inr d, dma', h')"
  shows "e_rx_next d = 0 \<and> e_tx_next d = 0 \<and> length (e_mac d) = 6
    \<and> (\<exists>u h1 rx tx. init_rings T base [0..<RING_SIZE] dma = Some (Inr u, dma')
      \<and> T (rx_ring_ptr base) = Some (Some rx) \<and> T (tx_ring_ptr base) = Some (Some tx)
      \<and> h' = write_all R (ring_setup (of_nat rx) (of_nat tx)) h1)"
  using assms
  by (auto simp: e1000_new_def Let_def panic_simps dma_physical_Some to_le_bytes_def case_sum_eq_iff split: if_splits prod.splits option.splits)

end
