(* ===== verification/E1000_Rings.thy ===== *)
theory E1000_Rings
  imports E1000
begin

text \<open>
  The descriptor rings of \<^verbatim>\<open>src/src/net/e1000.rs\<close> with the card on the other side. The card's moves and
  the driver's interleave freely; the rings are shown to behave as two bounded queues, and the one
  way they stop behaving so, a transmit ring filled completely, is made explicit.
\<close>

section \<open>The card\<close>

record NicRegs =
  rdh :: nat
  rdt :: nat
  tdh :: nat
  tdt :: nat

locale nic =
  fixes R :: "'h mmio_ops"
    and regs :: "'h \<Rightarrow> NicRegs"
  assumes write_rdh: "regs (mm_write R 0x2810 v h) = (regs h)\<lparr>rdh := unat v\<rparr>"
    and write_rdt: "regs (mm_write R 0x2818 v h) = (regs h)\<lparr>rdt := unat v\<rparr>"
    and write_tdh: "regs (mm_write R 0x3810 v h) = (regs h)\<lparr>tdh := unat v\<rparr>"
    and write_tdt: "regs (mm_write R 0x3818 v h) = (regs h)\<lparr>tdt := unat v\<rparr>"
    and write_other: "register \<notin> {0x0000, 0x2810, 0x2818, 0x3810, 0x3818} \<Longrightarrow> regs (mm_write R register v h) = regs h"
begin

lemmas write_ring = write_rdh write_rdt write_tdh write_tdt

lemma ring_setup_regs:
  "regs (write_all R (ring_setup rx tx) h) = \<lparr>rdh = 0, rdt = 7, tdh = 0, tdt = 0\<rparr>"
  by (simp add: write_all_def ring_setup_def RING_SIZE_def write_ring write_other)

end

text \<open>The system: driver, DMA memory and card, with the frames that the card took from the wire
  (\<open>None\<close> for one it marked as damaged), those handed to the network stack, those \<open>send_packet\<close>
  accepted and those the card put on the wire.\<close>

record 'h Link =
  l_dev :: E1000
  l_dma :: DmaState
  l_hw :: 'h
  l_in :: "u8 list option list"
  l_delivered :: "u8 list list"
  l_sent :: "u8 list list"
  l_out :: "u8 list list"

definition link_start :: "E1000 \<Rightarrow> DmaState \<Rightarrow> 'h \<Rightarrow> 'h Link" where
  "link_start d dma hw = \<lparr>l_dev = d, l_dma = dma, l_hw = hw, l_in = [], l_delivered = [], l_sent = [], l_out = []\<rparr>"

definition fill_rx :: "nat \<Rightarrow> u8 list \<Rightarrow> u8 \<Rightarrow> u8 \<Rightarrow> DmaState \<Rightarrow> DmaState" where
  "fill_rx i frame status errors dma = dma\<lparr>
     dma_rx := (dma_rx dma)[i := (dma_rx dma ! i)\<lparr>rxd_length := of_nat (length frame), rxd_status := status, rxd_errors := errors\<rparr>],
     dma_rx_packets := (dma_rx_packets dma)[i := frame @ drop (length frame) (dma_rx_packets dma ! i)]\<rparr>"

definition done_tx :: "nat \<Rightarrow> DmaState \<Rightarrow> DmaState" where
  "done_tx i dma = dma\<lparr>dma_tx := (dma_tx dma)[i := (dma_tx dma ! i)\<lparr>txd_status := txd_status (dma_tx dma ! i) OR 1\<rparr>]\<rparr>"

inductive nic_step :: "'h mmio_ops \<Rightarrow> ('h \<Rightarrow> NicRegs) \<Rightarrow> 'h Link \<Rightarrow> 'h Link \<Rightarrow> bool" for R regs where
  frame_in: "nic_step R regs s (s\<lparr>l_hw := hw, l_dma := fill_rx (rdh (regs (l_hw s))) frame status errors (l_dma s),
      l_in := l_in s @ [if errors = 0 then Some frame else None]\<rparr>)"
  if "rdh (regs (l_hw s)) \<noteq> rdt (regs (l_hw s))" "regs hw = (regs (l_hw s))\<lparr>rdh := (rdh (regs (l_hw s)) + 1) mod RING_SIZE\<rparr>"
    "length frame \<le> PACKET_SIZE" "status AND 1 \<noteq> 0" "status AND 2 \<noteq> 0"
| frame_out: "nic_step R regs s (s\<lparr>l_hw := hw, l_dma := done_tx (tdh (regs (l_hw s))) (l_dma s),
      l_out := l_out s @ [take (unat (txd_length (dma_tx (l_dma s) ! tdh (regs (l_hw s))))) (dma_tx_packets (l_dma s) ! tdh (regs (l_hw s)))]\<rparr>)"
  if "tdh (regs (l_hw s)) \<noteq> tdt (regs (l_hw s))" "regs hw = (regs (l_hw s))\<lparr>tdh := (tdh (regs (l_hw s)) + 1) mod RING_SIZE\<rparr>"
| receive: "nic_step R regs s (s\<lparr>l_dev := d, l_dma := dma, l_hw := hw,
      l_delivered := l_delivered s @ (case r of Some p \<Rightarrow> [p] | None \<Rightarrow> [])\<rparr>)"
  if "device_receive R (l_dev s) (l_dma s) (l_hw s) = Some (r, d, dma, hw)"
| transmit: "nic_step R regs s (s\<lparr>l_dev := d, l_dma := dma, l_hw := hw,
      l_sent := l_sent s @ (if length p \<le> PACKET_SIZE \<and> transmit_ready (l_dev s) (l_dma s) = Some True then [p] else [])\<rparr>)"
  if "send_packet R p (l_dev s) (l_dma s) (l_hw s) = Some (d, dma, hw)"

inductive_cases nic_stepE: "nic_step R regs s s'"

section \<open>The receive ring as a queue\<close>

lemma mod_window:
  assumes "(a::nat) \<le> i" "i < a + 8" "a \<le> j" "j < a + 8" "i mod 8 = j mod 8"
  shows "i = j"
proof -
  have "x = y" if "x \<le> y" "y < x + 8" "x mod 8 = y mod 8" for x y :: nat
  proof -
    have "8 dvd y - x" by (metis mod_eq_dvd_iff_nat that(1,3))
    moreover have "y - x < 8" using that by simp
    ultimately show ?thesis using that(1) nat_dvd_not_less by fastforce
  qed
  note eq = this
  show ?thesis
  proof (cases "i \<le> j")
    case True
    then show ?thesis using eq [of i j] assms by linarith
  next
    case False
    then show ?thesis using eq [of j i] assms by linarith
  qed
qed

definition undamaged :: "u8 list option list \<Rightarrow> u8 list list" where
  "undamaged fs = concat (map (\<lambda>f. case f of Some p \<Rightarrow> [p] | None \<Rightarrow> []) fs)"

definition rx_holds :: "RxDescriptor \<Rightarrow> u8 list \<Rightarrow> u8 list option \<Rightarrow> bool" where
  "rx_holds x buf f \<longleftrightarrow> rxd_status x AND 1 \<noteq> 0 \<and> (case f of
       Some frame \<Rightarrow> rxd_status x AND 2 \<noteq> 0 \<and> rxd_errors x = 0 \<and> length frame \<le> 2048
         \<and> unat (rxd_length x) = length frame \<and> take (length frame) buf = frame
     | None \<Rightarrow> rxd_errors x \<noteq> 0)"

definition bufs_ok :: "u8 list list \<Rightarrow> bool" where
  "bufs_ok pk \<longleftrightarrow> length pk = 8 \<and> (\<forall>i<8. length (pk ! i) = 2048)"

text \<open>The frames \<open>k\<close> to \<open>length ins\<close> wait in the ring.\<close>

definition rx_inv :: "nat \<Rightarrow> u8 list option list \<Rightarrow> u8 list list \<Rightarrow> nat \<Rightarrow> nat \<Rightarrow> nat \<Rightarrow> RxDescriptor list \<Rightarrow> u8 list list \<Rightarrow> bool" where
  "rx_inv k ins del nx hp tp rx pk \<longleftrightarrow> k \<le> length ins \<and> length ins \<le> k + 7 \<and> del = undamaged (take k ins)
     \<and> nx = k mod 8 \<and> hp = length ins mod 8 \<and> tp = (k + 7) mod 8 \<and> length rx = 8 \<and> bufs_ok pk
     \<and> (\<forall>j. k \<le> j \<and> j < length ins \<longrightarrow> rx_holds (rx ! (j mod 8)) (pk ! (j mod 8)) (ins ! j))
     \<and> (\<forall>j. length ins \<le> j \<and> j < k + 8 \<longrightarrow> rxd_status (rx ! (j mod 8)) AND 1 = 0)"

lemma rx_invI:
  assumes "k \<le> length ins" "length ins \<le> k + 7" "del = undamaged (take k ins)" "nx = k mod 8" "hp = length ins mod 8"
    "tp = (k + 7) mod 8" "length rx = 8" "bufs_ok pk"
    "\<And>j. k \<le> j \<Longrightarrow> j < length ins \<Longrightarrow> rx_holds (rx ! (j mod 8)) (pk ! (j mod 8)) (ins ! j)"
    "\<And>j. length ins \<le> j \<Longrightarrow> j < k + 8 \<Longrightarrow> rxd_status (rx ! (j mod 8)) AND 1 = 0"
  shows "rx_inv k ins del nx hp tp rx pk"
  using assms unfolding rx_inv_def by blast

lemma rx_invD:
  assumes "rx_inv k ins del nx hp tp rx pk"
  shows "k \<le> length ins" "length ins \<le> k + 7" "del = undamaged (take k ins)" "nx = k mod 8" "hp = length ins mod 8"
    "tp = (k + 7) mod 8" "length rx = 8" "bufs_ok pk"
    "\<And>j. k \<le> j \<Longrightarrow> j < length ins \<Longrightarrow> rx_holds (rx ! (j mod 8)) (pk ! (j mod 8)) (ins ! j)"
    "\<And>j. length ins \<le> j \<Longrightarrow> j < k + 8 \<Longrightarrow> rxd_status (rx ! (j mod 8)) AND 1 = 0"
  using assms unfolding rx_inv_def by blast+

lemma bufs_ok_update: "bufs_ok pk \<Longrightarrow> length frame \<le> 2048 \<Longrightarrow> i < 8 \<Longrightarrow> bufs_ok (pk[i := frame @ drop (length frame) (pk ! i)])"
  by (auto simp: bufs_ok_def nth_list_update)

lemma unat_frame_length: "n \<le> 2048 \<Longrightarrow> unat (of_nat n :: u16) = n"
  by (simp add: unat_of_nat take_bit_eq_mod)

lemma rx_inv_fill:
  assumes inv: "rx_inv k ins del nx hp tp rx pk" and h: "hp \<noteq> tp" and fr: "length frame \<le> 2048" "status AND 1 \<noteq> 0" "status AND 2 \<noteq> 0"
  shows "rx_inv k (ins @ [if errors = 0 then Some frame else None]) del nx ((hp + 1) mod 8) tp
    (rx[hp := (rx ! hp)\<lparr>rxd_length := of_nat (length frame), rxd_status := status, rxd_errors := errors\<rparr>])
    (pk[hp := frame @ drop (length frame) (pk ! hp)])"
    (is "rx_inv k (ins @ [?f]) del nx _ tp ?rx ?pk")
proof -
  note D = rx_invD [OF inv]
  let ?n = "length ins"
  have n: "?n < k + 7" using D(2,5,6) h by (metis le_neq_implies_less)
  have hp8: "hp < 8" using D(5) by simp
  have other: "j mod 8 \<noteq> hp" if "k \<le> j" "j < k + 8" "j \<noteq> ?n" for j using mod_window [of k j ?n] D(1,5) n that by auto
  have holds: "rx_holds (?rx ! hp) (?pk ! hp) ?f"
    using fr hp8 D(7,8) by (simp add: rx_holds_def bufs_ok_def unat_frame_length)
  show ?thesis
  proof (rule rx_invI)
    show "length (ins @ [?f]) \<le> k + 7" "k \<le> length (ins @ [?f])" using n D(1) by simp_all
    show "del = undamaged (take k (ins @ [?f]))" "length ?rx = 8" using D(1,3,7) by simp_all
    show "(hp + 1) mod 8 = length (ins @ [?f]) mod 8" using D(5) by (simp add: mod_Suc_eq)
    show "bufs_ok ?pk" using D(8) fr(1) hp8 by (rule bufs_ok_update)
    show "rx_holds (?rx ! (j mod 8)) (?pk ! (j mod 8)) ((ins @ [?f]) ! j)" if j: "k \<le> j" "j < length (ins @ [?f])" for j
    proof (cases "j = ?n")
      case True
      then show ?thesis using holds D(5) by simp
    next
      case False
      then have "j < ?n" using j(2) by simp
      then show ?thesis using D(9) [OF j(1)] other [OF j(1)] n by (simp add: nth_append)
    qed
    show "rxd_status (?rx ! (j mod 8)) AND 1 = 0" if j: "length (ins @ [?f]) \<le> j" "j < k + 8" for j
      using D(10) [of j] other [of j] j D(1) by simp
  qed (use D(4,6) in simp_all)
qed

text \<open>The driver's side: nothing when the ring is empty, otherwise the oldest frame.\<close>

lemma rx_inv_take:
  assumes inv: "rx_inv k ins del nx hp tp rx pk" and k: "k < length ins"
  shows "rx_inv (Suc k) ins (del @ (case ins ! k of Some p \<Rightarrow> [p] | None \<Rightarrow> [])) ((nx + 1) mod 8) hp nx (rx[nx := (rx ! nx)\<lparr>rxd_status := 0\<rparr>]) pk"
proof -
  note D = rx_invD [OF inv]
  have nx8: "nx < 8" using D(4) by simp
  have other: "j mod 8 \<noteq> nx" if "k < j" "j < k + 8" for j using mod_window [of k j k] D(4) that by auto
  show ?thesis
  proof (rule rx_invI)
    show "del @ (case ins ! k of Some p \<Rightarrow> [p] | None \<Rightarrow> []) = undamaged (take (Suc k) ins)"
      using k D(3) by (simp add: undamaged_def take_Suc_conv_app_nth)
    show "(nx + 1) mod 8 = Suc k mod 8" using D(4) by (simp add: mod_Suc_eq)
    show "nx = (Suc k + 7) mod 8" using D(4) by simp
    show "rx_holds (rx[nx := (rx ! nx)\<lparr>rxd_status := 0\<rparr>] ! (j mod 8)) (pk ! (j mod 8)) (ins ! j)" if "Suc k \<le> j" "j < length ins" for j
      using D(9) [of j] other [of j] that D(2) by simp
    show "rxd_status (rx[nx := (rx ! nx)\<lparr>rxd_status := 0\<rparr>] ! (j mod 8)) AND 1 = 0" if "length ins \<le> j" "j < Suc k + 8" for j
    proof (cases "j = k + 8")
      case True
      then show ?thesis using D(4,7) nx8 by simp
    next
      case False
      then show ?thesis using D(10) [of j] other [of j] that k by simp
    qed
  qed (use D(2,5,7,8) k in simp_all)
qed

section \<open>The transmit ring as a queue\<close>

definition tx_holds :: "TxDescriptor \<Rightarrow> u8 list \<Rightarrow> u8 list \<Rightarrow> bool" where
  "tx_holds x buf p \<longleftrightarrow> txd_status x AND 1 = 0 \<and> unat (txd_length x) = length p \<and> take (length p) buf = p"

text \<open>The packets \<open>length out\<close> to \<open>length sent\<close> wait in the ring.\<close>

definition tx_inv :: "u8 list list \<Rightarrow> u8 list list \<Rightarrow> nat \<Rightarrow> nat \<Rightarrow> nat \<Rightarrow> TxDescriptor list \<Rightarrow> u8 list list \<Rightarrow> bool" where
  "tx_inv sent out nx hp tp tx pk \<longleftrightarrow> length sent \<le> length out + 8 \<and> length out \<le> length sent \<and> out = take (length out) sent
     \<and> nx = length sent mod 8 \<and> hp = length out mod 8 \<and> tp = length sent mod 8 \<and> length tx = 8 \<and> bufs_ok pk
     \<and> (\<forall>j. length out \<le> j \<and> j < length sent \<longrightarrow> tx_holds (tx ! (j mod 8)) (pk ! (j mod 8)) (sent ! j))
     \<and> (\<forall>j. length sent \<le> j \<and> j < length out + 8 \<longrightarrow> txd_status (tx ! (j mod 8)) AND 1 \<noteq> 0)"

lemma tx_invI:
  assumes "length sent \<le> length out + 8" "length out \<le> length sent" "out = take (length out) sent" "nx = length sent mod 8"
    "hp = length out mod 8" "tp = length sent mod 8" "length tx = 8" "bufs_ok pk"
    "\<And>j. length out \<le> j \<Longrightarrow> j < length sent \<Longrightarrow> tx_holds (tx ! (j mod 8)) (pk ! (j mod 8)) (sent ! j)"
    "\<And>j. length sent \<le> j \<Longrightarrow> j < length out + 8 \<Longrightarrow> txd_status (tx ! (j mod 8)) AND 1 \<noteq> 0"
  shows "tx_inv sent out nx hp tp tx pk"
  using assms unfolding tx_inv_def by blast

lemma tx_invD:
  assumes "tx_inv sent out nx hp tp tx pk"
  shows "length sent \<le> length out + 8" "length out \<le> length sent" "out = take (length out) sent" "nx = length sent mod 8"
    "hp = length out mod 8" "tp = length sent mod 8" "length tx = 8" "bufs_ok pk"
    "\<And>j. length out \<le> j \<Longrightarrow> j < length sent \<Longrightarrow> tx_holds (tx ! (j mod 8)) (pk ! (j mod 8)) (sent ! j)"
    "\<And>j. length sent \<le> j \<Longrightarrow> j < length out + 8 \<Longrightarrow> txd_status (tx ! (j mod 8)) AND 1 \<noteq> 0"
  using assms unfolding tx_inv_def by blast+

text \<open>The next descriptor is free exactly when fewer than eight packets wait.\<close>

lemma tx_inv_ready:
  assumes "tx_inv sent out nx hp tp tx pk"
  shows "txd_status (tx ! nx) AND 1 \<noteq> 0 \<longleftrightarrow> length sent < length out + 8"
proof (cases "length sent < length out + 8")
  case True
  then show ?thesis using tx_invD(4,10) [OF assms] by auto
next
  case False
  then have s: "length sent = length out + 8" using tx_invD(1) [OF assms] by simp
  then have "nx = length out mod 8" using tx_invD(4) [OF assms] by simp
  then show ?thesis using tx_invD(9) [OF assms, of "length out"] s by (simp add: tx_holds_def)
qed

lemma tx_inv_send:
  assumes inv: "tx_inv sent out nx hp tp tx pk" and s: "length sent < length out + 8" and p: "length p \<le> 2048"
  shows "tx_inv (sent @ [p]) out ((nx + 1) mod 8) hp ((nx + 1) mod 8)
    (tx[nx := (tx ! nx)\<lparr>txd_length := of_nat (length p), txd_command := c, txd_status := 0\<rparr>]) (pk[nx := p @ drop (length p) (pk ! nx)])"
    (is "tx_inv _ out _ hp _ ?tx ?pk")
proof -
  note D = tx_invD [OF inv]
  let ?n = "length sent"
  have nx8: "nx < 8" using D(4) by simp
  have other: "j mod 8 \<noteq> nx" if "length out \<le> j" "j < length out + 8" "j \<noteq> ?n" for j
    using mod_window [of "length out" j ?n] D(2,4) s that by auto
  have holds: "tx_holds (?tx ! nx) (?pk ! nx) p"
    using p nx8 D(7,8) by (simp add: tx_holds_def bufs_ok_def unat_frame_length)
  show ?thesis
  proof (rule tx_invI)
    show "out = take (length out) (sent @ [p])" using D(2,3) by simp
    show "(nx + 1) mod 8 = length (sent @ [p]) mod 8" "(nx + 1) mod 8 = length (sent @ [p]) mod 8" using D(4) by (simp_all add: mod_Suc_eq)
    show "bufs_ok ?pk" using D(8) p nx8 by (rule bufs_ok_update)
    show "tx_holds (?tx ! (j mod 8)) (?pk ! (j mod 8)) ((sent @ [p]) ! j)" if j: "length out \<le> j" "j < length (sent @ [p])" for j
    proof (cases "j = ?n")
      case True
      then show ?thesis using holds D(4) by simp
    next
      case False
      then have "j < ?n" using j(2) by simp
      then show ?thesis using D(9) [OF j(1)] other [OF j(1)] s by (simp add: nth_append)
    qed
    show "txd_status (?tx ! (j mod 8)) AND 1 \<noteq> 0" if j: "length (sent @ [p]) \<le> j" "j < length out + 8" for j
      using D(10) [of j] other [of j] j D(2) by simp
  qed (use D(2,5,7) s in simp_all)
qed

lemma tx_inv_out:
  assumes inv: "tx_inv sent out nx hp tp tx pk" and h: "hp \<noteq> tp"
  shows "tx_inv sent (out @ [take (unat (txd_length (tx ! hp))) (pk ! hp)]) nx ((hp + 1) mod 8) tp
    (tx[hp := (tx ! hp)\<lparr>txd_status := txd_status (tx ! hp) OR 1\<rparr>]) pk"
    (is "tx_inv sent (out @ [?p]) nx _ tp ?tx pk")
proof -
  note D = tx_invD [OF inv]
  let ?n = "length out"
  have n: "?n < length sent" using D(2,5,6) h by (metis le_neq_implies_less)
  have hp8: "hp < 8" using D(5) by simp
  have other: "j mod 8 \<noteq> hp" if "?n < j" "j < ?n + 8" for j using mod_window [of ?n j ?n] D(5) that by auto
  have p: "?p = sent ! ?n" using D(9) [of ?n] n D(5) by (simp add: tx_holds_def)
  have "(x OR 1) AND 1 = (1 :: u8)" for x by (rule bit_word_eqI) (auto simp: bit_simps)
  then have done1: "(x OR 1) AND 1 \<noteq> (0 :: u8)" for x by simp
  show ?thesis
  proof (rule tx_invI)
    show "out @ [?p] = take (length (out @ [?p])) sent" using D(3) n p by (simp add: take_Suc_conv_app_nth)
    show "(hp + 1) mod 8 = length (out @ [?p]) mod 8" using D(5) by (simp add: mod_Suc_eq)
    show "tx_holds (?tx ! (j mod 8)) (pk ! (j mod 8)) (sent ! j)" if "length (out @ [?p]) \<le> j" "j < length sent" for j
    proof (cases "j = ?n + 8")
      case True
      then show ?thesis using that D(1) by simp
    next
      case False
      then show ?thesis using D(9) [of j] other [of j] that D(1) by simp
    qed
    show "txd_status (?tx ! (j mod 8)) AND 1 \<noteq> 0" if j: "length sent \<le> j" "j < length (out @ [?p]) + 8" for j
    proof (cases "j = ?n + 8")
      case True
      then show ?thesis using D(5,7) hp8 done1 by simp
    next
      case False
      then show ?thesis using D(10) [of j] other [of j] j n by simp
    qed
  qed (use D(1,4,6,7,8) n in simp_all)
qed

section \<open>Driver and card together\<close>

definition link_inv :: "('h \<Rightarrow> NicRegs) \<Rightarrow> nat \<Rightarrow> 'h Link \<Rightarrow> bool" where
  "link_inv regs k s \<longleftrightarrow>
     rx_inv k (l_in s) (l_delivered s) (e_rx_next (l_dev s)) (rdh (regs (l_hw s))) (rdt (regs (l_hw s)))
       (dma_rx (l_dma s)) (dma_rx_packets (l_dma s))
     \<and> tx_inv (l_sent s) (l_out s) (e_tx_next (l_dev s)) (tdh (regs (l_hw s))) (tdt (regs (l_hw s)))
       (dma_tx (l_dma s)) (dma_tx_packets (l_dma s))"

lemma receive_packet_inv:
  assumes inv: "rx_inv k ins del (e_rx_next d) hp tp (dma_rx dma) (dma_rx_packets dma)"
  shows "receive_packet R d dma h = Some (if k < length ins
    then (ins ! k, d\<lparr>e_rx_next := (e_rx_next d + 1) mod 8\<rparr>,
      dma\<lparr>dma_rx := (dma_rx dma)[e_rx_next d := (dma_rx dma ! e_rx_next d)\<lparr>rxd_status := 0\<rparr>]\<rparr>, mm_write R 0x2818 (of_nat (e_rx_next d)) h)
    else (None, d, dma, h))"
proof -
  note D = rx_invD [OF inv]
  let ?nx = "e_rx_next d"
  have nx8: "?nx < 8" using D(4) by simp
  show ?thesis
  proof (cases "k < length ins")
    case True
    have hold: "rx_holds (dma_rx dma ! ?nx) (dma_rx_packets dma ! ?nx) (ins ! k)" using D(9) [of k] True D(4) by simp
    then have dd: "rxd_status (dma_rx dma ! ?nx) AND 1 \<noteq> 0" by (simp add: rx_holds_def)
    have len: "length (dma_rx_packets dma) = 8" "length (dma_rx_packets dma ! ?nx) = 2048" using D(8) nx8 by (simp_all add: bufs_ok_def)
    show ?thesis
    proof (cases "ins ! k")
      case None
      then show ?thesis
        using hold dd nx8 D(7) True by (simp add: receive_packet_def rx_holds_def arr_get_def arr_set_def RING_SIZE_def PACKET_SIZE_def Let_def)
    next
      case (Some frame)
      then show ?thesis
        using hold dd nx8 D(7) True len
        by (simp add: receive_packet_def rx_holds_def arr_get_def arr_set_def slice_def RING_SIZE_def PACKET_SIZE_def Let_def)
    qed
  next
    case False
    then have "k = length ins" using D(1) by simp
    then have "rxd_status (dma_rx dma ! ?nx) AND 1 = 0" using D(10) [of k] D(4) by simp
    then show ?thesis using False nx8 D(7) by (simp add: receive_packet_def arr_get_def)
  qed
qed

lemma transmit_ready_inv:
  assumes "tx_inv sent out (e_tx_next d) hp tp (dma_tx dma) (dma_tx_packets dma)"
  shows "transmit_ready d dma = Some (length sent < length out + 8)"
  using tx_invD(4,7) [OF assms] tx_inv_ready [OF assms] by (simp add: transmit_ready_def arr_get_def)

lemma send_packet_inv:
  assumes inv: "tx_inv sent out (e_tx_next d) hp tp (dma_tx dma) (dma_tx_packets dma)"
  shows "send_packet R p d dma h = Some (if length p \<le> 2048 \<and> length sent < length out + 8
    then (d\<lparr>e_tx_next := (e_tx_next d + 1) mod 8\<rparr>,
      dma\<lparr>dma_tx_packets := (dma_tx_packets dma)[e_tx_next d := p @ drop (length p) (dma_tx_packets dma ! e_tx_next d)],
        dma_tx := (dma_tx dma)[e_tx_next d := (dma_tx dma ! e_tx_next d)\<lparr>txd_length := of_nat (length p), txd_command := 1 OR 2 OR 8, txd_status := 0\<rparr>]\<rparr>,
      mm_write R 0x3818 (of_nat ((e_tx_next d + 1) mod 8)) h)
    else (d, dma, h))"
proof -
  note D = tx_invD [OF inv] and ready = tx_inv_ready [OF inv]
  have nx8: "e_tx_next d < 8" using D(4) by simp
  have len: "length (dma_tx_packets dma) = 8" "length (dma_tx_packets dma ! e_tx_next d) = 2048" using D(8) nx8 by (simp_all add: bufs_ok_def)
  show ?thesis
  proof (cases "length p \<le> 2048 \<and> length sent < length out + 8")
    case True
    then have "txd_status (dma_tx dma ! e_tx_next d) AND 1 \<noteq> 0" using ready by simp
    then show ?thesis using True nx8 len D(7)
      by (simp add: send_packet_def arr_get_def arr_set_def slice_def RING_SIZE_def PACKET_SIZE_def Let_def)
  next
    case False
    then show ?thesis using ready nx8 len D(7)
      by (auto simp: send_packet_def arr_get_def arr_set_def slice_def RING_SIZE_def PACKET_SIZE_def Let_def)
  qed
qed

context nic
begin

lemma unat_index: "n < 8 \<Longrightarrow> unat (of_nat n :: u32) = n"
  by (simp add: unat_of_nat take_bit_eq_mod)

lemma link_inv_step:
  assumes inv: "link_inv regs k s" and step: "nic_step R regs s s'"
  shows "\<exists>k'. link_inv regs k' s' \<and> k \<le> k'"
proof -
  have rx: "rx_inv k (l_in s) (l_delivered s) (e_rx_next (l_dev s)) (rdh (regs (l_hw s))) (rdt (regs (l_hw s))) (dma_rx (l_dma s)) (dma_rx_packets (l_dma s))"
    and tx: "tx_inv (l_sent s) (l_out s) (e_tx_next (l_dev s)) (tdh (regs (l_hw s))) (tdt (regs (l_hw s))) (dma_tx (l_dma s)) (dma_tx_packets (l_dma s))"
    using inv by (simp_all add: link_inv_def)
  have nx8: "e_rx_next (l_dev s) < 8" "e_tx_next (l_dev s) < 8" using rx_invD(4) [OF rx] tx_invD(4) [OF tx] by simp_all
  from step show ?thesis
  proof cases
    case (frame_in hw frame status errors)
    then have "link_inv regs k s'"
      using rx_inv_fill [OF rx, of frame status errors] tx by (simp add: link_inv_def fill_rx_def RING_SIZE_def PACKET_SIZE_def Let_def)
    then show ?thesis by blast
  next
    case (frame_out hw)
    then have "link_inv regs k s'"
      using tx_inv_out [OF tx] rx by (simp add: link_inv_def done_tx_def RING_SIZE_def)
    then show ?thesis by blast
  next
    case (receive r d dma hw)
    show ?thesis
    proof (cases "k < length (l_in s) \<and> length (l_sent s) < length (l_out s) + 8")
      case True
      then have "link_inv regs (Suc k) s'"
        using receive transmit_ready_inv [OF tx] receive_packet_inv [OF rx, of R "l_hw s"] rx_inv_take [OF rx] tx nx8
        by (auto simp: link_inv_def device_receive_def write_rdt unat_index)
      then show ?thesis by (meson le_SucI order_refl)
    next
      case False
      then have "s' = s"
        using receive transmit_ready_inv [OF tx] receive_packet_inv [OF rx, of R "l_hw s"] by (auto simp: device_receive_def split: if_splits)
      then show ?thesis using inv by blast
    qed
  next
    case (transmit p d dma hw)
    show ?thesis
    proof (cases "length p \<le> 2048 \<and> length (l_sent s) < length (l_out s) + 8")
      case True
      then have "link_inv regs k s'"
        using transmit transmit_ready_inv [OF tx] send_packet_inv [OF tx, of R p "l_hw s"] tx_inv_send [OF tx, of p "1 OR 2 OR 8"] rx
        by (auto simp: link_inv_def write_tdt unat_index PACKET_SIZE_def)
      then show ?thesis by blast
    next
      case False
      then have "s' = s"
        using transmit transmit_ready_inv [OF tx] send_packet_inv [OF tx, of R p "l_hw s"] by (auto simp: PACKET_SIZE_def split: if_splits)
      then show ?thesis using inv by blast
    qed
  qed
qed

lemma link_inv_steps:
  assumes "(nic_step R regs)\<^sup>*\<^sup>* s s'" "link_inv regs k s"
  shows "\<exists>k'. link_inv regs k' s'"
  using assms by (induction) (use link_inv_step in blast)+

end

section \<open>A simple card\<close>

text \<open>A card that answers at once and keeps only the ring registers, for the witnesses, and memory that
  is mapped one to one.\<close>

definition plain_nic :: "NicRegs mmio_ops" where
  "plain_nic = \<lparr>
     mm_read = (\<lambda>register h. (h, if register = 0x5404 then 0x80000000 else if register = 0x0008 then 2 else 0)),
     mm_write = (\<lambda>register v h. if register = 0x2810 then h\<lparr>rdh := unat v\<rparr> else if register = 0x2818 then h\<lparr>rdt := unat v\<rparr>
       else if register = 0x3810 then h\<lparr>tdh := unat v\<rparr> else if register = 0x3818 then h\<lparr>tdt := unat v\<rparr> else h)\<rparr>"

interpretation plain_nic: nic plain_nic "\<lambda>h. h"
  by unfold_locales (simp_all add: plain_nic_def)

lemma reset_wait_quick: "0 < n \<Longrightarrow> mm_read R 0 h = (h', v) \<Longrightarrow> v AND push_bit 26 1 = 0 \<Longrightarrow> reset_wait R n h = h'"
  by (cases n) simp_all

lemma init_rings_mapped:
  "dma_ok dma \<Longrightarrow> \<forall>i\<in>set is. i < RING_SIZE \<Longrightarrow> \<exists>u dma'. init_rings (\<lambda>a. Some (Some (f a))) base is dma = Some (Inr u, dma')"
proof (induction "is" arbitrary: dma)
  case (Cons i "is")
  have "i < length (dma_rx dma)" "i < length (dma_tx dma)" using Cons.prems by (simp_all add: dma_ok_def)
  moreover have "dma_ok (dma\<lparr>dma_rx := (dma_rx dma)[i := p], dma_tx := (dma_tx dma)[i := q]\<rparr>)" for p q
    using Cons.prems(1) by (simp add: dma_ok_def)
  ultimately show ?case using Cons.IH Cons.prems(2) by (simp add: dma_physical_def arr_set_def Let_def)
qed simp

lemma plain_nic_new:
  "\<exists>d dma h. e1000_new plain_nic (\<lambda>a. Some (Some (f a))) base DMA h0 = Some (Inr d, dma, h)"
proof -
  obtain u dma' where "init_rings (\<lambda>a. Some (Some (f a))) base [0..<RING_SIZE] DMA = Some (Inr u, dma')"
    using init_rings_mapped [OF DMA_ok, of "[0..<RING_SIZE]" f base] by auto
  moreover have "reset_wait plain_nic 100000 h = h" for h
    by (rule reset_wait_quick [where v = 0]) (simp_all add: plain_nic_def)
  ultimately show ?thesis
    by (simp add: e1000_new_def set_bits_def dma_physical_def plain_nic_def Let_def)
qed

context nic
begin

lemma link_start_inv:
  assumes "e1000_new R T base dma0 h0 = Some (Inr d, dma, h)" "dma_ok dma0"
  shows "link_inv regs 0 (link_start d dma h)"
proof -
  from e1000_new_success [OF assms(1)] obtain u h1 rx tx where d: "e_rx_next d = 0" "e_tx_next d = 0"
    and i: "init_rings T base [0..<RING_SIZE] dma0 = Some (Inr u, dma)" and h: "h = write_all R (ring_setup (of_nat rx) (of_nat tx)) h1"
    by blast
  have r: "regs h = \<lparr>rdh = 0, rdt = 7, tdh = 0, tdt = 0\<rparr>" unfolding h by (rule ring_setup_regs)
  have ok: "dma_ok dma" and e: "\<And>j. j < 8 \<Longrightarrow> ring_entry T base dma j"
    using init_rings_result [OF i assms(2)] by (auto simp: RING_SIZE_def)
  have st: "rxd_status (dma_rx dma ! j) = 0" "txd_status (dma_tx dma ! j) = 1" if "j < 8" for j
    using e [OF that] by (auto simp: ring_entry_def RX_EMPTY_def TX_EMPTY_def)
  have "rx_inv 0 [] [] 0 0 7 (dma_rx dma) (dma_rx_packets dma)"
    using ok st(1) by (intro rx_invI) (simp_all add: undamaged_def dma_ok_def bufs_ok_def RING_SIZE_def PACKET_SIZE_def)
  moreover have "tx_inv [] [] 0 0 0 (dma_tx dma) (dma_tx_packets dma)"
    using ok st(2) by (intro tx_invI) (simp_all add: dma_ok_def bufs_ok_def RING_SIZE_def PACKET_SIZE_def)
  ultimately show ?thesis using d r by (simp add: link_inv_def link_start_def)
qed

lemma link_inv_fifo:
  assumes "link_inv regs k s"
  shows "(\<exists>waiting. undamaged (l_in s) = l_delivered s @ waiting \<and> length waiting \<le> 7)
    \<and> (\<exists>queued. l_sent s = l_out s @ queued \<and> length queued \<le> 8)
    \<and> device_receive R (l_dev s) (l_dma s) (l_hw s) \<noteq> None \<and> (\<forall>p. send_packet R p (l_dev s) (l_dma s) (l_hw s) \<noteq> None)"
proof -
  have rx: "rx_inv k (l_in s) (l_delivered s) (e_rx_next (l_dev s)) (rdh (regs (l_hw s))) (rdt (regs (l_hw s))) (dma_rx (l_dma s)) (dma_rx_packets (l_dma s))"
    and tx: "tx_inv (l_sent s) (l_out s) (e_tx_next (l_dev s)) (tdh (regs (l_hw s))) (tdt (regs (l_hw s))) (dma_tx (l_dma s)) (dma_tx_packets (l_dma s))"
    using assms by (simp_all add: link_inv_def)
  have "undamaged (l_in s) = l_delivered s @ undamaged (drop k (l_in s))"
    unfolding rx_invD(3) [OF rx] undamaged_def concat_append [symmetric] map_append [symmetric] by simp
  moreover have "length (undamaged fs) \<le> length fs" for fs
    by (induction fs) (auto simp: undamaged_def split: option.split)
  then have "length (undamaged (drop k (l_in s))) \<le> 7"
    by (rule order_trans) (use rx_invD(2) [OF rx] in simp)
  moreover have "l_sent s = l_out s @ drop (length (l_out s)) (l_sent s)" using tx_invD(3) [OF tx] by (metis append_take_drop_id)
  moreover have "length (drop (length (l_out s)) (l_sent s)) \<le> 8" using tx_invD(1) [OF tx] by simp
  moreover have "device_receive R (l_dev s) (l_dma s) (l_hw s) \<noteq> None"
    using receive_packet_inv [OF rx, of R "l_hw s"] transmit_ready_inv [OF tx] by (simp add: device_receive_def)
  moreover have "send_packet R p (l_dev s) (l_dma s) (l_hw s) \<noteq> None" for p
    unfolding send_packet_inv [OF tx, of R p "l_hw s"] by (rule option.distinct)
  ultimately show ?thesis by blast
qed

text \<open>A full transmit ring.\<close>

lemma link_full_step:
  assumes inv: "link_inv regs k s" and full: "length (l_sent s) = length (l_out s) + 8" and step: "nic_step R regs s s'"
  shows "l_sent s' = l_sent s \<and> l_out s' = l_out s \<and> l_delivered s' = l_delivered s"
proof -
  have tx: "tx_inv (l_sent s) (l_out s) (e_tx_next (l_dev s)) (tdh (regs (l_hw s))) (tdt (regs (l_hw s))) (dma_tx (l_dma s)) (dma_tx_packets (l_dma s))"
    using inv by (simp add: link_inv_def)
  have eq: "tdh (regs (l_hw s)) = tdt (regs (l_hw s))" using tx_invD(5,6) [OF tx] full by simp
  have ready: "transmit_ready (l_dev s) (l_dma s) = Some False" using transmit_ready_inv [OF tx] full by simp
  from step show ?thesis
    by cases (use eq ready in \<open>auto simp: device_receive_def\<close>)
qed

lemma link_full_steps:
  assumes "(nic_step R regs)\<^sup>*\<^sup>* s s'" "link_inv regs k s" "length (l_sent s) = length (l_out s) + 8"
  shows "l_sent s' = l_sent s \<and> l_out s' = l_out s \<and> l_delivered s' = l_delivered s"
  using assms
proof (induction rule: rtranclp_induct)
  case (step y z)
  then have eq: "l_sent y = l_sent s" "l_out y = l_out s" "l_delivered y = l_delivered s" by auto
  obtain k' where "link_inv regs k' y" using link_inv_steps [OF step(1) step.prems(1)] by blast
  from link_full_step [OF this _ step(2)] show ?case using eq step.prems(2) by simp
qed simp

lemma link_send_all:
  assumes "link_inv regs k s" "\<forall>p\<in>set ps. length p \<le> 2048" "length (l_sent s) + length ps \<le> length (l_out s) + 8"
  shows "\<exists>s'. (nic_step R regs)\<^sup>*\<^sup>* s s' \<and> l_sent s' = l_sent s @ ps \<and> l_out s' = l_out s"
  using assms
proof (induction ps arbitrary: s k)
  case (Cons p ps)
  have tx: "tx_inv (l_sent s) (l_out s) (e_tx_next (l_dev s)) (tdh (regs (l_hw s))) (tdt (regs (l_hw s))) (dma_tx (l_dma s)) (dma_tx_packets (l_dma s))"
    using Cons.prems(1) by (simp add: link_inv_def)
  obtain d dma hw where sp: "send_packet R p (l_dev s) (l_dma s) (l_hw s) = Some (d, dma, hw)"
    using send_packet_inv [OF tx, of R p "l_hw s"] by (metis surj_pair)
  have ready: "transmit_ready (l_dev s) (l_dma s) = Some True" "length p \<le> 2048"
    using transmit_ready_inv [OF tx] Cons.prems(2,3) by simp_all
  let ?s = "s\<lparr>l_dev := d, l_dma := dma, l_hw := hw, l_sent := l_sent s @ [p]\<rparr>"
  have st: "nic_step R regs s ?s" using nic_step.transmit [OF sp, of regs] ready by (simp add: PACKET_SIZE_def)
  obtain k' where "link_inv regs k' ?s" using link_inv_step [OF Cons.prems(1) st] by blast
  moreover have "\<forall>p\<in>set ps. length p \<le> 2048" "length (l_sent ?s) + length ps \<le> length (l_out ?s) + 8" using Cons.prems(2,3) by simp_all
  ultimately obtain s' where "(nic_step R regs)\<^sup>*\<^sup>* ?s s'" "l_sent s' = l_sent ?s @ ps" "l_out s' = l_out ?s"
    using Cons.IH by blast
  then show ?case using converse_rtranclp_into_rtranclp [of "nic_step R regs", OF st] by auto
qed auto

end

section \<open>Properties\<close>

text \<open>C12: The descriptor rings are queues. From the state that \<open>new\<close> sets up, whatever frames arrive and
  whenever the card and the network stack get to act, the frames handed to the stack are exactly
  the undamaged ones the card stored, in order, without loss or repetition, at most seven waiting;
  what the card puts on the wire is what \<open>send_packet\<close> accepted, in order, at most eight waiting;
  and neither operation can panic.\<close>

theorem nic_rings_fifo:
  assumes "nic R regs" "dma_ok dma0" "e1000_new R T base dma0 h0 = Some (Inr d, dma, h)"
    "(nic_step R regs)\<^sup>*\<^sup>* (link_start d dma h) s"
  shows "(\<exists>waiting. undamaged (l_in s) = l_delivered s @ waiting \<and> length waiting \<le> 7)
    \<and> (\<exists>queued. l_sent s = l_out s @ queued \<and> length queued \<le> 8)
    \<and> device_receive R (l_dev s) (l_dma s) (l_hw s) \<noteq> None \<and> (\<forall>p. send_packet R p (l_dev s) (l_dma s) (l_hw s) \<noteq> None)"
  using nic.link_inv_fifo [OF assms(1)] nic.link_inv_steps [OF assms(1,4) nic.link_start_inv [OF assms(1,3,2)]] by blast

theorem nic_rings_fifo_witness:
  "\<exists>d dma h s. e1000_new plain_nic (\<lambda>a. Some (Some a)) 0x1000 DMA \<lparr>rdh = 0, rdt = 0, tdh = 0, tdt = 0\<rparr> = Some (Inr d, dma, h)
    \<and> (nic_step plain_nic (\<lambda>h. h))\<^sup>*\<^sup>* (link_start d dma h) s \<and> l_sent s = [[1, 2, 3]]
    \<and> (\<exists>queued. l_sent s = l_out s @ queued \<and> length queued \<le> 8)"
proof -
  obtain d dma h where n: "e1000_new plain_nic (\<lambda>a. Some (Some a)) 0x1000 DMA \<lparr>rdh = 0, rdt = 0, tdh = 0, tdt = 0\<rparr> = Some (Inr d, dma, h)"
    using plain_nic_new [of "\<lambda>a. a"] by blast
  obtain s where s: "(nic_step plain_nic (\<lambda>h. h))\<^sup>*\<^sup>* (link_start d dma h) s" "l_sent s = [[1, 2, 3]]"
    using plain_nic.link_send_all [OF plain_nic.link_start_inv [OF n DMA_ok], of "[[1, 2, 3]]"] by (auto simp: link_start_def)
  from nic_rings_fifo [OF plain_nic.nic_axioms DMA_ok n s(1)] n s show ?thesis by blast
qed

text \<open>C28: A transmit ring that is filled completely never empties. The driver lets eight packets wait in
  eight descriptors, but then the tail register equals the head and the card takes the ring for
  empty: if the card sends nothing before the eighth packet is queued, nothing is ever sent again,
  no packet is accepted again, and, because receiving first asks for a free transmit descriptor,
  nothing is received again either.\<close>

theorem full_transmit_ring_is_stuck:
  assumes "nic R regs" "dma_ok dma0" "e1000_new R T base dma0 h0 = Some (Inr d, dma, h)"
    "length ps = 8" "\<forall>p\<in>set ps. length p \<le> PACKET_SIZE"
  shows "\<exists>s. (nic_step R regs)\<^sup>*\<^sup>* (link_start d dma h) s \<and> l_sent s = ps
    \<and> (\<forall>s'. (nic_step R regs)\<^sup>*\<^sup>* s s' \<longrightarrow> l_sent s' = ps \<and> l_out s' = [] \<and> l_delivered s' = l_delivered s)"
proof -
  note start = nic.link_start_inv [OF assms(1,3,2)]
  obtain s where s: "(nic_step R regs)\<^sup>*\<^sup>* (link_start d dma h) s" "l_sent s = ps" "l_out s = []"
    using nic.link_send_all [OF assms(1) start, of ps] assms(4,5) by (auto simp: link_start_def PACKET_SIZE_def)
  obtain k where "link_inv regs k s" using nic.link_inv_steps [OF assms(1) s(1) start] by blast
  from nic.link_full_steps [OF assms(1) _ this] show ?thesis using s assms(4) by auto
qed

theorem full_transmit_ring_is_stuck_witness:
  "\<exists>s. l_sent s = replicate 8 [1] \<and> (\<forall>s'. (nic_step plain_nic (\<lambda>h. h))\<^sup>*\<^sup>* s s' \<longrightarrow> l_out s' = [])"
proof -
  obtain d dma h where n: "e1000_new plain_nic (\<lambda>a. Some (Some a)) 0x1000 DMA \<lparr>rdh = 0, rdt = 0, tdh = 0, tdt = 0\<rparr> = Some (Inr d, dma, h)"
    using plain_nic_new [of "\<lambda>a. a"] by blast
  from full_transmit_ring_is_stuck [OF plain_nic.nic_axioms DMA_ok n, of "replicate 8 [1]"] show ?thesis
    by (auto simp: PACKET_SIZE_def)
qed



text \<open>Bringing the card up never hangs and never panics. Whatever the card's registers show, \<open>new\<close>
  returns after at most a hundred thousand polls: either one of its three errors or a driver at the
  start of both rings with a six-byte address; the DMA memory keeps its shape.\<close>

theorem e1000_new_returns:
  assumes "\<forall>a. T a \<noteq> None" "dma_ok dma"
  shows "\<exists>r dma' h'. e1000_new R T base dma h = Some (r, dma', h') \<and> dma_ok dma' \<and> (case r of
      Inl e \<Rightarrow> e \<in> {''e1000 reset timed out'', ''e1000 MAC address is invalid'', ''DMA address is not mapped''}
    | Inr d \<Rightarrow> e_rx_next d = 0 \<and> e_tx_next d = 0 \<and> length (e_mac d) = 6)"
proof -
  obtain r dma' where i: "init_rings T base [0..<RING_SIZE] dma = Some (r, dma')" "dma_ok dma'" "\<forall>e. r = Inl e \<longrightarrow> e = ''DMA address is not mapped''"
    using init_rings_total [OF assms, of "[0..<RING_SIZE]" base] by auto
  obtain x y where "T (rx_ring_ptr base) = Some x" "T (tx_ring_ptr base) = Some y" using assms(1) by blast
  then show ?thesis
    using i assms(2)
    by (auto simp: e1000_new_def dma_physical_def Let_def to_le_bytes_def split: prod.split sum.split option.split if_split)
qed

theorem e1000_new_returns_witness:
  "\<exists>r dma' h'. e1000_new \<lparr>mm_read = (\<lambda>_ h. (h, 0x04000000)), mm_write = (\<lambda>_ _ h. h)\<rparr> (\<lambda>_. Some None) 0 DMA () = Some (r, dma', h') \<and> dma_ok dma'"
  using e1000_new_returns [OF _ DMA_ok, of "\<lambda>_. Some None" "\<lparr>mm_read = (\<lambda>_ h. (h, 0x04000000)), mm_write = (\<lambda>_ _ h. h)\<rparr>" 0 "()"]
  by blast

end
