(* ===== verification/Net.thy ===== *)
theory Net
  imports Pci E1000_Rings Web Timer
begin

text \<open>
  The network entry points, \<^verbatim>\<open>src/src/net/mod.rs\<close>: bringing up the controller, its status, and fetching
  a page through address configuration, name resolution and one TCP connection.

  The protocol stack is the smoltcp crate, a parameter: its state, together with the clock and
  everything else outside the kernel, is a type variable and its operations are the fields of
  \<open>stack_ops\<close>. The locale \<open>net_stack\<close> states what the waiting loops rely on: time never goes back and
  \<open>hlt\<close> waits for an interrupt, which is a timer tick or one of finitely many others before the next.
  An \<open>outcome\<close> is what a function returns or a panic; the loops are partial functions, so that not
  returning at all would be the value \<open>None\<close>.
\<close>

section \<open>The controller\<close>

record ('p, 'm, 'h) Net =
  n_pci :: 'p
  n_mapper :: 'm
  n_frames :: BootInfoFrameAllocator
  n_dma :: DmaState
  n_hw :: 'h
  n_device :: "(nat \<times> E1000) option"

text \<open>The registers of a device are reached at the address they are mapped to, so the operations on
  them are a function of it; the translation of addresses depends on the state of the page tables.
  After an error the caller only prints it.\<close>

definition net_init :: "'p port_ops \<Rightarrow> 'm mapper_ops \<Rightarrow> (nat \<Rightarrow> 'h mmio_ops) \<Rightarrow> ('m \<Rightarrow> nat \<Rightarrow> nat option option) \<Rightarrow> nat
    \<Rightarrow> ('p, 'm, 'h) Net \<Rightarrow> (string + ('p, 'm, 'h) Net) option" where
  "net_init P M R T base s =
     (case find_qemu_e1000 P (n_pci s) of
        (p, None) \<Rightarrow> Some (Inr (s\<lparr>n_pci := p\<rparr>))
      | (p, Some address) \<Rightarrow>
          (case memory_bar0 P address p of (p, bar) \<Rightarrow>
             if bar = None \<or> bar = Some 0 then Some (Inl ''e1000 BAR0 is missing'')
             else do {
               rust_assert (unat (the bar) < 2 ^ 52);
               (r, fa) \<leftarrow> map_mmio M (unat (the bar)) 0x20000 (n_mapper s) (n_frames s);
               case r of Inl _ \<Rightarrow> Some (Inl ''e1000 MMIO mapping failed'')
               | Inr (m, registers) \<Rightarrow> do {
                   let p = enable_bus_master P address p;
                   (r, dma, hw) \<leftarrow> e1000_new (R registers) (T m) base (n_dma s) (n_hw s);
                   case r of Inl e \<Rightarrow> Some (Inl e)
                   | Inr device \<Rightarrow> Some (Inr \<lparr>n_pci = p, n_mapper = m, n_frames = fa, n_dma = dma, n_hw = hw,
                       n_device = Some (registers, device)\<rparr>)
                 }
             }))"

definition net_status :: "(nat \<Rightarrow> 'h mmio_ops) \<Rightarrow> ('p, 'm, 'h) Net \<Rightarrow> ('p, 'm, 'h) Net \<times> (u8 list \<times> bool) option" where
  "net_status R s = (case n_device s of None \<Rightarrow> (s, None)
     | Some (registers, device) \<Rightarrow> (let (hw, up) = link_up (R registers) (n_hw s) in (s\<lparr>n_hw := hw\<rparr>, Some (e_mac device, up))))"

section \<open>Fetching\<close>

record 'ip DhcpConfig =
  dc_address :: 'ip
  dc_router :: "'ip option"
  dc_dns_servers :: "'ip list"

datatype 'ip QueryResult = QueryPending | QueryFailed | QueryOk "'ip list"

record ('s, 'ip, 'q) stack_ops =
  st_ticks :: "'s \<Rightarrow> nat"
  st_hlt :: "'s \<Rightarrow> 's"
  st_new :: "u8 list \<Rightarrow> u64 \<Rightarrow> int \<Rightarrow> 's \<Rightarrow> 's"
  st_poll :: "int \<Rightarrow> 's \<Rightarrow> 's"
  st_dhcp_poll :: "'s \<Rightarrow> 's \<times> 'ip DhcpConfig option"
  st_set_address :: "'ip \<Rightarrow> 's \<Rightarrow> 's"
  st_add_route :: "'ip \<Rightarrow> 's \<Rightarrow> 's option"
  st_parse_ip :: "char list \<Rightarrow> 'ip option"
  st_start_query :: "'ip \<Rightarrow> char list \<Rightarrow> 's \<Rightarrow> 's \<times> 'q option"
  st_query_result :: "'q \<Rightarrow> 's \<Rightarrow> 's \<times> 'ip QueryResult"
  st_remove_query :: "'q \<Rightarrow> 's \<Rightarrow> 's"
  st_connect :: "'ip \<Rightarrow> nat \<Rightarrow> nat \<Rightarrow> 's \<Rightarrow> 's option"
  st_may_send :: "'s \<Rightarrow> bool"
  st_send :: "char list \<Rightarrow> 's \<Rightarrow> 's option"
  st_can_recv :: "'s \<Rightarrow> bool"
  st_recv :: "'s \<Rightarrow> ('s \<times> byte list) option"
  st_may_recv :: "'s \<Rightarrow> bool"

datatype 'a outcome = Panic | Err string | Ok 'a

definition net_now :: "('s, 'ip, 'q) stack_ops \<Rightarrow> 's \<Rightarrow> int option" where
  "net_now S s = uptime_millis (of_nat (st_ticks S s))"

text \<open>\<open>with_now\<close> is a use of the clock, which panics when \<open>uptime_millis\<close> overflows.\<close>

definition with_now :: "('s, 'ip, 'q) stack_ops \<Rightarrow> 's \<Rightarrow> (int \<Rightarrow> ('a outcome \<times> 's) option) \<Rightarrow> ('a outcome \<times> 's) option" where
  "with_now S s f = (case net_now S s of None \<Rightarrow> Some (Panic, s) | Some t \<Rightarrow> f t)"

text \<open>The address list has room for one entry after it was cleared, so the \<open>unwrap\<close> cannot fail.\<close>

definition dhcp_configure :: "('s, 'ip, 'q) stack_ops \<Rightarrow> 'ip DhcpConfig \<Rightarrow> 's \<Rightarrow> 'ip option outcome \<times> 's" where
  "dhcp_configure S config s =
     (let s = st_set_address S (dc_address config) s;
          dns_server = (case dc_dns_servers config of [] \<Rightarrow> None | server # _ \<Rightarrow> Some server) in
      case dc_router config of None \<Rightarrow> (Ok dns_server, s)
      | Some router \<Rightarrow> (case st_add_route S router s of None \<Rightarrow> (Err ''DHCP route could not be set'', s) | Some s \<Rightarrow> (Ok dns_server, s)))"

partial_function (option) dhcp_loop :: "('s, 'ip, 'q) stack_ops \<Rightarrow> int \<Rightarrow> 's \<Rightarrow> ('ip option outcome \<times> 's) option" where
  "dhcp_loop S deadline s =
     (case net_now S s of None \<Rightarrow> Some (Panic, s)
      | Some t \<Rightarrow>
          (case st_dhcp_poll S (st_poll S t s) of
             (s, Some config) \<Rightarrow> Some (dhcp_configure S config s)
           | (s, None) \<Rightarrow>
               (case net_now S s of None \<Rightarrow> Some (Panic, s)
                | Some t \<Rightarrow> if t \<ge> deadline then Some (Err ''DHCP timed out'', s) else dhcp_loop S deadline (st_hlt S s))))"

partial_function (option) dns_loop :: "('s, 'ip, 'q) stack_ops \<Rightarrow> 'q \<Rightarrow> int \<Rightarrow> 's \<Rightarrow> ('ip outcome \<times> 's) option" where
  "dns_loop S query deadline s =
     (case net_now S s of None \<Rightarrow> Some (Panic, s)
      | Some t \<Rightarrow>
          (case st_query_result S query (st_poll S t s) of
             (s, QueryOk []) \<Rightarrow> Some (Err ''DNS returned no address'', s)
           | (s, QueryOk (address # _)) \<Rightarrow> Some (Ok address, st_remove_query S query s)
           | (s, QueryFailed) \<Rightarrow> Some (Err ''DNS lookup failed'', s)
           | (s, QueryPending) \<Rightarrow>
               (case net_now S s of None \<Rightarrow> Some (Panic, s)
                | Some t \<Rightarrow> if t \<ge> deadline then Some (Err ''DNS lookup timed out'', s) else dns_loop S query deadline (st_hlt S s))))"

definition resolve :: "('s, 'ip, 'q) stack_ops \<Rightarrow> char list \<Rightarrow> 'ip option \<Rightarrow> 's \<Rightarrow> ('ip outcome \<times> 's) option" where
  "resolve S host dns_server s =
     (case st_parse_ip S host of Some address \<Rightarrow> Some (Ok address, s)
      | None \<Rightarrow>
          (case dns_server of None \<Rightarrow> Some (Err ''DHCP supplied no DNS server'', s)
           | Some server \<Rightarrow>
               (case st_start_query S server host s of
                  (s, None) \<Rightarrow> Some (Err ''DNS query could not start'', s)
                | (s, Some query) \<Rightarrow> with_now S s (\<lambda>t. dns_loop S query (t + 5000) s))))"

definition local_port :: "int \<Rightarrow> nat" where
  "local_port t = 49152 + nat (t mod 65536) mod 10000"

definition http_send :: "('s, 'ip, 'q) stack_ops \<Rightarrow> Url \<Rightarrow> bool \<Rightarrow> 's \<Rightarrow> (bool \<times> 's) option" where
  "http_send S url sent s =
     (if \<not> sent \<and> st_may_send S s then map_option (\<lambda>s. (True, s)) (st_send S (http_request url) s) else Some (sent, s))"

definition http_recv :: "('s, 'ip, 'q) stack_ops \<Rightarrow> byte list \<Rightarrow> 's \<Rightarrow> byte list outcome \<times> 's" where
  "http_recv S response s =
     (if st_can_recv S s then
        case st_recv S s of None \<Rightarrow> (Err ''HTTP response could not be read'', s)
        | Some (s, bytes) \<Rightarrow> (case receive_chunk response bytes of None \<Rightarrow> (Panic, s) | Some r \<Rightarrow> (Ok r, s))
      else (Ok response, s))"

partial_function (option) http_loop :: "('s, 'ip, 'q) stack_ops \<Rightarrow> Url \<Rightarrow> int \<Rightarrow> bool \<Rightarrow> byte list \<Rightarrow> 's \<Rightarrow> (byte list outcome \<times> 's) option" where
  "http_loop S url deadline sent response s =
     (case net_now S s of None \<Rightarrow> Some (Panic, s)
      | Some t \<Rightarrow>
          (case http_send S url sent (st_poll S t s) of
             None \<Rightarrow> Some (Err ''HTTP request could not be sent'', st_poll S t s)
           | Some (sent, s) \<Rightarrow>
               (case http_recv S response s of
                  (Panic, s) \<Rightarrow> Some (Panic, s)
                | (Err e, s) \<Rightarrow> Some (Err e, s)
                | (Ok response, s) \<Rightarrow>
                    if sent \<and> \<not> st_may_recv S s then Some (Ok response, s)
                    else if length response = 16384 then Some (Ok response, s)
                    else (case net_now S s of None \<Rightarrow> Some (Panic, s)
                      | Some t \<Rightarrow> if t \<ge> deadline then Some (Err ''HTTP request timed out'', s)
                          else http_loop S url deadline sent response (st_hlt S s)))))"

definition http_get :: "('s, 'ip, 'q) stack_ops \<Rightarrow> Url \<Rightarrow> 'ip \<Rightarrow> 's \<Rightarrow> (byte list outcome \<times> 's) option" where
  "http_get S url remote s = with_now S s (\<lambda>t.
     case st_connect S remote (url_port url) (local_port t) s of
       None \<Rightarrow> Some (Err ''TCP connection could not start'', s)
     | Some s \<Rightarrow> with_now S s (\<lambda>t. http_loop S url (t + 10000) False [] s))"

definition and_then :: "('a outcome \<times> 's) option \<Rightarrow> ('a \<Rightarrow> 's \<Rightarrow> ('b outcome \<times> 's) option) \<Rightarrow> ('b outcome \<times> 's) option" where
  "and_then m f = do { (r, s) \<leftarrow> m; case r of Panic \<Rightarrow> Some (Panic, s) | Err e \<Rightarrow> Some (Err e, s) | Ok x \<Rightarrow> f x s }"

definition fetch :: "('s, 'ip, 'q) stack_ops \<Rightarrow> (u8 list \<times> bool) option \<Rightarrow> Url \<Rightarrow> 's \<Rightarrow> (byte list outcome \<times> 's) option" where
  "fetch S device url s =
     (case device of None \<Rightarrow> Some (Err ''no initialized Ethernet controller'', s)
      | Some (mac, up) \<Rightarrow>
          if \<not> up then Some (Err ''Ethernet link is down'', s)
          else with_now S s (\<lambda>seed. with_now S s (\<lambda>t.
            let s = st_new S mac (of_int seed) t s in
            and_then (with_now S s (\<lambda>t. dhcp_loop S (t + 5000) s)) (\<lambda>dns_server s.
              and_then (resolve S (url_host url) dns_server s) (http_get S url)))))"

section \<open>What the loops rely on\<close>

definition forward :: "('s \<Rightarrow> nat) \<Rightarrow> ('s \<Rightarrow> nat) \<Rightarrow> 's \<Rightarrow> 's \<Rightarrow> bool" where
  "forward ticks others s s' \<longleftrightarrow> ticks s \<le> ticks s' \<and> ticks s' \<le> ticks s + 2 ^ 32 \<and> (ticks s' = ticks s \<longrightarrow> others s' \<le> others s)"

text \<open>The largest tick count at which \<open>uptime_millis\<close> does not overflow, after some 490 years.\<close>

definition LAST_TICK :: nat where "LAST_TICK = 1545989278721"

text \<open>The messages of \<open>fetch\<close>.\<close>

definition dns_errors :: "string set" where
  "dns_errors = {''DNS returned no address'', ''DNS lookup failed'', ''DNS lookup timed out'', ''DHCP supplied no DNS server'',
     ''DNS query could not start''}"

definition http_errors :: "string set" where
  "http_errors = {''HTTP request could not be sent'', ''HTTP response could not be read'', ''HTTP request timed out'',
     ''TCP connection could not start''}"

definition fetch_errors :: "string set" where
  "fetch_errors = {''no initialized Ethernet controller'', ''Ethernet link is down'', ''DHCP route could not be set'', ''DHCP timed out''}
     \<union> dns_errors \<union> http_errors"

locale net_stack =
  fixes S :: "('s, 'ip, 'q) stack_ops"
    and others :: "'s \<Rightarrow> nat"
  assumes hlt_forward: "forward (st_ticks S) others s (st_hlt S s)"
    and hlt_waits: "st_ticks S s < st_ticks S (st_hlt S s) \<or> others (st_hlt S s) < others s"
    and new_forward: "forward (st_ticks S) others s (st_new S mac seed t s)"
    and poll_forward: "forward (st_ticks S) others s (st_poll S t s)"
    and dhcp_forward: "st_dhcp_poll S s = (s', ev) \<Longrightarrow> forward (st_ticks S) others s s'"
    and address_forward: "forward (st_ticks S) others s (st_set_address S ip s)"
    and route_forward: "st_add_route S ip s = Some s' \<Longrightarrow> forward (st_ticks S) others s s'"
    and query_forward: "st_start_query S ip host s = (s', q) \<Longrightarrow> forward (st_ticks S) others s s'"
    and result_forward: "st_query_result S query s = (s', r) \<Longrightarrow> forward (st_ticks S) others s s'"
    and remove_forward: "forward (st_ticks S) others s (st_remove_query S query s)"
    and connect_forward: "st_connect S ip port lport s = Some s' \<Longrightarrow> forward (st_ticks S) others s s'"
    and send_forward: "st_send S bytes s = Some s' \<Longrightarrow> forward (st_ticks S) others s s'"
    and recv_forward: "st_recv S s = Some (s', bytes) \<Longrightarrow> forward (st_ticks S) others s s'"
begin

definition clock_rel :: "('s \<times> 's) set" where
  "clock_rel = inv_image (less_than <*lex*> less_than) (\<lambda>s. (2 ^ 64 - st_ticks S s, others s))"

lemma wf_clock: "wf clock_rel"
  by (simp add: clock_rel_def wf_inv_image wf_lex_prod)

text \<open>States reached from \<open>s\<close> by at most \<open>n\<close> operations.\<close>

definition after :: "nat \<Rightarrow> 's \<Rightarrow> 's \<Rightarrow> bool" where
  "after n s s' \<longleftrightarrow> st_ticks S s \<le> st_ticks S s' \<and> st_ticks S s' \<le> st_ticks S s + n * 2 ^ 32
     \<and> (st_ticks S s' = st_ticks S s \<longrightarrow> others s' \<le> others s)"

lemma after_refl [simp]: "after n s s"
  by (simp add: after_def)

lemma after_Suc: "after n s s' \<Longrightarrow> forward (st_ticks S) others s' s'' \<Longrightarrow> after (Suc n) s s''"
  by (auto simp: after_def forward_def)

lemma forward_after: "forward (st_ticks S) others s s' \<Longrightarrow> after 1 s s'"
  by (auto simp: after_def forward_def)

lemma net_now_None: "st_ticks S s < 2 ^ 64 \<Longrightarrow> net_now S s = None \<Longrightarrow> LAST_TICK < st_ticks S s"
  by (simp add: net_now_def uptime_millis_exact LAST_TICK_def unat_of_nat take_bit_eq_mod split: if_splits)

lemma net_now_Some: "st_ticks S s < 2 ^ 64 \<Longrightarrow> net_now S s = Some t \<Longrightarrow> st_ticks S s \<le> LAST_TICK"
  by (simp add: net_now_def uptime_millis_exact LAST_TICK_def unat_of_nat take_bit_eq_mod split: if_splits)

text \<open>A state not long after a successful look at the clock.\<close>

definition soon :: "'s \<Rightarrow> bool" where
  "soon s \<longleftrightarrow> st_ticks S s \<le> LAST_TICK + 10 * 2 ^ 32"

lemma soon_in_range: "soon s \<Longrightarrow> st_ticks S s < 2 ^ 64"
  by (simp add: soon_def LAST_TICK_def)

lemma soon_forward: "soon s \<Longrightarrow> forward (st_ticks S) others s s' \<Longrightarrow> st_ticks S s' < 2 ^ 64"
  by (simp add: soon_def forward_def LAST_TICK_def)

lemma after_soon: "st_ticks S s \<le> LAST_TICK \<Longrightarrow> after n s s' \<Longrightarrow> n \<le> 10 \<Longrightarrow> soon s'"
proof -
  assume a: "st_ticks S s \<le> LAST_TICK" "after n s s'" "n \<le> 10"
  then have "st_ticks S s' \<le> LAST_TICK + n * 2 ^ 32" by (simp add: after_def)
  also have "\<dots> \<le> LAST_TICK + 10 * 2 ^ 32" using a(3) by simp
  finally show ?thesis by (simp add: soon_def)
qed

lemmas after_in_range = after_soon [THEN soon_in_range]

text \<open>One more round of a waiting loop.\<close>

lemma wait_round:
  assumes "after n s s'" "st_ticks S s' \<le> LAST_TICK"
  shows "(st_hlt S s', s) \<in> clock_rel" "st_ticks S (st_hlt S s') < 2 ^ 64"
proof -
  show r: "st_ticks S (st_hlt S s') < 2 ^ 64" using after_in_range [OF assms(2) forward_after [OF hlt_forward]] by simp
  show "(st_hlt S s', s) \<in> clock_rel"
    using r hlt_forward [of s'] hlt_waits [of s'] assms(1) by (auto simp: clock_rel_def after_def forward_def)
qed

definition ends :: "string set \<Rightarrow> ('a \<Rightarrow> bool) \<Rightarrow> 'a outcome \<Rightarrow> 's \<Rightarrow> bool" where
  "ends errors Q r s \<longleftrightarrow> (case r of Panic \<Rightarrow> LAST_TICK < st_ticks S s | Err e \<Rightarrow> e \<in> errors | Ok x \<Rightarrow> soon s \<and> Q x)"

lemma with_now_ends:
  assumes "st_ticks S s < 2 ^ 64" "\<And>t. st_ticks S s \<le> LAST_TICK \<Longrightarrow> \<exists>r s'. f t = Some (r, s') \<and> ends errors Q r s'"
  shows "\<exists>r s'. with_now S s f = Some (r, s') \<and> ends errors Q r s'"
  using assms net_now_None [OF assms(1)] net_now_Some [OF assms(1)]
  by (cases "net_now S s") (auto simp: with_now_def ends_def)

lemma and_then_ends:
  assumes "\<exists>r s'. m = Some (r, s') \<and> ends errors Q' r s'"
    "\<And>x s'. soon s' \<Longrightarrow> m = Some (Ok x, s') \<Longrightarrow> \<exists>r s''. f x s' = Some (r, s'') \<and> ends errors Q r s''"
  shows "\<exists>r s'. and_then m f = Some (r, s') \<and> ends errors Q r s'"
proof -
  obtain r s' where m: "m = Some (r, s')" "ends errors Q' r s'" using assms(1) by blast
  then show ?thesis using assms(2) by (cases r) (auto simp: and_then_def ends_def)
qed

lemma ends_mono: "ends A Q r s \<Longrightarrow> A \<subseteq> B \<Longrightarrow> ends B Q r s"
  by (auto simp: ends_def split: outcome.splits)

lemma dhcp_configure_ends:
  assumes "st_ticks S s \<le> LAST_TICK" "after 2 s s'"
  shows "ends {''DHCP route could not be set'', ''DHCP timed out''} (\<lambda>_. True) (fst (dhcp_configure S config s')) (snd (dhcp_configure S config s'))"
proof -
  let ?s = "st_set_address S (dc_address config) s'"
  have a: "after 3 s ?s" using after_Suc [OF assms(2) address_forward] by (simp add: numeral_3_eq_3)
  have "soon s''" if "st_add_route S ip ?s = Some s''" for ip s''
    using after_soon [OF assms(1) after_Suc [OF a route_forward [OF that]]] by simp
  then show ?thesis
    using after_soon [OF assms(1) a]
    by (auto simp: dhcp_configure_def ends_def Let_def split: option.split)
qed

lemma dhcp_loop_ends:
  "st_ticks S s < 2 ^ 64 \<Longrightarrow> \<exists>r s'. dhcp_loop S deadline s = Some (r, s')
    \<and> ends {''DHCP route could not be set'', ''DHCP timed out''} (\<lambda>_. True) r s'"
proof (induction s rule: wf_induct_rule [OF wf_clock])
  case (1 s)
  show ?case
  proof (cases "net_now S s")
    case None
    then show ?thesis using net_now_None [OF 1(2)] 1(2) by (subst dhcp_loop.simps) (simp add: ends_def)
  next
    case (Some t)
    have last: "st_ticks S s \<le> LAST_TICK" using net_now_Some [OF 1(2) Some] .
    obtain s1 ev where s1: "st_dhcp_poll S (st_poll S t s) = (s1, ev)" by fastforce
    have a: "after 2 s s1" using after_Suc [OF forward_after [OF poll_forward] dhcp_forward [OF s1]] by (simp add: numeral_2_eq_2)
    have r1: "st_ticks S s1 < 2 ^ 64" using after_in_range [OF last a] by simp
    show ?thesis
    proof (cases ev)
      case (Some config)
      then show ?thesis using \<open>net_now S s = Some t\<close> s1 dhcp_configure_ends [OF last a, of config]
        by (subst dhcp_loop.simps) (simp, metis surj_pair prod.collapse)
    next
      case None
      show ?thesis
      proof (cases "net_now S s1")
        case None
        then show ?thesis using \<open>net_now S s = Some t\<close> s1 \<open>ev = None\<close> net_now_None [OF r1] r1
          by (subst dhcp_loop.simps) (simp add: ends_def)
      next
        case (Some t1)
        note w = wait_round [OF a net_now_Some [OF r1 Some]]
        show ?thesis using \<open>net_now S s = Some t\<close> s1 \<open>ev = None\<close> Some r1 1(1) [OF w]
          by (subst dhcp_loop.simps) (auto simp: ends_def)
      qed
    qed
  qed
qed

lemma dns_loop_ends:
  "st_ticks S s < 2 ^ 64 \<Longrightarrow> \<exists>r s'. dns_loop S query deadline s = Some (r, s') \<and> ends dns_errors (\<lambda>_. True) r s'"
proof (induction s rule: wf_induct_rule [OF wf_clock])
  case (1 s)
  show ?case
  proof (cases "net_now S s")
    case None
    then show ?thesis using net_now_None [OF 1(2)] 1(2) by (subst dns_loop.simps) (simp add: ends_def)
  next
    case (Some t)
    note now = this
    have last: "st_ticks S s \<le> LAST_TICK" using net_now_Some [OF 1(2) now] .
    obtain s1 q where s1: "st_query_result S query (st_poll S t s) = (s1, q)" by fastforce
    have a: "after 2 s s1" using after_Suc [OF forward_after [OF poll_forward] result_forward [OF s1]] by (simp add: numeral_2_eq_2)
    have r1: "st_ticks S s1 < 2 ^ 64" using after_in_range [OF last a] by simp
    have r2: "soon (st_remove_query S query s1)"
      using after_soon [OF last after_Suc [OF a remove_forward]] by simp
    show ?thesis
    proof (cases q)
      case QueryPending
      note pending = this
      show ?thesis
      proof (cases "net_now S s1")
        case None
        then show ?thesis using now s1 pending net_now_None [OF r1] r1 by (subst dns_loop.simps) (simp add: ends_def)
      next
        case (Some t1)
        note w = wait_round [OF a net_now_Some [OF r1 Some]]
        show ?thesis using now s1 pending Some r1 1(1) [OF w]
          by (subst dns_loop.simps) (auto simp: ends_def dns_errors_def)
      qed
    next
      case QueryFailed
      then show ?thesis using now s1 r1 by (subst dns_loop.simps) (simp add: ends_def dns_errors_def)
    next
      case (QueryOk addresses)
      then show ?thesis using now s1 r1 r2 by (subst dns_loop.simps) (cases addresses; simp add: ends_def dns_errors_def)
    qed
  qed
qed

lemma resolve_ends:
  assumes "soon s"
  shows "\<exists>r s'. resolve S host dns_server s = Some (r, s') \<and> ends dns_errors (\<lambda>_. True) r s'"
proof -
  have "\<exists>r s''. with_now S s' (\<lambda>t. dns_loop S query (t + 5000) s') = Some (r, s'') \<and> ends dns_errors (\<lambda>_. True) r s''"
    if "st_start_query S ip host s = (s', q)" for ip s' q query
    using soon_forward [OF assms query_forward [OF that]] by (intro with_now_ends dns_loop_ends) auto
  then show ?thesis
    using assms by (auto simp: resolve_def ends_def dns_errors_def split: option.split prod.split)
qed

lemma receive_chunk_short:
  "length response \<le> 16384 \<Longrightarrow> \<exists>r. receive_chunk response bytes = Some r \<and> length r \<le> 16384"
  by (auto simp: receive_chunk_def slice_def Let_def min_def)

lemma http_recv_ok:
  assumes "length response \<le> 16384"
  shows "(\<exists>r s'. http_recv S response s = (Ok r, s') \<and> length r \<le> 16384 \<and> after 1 s s')
    \<or> http_recv S response s = (Err ''HTTP response could not be read'', s)"
proof (cases "st_can_recv S s")
  case True
  show ?thesis
  proof (cases "st_recv S s")
    case None
    then show ?thesis using True by (simp add: http_recv_def)
  next
    case (Some p)
    then obtain s' bytes where p: "st_recv S s = Some (s', bytes)" by (cases p) auto
    obtain r where "receive_chunk response bytes = Some r" "length r \<le> 16384" using receive_chunk_short [OF assms] by blast
    then show ?thesis using True p forward_after [OF recv_forward [OF p]] by (simp add: http_recv_def)
  qed
qed (use assms in \<open>simp add: http_recv_def\<close>)

lemma http_send_after: "http_send S url sent s = Some (sent', s') \<Longrightarrow> after 1 s s'"
  using forward_after [OF send_forward] by (auto simp: http_send_def split: if_splits)

lemma after_trans: "after m s s' \<Longrightarrow> after n s' s'' \<Longrightarrow> after (m + n) s s''"
  by (auto simp: after_def add_mult_distrib)

lemma http_loop_ends:
  "st_ticks S s < 2 ^ 64 \<Longrightarrow> length response \<le> 16384 \<Longrightarrow>
    \<exists>r s'. http_loop S url deadline sent response s = Some (r, s') \<and> ends http_errors (\<lambda>x. length x \<le> 16384) r s'"
proof (induction s arbitrary: sent response rule: wf_induct_rule [OF wf_clock])
  case (1 s)
  show ?case
  proof (cases "net_now S s")
    case None
    then show ?thesis using net_now_None [OF 1(2)] by (subst http_loop.simps) (simp add: ends_def)
  next
    case (Some t)
    note now = this
    have last: "st_ticks S s \<le> LAST_TICK" using net_now_Some [OF 1(2) now] .
    show ?thesis
    proof (cases "http_send S url sent (st_poll S t s)")
      case None
      then show ?thesis using now by (subst http_loop.simps) (simp add: ends_def http_errors_def)
    next
      case (Some p)
      then obtain sent1 s1 where snd1: "http_send S url sent (st_poll S t s) = Some (sent1, s1)" by (cases p) auto
      have a1: "after 2 s s1" using after_trans [OF forward_after [OF poll_forward] http_send_after [OF snd1]] by (simp add: numeral_2_eq_2)
      consider r s2 where "http_recv S response s1 = (Ok r, s2)" "length r \<le> 16384" "after 1 s1 s2"
        | "http_recv S response s1 = (Err ''HTTP response could not be read'', s1)"
        using http_recv_ok [OF 1(3), of s1] by blast
      then show ?thesis
      proof cases
        case 2
        then show ?thesis using now snd1 by (subst http_loop.simps) (simp add: ends_def http_errors_def)
      next
        case (1 r s2)
        have a2: "after 3 s s2" using after_trans [OF a1 1(3)] by (simp add: numeral_3_eq_3)
        have s2: "soon s2" "st_ticks S s2 < 2 ^ 64" using after_soon [OF last a2] after_in_range [OF last a2] by simp_all
        have ret: "ends http_errors (\<lambda>x. length x \<le> 16384) (Ok r) s2" using s2 1(2) by (simp add: ends_def)
        show ?thesis
        proof (cases "net_now S s2")
          case None
          then show ?thesis using now snd1 1(1) ret net_now_None [OF s2(2)]
            by (subst http_loop.simps) (simp add: ends_def)
        next
          case (Some t2)
          note w = wait_round [OF a2 net_now_Some [OF s2(2) Some]]
          note IH = "1.IH" [OF w(1,2) 1(2), of sent1]
          show ?thesis using now snd1 1(1) ret Some IH
            by (subst http_loop.simps) (auto simp: ends_def http_errors_def)
        qed
      qed
    qed
  qed
qed

lemma http_get_ends:
  assumes "soon s"
  shows "\<exists>r s'. http_get S url remote s = Some (r, s') \<and> ends http_errors (\<lambda>x. length x \<le> 16384) r s'"
proof (cases "net_now S s")
  case None
  then show ?thesis using net_now_None [OF soon_in_range [OF assms]] by (simp add: http_get_def with_now_def ends_def)
next
  case (Some t)
  show ?thesis
  proof (cases "st_connect S remote (url_port url) (local_port t) s")
    case None
    then show ?thesis using Some by (simp add: http_get_def with_now_def ends_def http_errors_def)
  next
    case (Some s1)
    have r: "st_ticks S s1 < 2 ^ 64" by (rule soon_forward [OF assms connect_forward [OF Some]])
    show ?thesis
      using http_loop_ends [OF r, of "[]"] net_now_None [OF r] \<open>net_now S s = Some t\<close> Some
      by (cases "net_now S s1") (auto simp: http_get_def with_now_def ends_def)
  qed
qed

lemma fetch_ends:
  assumes "st_ticks S s < 2 ^ 64"
  shows "\<exists>r s'. fetch S device url s = Some (r, s') \<and> ends fetch_errors (\<lambda>x. length x \<le> 16384) r s'"
proof -
  have sub: "http_errors \<subseteq> fetch_errors" "dns_errors \<subseteq> fetch_errors" "{''DHCP route could not be set'', ''DHCP timed out''} \<subseteq> fetch_errors"
    by (auto simp: fetch_errors_def)
  have get: "\<exists>r s''. http_get S url x s' = Some (r, s'') \<and> ends fetch_errors (\<lambda>x. length x \<le> 16384) r s''" if "soon s'" for x s'
    using http_get_ends [OF that, of url x] ends_mono [OF _ sub(1)] by blast
  have res: "\<exists>r s''. and_then (resolve S (url_host url) d s') (http_get S url) = Some (r, s'')
      \<and> ends fetch_errors (\<lambda>x. length x \<le> 16384) r s''" if "soon s'" for d s'
    using resolve_ends [OF that, of "url_host url" d] ends_mono [OF _ sub(2)] by (intro and_then_ends get) blast+
  have dhcp: "\<exists>r s''. with_now S s' (\<lambda>t. dhcp_loop S (t + 5000) s') = Some (r, s'') \<and> ends fetch_errors (\<lambda>_. True) r s''"
    if "st_ticks S s' < 2 ^ 64" for s'
    using dhcp_loop_ends [OF that] ends_mono [OF _ sub(3)] by (intro with_now_ends that) blast
  have run: "\<exists>r s''. and_then (with_now S s' (\<lambda>t. dhcp_loop S (t + 5000) s')) (\<lambda>d s. and_then (resolve S (url_host url) d s) (http_get S url))
      = Some (r, s'') \<and> ends fetch_errors (\<lambda>x. length x \<le> 16384) r s''" if "st_ticks S s' < 2 ^ 64" for s'
    by (rule and_then_ends [OF dhcp [OF that] res])
  have new: "st_ticks S (st_new S mac seed t s) < 2 ^ 64" if "st_ticks S s \<le> LAST_TICK" for mac seed t
    using after_in_range [OF that forward_after [OF new_forward]] by simp
  show ?thesis
  proof (cases "\<exists>mac. device = Some (mac, True)")
    case True
    then obtain mac where mac: "device = Some (mac, True)" by blast
    show ?thesis
      unfolding fetch_def mac option.case prod.case Let_def simp_thms if_False
      by (intro with_now_ends assms run new)
  next
    case False
    then show ?thesis by (auto simp: fetch_def ends_def fetch_errors_def split: option.split)
  qed
qed

end

text \<open>The stream of request bytes that the connection accepted, in a stack whose send buffer of 4096
  bytes is empty when the connection starts.\<close>

locale request_stream =
  fixes S :: "('s, 'ip, 'q) stack_ops"
    and wire :: "'s \<Rightarrow> char list"
  assumes keeps: "wire (st_hlt S s) = wire s" "wire (st_new S mac seed t s) = wire s" "wire (st_poll S t s) = wire s"
      "wire (st_set_address S ip s) = wire s" "wire (st_remove_query S query s) = wire s"
    and dhcp_keeps: "st_dhcp_poll S s = (s', ev) \<Longrightarrow> wire s' = wire s"
    and route_keeps: "st_add_route S ip s = Some s' \<Longrightarrow> wire s' = wire s"
    and query_keeps: "st_start_query S ip host s = (s', q) \<Longrightarrow> wire s' = wire s"
    and result_keeps: "st_query_result S query s = (s', r) \<Longrightarrow> wire s' = wire s"
    and connect_keeps: "st_connect S ip port lport s = Some s' \<Longrightarrow> wire s' = wire s"
    and recv_keeps: "st_recv S s = Some (s', bytes) \<Longrightarrow> wire s' = wire s"
    and send_appends: "st_send S bytes s = Some s' \<Longrightarrow> length bytes \<le> 4096 \<Longrightarrow> wire s' = wire s @ bytes"
begin

lemma dhcp_loop_wire:
  assumes "dhcp_loop S deadline s = Some y"
  shows "wire (snd y) = wire s"
proof (rule dhcp_loop.raw_induct [where P = "\<lambda>X d s y. X = S \<longrightarrow> wire (snd y) = wire s", THEN mp, OF _ assms refl], rule impI)
  fix f X d s y
  assume IH: "\<And>X d s y. f X d s = Some y \<Longrightarrow> X = S \<longrightarrow> wire (snd y) = wire s"
    and body: "(case net_now X s of None \<Rightarrow> Some (Panic, s) | Some t \<Rightarrow> (case st_dhcp_poll X (st_poll X t s) of
        (s, Some config) \<Rightarrow> Some (dhcp_configure X config s)
      | (s, None) \<Rightarrow> (case net_now X s of None \<Rightarrow> Some (Panic, s)
          | Some t \<Rightarrow> if t \<ge> d then Some (Err ''DHCP timed out'', s) else f X d (st_hlt X s)))) = Some y" and "X = S"
  have configure: "wire (snd (dhcp_configure S config s)) = wire s" for config s
    by (auto simp: dhcp_configure_def Let_def keeps dest: route_keeps split: option.splits)
  show "wire (snd y) = wire s"
  proof (cases "net_now S s")
    case (Some t)
    obtain s1 ev where s1: "st_dhcp_poll S (st_poll S t s) = (s1, ev)" by fastforce
    have w: "wire s1 = wire s" using dhcp_keeps [OF s1] keeps(3) by simp
    show ?thesis
      using body Some s1 w configure IH [of S d "st_hlt S s1" y] keeps(1) \<open>X = S\<close> by (auto split: option.splits if_splits)
  qed (use body \<open>X = S\<close> in auto)
qed

lemma dns_loop_wire:
  assumes "dns_loop S query deadline s = Some y"
  shows "wire (snd y) = wire s"
proof (rule dns_loop.raw_induct [where P = "\<lambda>X q d s y. X = S \<longrightarrow> wire (snd y) = wire s", THEN mp, OF _ assms refl], rule impI)
  fix f X q d s y
  assume IH: "\<And>X q d s y. f X q d s = Some y \<Longrightarrow> X = S \<longrightarrow> wire (snd y) = wire s"
    and body: "(case net_now X s of None \<Rightarrow> Some (Panic, s) | Some t \<Rightarrow> (case st_query_result X q (st_poll X t s) of
        (s, QueryOk []) \<Rightarrow> Some (Err ''DNS returned no address'', s)
      | (s, QueryOk (address # _)) \<Rightarrow> Some (Ok address, st_remove_query X q s)
      | (s, QueryFailed) \<Rightarrow> Some (Err ''DNS lookup failed'', s)
      | (s, QueryPending) \<Rightarrow> (case net_now X s of None \<Rightarrow> Some (Panic, s)
          | Some t \<Rightarrow> if t \<ge> d then Some (Err ''DNS lookup timed out'', s) else f X q d (st_hlt X s)))) = Some y" and "X = S"
  show "wire (snd y) = wire s"
  proof (cases "net_now S s")
    case (Some t)
    obtain s1 r where s1: "st_query_result S q (st_poll S t s) = (s1, r)" by fastforce
    have w: "wire s1 = wire s" using result_keeps [OF s1] keeps(3) by simp
    show ?thesis
      using body Some s1 w IH [of S q d "st_hlt S s1" y] keeps(1,5) \<open>X = S\<close>
      by (simp split: option.splits if_splits QueryResult.splits list.splits) auto
  qed (use body \<open>X = S\<close> in auto)
qed

lemma resolve_wire: "resolve S host d s = Some (r, s') \<Longrightarrow> wire s' = wire s"
  using dns_loop_wire query_keeps
  by (fastforce simp: resolve_def with_now_def split: option.splits prod.splits)

lemma http_recv_wire: "http_recv S response s = (r, s') \<Longrightarrow> wire s' = wire s"
  by (auto simp: http_recv_def split: if_splits option.splits dest: recv_keeps)

lemma http_loop_wire:
  assumes "http_loop S url deadline sent response s = Some y" "length (http_request url) \<le> 4096"
  shows "wire (snd y) = wire s \<or> \<not> sent \<and> wire (snd y) = wire s @ http_request url"
proof (rule http_loop.raw_induct [where P = "\<lambda>X u d sent response s y. X = S \<and> u = url \<longrightarrow>
    wire (snd y) = wire s \<or> \<not> sent \<and> wire (snd y) = wire s @ http_request url", THEN mp, OF _ assms(1)], rule impI)
  fix f X u d sent response s y
  assume IH: "\<And>X u d sent response s y. f X u d sent response s = Some y \<Longrightarrow> X = S \<and> u = url \<longrightarrow>
      wire (snd y) = wire s \<or> \<not> sent \<and> wire (snd y) = wire s @ http_request url"
    and body: "(case net_now X s of None \<Rightarrow> Some (Panic, s)
      | Some t \<Rightarrow>
          (case http_send X u sent (st_poll X t s) of
             None \<Rightarrow> Some (Err ''HTTP request could not be sent'', st_poll X t s)
           | Some (sent, s) \<Rightarrow>
               (case http_recv X response s of
                  (Panic, s) \<Rightarrow> Some (Panic, s)
                | (Err e, s) \<Rightarrow> Some (Err e, s)
                | (Ok response, s) \<Rightarrow>
                    if sent \<and> \<not> st_may_recv X s then Some (Ok response, s)
                    else if length response = 16384 then Some (Ok response, s)
                    else (case net_now X s of None \<Rightarrow> Some (Panic, s)
                      | Some t \<Rightarrow> if t \<ge> d then Some (Err ''HTTP request timed out'', s)
                          else f X u d sent response (st_hlt X s))))) = Some y" and "X = S \<and> u = url"
  show "wire (snd y) = wire s \<or> \<not> sent \<and> wire (snd y) = wire s @ http_request url"
  proof (cases "net_now S s")
    case (Some t)
    note now = this
    show ?thesis
    proof (cases "http_send S url sent (st_poll S t s)")
      case None
      then show ?thesis using body now keeps(3) \<open>X = S \<and> u = url\<close> by auto
    next
      case (Some p)
      then obtain sent1 s1 where s1: "http_send S url sent (st_poll S t s) = Some (sent1, s1)" by (cases p) auto
      have w1: "wire s1 = wire s \<and> sent1 = sent \<or> \<not> sent \<and> sent1 \<and> wire s1 = wire s @ http_request url"
        using s1 send_appends [OF _ assms(2)] keeps(3) by (auto simp: http_send_def split: if_splits)
      obtain r s2 where s2: "http_recv S response s1 = (r, s2)" by fastforce
      have w2: "wire (st_hlt S s2) = wire s1" "wire s2 = wire s1" using http_recv_wire [OF s2] keeps(1) by simp_all
      have "y = (r, s2) \<or> (\<exists>z. y = (z, s2)) \<or> (\<exists>response. f S url d sent1 response (st_hlt S s2) = Some y)"
        using body now s1 s2 \<open>X = S \<and> u = url\<close> by (auto split: outcome.splits option.splits if_splits)
      moreover have "wire (snd y) = wire (st_hlt S s2) \<or> \<not> sent1 \<and> wire (snd y) = wire (st_hlt S s2) @ http_request url"
        if "f S url d sent1 response (st_hlt S s2) = Some y" for response
        using IH [OF that] by simp
      ultimately have "(\<exists>z. y = (z, s2)) \<or> wire (snd y) = wire s1 \<or> \<not> sent1 \<and> wire (snd y) = wire s1 @ http_request url"
        unfolding w2(1) by blast
      then show ?thesis using w1 w2(2) by auto
    qed
  qed (use body \<open>X = S \<and> u = url\<close> in auto)
qed simp

lemma http_get_wire:
  assumes "http_get S url remote s = Some y" "length (http_request url) \<le> 4096"
  shows "wire (snd y) = wire s \<or> wire (snd y) = wire s @ http_request url"
proof (cases "net_now S s")
  case (Some t)
  show ?thesis
  proof (cases "st_connect S remote (url_port url) (local_port t) s")
    case None
    then show ?thesis using assms(1) Some by (auto simp: http_get_def with_now_def)
  next
    case (Some s1)
    then show ?thesis
      using assms(1) \<open>net_now S s = Some t\<close> connect_keeps [OF Some] http_loop_wire [OF _ assms(2), of _ False "[]" s1 y]
      by (cases "net_now S s1") (auto simp: http_get_def with_now_def)
  qed
qed (use assms(1) in \<open>auto simp: http_get_def with_now_def\<close>)

lemma and_then_Some:
  "and_then m f = Some y \<Longrightarrow> (\<exists>r s. m = Some (r, s) \<and> snd y = s) \<or> (\<exists>x s. m = Some (Ok x, s) \<and> f x s = Some y)"
proof -
  assume a: "and_then m f = Some y"
  then obtain r s where m: "m = Some (r, s)" by (auto simp: and_then_def panic_simps)
  then show ?thesis using a by (cases r) (auto simp: and_then_def)
qed

lemma fetch_wire:
  assumes "fetch S device url s = Some y" "length (http_request url) \<le> 4096"
  shows "wire (snd y) = wire s \<or> wire (snd y) = wire s @ http_request url"
proof -
  have dhcp: "wire s' = wire s0" if "with_now S s0 (\<lambda>t. dhcp_loop S (t + 5000) s0) = Some (r, s')" for r s' s0
    using that dhcp_loop_wire [of _ s0 "(r, s')"] by (auto simp: with_now_def split: option.splits)
  have run: "wire (snd y) = wire s0 \<or> wire (snd y) = wire s0 @ http_request url"
    if "and_then (with_now S s0 (\<lambda>t. dhcp_loop S (t + 5000) s0)) (\<lambda>d s. and_then (resolve S (url_host url) d s) (http_get S url)) = Some y" for s0
    using and_then_Some [OF that]
  proof (elim disjE exE conjE)
    fix d s1 assume d: "with_now S s0 (\<lambda>t. dhcp_loop S (t + 5000) s0) = Some (Ok d, s1)"
      and "and_then (resolve S (url_host url) d s1) (http_get S url) = Some y"
    from and_then_Some [OF this(2)] show ?thesis
      using dhcp [OF d] resolve_wire http_get_wire [OF _ assms(2)] by metis
  qed (use dhcp in auto)
  have new: "wire (snd y) = wire s \<or> wire (snd y) = wire s @ http_request url"
    if "and_then (with_now S (st_new S mac seed t s) (\<lambda>t'. dhcp_loop S (t' + 5000) (st_new S mac seed t s)))
      (\<lambda>d s. and_then (resolve S (url_host url) d s) (http_get S url)) = Some y" for mac seed t
    using run [OF that] keeps(2) by simp
  show ?thesis
    using assms(1) new
    by (auto simp: fetch_def with_now_def [of S s] Let_def split: option.splits if_splits)
qed

end

section \<open>A reference stack\<close>

text \<open>A stack that is configured and connected at once and delivers one response, for the witnesses: its
  state is the tick count and the request stream.\<close>

definition prompt_stack :: "(nat \<times> char list, unit, unit) stack_ops" where
  "prompt_stack = \<lparr>st_ticks = fst, st_hlt = (\<lambda>(n, w). (Suc n, w)), st_new = (\<lambda>_ _ _ s. s), st_poll = (\<lambda>_ s. s),
     st_dhcp_poll = (\<lambda>s. (s, Some \<lparr>dc_address = (), dc_router = None, dc_dns_servers = []\<rparr>)), st_set_address = (\<lambda>_ s. s),
     st_add_route = (\<lambda>_ s. Some s), st_parse_ip = (\<lambda>_. Some ()), st_start_query = (\<lambda>_ _ s. (s, Some ())),
     st_query_result = (\<lambda>_ s. (s, QueryPending)), st_remove_query = (\<lambda>_ s. s), st_connect = (\<lambda>_ _ _ s. Some s),
     st_may_send = (\<lambda>_. True), st_send = (\<lambda>bytes (n, w). Some (n, w @ bytes)), st_can_recv = (\<lambda>_. True),
     st_recv = (\<lambda>s. Some (s, ''HTTP/1.0 200 OK'')), st_may_recv = (\<lambda>_. False)\<rparr>"

interpretation prompt_stack: net_stack prompt_stack "\<lambda>_. 0"
  by unfold_locales (auto simp: prompt_stack_def forward_def)

interpretation prompt_stream: request_stream prompt_stack snd
  by unfold_locales (auto simp: prompt_stack_def)

section \<open>Properties\<close>



text \<open>The request is sent once. However often the loop runs, the connection has been given either
  nothing or exactly the request of the URL, provided it fits into the send buffer.\<close>

theorem fetch_sends_request_once:
  assumes "request_stream S wire" "length (http_request url) \<le> 4096" "fetch S device url s = Some (r, s')"
  shows "wire s' = wire s \<or> wire s' = wire s @ http_request url"
  using request_stream.fetch_wire [OF assms(1,3,2)] by simp

theorem fetch_sends_request_once_witness:
  "\<exists>r s'. fetch prompt_stack (Some ([1, 2, 3, 4, 5, 6], True)) \<lparr>url_host = ''a'', url_port = 80, url_path = ''/''\<rparr> (7, []) = Some (r, s')
    \<and> (snd s' = [] \<or> snd s' = http_request \<lparr>url_host = ''a'', url_port = 80, url_path = ''/''\<rparr>)"
proof -
  have fetch_ticks: "st_ticks prompt_stack (7, []) < 2 ^ 64" by (simp add: prompt_stack_def)
  obtain r s' where f: "fetch prompt_stack (Some ([1, 2, 3, 4, 5, 6], True)) \<lparr>url_host = ''a'', url_port = 80, url_path = ''/''\<rparr> (7, []) = Some (r, s')"
    using prompt_stack.fetch_ends [of "(7, [])"] fetch_ticks by blast
  moreover have "length (http_request \<lparr>url_host = ''a'', url_port = 80, url_path = ''/''\<rparr>) \<le> 4096" by (simp add: http_request_def)
  ultimately show ?thesis using fetch_sends_request_once [OF prompt_stream.request_stream_axioms _ f] by auto
qed


text \<open>A machine with the controller at the first address of the scan.\<close>

definition example_space :: "u32 \<Rightarrow> u32" where
  "example_space w = (if w = 0x80000000 then 0x100e8086 else if w = 0x80000010 then 0xfebc0000 else 0)"

lemma table_mmio_loop:
  assumes "physical_page mod 4096 = 0" "\<forall>i\<in>set is. physical_page + i * 4096 < 2 ^ 52" "distinct is" "\<forall>i\<in>set is. m (MMIO_START + i * 4096) = None"
  shows "\<exists>m'. mmio_loop table_mapper physical_page is m fa = Some (Inr m', fa)"
  using assms(2-4)
proof (induction "is" arbitrary: m)
  case (Cons i "is")
  have al: "containing_frame (MMIO_START + i * 4096) = MMIO_START + i * 4096"
    by (simp add: containing_frame_def MMIO_START_def)
  let ?m = "m(MMIO_START + i * 4096 \<mapsto> containing_frame (physical_page + i * 4096))"
  have "\<forall>j\<in>set is. ?m (MMIO_START + j * 4096) = None" using Cons.prems(2,3) by auto
  moreover have "\<forall>i\<in>set is. physical_page + i * 4096 < 2 ^ 52" "distinct is" using Cons.prems(1,2) by simp_all
  ultimately obtain m' where "mmio_loop table_mapper physical_page is ?m fa = Some (Inr m', fa)"
    using Cons.IH [of ?m] by blast
  then show ?case using Cons.prems(1,3) al by (simp add: phys_add_def table_mapper_def Let_def)
qed simp

lemma table_map_mmio: "\<exists>m' v. map_mmio table_mapper 0xfebc0000 0x20000 Map.empty fa = Some (Inr (m', v), fa)"
proof -
  obtain m' where "mmio_loop table_mapper 0xfebc0000 [0..<32] Map.empty fa = Some (Inr m', fa)"
    using table_mmio_loop [of "0xfebc0000" "[0..<32]" Map.empty fa] by auto
  then show ?thesis by (simp add: map_mmio_def usize_add_def Let_def del: upt_rec_numeral)
qed

lemma example_find: "find_qemu_e1000 plain_host (0, example_space) = ((0x80000000, example_space), Some \<lparr>a_bus = 0, a_device = 0, a_function = 0\<rparr>)"
proof -
  have r: "pci_read plain_host \<lparr>a_bus = 0, a_device = 0, a_function = 0\<rparr> r (sel, example_space)
      = ((config_address \<lparr>a_bus = 0, a_device = 0, a_function = 0\<rparr> r, example_space), example_space (config_address \<lparr>a_bus = 0, a_device = 0, a_function = 0\<rparr> r))" for r sel
    by (simp add: pci_read_def plain_host_def)
  have "[0..<32 :: nat] = 0 # [1..<32]" "[0..<256 :: nat] = 0 # [1..<256]" by (simp_all add: upt_conv_Cons del: upt_rec_numeral)
  then show ?thesis
    by (simp add: find_qemu_e1000_def pci_find_def r config_address_def example_space_def device_ident_def push_bit_eq_mult
        del: upt_rec_numeral)
qed

lemma example_net:
  "\<exists>s' v d. net_init plain_host table_mapper (\<lambda>_. plain_nic) (\<lambda>_ a. Some (Some a)) 0x1000
      \<lparr>n_pci = (0, example_space), n_mapper = Map.empty, n_frames = frame_allocator_init [], n_dma = DMA,
        n_hw = \<lparr>rdh = 0, rdt = 0, tdh = 0, tdt = 0\<rparr>, n_device = None\<rparr> = Some (Inr s')
    \<and> n_device s' = Some (v, d)"
proof -
  obtain m v where m: "map_mmio table_mapper 0xfebc0000 0x20000 Map.empty (frame_allocator_init []) = Some (Inr (m, v), frame_allocator_init [])"
    using table_map_mmio by blast
  obtain d dma hw where e: "e1000_new plain_nic (\<lambda>a. Some (Some a)) 0x1000 DMA \<lparr>rdh = 0, rdt = 0, tdh = 0, tdt = 0\<rparr> = Some (Inr d, dma, hw)"
    using plain_nic_new [of "\<lambda>a. a"] by blast
  have b: "memory_bar0 plain_host \<lparr>a_bus = 0, a_device = 0, a_function = 0\<rparr> (0x80000000, example_space) = ((0x80000010, example_space), Some 0xfebc0000)"
    by (simp add: memory_bar0_def pci_read_def plain_host_def config_address_def example_space_def)
  show ?thesis using m e b example_find by (simp add: net_init_def rust_assert_def Let_def)
qed


end
