(* ===== verification/Boot.thy ===== *)
theory Boot
  imports Machine_Safety Board Net
begin

text \<open>
  From power-on to the executor: \<open>kernel_main\<close> of \<^verbatim>\<open>src/src/main.rs\<close>, which calls the initialisation of the
  board, the heap, the network and the system information and hands two tasks to the executor.

  The parameters of the components are collected in a record \<open>Platform\<close>, what the machine holds at
  power-on in a record \<open>PowerOn\<close>: it includes the page tables that \<open>memory::init\<close> finds through CR3 and the
  addresses at which the linker has placed the statics. Interrupts are enabled from \<open>init\<close> on; until the
  shell task runs for the first time a scancode is dropped and a mouse byte only changes the desktop,
  so their effect before the executor starts is that of the mouse bytes \<open>po_mouse\<close> and the timer ticks
  \<open>po_ticks\<close>.
\<close>

section \<open>State\<close>

record ('g, 'h, 'm, 'a, 'p, 'n) Platform =
  pf_gdt :: "'g gdt_ops"
  pf_board :: "'h board_ops"
  pf_mapper :: "'m mapper_ops"
  pf_heap_empty :: 'a
  pf_heap_init :: "'a \<Rightarrow> nat \<Rightarrow> nat \<Rightarrow> 'a option"
  pf_pci :: "'p port_ops"
  pf_mmio :: "nat \<Rightarrow> 'n mmio_ops"
  pf_translate :: "'m \<Rightarrow> nat \<Rightarrow> nat option option"
  pf_cpuid :: "u32 \<Rightarrow> cpuid_result"

record ('g, 'h, 'm, 'p, 'n) PowerOn =
  po_cpu :: "('g, 'h) Cpu"
  po_stack :: nat
  po_memory_map :: "MemoryRegion list"
  po_page_tables :: 'm
  po_dma :: nat
  po_pci :: 'p
  po_nic :: 'n
  po_vga :: frame
  po_mouse :: "u8 list"
  po_ticks :: u64

text \<open>The futures of the two tasks.\<close>

datatype future = RunShell SystemInfo | RunRedrawWorker

record ('g, 'h, 'a, 't, 'q, 'w, 'k) Booted =
  bo_cpu :: "('g, 'h) Cpu"
  bo_heap :: "'a FixedSizeBlockAllocator"
  bo_network :: "string + (nat \<times> E1000) option"
  bo_tasks :: "u64 \<rightharpoonup> future"
  bo_machine :: "('t, 'q, 'w, 'k) Machine"

section \<open>Operations\<close>

text \<open>\<open>init_heap(..).expect(..)\<close>\<close>

definition boot_heap :: "('g, 'h, 'm, 'a, 'p, 'n) Platform \<Rightarrow> ('g, 'h, 'm, 'p, 'n) PowerOn
    \<Rightarrow> ('m \<times> 'a FixedSizeBlockAllocator \<times> BootInfoFrameAllocator) option" where
  "boot_heap pf po = do {
     (r, frames) \<leftarrow> init_heap (pf_heap_init pf) (pf_mapper pf) (po_page_tables po) (frame_allocator_init (po_memory_map po))
       (fixed_new (pf_heap_empty pf));
     (case r of Inl _ \<Rightarrow> None | Inr (mapper, heap) \<Rightarrow> Some (mapper, heap, frames))
   }"

definition boot_network :: "('g, 'h, 'm, 'a, 'p, 'n) Platform \<Rightarrow> ('g, 'h, 'm, 'p, 'n) PowerOn \<Rightarrow> 'm \<Rightarrow> BootInfoFrameAllocator
    \<Rightarrow> (string + ('p, 'm, 'n) Net) option" where
  "boot_network pf po mapper frames =
     net_init (pf_pci pf) (pf_mapper pf) (pf_mmio pf) (pf_translate pf) (po_dma po)
       \<lparr>n_pci = po_pci po, n_mapper = mapper, n_frames = frames, n_dma = DMA, n_hw = po_nic po, n_device = None\<rparr>"

text \<open>\<open>Task::new\<close> and \<open>spawn\<close> for the two futures, in this order.\<close>

definition boot_tasks :: "'t task_queue \<Rightarrow> SystemInfo \<Rightarrow> ('t, future, unit) Executor option" where
  "boot_tasks T info = do {
     let executor = executor_new T ();
     let (task_id, next_id) = task_id_new 0;
     executor \<leftarrow> spawn T (task_id, RunShell info) executor;
     let (task_id, next_id) = task_id_new next_id;
     spawn T (task_id, RunRedrawWorker) executor
   }"

text \<open>\<open>kernel_main\<close> up to \<open>executor.run()\<close>. An error of the network is only printed.\<close>

definition kernel_main :: "('g, 'h, 'm, 'a, 'p, 'n) Platform \<Rightarrow> 't task_queue \<Rightarrow> 'q queue_ops \<Rightarrow> 'w waker_ops \<Rightarrow> ('k, 'e, 'd) decoder_ops
    \<Rightarrow> ('g, 'h, 'm, 'p, 'n) PowerOn \<Rightarrow> ('g, 'h, 'a, 't, 'q, 'w, 'k) Booted option" where
  "kernel_main pf T Q W D po = do {
     cpu \<leftarrow> crab_init (pf_gdt pf) (pf_board pf) (po_stack po) (po_cpu po);
     (mapper, heap, frames) \<leftarrow> boot_heap pf po;
     network \<leftarrow> boot_network pf po mapper frames;
     info \<leftarrow> system_info_new (po_memory_map po) (pf_cpuid pf);
     executor \<leftarrow> boot_tasks T info;
     k \<leftarrow> for_each (mouse_interrupt Q W) (po_mouse po) (kernel_boot W D (po_vga po));
     Some \<lparr>bo_cpu = cpu, bo_heap = heap, bo_network = map_sum id n_device network, bo_tasks = ex_tasks executor,
       bo_machine = machine_start W k (po_ticks po) (ex_queue executor)\<rparr>
   }"

section \<open>What the shell sees\<close>

definition requested_bytes :: "'a FixedSizeBlockAllocator \<Rightarrow> nat" where
  "requested_bytes heap = unat (REQUESTED_BYTES heap)"

text \<open>The answers the shell's commands get from the clock, the heap, the PCI scan and the network; the
  pages fetched depend on the outside world.\<close>

definition kernel_env :: "'p port_ops \<Rightarrow> (nat \<Rightarrow> 'n mmio_ops) \<Rightarrow> u64 \<Rightarrow> 'a FixedSizeBlockAllocator \<Rightarrow> ('p, 'm, 'n) Net
    \<Rightarrow> (Url \<Rightarrow> string + byte list) \<Rightarrow> Env option" where
  "kernel_env P R ticks heap net fetched = do {
     seconds \<leftarrow> uptime_seconds ticks;
     Some \<lparr>env_uptime = seconds, env_requested = requested_bytes heap,
       env_i225_v = map_option (\<lambda>a. (a_bus a, a_device a, a_function a)) (snd (find_i225_v P (n_pci net))),
       env_status = snd (net_status R net), env_fetch = fetched\<rparr>
   }"

section \<open>Lemmas\<close>

lemma boot_tasks_queued:
  assumes "array_queue T titems tcap"
  shows "\<exists>ex. boot_tasks T info = Some ex \<and> ex_tasks ex = [0 \<mapsto> RunShell info, 1 \<mapsto> RunRedrawWorker]
    \<and> titems (ex_queue ex) = map of_nat [SHELL_TASK, REDRAW_TASK] \<and> tcap (ex_queue ex) = 100"
proof -
  have new: "titems (q_new T 100) = []" "tcap (q_new T 100) = 100" using array_queue.q_new_spec [OF assms, of 100] by simp_all
  obtain q1 where q1: "q_push T (q_new T 100) 0 = Some q1" "titems q1 = [0]" "tcap q1 = 100"
    using array_queue.q_push_fits [OF assms, of "q_new T 100" 0] new by auto
  obtain q2 where q2: "q_push T q1 1 = Some q2" "titems q2 = [0, 1]" "tcap q2 = 100"
    using array_queue.q_push_fits [OF assms, of q1 1] q1 by auto
  show ?thesis
    using q1(1) q2 by (simp add: boot_tasks_def executor_new_def task_id_new_def spawn_def rust_assert_def)
qed

section \<open>Properties\<close>


text \<open>For the witness: a machine whose network card has no register window.\<close>

definition bare_space :: "u32 \<Rightarrow> u32" where
  "bare_space w = (if w = 0x80000000 then 0x100e8086 else 0)"

lemma bare_find: "find_qemu_e1000 plain_host (0, bare_space) = ((0x80000000, bare_space), Some \<lparr>a_bus = 0, a_device = 0, a_function = 0\<rparr>)"
proof -
  have r: "pci_read plain_host \<lparr>a_bus = 0, a_device = 0, a_function = 0\<rparr> r (sel, bare_space)
      = ((config_address \<lparr>a_bus = 0, a_device = 0, a_function = 0\<rparr> r, bare_space), bare_space (config_address \<lparr>a_bus = 0, a_device = 0, a_function = 0\<rparr> r))" for r sel
    by (simp add: pci_read_def plain_host_def)
  have "[0..<32 :: nat] = 0 # [1..<32]" "[0..<256 :: nat] = 0 # [1..<256]" by (simp_all add: upt_conv_Cons del: upt_rec_numeral)
  then show ?thesis
    by (simp add: find_qemu_e1000_def pci_find_def r config_address_def bare_space_def device_ident_def push_bit_eq_mult
        del: upt_rec_numeral)
qed

definition example_platform :: "(Descriptor list, Chips \<times> nat, nat \<rightharpoonup> nat, region list, u32 \<times> (u32 \<Rightarrow> u32), NicRegs) Platform" where
  "example_platform = \<lparr>pf_gdt = list_table, pf_board = slow_board, pf_mapper = table_mapper, pf_heap_empty = list_new, pf_heap_init = list_init,
     pf_pci = plain_host, pf_mmio = (\<lambda>_. plain_nic), pf_translate = (\<lambda>_ a. Some (Some a)), pf_cpuid = (\<lambda>_. \<lparr>eax = 1, ebx = 0, ecx = 0, edx = 0\<rparr>)\<rparr>"

definition example_power_on :: "(Descriptor list, Chips \<times> nat, nat \<rightharpoonup> nat, u32 \<times> (u32 \<Rightarrow> u32), NicRegs) PowerOn" where
  "example_power_on = \<lparr>po_cpu = example_cpu, po_stack = 0x200000, po_memory_map = example_map, po_page_tables = Map.empty, po_dma = 0x1000,
     po_pci = (0, bare_space), po_nic = \<lparr>rdh = 0, rdt = 0, tdh = 0, tdt = 0\<rparr>, po_vga = replicate 2000 BLANK, po_mouse = [8, 1, 2, 9], po_ticks = 17\<rparr>"




end
