(* ===== verification/Test_Shell.thy ===== *)
theory Test_Shell
  imports Shell_History Shell_Args Web System_Info
begin

text \<open>
  The unit tests of \<^verbatim>\<open>src/src/shell.rs\<close>, \<^verbatim>\<open>src/src/net/web.rs\<close> and \<^verbatim>\<open>src/src/system.rs\<close>, run on the model: each is a definition
  with the statements of the test, \<open>None\<close> being a failed assertion, and is shown to return. The proofs do
  not evaluate the tests step by step; the specifications of the components imply them.
\<close>

section \<open>The line editor\<close>

definition assert_insert :: "byte \<Rightarrow> Line \<Rightarrow> Line option" where
  "assert_insert b line = do { (line, ok) \<leftarrow> line_insert line b; rust_assert ok; Some line }"

definition assert_text :: "char list \<Rightarrow> Line \<Rightarrow> unit option" where
  "assert_text s line = do { t \<leftarrow> line_as_str line; rust_assert (t = s) }"

text \<open>\<open>while line.len < MAX_INPUT { assert!(line.insert(b'x')); }\<close>\<close>

partial_function (option) fill_line :: "Line \<Rightarrow> Line option" where
  "fill_line line = (if l_len line < MAX_INPUT then do { line \<leftarrow> assert_insert (CHR ''x'') line; fill_line line }
     else Some line)"

definition editor_insertion_deletion_and_capacity :: "unit option" where
  "editor_insertion_deletion_and_capacity = do {
     line \<leftarrow> for_each assert_insert ''echo ac'' line_new;
     cursor \<leftarrow> usize_sub (l_cursor line) 1;
     (line, _) \<leftarrow> line_insert (line\<lparr>l_cursor := cursor\<rparr>) (CHR ''b'');
     assert_text ''echo abc'' line;
     line \<leftarrow> line_backspace line;
     line \<leftarrow> line_delete line;
     assert_text ''echo a'' line;
     line \<leftarrow> line_delete_word line;
     assert_text ''echo '' line;
     line \<leftarrow> line_backspace (line\<lparr>l_cursor := 0\<rparr>);
     rust_assert (l_cursor line = 0);
     line \<leftarrow> fill_line (line\<lparr>l_cursor := l_len line\<rparr>);
     (line, ok) \<leftarrow> line_insert line (CHR ''x'');
     rust_assert (\<not> ok);
     rust_assert (l_overflow line);
     (line, ok) \<leftarrow> line_insert line (CHR 0xFF);
     rust_assert (\<not> ok);
     line \<leftarrow> line_backspace line;
     rust_assert (\<not> l_overflow line)
   }"

section \<open>The history\<close>

text \<open>The body of the loop over the letters: a new line with the letter is recorded twice.\<close>

definition record_twice :: "byte \<Rightarrow> History \<Rightarrow> History option" where
  "record_twice b history = do {
     (line, _) \<leftarrow> line_insert line_new b;
     history \<leftarrow> history_record history line;
     history_record history line
   }"

definition history_eviction_duplicates_and_draft_restore :: "unit option" where
  "history_eviction_duplicates_and_draft_restore = do {
     history \<leftarrow> for_each record_twice ''abcdefghijklmnopqrstuvwxyz'' history_new;
     rust_assert (h_len history = HISTORY_SIZE);
     line \<leftarrow> history_get history 0;
     assert_text ''k'' line;
     (draft, _) \<leftarrow> line_insert line_new (CHR ''?'');
     (history, line) \<leftarrow> history_previous history draft;
     assert_text ''z'' line;
     (history, line) \<leftarrow> history_previous history draft;
     assert_text ''y'' line;
     (history, line) \<leftarrow> history_next history draft;
     assert_text ''z'' line;
     (history, line) \<leftarrow> history_next history draft;
     assert_text ''?'' line;
     rust_assert (h_browsing history = None);
     full_draft \<leftarrow> insert_each line_insert line_new (replicate (MAX_INPUT + 1) (CHR ''x''));
     rust_assert (l_overflow full_draft);
     (history, line) \<leftarrow> history_previous history full_draft;
     rust_assert (\<not> l_overflow line);
     (history, line) \<leftarrow> history_next history line_new;
     rust_assert (l_overflow line)
   }"

section \<open>The argument parser\<close>

definition assert_get :: "nat \<Rightarrow> char list \<Rightarrow> Arguments \<Rightarrow> unit option" where
  "assert_get i s args = do { t \<leftarrow> arguments_get args i; rust_assert (t = s) }"

definition unwrap_ok :: "(string + 'a) option \<Rightarrow> 'a option" where
  "unwrap_ok r = (case r of Some (Inr x) \<Rightarrow> Some x | _ \<Rightarrow> None)"

definition assert_err :: "(string + 'a) option \<Rightarrow> unit option" where
  "assert_err r = (case r of Some (Inl _) \<Rightarrow> Some () | _ \<Rightarrow> None)"

definition quoted_line :: "char list" where
  "quoted_line = '' echo '' @ [DQUOTE] @ ''two words'' @ [DQUOTE, CHR '' '', SQUOTE, SQUOTE] @ '' a'' @ [BACKSLASH]
     @ '' b '' @ [SQUOTE] @ ''x'' @ [BACKSLASH] @ ''y'' @ [SQUOTE, CHR '' '']"

definition arguments_preserve_quotes_and_reject_incomplete_input :: "unit option" where
  "arguments_preserve_quotes_and_reject_incomplete_input = do {
     args \<leftarrow> unwrap_ok (arguments_parse quoted_line);
     rust_assert (a_len args = 5);
     assert_get 1 ''two words'' args;
     assert_get 2 [] args;
     assert_get 3 ''a b'' args;
     assert_get 4 (''x'' @ [BACKSLASH] @ ''y'') args;
     assert_err (arguments_parse (''echo '' @ [SQUOTE] @ ''unfinished''));
     assert_err (arguments_parse (''echo '' @ [BACKSLASH]));
     assert_err (arguments_parse ''echo hi | cat'');
     args \<leftarrow> unwrap_ok (arguments_parse ''   '');
     rust_assert (a_len args = 0);
     args \<leftarrow> unwrap_ok (arguments_parse (''echo '' @ [SQUOTE] @ ''|'' @ [SQUOTE]));
     assert_get 1 ''|'' args;
     many \<leftarrow> from_utf8 (map (\<lambda>i. if i mod 2 = 0 then CHR ''x'' else CHR '' '') [0..<66]);
     prefix \<leftarrow> slice many 0 64;
     args \<leftarrow> unwrap_ok (arguments_parse prefix);
     rust_assert (a_len args = MAX_ARGS);
     assert_err (arguments_parse many)
   }"

section \<open>Browser and system information\<close>

definition html_response :: "byte list" where
  "html_response = ''HTTP/1.0 200 OK'' @ CRLF @ ''Content-Type: text/html'' @ CRLF @ CRLF
     @ ''<h1>Hello &amp; world</h1><script>ignore</script><p>CrabOS</p>''"

definition contains :: "char list \<Rightarrow> char list \<Rightarrow> bool" where
  "contains s pat \<longleftrightarrow> find_window pat s \<noteq> None"

definition parses_http_url_and_renders_html :: "unit option" where
  "parses_http_url_and_renders_html = do {
     url \<leftarrow> unwrap_ok (Some (url_parse ''http://example.com:8080/a''));
     rust_assert (url_host url = ''example.com'');
     rust_assert (url_port url = 8080);
     rust_assert (url_path url = ''/a'');
     assert_err (Some (url_parse ''https://example.com''));
     rendered \<leftarrow> unwrap_ok (render html_response);
     rust_assert (contains rendered ''Hello & world'');
     rust_assert (contains rendered ''CrabOS'');
     rust_assert (\<not> contains rendered ''ignore'')
   }"

definition cpu_detection_and_empty_memory_map :: "(u32 \<Rightarrow> cpuid_result) \<Rightarrow> unit option" where
  "cpu_detection_and_empty_memory_map cpuid = do {
     info \<leftarrow> system_info_new [] cpuid;
     rust_assert (cpu_name info \<noteq> []);
     rust_assert (usable_memory info = 0)
   }"

section \<open>The tests pass\<close>

lemma line_new_len: "l_len line_new = 0" "l_overflow line_new = False"
  by (simp_all add: line_new_def)

lemma line_overflow_inv:
  assumes "line_inv l" "l_len l = MAX_INPUT"
  shows "line_inv (l\<lparr>l_overflow := True\<rparr>)" "line_view (l\<lparr>l_overflow := True\<rparr>) = line_view l"
proof -
  have t: "line_text (l\<lparr>l_overflow := True\<rparr>) = line_text l" by (simp add: line_text_def)
  show "line_inv (l\<lparr>l_overflow := True\<rparr>)" by (rule line_invI) (use line_invD [OF assms(1)] assms(2) t in simp_all)
  show "line_view (l\<lparr>l_overflow := True\<rparr>) = line_view l" by (simp add: line_view_def t)
qed

lemma assert_insert_ok:
  assumes "line_inv l" "printable c" "l_len l < MAX_INPUT"
  shows "\<exists>l'. assert_insert c l = Some l' \<and> line_inv l' \<and> line_view l' = (fst (line_view l) @ [c], snd (line_view l))
    \<and> l_len l' = l_len l + 1"
proof -
  obtain l' where l': "line_insert l c = Some (l', True)" "line_inv l'" "line_view l' = (fst (line_view l) @ [c], snd (line_view l))"
    using line_insert_fits [OF assms] by blast
  then show ?thesis using line_view_length [of l'] line_view_length [OF assms(1)] by (simp add: assert_insert_def rust_assert_def)
qed

lemma assert_insert_all:
  "line_inv l \<Longrightarrow> list_all printable s \<Longrightarrow> l_len l + length s \<le> MAX_INPUT \<Longrightarrow>
    \<exists>l'. for_each assert_insert s l = Some l' \<and> line_inv l' \<and> line_view l' = (fst (line_view l) @ s, snd (line_view l))"
proof (induction s arbitrary: l)
  case (Cons c s)
  obtain l1 where l1: "assert_insert c l = Some l1" "line_inv l1" "line_view l1 = (fst (line_view l) @ [c], snd (line_view l))"
    "l_len l1 = l_len l + 1" using assert_insert_ok [of l c] Cons.prems by auto
  with Cons.IH [of l1] Cons.prems show ?case by auto
qed simp

lemma fill_line_full:
  "line_inv l \<Longrightarrow> \<exists>l'. fill_line l = Some l' \<and> line_inv l' \<and> l_len l' = MAX_INPUT \<and> length (fst (line_view l)) \<le> length (fst (line_view l'))"
proof (induction "MAX_INPUT - l_len l" arbitrary: l)
  case 0
  then show ?case using line_invD(2) [of l] by (simp add: fill_line.simps)
next
  case (Suc n)
  then have room: "l_len l < MAX_INPUT" by simp
  obtain l1 where l1: "assert_insert (CHR ''x'') l = Some l1" "line_inv l1" "line_view l1 = (fst (line_view l) @ ''x'', snd (line_view l))"
    "l_len l1 = l_len l + 1" using assert_insert_ok [OF Suc.prems _ room, of "CHR ''x''"] by (auto simp: is_ascii_graphic_def)
  have "n = MAX_INPUT - l_len l1" using Suc.hyps(2) l1(4) by simp
  from Suc.hyps(1) [OF this l1(2)] obtain l' where l': "fill_line l1 = Some l'" "line_inv l'" "l_len l' = MAX_INPUT"
    "length (fst (line_view l1)) \<le> length (fst (line_view l'))" by blast
  have "fill_line l = Some l'" by (subst fill_line.simps) (simp add: room l1(1) l'(1))
  with l' l1(3) show ?case by auto
qed

lemma assert_text_ok: "line_inv l \<Longrightarrow> fst (line_view l) @ snd (line_view l) = s \<Longrightarrow> assert_text s l = Some ()"
  by (simp add: assert_text_def line_as_str_text line_view_append rust_assert_def)

lemma line_view_cursor: "line_inv l \<Longrightarrow> l_cursor l = length (fst (line_view l))"
  using line_invD [of l] by (simp add: line_view_def)

lemma editor_test_passes: "editor_insertion_deletion_and_capacity = Some ()"
proof -
  obtain l1 where l1: "for_each assert_insert ''echo ac'' line_new = Some l1" "line_inv l1" "line_view l1 = (''echo ac'', [])"
    using assert_insert_all [of line_new "''echo ac''"] by (auto simp: is_ascii_graphic_def line_new_len MAX_INPUT_def)
  have c1: "usize_sub (l_cursor l1) 1 = Some (l_cursor l1 - 1)" using line_view_cursor [OF l1(2)] l1(3) by (simp add: usize_sub_def)
  have v1: "line_inv (line_left l1)" "line_view (line_left l1) = (''echo a'', ''c'')"
    using line_moves_inv [OF l1(2)] line_moves_view [OF l1(2)] l1(3) by simp_all
  obtain l2 where l2: "line_insert (line_left l1) (CHR ''b'') = Some (l2, True)" "line_inv l2" "line_view l2 = (''echo ab'', ''c'')"
    using line_insert_fits [OF v1(1), of "CHR ''b''"] v1(2) line_view_length [OF v1(1)] by (auto simp: is_ascii_graphic_def MAX_INPUT_def)
  obtain l3 where l3: "line_backspace l2 = Some l3" "line_inv l3" "line_view l3 = (''echo a'', ''c'')"
    using line_backspace_spec [OF l2(2)] l2(3) by auto
  obtain l4 where l4: "line_delete l3 = Some l4" "line_inv l4" "line_view l4 = (''echo a'', [])"
    using line_delete_spec [OF l3(2)] l3(3) by auto
  obtain l5 where l5: "line_delete_word l4 = Some l5" "line_inv l5" "line_view l5 = (''echo '', [])"
    using line_delete_word_spec [OF l4(2)] l4(3) by (auto simp: erase_last_word_def)
  have v5: "line_inv (line_home l5)" "line_view (line_home l5) = ([], ''echo '')"
    using line_moves_inv [OF l5(2)] line_moves_view [OF l5(2)] l5(3) by simp_all
  obtain l6 where l6: "line_backspace (line_home l5) = Some l6" "line_inv l6" "line_view l6 = ([], ''echo '')"
    using line_backspace_spec [OF v5(1)] v5(2) by auto
  have v6: "line_inv (line_end l6)" "line_view (line_end l6) = (''echo '', [])"
    using line_moves_inv [OF l6(2)] line_moves_view [OF l6(2)] l6(3) by simp_all
  obtain l7 where l7: "fill_line (line_end l6) = Some l7" "line_inv l7" "l_len l7 = MAX_INPUT" "5 \<le> length (fst (line_view l7))"
    using fill_line_full [OF v6(1)] v6(2) by auto
  let ?l8 = "l7\<lparr>l_overflow := True\<rparr>"
  have i8: "line_insert l7 (CHR ''x'') = Some (?l8, False)" "line_insert ?l8 (CHR 0xFF) = Some (?l8, False)"
    using line_insert_full [OF l7(2) _ l7(3), of "CHR ''x''"] by (auto simp: is_ascii_graphic_def line_insert_rejects)
  have v8: "line_inv ?l8" "line_view ?l8 = line_view l7" using line_overflow_inv [OF l7(2,3)] by simp_all
  obtain l9 where l9: "line_backspace ?l8 = Some l9" "line_inv l9" "line_view l9 = (butlast (fst (line_view l7)), snd (line_view l7))"
    using line_backspace_spec [OF v8(1)] v8(2) by auto
  have "l_len l9 < MAX_INPUT"
    using line_view_length [OF l9(2)] line_view_length [OF l7(2)] l9(3) l7(3,4) by (simp del: length_0_conv)
  then have "\<not> l_overflow l9" using l9(2) by (auto simp: line_inv_def)
  moreover have "assert_text ''echo abc'' l2 = Some ()" "assert_text ''echo a'' l4 = Some ()" "assert_text ''echo '' l5 = Some ()"
    using l2 l4 l5 by (simp_all add: assert_text_ok)
  moreover have "l_cursor l6 = 0" using line_view_cursor [OF l6(2)] l6(3) by simp
  ultimately show ?thesis
    using l1(1) c1 l2(1) l3(1) l4(1) l5(1) l6(1) l7(1) i8 l9(1)
    by (simp add: editor_insertion_deletion_and_capacity_def line_left_def line_home_def line_end_def rust_assert_def)
qed

text \<open>The line with one letter.\<close>

definition letter :: "byte \<Rightarrow> Line" where
  "letter c = line_new\<lparr>l_bytes := (l_bytes line_new)[0 := c], l_cursor := 1, l_len := 1\<rparr>"

lemma letter_insert: "printable c \<Longrightarrow> line_insert line_new c = Some (letter c, True)"
proof -
  have "replicate 256 (CHR 0x00) = CHR 0x00 # replicate 255 (CHR 0x00)" by (simp flip: replicate_Suc)
  then show "printable c \<Longrightarrow> ?thesis"
    by (simp add: line_insert_def letter_def line_new_def MAX_INPUT_def copy_within_def arr_set_def)
qed

lemma letter_text [simp]: "line_text (letter c) = [c]" "l_overflow (letter c) = False"
  by (simp_all add: letter_def line_text_def line_new_def MAX_INPUT_def numeral_eq_Suc)

lemma letter_inv: "printable c \<Longrightarrow> line_inv (letter c)"
  by (rule line_invI) (simp_all, simp_all add: letter_def line_new_def MAX_INPUT_def)

lemma letter_assert:
  "printable c \<Longrightarrow> assert_text [c] (letter c) = Some ()" "printable c \<Longrightarrow> assert_text [c] (line_end (letter c)) = Some ()"
  by (simp_all add: assert_text_def line_as_str_text letter_inv line_moves_inv line_moves_text rust_assert_def)

text \<open>Recording every letter twice keeps each once, and the newest sixteen.\<close>

lemma record_twice_letter:
  assumes "history_inv h" "is_ascii_graphic c" "history_entries h = [] \<or> line_text (last (history_entries h)) \<noteq> [c]"
  shows "\<exists>h'. record_twice c h = Some h' \<and> history_inv h' \<and> h_browsing h' = None
    \<and> history_entries h' = keep_last HISTORY_SIZE (history_entries h @ [letter c])"
proof -
  have c: "printable c" "c \<noteq> CHR '' ''" using assms(2) by (auto simp: is_ascii_graphic_def)
  obtain h1 where h1: "history_record h (letter c) = Some h1" "history_inv h1"
    "history_entries h1 = record_entries (history_entries h) (letter c)"
    using history_record_spec [OF assms(1) letter_inv [OF c(1)]] by blast
  then have e1: "history_entries h1 = keep_last HISTORY_SIZE (history_entries h @ [letter c])"
    using assms(3) c(2) by (auto simp: record_entries_def blank_def repeats_last_def)
  obtain h2 where h2: "history_record h1 (letter c) = Some h2" "history_inv h2" "h_browsing h2 = None"
    "history_entries h2 = record_entries (history_entries h1) (letter c)"
    using history_record_spec [OF h1(2) letter_inv [OF c(1)]] by blast
  moreover have "history_entries h2 = history_entries h1"
    using h2(4) e1 by (simp add: record_entries_def repeats_last_def keep_last_def HISTORY_SIZE_def)
  ultimately show ?thesis using h1(1) e1 letter_insert [OF c(1)] by (simp add: record_twice_def)
qed

lemma record_letters:
  "history_inv h \<Longrightarrow> h_browsing h = None \<Longrightarrow> list_all is_ascii_graphic cs \<Longrightarrow> distinct (ds @ cs) \<Longrightarrow>
    history_entries h = keep_last HISTORY_SIZE (map letter ds) \<Longrightarrow>
    \<exists>h'. for_each record_twice cs h = Some h' \<and> history_inv h' \<and> h_browsing h' = None
      \<and> history_entries h' = keep_last HISTORY_SIZE (map letter (ds @ cs))"
proof (induction cs arbitrary: h ds)
  case (Cons c cs)
  have "ds = [] \<or> last (history_entries h) = letter (last ds) \<and> last ds \<noteq> c"
    using Cons.prems(4,5) by (auto simp: keep_last_def HISTORY_SIZE_def last_map)
  then obtain h1 where h1: "record_twice c h = Some h1" "history_inv h1" "h_browsing h1 = None"
    "history_entries h1 = keep_last HISTORY_SIZE (history_entries h @ [letter c])"
    using record_twice_letter [OF Cons.prems(1), of c] Cons.prems(3,5) by (auto simp: keep_last_def)
  with Cons.IH [of h1 "ds @ [c]"] Cons.prems(3,4,5) show ?case by (simp add: keep_last_absorb)
qed simp

lemma overfull_draft:
  "\<exists>l. insert_each line_insert line_new (replicate (MAX_INPUT + 1) (CHR ''x'')) = Some l \<and> line_inv l \<and> l_overflow l"
proof -
  have x: "printable (CHR ''x'')" by (simp add: is_ascii_graphic_def)
  obtain l1 where l1: "insert_each line_insert line_new (replicate MAX_INPUT (CHR ''x'')) = Some l1" "line_inv l1"
    "line_view l1 = (replicate MAX_INPUT (CHR ''x''), [])"
    using led.insert_each_fits [of line_new "replicate MAX_INPUT (CHR ''x'')"] x by (auto simp: list_all_iff)
  have "insert_each line_insert l (xs @ [c]) = do { l' \<leftarrow> insert_each line_insert l xs; (l'', ok) \<leftarrow> line_insert l' c; Some l'' }" for l xs c
    by (induction xs arbitrary: l) (auto split: bind_split)
  moreover have "line_insert l1 (CHR ''x'') = Some (l1\<lparr>l_overflow := True\<rparr>, False)"
    using line_insert_full [OF l1(2) x] line_view_length [OF l1(2)] l1(3) by simp
  ultimately have "insert_each line_insert line_new (replicate (MAX_INPUT + 1) (CHR ''x'')) = Some (l1\<lparr>l_overflow := True\<rparr>)"
    using l1(1) by (simp add: replicate_append_same [symmetric])
  moreover have "line_inv (l1\<lparr>l_overflow := True\<rparr>)"
    using line_overflow_inv(1) [OF l1(2)] line_view_length [OF l1(2)] l1(3) by simp
  ultimately show ?thesis by simp
qed

lemma history_test_passes: "history_eviction_duplicates_and_draft_restore = Some ()"
proof -
  let ?abc = "''abcdefghijklmnopqrstuvwxyz''" and ?es = "map letter ''klmnopqrstuvwxyz''"
  have "list_all is_ascii_graphic ?abc" "distinct ?abc" by (simp_all add: is_ascii_graphic_def)
  then obtain h where h: "for_each record_twice ?abc history_new = Some h" "history_inv h" "h_browsing h = None"
    "history_entries h = ?es"
    using record_letters [of history_new ?abc "[]"]
    by (auto simp: keep_last_def HISTORY_SIZE_def history_new_def [THEN arg_cong [where f = h_browsing]])
  have len: "h_len h = 16" using length_history_entries [of h] h(4) by simp
  have p: "printable (CHR ''k'')" "printable (CHR ''y'')" "printable (CHR ''z'')" "printable (CHR ''?'')"
    by (simp_all add: is_ascii_graphic_def)
  have get: "history_get h 0 = Some (letter (CHR ''k''))" using history_get_entries [OF h(2), of 0] len h(4) by simp
  obtain h1 where h1: "history_previous h (letter (CHR ''?'')) = Some (h1, line_end (letter (CHR ''z'')))" "history_inv h1"
    "history_entries h1 = ?es" "h_browsing h1 = Some 15" "h_draft h1 = letter (CHR ''?'')"
    using history_previous_start [OF h(2) letter_inv [OF p(4)] _ h(3)] h(4) len by auto
  obtain h2 where h2: "history_previous h1 (letter (CHR ''?'')) = Some (h2, line_end (letter (CHR ''y'')))" "history_inv h2"
    "history_entries h2 = ?es" "h_browsing h2 = Some 14" "h_draft h2 = letter (CHR ''?'')"
    using history_previous_more [OF h1(2,4)] h1(3,5) by (auto simp: numeral_eq_Suc)
  have len2: "h_len h2 = 16" using length_history_entries [of h2] h2(3) by simp
  obtain h3 where h3: "history_next h2 (letter (CHR ''?'')) = Some (h3, line_end (letter (CHR ''z'')))" "history_inv h3"
    "history_entries h3 = ?es" "h_browsing h3 = Some 15" "h_draft h3 = letter (CHR ''?'')"
    using history_next_more [OF h2(2,4)] h2(3,5) len2 by (auto simp: numeral_eq_Suc)
  have len3: "h_len h3 = 16" using length_history_entries [of h3] h3(3) by simp
  obtain h4 where h4: "history_next h3 (letter (CHR ''?'')) = Some (h4, letter (CHR ''?''))" "history_inv h4"
    "history_entries h4 = ?es" "h_browsing h4 = None"
    using history_next_end [OF h3(2,4)] h3(3,5) len3 by auto
  obtain f where f: "insert_each line_insert line_new (replicate (MAX_INPUT + 1) (CHR ''x'')) = Some f" "line_inv f" "l_overflow f"
    using overfull_draft by blast
  have len4: "h_len h4 = 16" using length_history_entries [of h4] h4(3) by simp
  obtain h5 where h5: "history_previous h4 f = Some (h5, line_end (letter (CHR ''z'')))" "history_inv h5"
    "history_entries h5 = ?es" "h_browsing h5 = Some 15" "h_draft h5 = f"
    using history_previous_start [OF h4(2) f(2) _ h4(4)] h4(3) len4 by auto
  have len5: "h_len h5 = 16" using length_history_entries [of h5] h5(3) by simp
  obtain h6 where h6: "history_next h5 line_new = Some (h6, f)"
    using history_next_end [OF h5(2,4)] h5(5) len5 by auto
  show ?thesis
    unfolding history_eviction_duplicates_and_draft_restore_def
    using h(1) len get h1(1) h2(1) h3(1) h4(1,4) f(1,3) h5(1) h6 letter_assert [OF p(1)] letter_assert [OF p(2)]
      letter_assert [OF p(3)] letter_assert [OF p(4)] letter_insert [OF p(4)]
    by (simp add: rust_assert_def HISTORY_SIZE_def line_end_def)
qed

text \<open>The parser against the tokeniser.\<close>

lemma parse_ok:
  assumes "tokens s = Inr ts"
  obtains a where "arguments_parse s = Some (Inr a)" "a_len a = length ts" "\<And>i. i < length ts \<Longrightarrow> assert_get i (ts ! i) a = Some ()"
  using arguments_parse_tokens [of s] assms by (auto simp: holds_args_def assert_get_def rust_assert_def)

lemma parse_err: "tokens s = Inl e \<Longrightarrow> assert_err (arguments_parse s) = Some ()"
  using arguments_parse_tokens [of s] by (simp add: assert_err_def)

lemma quoted_tokens:
  "tokens quoted_line = Inr [''echo'', ''two words'', [], ''a b'', ''x'' @ [BACKSLASH] @ ''y'']"
  "tokens (''echo '' @ [SQUOTE] @ ''unfinished'') = Inl err_quote"
  "tokens (''echo '' @ [BACKSLASH]) = Inl err_escape"
  "tokens ''echo hi | cat'' = Inl err_operator"
  "tokens ''   '' = Inr []"
  "tokens (''echo '' @ [SQUOTE] @ ''|'' @ [SQUOTE]) = Inr [''echo'', ''|'']"
  by code_simp+

definition many :: "char list" where
  "many = map (\<lambda>i. if i mod 2 = 0 then CHR ''x'' else CHR '' '') [0..<66]"

lemma many_tokens: "tokens (take 64 many) = Inr (replicate 32 ''x'')" "tokens many = Inl err_args" "length many = 66" "list_all is_ascii many"
  by code_simp+

lemma arguments_test_passes: "arguments_preserve_quotes_and_reject_incomplete_input = Some ()"
proof -
  obtain a where a: "arguments_parse quoted_line = Some (Inr a)" "a_len a = 5"
    "assert_get 1 ''two words'' a = Some ()" "assert_get 2 [] a = Some ()" "assert_get 3 ''a b'' a = Some ()"
    "assert_get 4 (''x'' @ [BACKSLASH] @ ''y'') a = Some ()"
  proof (rule parse_ok [OF quoted_tokens(1)])
    fix a
    let ?ts = "[''echo'', ''two words'', [], ''a b'', ''x'' @ [BACKSLASH] @ ''y'']"
    assume p: "arguments_parse quoted_line = Some (Inr a)" "a_len a = length ?ts"
      "\<And>i. i < length ?ts \<Longrightarrow> assert_get i (?ts ! i) a = Some ()"
    show thesis using that [of a] p(1,2) p(3) [of 1] p(3) [of 2] p(3) [of 3] p(3) [of 4] by simp
  qed
  obtain b where b: "arguments_parse ''   '' = Some (Inr b)" "a_len b = 0" using parse_ok [OF quoted_tokens(5)] by auto
  obtain c where c: "arguments_parse (''echo '' @ [SQUOTE] @ ''|'' @ [SQUOTE]) = Some (Inr c)" "assert_get 1 ''|'' c = Some ()"
    using parse_ok [OF quoted_tokens(6)] by (metis One_nat_def length_Cons lessI list.size(3) nth_Cons_0 nth_Cons_Suc)
  obtain d where d: "arguments_parse (take 64 many) = Some (Inr d)" "a_len d = 32" using parse_ok [OF many_tokens(1)] by auto
  have "from_utf8 many = Some many" using many_tokens(4) by (intro from_utf8_ascii) (simp add: list_all_iff)
  moreover have "slice many 0 64 = Some (take 64 many)" by (simp add: slice_def many_tokens(3))
  moreover note parse_err [OF quoted_tokens(2)] parse_err [OF quoted_tokens(3)] parse_err [OF quoted_tokens(4)] parse_err [OF many_tokens(2)]
  ultimately show ?thesis
    unfolding arguments_preserve_quotes_and_reject_incomplete_input_def many_def [symmetric]
    using a b c d by (simp add: unwrap_ok_def rust_assert_def MAX_ARGS_def)
qed

lemma test_urls:
  "url_parse ''http://example.com:8080/a'' = Inr \<lparr>url_host = ''example.com'', url_port = 8080, url_path = ''/a''\<rparr>"
  "url_parse ''https://example.com'' = Inl err_scheme"
  by (simp_all add: url_parse_def strip_prefix_def rsplit_once_def parse_u16_def host_byte_def path_byte_def ascii_simps)

lemma test_page:
  "render html_response = Some (Inr (''HTTP/1.0 200 OK'' @ [CHR 0x0A] @ ''Hello & world'' @ [CHR 0x0A] @ ''CrabOS'' @ [CHR 0x0A]))"
  by code_simp

lemma web_test_passes: "parses_http_url_and_renders_html = Some ()"
proof -
  let ?page = "''HTTP/1.0 200 OK'' @ [CHR 0x0A] @ ''Hello & world'' @ [CHR 0x0A] @ ''CrabOS'' @ [CHR 0x0A]"
  have "contains ?page ''Hello & world''" "contains ?page ''CrabOS''" "\<not> contains ?page ''ignore''"
    by (simp_all add: contains_def)
  then show ?thesis
    by (simp add: parses_http_url_and_renders_html_def test_urls test_page unwrap_ok_def assert_err_def rust_assert_def)
qed

lemma system_test_passes: "cpu_detection_and_empty_memory_map cpuid = Some ()"
  using system_info_total [of "[]" cpuid] by (auto simp: cpu_detection_and_empty_memory_map_def rust_assert_def)

end
