(* ===== verification/Test_Vga.thy ===== *)
theory Test_Vga
  imports Run_Shell_Safety
begin

text \<open>
  The unit tests of \<^verbatim>\<open>src/src/vga_buffer.rs\<close> and \<^verbatim>\<open>src/src/interrupts.rs\<close> on the model, with the exception handler that
  the latter exercises. A test is a function of the console state, \<open>None\<close> being a failed assertion. All of
  them are shown to return, from any state in which no window is open and the first terminal has its
  full width, to such a state, so their order does not matter; the proofs rest on the refinement of
  the terminal to an unbounded grid and on what the compositor shows.
\<close>

section \<open>Exceptions\<close>

text \<open>The handlers print; the texts of the stack frame, the address and the error code are parameters.
  The double-fault handler panics with its text, the page-fault handler halts.\<close>

definition breakpoint_handler :: "char list \<Rightarrow> System \<Rightarrow> System option" where
  "breakpoint_handler stack_frame s = console (println (''EXCEPTION: BREAKPOINT'' @ [CHR 0x0A] @ stack_frame)) s"

definition page_fault_handler :: "char list \<Rightarrow> char list \<Rightarrow> char list \<Rightarrow> System \<Rightarrow> System option" where
  "page_fault_handler address error_code stack_frame s = do {
     s \<leftarrow> console (println ''EXCEPTION: PAGE FAULT'') s;
     s \<leftarrow> console (println (''Accessed adress: '' @ address)) s;
     s \<leftarrow> console (println (''Error Code: '' @ error_code)) s;
     console (println stack_frame) s
   }"

definition double_fault_message :: "char list \<Rightarrow> char list" where
  "double_fault_message stack_frame = ''EXCEPTION: DOUBLE FAULT'' @ [CHR 0x0A] @ stack_frame"

section \<open>Tests\<close>

definition test_breakpoint_exception :: "char list \<Rightarrow> System \<Rightarrow> System option" where
  "test_breakpoint_exception stack_frame s = breakpoint_handler stack_frame s"

text \<open>\<open>writer.lines[line % SCROLLBACK_LINES][column].ascii_character\<close> is the character \<open>c\<close>.\<close>

definition assert_cell :: "nat \<Rightarrow> nat \<Rightarrow> byte \<Rightarrow> Writer \<Rightarrow> unit option" where
  "assert_cell line column c w = do {
     row \<leftarrow> arr_get (w_lines w) (line mod SCROLLBACK_LINES);
     cell \<leftarrow> arr_get row column;
     rust_assert (ascii_character cell = c)
   }"

definition output_wraps_and_scrolls :: "Writer \<Rightarrow> (Writer \<times> unit) option" where
  "output_wraps_and_scrolls writer = do {
     let w = writer_clear writer;
     w \<leftarrow> for_each (\<lambda>_ w. write_byte w (CHR ''x'')) [0..<BUFFER_WIDTH] w;
     w \<leftarrow> write_string w (str_chars (CHR 0x0A # ''y''));
     rust_assert (w_cursor w = \<lparr>p_line = 1, p_column = 1\<rparr>);
     w \<leftarrow> for_each (\<lambda>i w. write_string w (str_chars (''line '' @ show_nat i @ [CHR 0x0A]))) [0..<200] w;
     top \<leftarrow> usize_sub (w_last_line w + 1) SCROLLBACK_LINES;
     rust_assert (w_first_line w = top);
     let w = fold (\<lambda>_. scroll_up) [0..<10] w;
     rust_assert (w_view_top w = w_first_line w);
     let w = scroll_down w;
     rust_assert (w_view_top w > w_first_line w);
     w \<leftarrow> write_byte w (CHR ''z'');
     rust_assert (w_view_top w = live_top w);
     Some (w, ())
   }"

definition editing_erases_wrapped_text_and_preserves_prompt :: "Writer \<Rightarrow> (Writer \<times> unit) option" where
  "editing_erases_wrapped_text_and_preserves_prompt writer = do {
     w \<leftarrow> write_string (writer_clear writer) (str_chars ''crab> '');
     let anchor = w_cursor w;
     text \<leftarrow> from_utf8 (replicate 160 (CHR ''a''));
     w \<leftarrow> replace_input w anchor text 81 0;
     rust_assert (w_cursor w = \<lparr>p_line = 1, p_column = 7\<rparr>);
     w \<leftarrow> replace_input w anchor ''hi'' 1 160;
     assert_cell 0 0 (CHR ''c'') w;
     assert_cell 0 6 (CHR ''h'') w;
     assert_cell 0 8 (CHR '' '') w;
     assert_cell 2 5 (CHR '' '') w;
     rust_assert (w_cursor w = \<lparr>p_line = 0, p_column = 7\<rparr>);
     Some (w, ())
   }"

definition rendered_vga_matches_console :: "System \<Rightarrow> System option" where
  "rendered_vga_matches_console s = do {
     (s, opened) \<leftarrow> open_terminal s;
     index \<leftarrow> opened;
     (s, _) \<leftarrow> with_closure (\<lambda>w. do { w \<leftarrow> write_string (writer_clear w) (str_chars ''CrabOS''); Some (w, ()) }) s;
     windows \<leftarrow> layout (sys_desktop s);
     window \<leftarrow> arr_get windows index;
     (x, y, _) \<leftarrow> window;
     character \<leftarrow> arr_get (scr_vga (sys_screen s)) ((as_usize y + 2) * BUFFER_WIDTH + as_usize x + 1);
     rust_assert (ascii_character character = CHR ''C'');
     s \<leftarrow> close_terminal index s;
     set_terminal_columns index BUFFER_WIDTH s
   }"

definition editing_at_bottom_after_scrollback_ring_wrap :: "Writer \<Rightarrow> (Writer \<times> unit) option" where
  "editing_at_bottom_after_scrollback_ring_wrap writer = do {
     w \<leftarrow> for_each (\<lambda>_ w. write_string w (str_chars (''old output'' @ [CHR 0x0A]))) [0..<SCROLLBACK_LINES + BUFFER_HEIGHT] (writer_clear writer);
     w \<leftarrow> write_string w (str_chars ''crab> '');
     let anchor = w_cursor w;
     text \<leftarrow> from_utf8 (replicate 256 (CHR ''x''));
     w \<leftarrow> replace_input w anchor text 256 0;
     rust_assert (w_first_line w > 0);
     rust_assert (p_line (w_cursor w) = w_last_line w);
     w \<leftarrow> replace_input (scroll_up w) anchor ''echo ok'' 7 256;
     rust_assert (w_view_top w = live_top w);
     assert_cell (p_line anchor) 0 (CHR ''c'') w;
     assert_cell (p_line anchor + 3) 0 (CHR '' '') w;
     w \<leftarrow> write_string w (str_chars (CHR 0x0A # ''ok'' @ [CHR 0x0A]));
     rust_assert (p_line (w_cursor w) = p_line anchor + 2);
     Some (w, ())
   }"

text \<open>A test inside one call of \<open>with_writer\<close>.\<close>

definition writer_test :: "(Writer \<Rightarrow> (Writer \<times> unit) option) \<Rightarrow> System \<Rightarrow> System option" where
  "writer_test f s = map_option fst (with_closure f s)"

section \<open>Writing on a terminal of full width\<close>

text \<open>A terminal of 80 columns, by its cells, its cursor and its last line.\<close>

definition wide :: "Writer \<Rightarrow> (nat \<Rightarrow> nat \<Rightarrow> ScreenChar) \<Rightarrow> nat \<Rightarrow> nat \<Rightarrow> nat \<Rightarrow> bool" where
  "wide w cell line column lst \<longleftrightarrow> w_columns w = 80
     \<and> writer_sim w \<lparr>g_cell = cell, g_pos = \<lparr>p_line = line, p_column = column\<rparr>, g_last = lst\<rparr>"

lemma wideD:
  assumes "wide w cell line column lst"
  shows "w_cursor w = \<lparr>p_line = line, p_column = column\<rparr>" "w_last_line w = lst" "w_first_line w = lst - 127"
    "writer_inv w" "w_columns w = 80" "line \<le> lst" "lst - 127 \<le> line" "column \<le> 80"
proof -
  have c: "w_cursor w = \<lparr>p_line = line, p_column = column\<rparr>" using assms by (simp add: wide_def writer_sim_def)
  show "w_cursor w = \<lparr>p_line = line, p_column = column\<rparr>" "w_last_line w = lst" "w_first_line w = lst - 127"
    "writer_inv w" "w_columns w = 80" "line \<le> lst" "lst - 127 \<le> line" "column \<le> 80"
    using assms by (auto simp: wide_def writer_sim_def writer_inv_def SCROLLBACK_LINES_def c)
qed

lemma wide_clear:
  assumes "writer_shape w" "w_columns w = 80"
  shows "wide (writer_clear w) (\<lambda>_ _. BLANK) 0 0 0"
proof -
  have "writer_inv (writer_clear w)" using writer_clear_ready [OF assms(1)] by (simp add: writer_ready_inv)
  then have "writer_sim (writer_clear (writer_clear w)) grid_new" by (rule writer_clear_sim)
  moreover have "writer_clear (writer_clear w) = writer_clear w" by (simp add: writer_clear_def comp_def)
  ultimately show ?thesis using assms(2) by (simp add: wide_def grid_new_def) (simp add: writer_clear_def)
qed

lemma write_string_append: "write_string w (cs @ ds) = do { w \<leftarrow> write_string w cs; write_string w ds }"
  by (induction cs arbitrary: w) (auto simp: bind_eq_None_conv split: bind_split)

lemma str_chars_append: "\<forall>c\<in>set s. is_ascii c \<Longrightarrow> \<forall>c\<in>set t. is_ascii c \<Longrightarrow> str_chars (s @ t) = str_chars s @ str_chars t"
  by (simp add: str_chars_ascii ball_Un)

text \<open>Text that fits on the line, text that reaches line \<open>l'\<close> and column \<open>c'\<close>, a line feed.\<close>

lemma write_text:
  assumes sh: "wide w cell l c lst" and s: "list_all printable_byte s" and q: "position_offset \<lparr>p_line = l, p_column = c\<rparr> (length s) 80 = Some q"
  shows "\<exists>w'. write_string w (str_chars s) = Some w'
    \<and> wide w' (text_cells 80 (w_color w) \<lparr>p_line = l, p_column = c\<rparr> s cell) (p_line q) (p_column q) (max lst (p_line q))"
proof -
  let ?g = "\<lparr>g_cell = cell, g_pos = \<lparr>p_line = l, p_column = c\<rparr>, g_last = lst\<rparr>"
  have sim: "writer_sim w ?g" "w_columns w = 80" using sh by (auto simp: wide_def)
  obtain w' where w': "write_string w (str_chars s) = Some w'" "w_columns w' = 80"
    "writer_sim w' (grid_string 80 (w_color w) (str_chars s) ?g)"
    using write_string_sim [OF sim(1), of "str_chars s"] sim(2) by auto
  have "grid_string 80 (w_color w) (str_chars s) ?g = grid_glyphs 80 (w_color w) s ?g" by (rule grid_string_printable [OF s])
  also have "\<dots> = \<lparr>g_cell = text_cells 80 (w_color w) \<lparr>p_line = l, p_column = c\<rparr> s cell, g_pos = q, g_last = max lst (p_line q)\<rparr>"
    using grid_glyphs_spec [of 80 ?g s q "w_color w"] q wideD(6,8) [OF sh] by simp
  finally show ?thesis using w' by (cases q) (auto simp: wide_def)
qed

lemma write_short:
  assumes "wide w cell l c lst" "list_all printable_byte s" "length s = n" "c + n < 80"
  shows "\<exists>w'. write_string w (str_chars s) = Some w'
    \<and> wide w' (text_cells 80 (w_color w) \<lparr>p_line = l, p_column = c\<rparr> s cell) l (c + n) lst"
proof -
  have "position_offset \<lparr>p_line = l, p_column = c\<rparr> (length s) 80 = Some \<lparr>p_line = l, p_column = c + n\<rparr>"
    using assms(3,4) by (auto simp: position_offset_def Let_def)
  from write_text [OF assms(1,2) this] show ?thesis using wideD(6) [OF assms(1)] by (simp add: max_def)
qed

lemma line_feed: "str_chars [CHR 0x0A] = [10]"
  by (simp add: str_chars_ascii is_ascii_def)

lemma char_byte_10: "char_byte 10 = CHR 0x0A"
  by code_simp

lemma write_line_feed:
  assumes "wide w cell l c lst"
  shows "\<exists>w'. write_string w [10] = Some w' \<and> wide w' cell (l + 1) 0 (max lst (l + 1))"
proof -
  let ?g = "\<lparr>g_cell = cell, g_pos = \<lparr>p_line = l, p_column = c\<rparr>, g_last = lst\<rparr>"
  have "\<exists>w'. write_string w [10] = Some w' \<and> writer_sim w' (grid_string 80 (w_color w) [10] ?g) \<and> w_columns w' = 80"
    using write_string_sim [of w ?g "[10]"] assms by (auto simp: wide_def)
  then show ?thesis by (auto simp: wide_def grid_string_def grid_write_def char_byte_10 grid_newline_def)
qed

lemma write_line:
  assumes sh: "wide w cell l c lst" and s: "list_all printable_byte s" "c + length s < 80"
  shows "\<exists>w' cell'. write_string w (str_chars (s @ [CHR 0x0A])) = Some w' \<and> wide w' cell' (l + 1) 0 (max lst (l + 1))"
proof -
  have "\<forall>c\<in>set s. is_ascii c" using s(1) by (auto simp: list_all_iff ascii_simps)
  then have "str_chars (s @ [CHR 0x0A]) = str_chars s @ [10]" by (subst str_chars_append) (simp_all add: is_ascii_def line_feed)
  moreover obtain w1 cell1 where "write_string w (str_chars s) = Some w1" "wide w1 cell1 l (c + length s) lst"
    using write_short [OF sh s(1) refl s(2)] by blast
  ultimately show ?thesis using write_line_feed by (fastforce simp: write_string_append)
qed

lemma write_lines:
  assumes s: "\<And>i. i < n \<Longrightarrow> list_all printable_byte (f i) \<and> c + length (f i) < 80" and sh: "wide w cell l c lst" and l: "l = lst"
  shows "\<exists>w' cell' c'. for_each (\<lambda>i w. write_string w (str_chars (f i @ [CHR 0x0A]))) [0..<n] w = Some w'
    \<and> wide w' cell' (l + n) c' (l + n) \<and> (c' = (if n = 0 then c else 0))"
  using s
proof (induction n)
  case 0
  then show ?case using sh l by auto
next
  case (Suc n)
  then obtain w1 cell1 c1 where w1: "for_each (\<lambda>i w. write_string w (str_chars (f i @ [CHR 0x0A]))) [0..<n] w = Some w1"
    "wide w1 cell1 (l + n) c1 (l + n)" "c1 \<le> c" by (auto split: if_splits)
  have "list_all printable_byte (f n)" "c1 + length (f n) < 80" using Suc.prems [of n] w1(3) by auto
  from write_line [OF w1(2) this] w1(1) show ?case by (auto simp: for_each_append max_def)
qed

lemma wide_replace:
  assumes sh: "wide w cell l c lst" and A: "lst - 127 \<le> p_line A" "p_line A \<le> lst" "p_column A \<le> 80"
    and s: "list_all printable_byte s" "cursor \<le> length s" "(p_column A + max (length s) old_len) div 80 < 128"
    and q: "position_offset A cursor 80 = Some q" and e: "position_offset A (max (length s) old_len) 80 = Some e"
  shows "\<exists>w'. replace_input w A s cursor old_len = Some w' \<and> w_view_top w' = live_top w'
    \<and> wide w' (text_cells 80 (w_color w) A (s @ replicate (old_len - length s) (CHR '' '')) cell) (p_line q) (p_column q) (max lst (p_line e))"
proof -
  have len: "length (s @ replicate (old_len - length s) (CHR '' '')) = max (length s) old_len" by auto
  have sim: "writer_sim w \<lparr>g_cell = cell, g_pos = \<lparr>p_line = l, p_column = c\<rparr>, g_last = lst\<rparr>" "w_columns w = 80"
    using sh by (auto simp: wide_def)
  note d = wideD [OF sh]
  from replace_input_sim [OF sim(1), of A s cursor old_len, unfolded len] show ?thesis
    using A s q e d(2,3) sim(2) by (cases q) (auto simp: wide_def SCROLLBACK_LINES_def)
qed

lemma wide_cell:
  assumes "wide w cell l c lst" "n \<le> lst" "lst < n + 128" "d < 80" "ascii_character (cell n d) = ch"
  shows "assert_cell n d ch w = Some ()"
proof -
  have "w_lines w ! (n mod SCROLLBACK_LINES) ! d = cell n d" "length (w_lines w) = SCROLLBACK_LINES"
    "length (w_lines w ! (n mod SCROLLBACK_LINES)) = 80"
    using assms by (auto simp: wide_def writer_sim_def writer_inv_def rows_agree_def vga_consts list_all_length)
  then show ?thesis using assms(4,5) by (simp add: assert_cell_def arr_get_def rust_assert_def)
qed

lemma write_bytes: "for_each (\<lambda>_ w. write_byte w (CHR ''x'')) xs w = write_string w (str_chars (replicate (length xs) (CHR ''x'')))"
proof -
  have "char_byte 120 = CHR ''x''" by code_simp
  then have "for_each (\<lambda>_ w. write_byte w (CHR ''x'')) xs w = write_string w (replicate (length xs) 120)"
    by (induction xs arbitrary: w) (auto split: bind_split)
  then show ?thesis by (subst str_chars_ascii) (simp_all add: is_ascii_def)
qed

lemma x_printable: "list_all printable_byte (replicate n (CHR ''x''))" "list_all printable_byte (replicate n (CHR ''a''))"
  by (simp_all add: list_all_iff is_ascii_graphic_def)

lemma wide_scroll: "wide w cell l c lst \<Longrightarrow> wide (scroll_up w) cell l c lst"
  using scroll_sim(1) by (auto simp: wide_def) (simp add: scroll_up_def)

lemma wide_scroll_up: "wide w cell l c lst \<Longrightarrow> wide ((scroll_up ^^ n) w) cell l c lst"
  by (induction n) (simp_all add: wide_scroll)

lemma fold_scroll_up: "fold (\<lambda>_. scroll_up) [0..<n] w = (scroll_up ^^ n) w"
  by (induction n) simp_all

section \<open>The tests pass\<close>

lemma show_line_short:
  assumes "i < 200"
  shows "list_all printable_byte (''line '' @ show_nat i) \<and> 1 + length (''line '' @ show_nat i) < 80"
proof -
  have "length (show_nat i) \<le> 3" using assms by (simp add: show_nat.simps)
  moreover have "list_all printable_byte (show_nat i)"
    using show_nat_digits [of i] by (auto simp: list_all_iff is_ascii_digit_def is_ascii_graphic_def)
  ultimately show ?thesis by (simp add: is_ascii_graphic_def)
qed

lemma output_test_passes:
  assumes "writer_shape w" "w_columns w = 80"
  shows "\<exists>w'. output_wraps_and_scrolls w = Some (w', ()) \<and> writer_ready w' \<and> w_columns w' = 80"
proof -
  let ?x = "replicate 80 (CHR ''x'')"
  have q: "position_offset \<lparr>p_line = 0, p_column = 0\<rparr> (length ?x) 80 = Some \<lparr>p_line = 0, p_column = 80\<rparr>"
    by (simp add: position_offset_def)
  obtain w1 cell1 where w1: "write_string (writer_clear w) (str_chars ?x) = Some w1" "wide w1 cell1 0 80 0"
    using write_text [OF wide_clear [OF assms] x_printable(1) [of 80] q] by auto
  have s2: "str_chars (CHR 0x0A # ''y'') = [10] @ str_chars ''y''" by (simp add: str_chars_ascii is_ascii_def)
  obtain w2 where w2: "write_string w1 [10] = Some w2" "wide w2 cell1 1 0 1" using write_line_feed [OF w1(2)] by auto
  obtain w3 cell3 where w3: "write_string w2 (str_chars ''y'') = Some w3" "wide w3 cell3 1 1 1"
    using write_short [OF w2(2), of "''y''" 1] by (auto simp: is_ascii_graphic_def)
  obtain w4 cell4 where w4: "for_each (\<lambda>i w. write_string w (str_chars (''line '' @ show_nat i @ [CHR 0x0A]))) [0..<200] w3 = Some w4"
    "wide w4 cell4 201 0 201"
    using write_lines [of 200 "\<lambda>i. ''line '' @ show_nat i" 1, OF show_line_short w3(2)] by auto
  note d4 = wideD [OF w4(2)]
  let ?w5 = "(scroll_up ^^ 10) w4" and ?w6 = "scroll_down ((scroll_up ^^ 10) w4)"
  have v4: "w_view_top w4 \<le> 186" using d4(2,4) by (simp add: writer_inv_def live_top_def TERMINAL_ROWS_def)
  have s5: "wide ?w5 cell4 201 0 201" using w4(2) by (simp add: wide_scroll_up)
  have v5: "w_view_top ?w5 = 74" "w_first_line ?w5 = 74" "w_last_line ?w5 = 201"
    using scroll_up_many [OF d4(4), of 10] v4 d4(3) wideD(2) [OF s5] by simp_all
  have v6: "w_view_top ?w6 = 89" "w_first_line ?w6 = 74" using v5 by (simp_all add: scroll_down_def live_top_def TERMINAL_ROWS_def)
  obtain w7 where w7: "write_byte ?w6 (CHR ''z'') = Some w7" "w_view_top w7 = live_top w7" "writer_inv w7" "w_columns w7 = 80"
    using write_byte_sim [OF scroll_sim(2), of ?w5 _ "CHR ''z''"] s5 writer_sim_inv by (fastforce simp: wide_def scroll_down_def)
  have "output_wraps_and_scrolls w = Some (w7, ())"
    unfolding output_wraps_and_scrolls_def
    using w1(1) w2(1) w3(1) w4(1) wideD(1) [OF w3(2)] d4(2,3) v5 v6 w7(1,2)
    by (simp add: write_bytes s2 write_string_append fold_scroll_up rust_assert_def usize_sub_def vga_consts Let_def)
  then show ?thesis using w7(3,4) by (simp add: writer_ready_inv)
qed

lemma editing_test_passes:
  assumes "writer_shape w" "w_columns w = 80"
  shows "\<exists>w'. editing_erases_wrapped_text_and_preserves_prompt w = Some (w', ()) \<and> writer_ready w' \<and> w_columns w' = 80"
proof -
  let ?A = "\<lparr>p_line = 0, p_column = 6\<rparr>" and ?o = "\<lparr>p_line = 0, p_column = 0\<rparr>"
  obtain w1 where w1: "write_string (writer_clear w) (str_chars ''crab> '') = Some w1"
    "wide w1 (text_cells 80 (w_color (writer_clear w)) ?o ''crab> '' (\<lambda>_ _. BLANK)) 0 6 0"
    using write_short [OF wide_clear [OF assms], of "''crab> ''" 6] by (auto simp: is_ascii_graphic_def)
  let ?c1 = "text_cells 80 (w_color (writer_clear w)) ?o ''crab> '' (\<lambda>_ _. BLANK)"
  let ?c2 = "text_cells 80 (w_color w1) ?A (replicate 160 (CHR ''a'')) ?c1"
  obtain w2 where w2: "replace_input w1 ?A (replicate 160 (CHR ''a'')) 81 0 = Some w2" "wide w2 ?c2 1 7 2"
    using wide_replace [OF w1(2), of ?A "replicate 160 (CHR ''a'')" 81 0 "\<lparr>p_line = 1, p_column = 7\<rparr>" "\<lparr>p_line = 2, p_column = 6\<rparr>"] x_printable by (auto simp: position_offset_def)
  let ?bs = "''hi'' @ replicate 158 (CHR '' '')"
  obtain w3 where w3: "replace_input w2 ?A ''hi'' 1 160 = Some w3" "wide w3 (text_cells 80 (w_color w2) ?A ?bs ?c2) 0 7 2"
    using wide_replace [OF w2(2), of ?A "''hi''" 1 160 "\<lparr>p_line = 0, p_column = 7\<rparr>" "\<lparr>p_line = 2, p_column = 6\<rparr>"] by (auto simp: position_offset_def is_ascii_graphic_def)
  have "assert_cell 0 0 (CHR ''c'') w3 = Some ()" "assert_cell 0 6 (CHR ''h'') w3 = Some ()"
    "assert_cell 0 8 (CHR '' '') w3 = Some ()" "assert_cell 2 5 (CHR '' '') w3 = Some ()"
    by (rule wide_cell [OF w3(2)]; simp add: text_cells_def glyph_def is_ascii_graphic_def nth_append)+
  moreover have "from_utf8 (replicate 160 (CHR ''a'')) = Some (replicate 160 (CHR ''a''))" by (simp add: is_ascii_def)
  ultimately have "editing_erases_wrapped_text_and_preserves_prompt w = Some (w3, ())"
    unfolding editing_erases_wrapped_text_and_preserves_prompt_def
    using w1(1) w2(1) w3(1) wideD(1) [OF w1(2)] wideD(1) [OF w2(2)] wideD(1) [OF w3(2)] by (simp add: rust_assert_def)
  then show ?thesis using wideD(4,5) [OF w3(2)] by (simp add: writer_ready_inv)
qed

lemma bottom_test_passes:
  assumes "writer_shape w" "w_columns w = 80"
  shows "\<exists>w'. editing_at_bottom_after_scrollback_ring_wrap w = Some (w', ()) \<and> writer_ready w' \<and> w_columns w' = 80"
proof -
  let ?A = "\<lparr>p_line = 153, p_column = 6\<rparr>" and ?x = "replicate 256 (CHR ''x'')"
  obtain w0 c0 where w0: "for_each (\<lambda>_ w. write_string w (str_chars (''old output'' @ [CHR 0x0A]))) [0..<153] (writer_clear w) = Some w0"
    "wide w0 c0 153 0 153"
    using write_lines [of 153 "\<lambda>_. ''old output''" 0, OF _ wide_clear [OF assms]] by (auto simp: is_ascii_graphic_def)
  let ?c1 = "text_cells 80 (w_color w0) \<lparr>p_line = 153, p_column = 0\<rparr> ''crab> '' c0"
  obtain w1 where w1: "write_string w0 (str_chars ''crab> '') = Some w1" "wide w1 ?c1 153 6 153"
    using write_short [OF w0(2), of "''crab> ''" 6] by (auto simp: is_ascii_graphic_def)
  let ?c2 = "text_cells 80 (w_color w1) ?A ?x ?c1"
  obtain w2 where w2: "replace_input w1 ?A ?x 256 0 = Some w2" "wide w2 ?c2 156 22 156"
    using wide_replace [OF w1(2), of ?A ?x 256 0 "\<lparr>p_line = 156, p_column = 22\<rparr>" "\<lparr>p_line = 156, p_column = 22\<rparr>"] x_printable by (auto simp: position_offset_def)
  let ?bs = "''echo ok'' @ replicate 249 (CHR '' '')"
  obtain w3 where w3: "replace_input (scroll_up w2) ?A ''echo ok'' 7 256 = Some w3" "w_view_top w3 = live_top w3"
    "wide w3 (text_cells 80 (w_color (scroll_up w2)) ?A ?bs ?c2) 153 13 156"
    using wide_replace [OF wide_scroll [OF w2(2)], of ?A "''echo ok''" 7 256 "\<lparr>p_line = 153, p_column = 13\<rparr>" "\<lparr>p_line = 156, p_column = 22\<rparr>"] by (auto simp: position_offset_def is_ascii_graphic_def)
  have cells: "assert_cell 153 0 (CHR ''c'') w3 = Some ()" "assert_cell (153 + 3) 0 (CHR '' '') w3 = Some ()"
    by (rule wide_cell [OF w3(3)]; simp add: text_cells_def glyph_def is_ascii_graphic_def nth_append nth_Cons')+
  have s4: "str_chars (CHR 0x0A # ''ok'' @ [CHR 0x0A]) = [10] @ str_chars ''ok'' @ [10]" by (simp add: str_chars_ascii is_ascii_def)
  obtain w4 c4 where w4: "write_string w3 [10] = Some w4" "wide w4 c4 154 0 156" using write_line_feed [OF w3(3)] by auto
  obtain w5 c5 where w5: "write_string w4 (str_chars ''ok'') = Some w5" "wide w5 c5 154 2 156"
    using write_short [OF w4(2), of "''ok''" 2] by (auto simp: is_ascii_graphic_def numeral_2_eq_2)
  obtain w6 where w6: "write_string w5 [10] = Some w6" "wide w6 c5 155 0 156" using write_line_feed [OF w5(2)] by auto
  have "write_string w3 (str_chars (CHR 0x0A # ''ok'' @ [CHR 0x0A])) = Some w6"
    unfolding s4 by (simp only: write_string_append w4(1) w5(1) w6(1) Option.bind.simps)
  moreover have "from_utf8 ?x = Some ?x" by (simp add: is_ascii_def)
  ultimately have "editing_at_bottom_after_scrollback_ring_wrap w = Some (w6, ())"
    unfolding editing_at_bottom_after_scrollback_ring_wrap_def
    using w0(1) w1(1) w2(1) w3(1,2) cells wideD(1) [OF w1(2)] wideD(1,2,3) [OF w2(2)] wideD(1) [OF w6(2)]
    by (simp add: rust_assert_def vga_consts)
  then show ?thesis using wideD(4,5) [OF w6(2)] by (simp add: writer_ready_inv)
qed

section \<open>From state to state\<close>

text \<open>The state between tests: no window open, the first terminal active, of full width and ready for
  output, the pointer where it is at power-on.\<close>

definition test_ready :: "System \<Rightarrow> bool" where
  "test_ready s \<longleftrightarrow> seq_ok s \<and> sys_active s = 0 \<and> d_open (sys_desktop s) = [False, False]
     \<and> d_pointer_x (sys_desktop s) = 72 \<and> d_pointer_y (sys_desktop s) = 22
     \<and> writer_ready (sys_terminals s ! 0) \<and> w_columns (sys_terminals s ! 0) = 80"

lemma test_ready_boot: "length vga = 2000 \<Longrightarrow> test_ready (system_new vga)"
  using system_new_inv [of vga] writer_new_sim
  by (auto simp: test_ready_def seq_ok_def system_new_def DESKTOP_def writer_ready_inv writer_sim_def) (simp_all add: writer_new_def BUFFER_WIDTH_def)

lemma with_closure_ready:
  assumes "test_ready s" "f (sys_terminals s ! 0) = Some (w, r)" "writer_ready w" "w_columns w = 80"
  shows "\<exists>s'. with_closure f s = Some (s', r) \<and> test_ready s'"
proof -
  have s: "system_inv s" "sys_irqs s = []" "sys_active s = 0" "length (sys_terminals s) = 2"
    using assms(1) by (auto simp: test_ready_def seq_ok_def system_inv_def)
  obtain scr where "with_closure f s = Some (s\<lparr>sys_terminals := (sys_terminals s)[0 := w], sys_screen := scr\<rparr>, r)"
    "system_inv (s\<lparr>sys_terminals := (sys_terminals s)[0 := w], sys_screen := scr\<rparr>)"
    using with_closure_seq [OF s(1,2), of f w r] s(3) assms(2,3) by (auto simp: writer_ready_def)
  then show ?thesis using assms(1,3,4) s by (auto simp: test_ready_def seq_ok_def)
qed

lemma writer_test_passes:
  assumes "test_ready s"
    and "\<And>w. writer_shape w \<Longrightarrow> w_columns w = 80 \<Longrightarrow> \<exists>w'. f w = Some (w', ()) \<and> writer_ready w' \<and> w_columns w' = 80"
  shows "\<exists>s'. writer_test f s = Some s' \<and> test_ready s'"
proof -
  have "writer_shape (sys_terminals s ! 0)" "w_columns (sys_terminals s ! 0) = 80"
    using assms(1) by (auto simp: test_ready_def writer_ready_def)
  from assms(2) [OF this] obtain w' where "f (sys_terminals s ! 0) = Some (w', ())" "writer_ready w'" "w_columns w' = 80" by blast
  from with_closure_ready [of s f, OF assms(1) this] show ?thesis by (auto simp: writer_test_def)
qed

text \<open>Printing: the breakpoint test, and the other exception handlers.\<close>

lemma println_ready:
  assumes "test_ready s"
  shows "\<exists>s'. console (println text) s = Some s' \<and> test_ready s'"
proof -
  have "writer_inv (sys_terminals s ! 0)" "w_columns (sys_terminals s ! 0) = 80"
    using assms by (auto simp: test_ready_def writer_ready_inv)
  then obtain w where w: "write_string (sys_terminals s ! 0) (str_chars (text @ [CHR 0x0A])) = Some w" "writer_inv w" "w_columns w = 80"
    using write_string_inv by fastforce
  let ?f = "\<lambda>w. do { w \<leftarrow> for_each run_wop (println text) w; Some (w, w_cursor w) }"
  have "?f (sys_terminals s ! 0) = Some (w, w_cursor w)" using w(1) by (simp add: println_def wstr_def)
  from with_closure_ready [of s ?f, OF assms this] w(2,3) show ?thesis
    by (auto simp: console_def with_writer_def writer_ready_inv)
qed

text \<open>Opening and closing the first window from the state between tests. The widths of the terminals
  follow the layout.\<close>

lemma set_columns_eq:
  assumes "length (sys_terminals s) = 2" "i < 2" "1 \<le> c" "c \<le> 80"
  shows "set_terminal_columns i c s = Some (s\<lparr>sys_terminals := (sys_terminals s)[i := (sys_terminals s ! i)\<lparr>w_columns := c\<rparr>]\<rparr>)"
proof -
  have "min i 1 = i" using assms(2) by simp
  then show ?thesis using assms by (simp add: set_terminal_columns_def arr_get_def arr_set_def set_columns_def rust_assert_def BUFFER_WIDTH_def)
qed

lemma sync_widths_eq:
  assumes "sys_terminals s = [w0, w1]" "layout (sys_desktop s) = Some [r0, None]" "r0 = None \<or> r0 = Some (3, 4, 74)"
  shows "sync_terminal_widths s = Some (s\<lparr>sys_terminals := [w0\<lparr>w_columns := if r0 = None then 76 else 72\<rparr>, w1\<lparr>w_columns := 76\<rparr>]\<rparr>)"
  using assms by (auto simp: sync_terminal_widths_def set_columns_eq enumerate_eq_zip as_usize_def)

text \<open>The first window is the only one open and has the focus.\<close>

definition one_open :: "System \<Rightarrow> bool" where
  "one_open s \<longleftrightarrow> seq_ok s \<and> sys_active s = 0 \<and> d_open (sys_desktop s) = [True, False] \<and> d_active (sys_desktop s) = 0
     \<and> layout (sys_desktop s) = Some [Some (3, 4, 74), None]
     \<and> d_pointer_x (sys_desktop s) = 72 \<and> d_pointer_y (sys_desktop s) = 22
     \<and> w_columns (sys_terminals s ! 0) = 72"

lemma open_first:
  assumes "test_ready s"
  shows "\<exists>s'. open_terminal s = Some (s', Some 0) \<and> one_open s'"
proof -
  have s: "seq_ok s" "d_open (sys_desktop s) = [False, False]" "length (sys_terminals s) = 2"
    "length (d_windows (sys_desktop s)) = 2" "desktop_inv (sys_desktop s)"
    using assms by (auto simp: test_ready_def seq_ok_def system_inv_def desktop_inv_def screen_inv_def)
  obtain w0 w1 a b where w: "sys_terminals s = [w0, w1]" "d_windows (sys_desktop s) = [a, b]"
    using list2_cases [OF s(3)] list2_cases [OF s(4)] by blast
  let ?d = "(sys_desktop s)\<lparr>d_windows := [\<lparr>win_x = 3, win_y = 4\<rparr>, b], d_drag := None, d_open := [True, False], d_active := 0\<rparr>"
  have d: "open_desktop (sys_desktop s) = Some (?d, Some 0)" using s(2) w(2) by (simp add: open_desktop_def arr_set_def)
  then have di: "desktop_inv ?d" using open_desktop_spec [OF s(5)] by auto
  have l: "layout ?d = Some [Some (3, 4, 74), None]" by (simp add: layout_def arr_get_def arr_set_def clamp_def desktop_consts)
  let ?s1 = "s\<lparr>sys_desktop := ?d, sys_terminals := [w0\<lparr>w_columns := 72\<rparr>, w1\<lparr>w_columns := 76\<rparr>]\<rparr>"
  have s1: "sync_terminal_widths (s\<lparr>sys_desktop := ?d\<rparr>) = Some ?s1"
    using sync_widths_eq [of "s\<lparr>sys_desktop := ?d\<rparr>"] w(1) l by simp
  have "seq_ok ?s1" using sync_ok with_desktop_ok [OF s(1) di] s1 by fastforce
  then obtain s2 where s2: "refresh (set_active_terminal 0 ?s1) = Some s2" "seq_ok s2" "sys_desktop s2 = ?d"
    "sys_terminals s2 = sys_terminals ?s1" "sys_active s2 = 0"
    using refresh_ok [OF set_active_ok(1), of ?s1 0] by (auto simp: set_active_terminal_def)
  have "open_terminal s = Some (s2, Some 0)" using d s1 s2(1) by (simp add: open_terminal_def)
  moreover have "one_open s2" using s2 l assms by (simp add: one_open_def test_ready_def)
  ultimately show ?thesis by blast
qed

lemma crabos_written:
  assumes "writer_shape w" "w_columns w = 72"
  shows "\<exists>w'. write_string (writer_clear w) (str_chars ''CrabOS'') = Some w' \<and> writer_ready w' \<and> w_columns w' = 72
    \<and> p_column (w_cursor w') = 6 \<and> w_view_top w' = 0 \<and> ascii_character (w_lines w' ! 0 ! 0) = CHR ''C''"
proof -
  let ?w = "writer_clear w"
  have inv: "writer_inv ?w" using writer_clear_ready [OF assms(1)] by (simp add: writer_ready_inv)
  have "writer_clear ?w = ?w" by (simp add: writer_clear_def comp_def)
  then have sim: "writer_sim ?w grid_new" using writer_clear_sim [OF inv] by simp
  have col: "w_columns ?w = 72" using assms(2) by (simp add: writer_clear_def)
  obtain w' where w': "write_string ?w (str_chars ''CrabOS'') = Some w'" "w_columns w' = 72"
    "writer_sim w' (grid_string 72 (w_color ?w) (str_chars ''CrabOS'') grid_new)"
    using write_string_sim [OF sim, of "str_chars ''CrabOS''"] col by auto
  have "grid_string 72 (w_color ?w) (str_chars ''CrabOS'') grid_new = grid_glyphs 72 (w_color ?w) ''CrabOS'' grid_new"
    by (rule grid_string_printable) (simp add: is_ascii_graphic_def)
  also have "\<dots> = \<lparr>g_cell = text_cells 72 (w_color ?w) \<lparr>p_line = 0, p_column = 0\<rparr> ''CrabOS'' (\<lambda>_ _. BLANK),
      g_pos = \<lparr>p_line = 0, p_column = 6\<rparr>, g_last = 0\<rparr>"
    using grid_glyphs_spec [of 72 grid_new "''CrabOS''" "\<lparr>p_line = 0, p_column = 6\<rparr>"]
    by (simp add: grid_new_def position_offset_def)
  finally have g: "writer_sim w' \<lparr>g_cell = text_cells 72 (w_color ?w) \<lparr>p_line = 0, p_column = 0\<rparr> ''CrabOS'' (\<lambda>_ _. BLANK),
      g_pos = \<lparr>p_line = 0, p_column = 6\<rparr>, g_last = 0\<rparr>" using w'(3) by simp
  then have "w_lines w' ! 0 ! 0 = text_cells 72 (w_color ?w) \<lparr>p_line = 0, p_column = 0\<rparr> ''CrabOS'' (\<lambda>_ _. BLANK) 0 0"
    by (auto simp: writer_sim_def rows_agree_def vga_consts dest!: spec [of _ 0])
  then have "ascii_character (w_lines w' ! 0 ! 0) = CHR ''C''" by (simp add: text_cells_def glyph_def is_ascii_graphic_def)
  moreover have "p_column (w_cursor w') = 6" "w_view_top w' = 0" "writer_inv w'"
    using g by (auto simp: writer_sim_def writer_inv_def live_top_def dest: sym)
  ultimately show ?thesis using w'(1,2) by (simp add: writer_ready_inv)
qed

lemma crabos_shown:
  assumes "one_open s"
  shows "\<exists>s'. with_closure (\<lambda>w. do { w \<leftarrow> write_string (writer_clear w) (str_chars ''CrabOS''); Some (w, ()) }) s = Some (s', ())
    \<and> one_open s' \<and> p_column (w_cursor (sys_terminals s' ! 0)) = 6
    \<and> (\<exists>cell. arr_get (scr_vga (sys_screen s')) 484 = Some cell \<and> ascii_character cell = CHR ''C'')"
proof -
  let ?f = "\<lambda>w. do { w \<leftarrow> write_string (writer_clear w) (str_chars ''CrabOS''); Some (w, ()) }"
  have s: "system_inv s" "sys_irqs s = []" "sys_active s = 0" "length (sys_terminals s) = 2" "w_columns (sys_terminals s ! 0) = 72"
    using assms by (auto simp: one_open_def seq_ok_def system_inv_def)
  obtain w where w: "write_string (writer_clear (sys_terminals s ! 0)) (str_chars ''CrabOS'') = Some w" "writer_ready w" "w_columns w = 72"
    "p_column (w_cursor w) = 6" "w_view_top w = 0" "ascii_character (w_lines w ! 0 ! 0) = CHR ''C''"
    using crabos_written [OF system_inv_terminal [OF s(1), of 0] s(5)] by auto
  have f: "?f (sys_terminals s ! sys_active s) = Some (w, ())" using w(1) s(3) by simp
  obtain scr where scr: "with_closure ?f s = Some (s\<lparr>sys_terminals := (sys_terminals s)[0 := w], sys_screen := scr\<rparr>, ())"
    "system_inv (s\<lparr>sys_terminals := (sys_terminals s)[0 := w], sys_screen := scr\<rparr>)"
    "painted (s\<lparr>sys_terminals := (sys_terminals s)[0 := w], sys_screen := scr\<rparr>)"
    using with_closure_seq [OF s(1,2), of ?f w "()", OF f] w(2) s(3) by (auto simp: writer_ready_def)
  let ?s = "s\<lparr>sys_terminals := (sys_terminals s)[0 := w], sys_screen := scr\<rparr>" and ?d = "sys_desktop s"
  have d: "screen_inv ?d" "d_active ?d = 0" "layout ?d = Some [Some (3, 4, 74), None]" "pointer_index ?d = 1832"
    using assms by (auto simp: one_open_def seq_ok_def system_inv_def desktop_inv_def)
  obtain vga where vga: "picture ?d (sys_terminals ?s) = Some vga" "shows_focused vga ?d (Some (3, 4, 74)) (sys_terminals ?s ! 0)"
    using render_desktop_ok [OF d(1) system_inv_shape [OF scr(2)], of "sys_screen ?s"] scr(2) d(2,3) by (auto simp: system_inv_def)
  then have "scr_vga scr = vga" using scr(3) by (simp add: painted_def)
  moreover have "ascii_character (vga ! 484) = CHR ''C''"
    using vga(2) w(5,6) s(4) d(4) by (auto simp: shows_focused_def dest!: spec [of _ 0])
  moreover have "length (scr_vga scr) = 2000" using scr(2) by (simp add: system_inv_def screen_ok_def frame_ok_def)
  moreover have "one_open ?s" using assms scr(2) w(3) s(4) by (simp add: one_open_def seq_ok_def)
  ultimately show ?thesis using scr(1) w(4) s(4) by (auto simp: arr_get_def)
qed

lemma close_first:
  assumes "one_open s" "p_column (w_cursor (sys_terminals s ! 0)) \<le> 80"
  shows "\<exists>s' s''. close_terminal 0 s = Some s' \<and> set_terminal_columns 0 80 s' = Some s'' \<and> test_ready s''"
proof -
  have s: "seq_ok s" "d_open (sys_desktop s) = [True, False]" "length (sys_terminals s) = 2" "desktop_inv (sys_desktop s)"
    using assms by (auto simp: one_open_def seq_ok_def system_inv_def)
  obtain w0 w1 where w: "sys_terminals s = [w0, w1]" using list2_cases [OF s(3)] by blast
  let ?d = "(sys_desktop s)\<lparr>d_drag := None, d_open := [False, False], d_active := 0\<rparr>"
  have d: "close_desktop (sys_desktop s) 0 = Some ?d" using s(2) by (simp add: close_desktop_def arr_get_def arr_set_def)
  then have di: "desktop_inv ?d" using close_desktop_spec [OF s(4), of 0] by auto
  have l: "layout ?d = Some [None, None]" by (simp add: layout_def)
  let ?s1 = "s\<lparr>sys_desktop := ?d, sys_terminals := [w0\<lparr>w_columns := 76\<rparr>, w1\<lparr>w_columns := 76\<rparr>]\<rparr>"
  have s1: "sync_terminal_widths (s\<lparr>sys_desktop := ?d\<rparr>) = Some ?s1"
    using sync_widths_eq [of "s\<lparr>sys_desktop := ?d\<rparr>"] w l by simp
  have "seq_ok ?s1" using sync_ok with_desktop_ok [OF s(1) di] s1 by fastforce
  then obtain s2 where s2: "refresh (set_active_terminal 0 ?s1) = Some s2" "seq_ok s2" "sys_desktop s2 = ?d"
    "sys_terminals s2 = sys_terminals ?s1" "sys_active s2 = 0"
    using refresh_ok [OF set_active_ok(1), of ?s1 0] by (auto simp: set_active_terminal_def)
  let ?s3 = "s2\<lparr>sys_terminals := [w0\<lparr>w_columns := 80\<rparr>, w1\<lparr>w_columns := 76\<rparr>]\<rparr>"
  have s3: "set_terminal_columns 0 80 s2 = Some ?s3" using set_columns_eq [of s2 0 80] s2(4) by simp
  then have ok: "seq_ok ?s3" using set_columns_ok [OF s2(2), of 0 80] by simp
  then have "writer_shape (w0\<lparr>w_columns := 80\<rparr>)" using system_inv_terminal [of ?s3 0] by (simp add: seq_ok_def)
  then have "test_ready ?s3" using ok s2(3,5) assms w by (simp add: test_ready_def one_open_def writer_ready_def)
  moreover have "close_terminal 0 s = Some s2" using d s1 s2(1) by (simp add: close_terminal_def)
  ultimately show ?thesis using s3 by blast
qed

lemma rendered_test_passes:
  assumes "test_ready s"
  shows "\<exists>s'. rendered_vga_matches_console s = Some s' \<and> test_ready s'"
proof -
  obtain s1 where s1: "open_terminal s = Some (s1, Some 0)" "one_open s1" using open_first [OF assms] by blast
  obtain s2 cell where s2: "with_closure (\<lambda>w. do { w \<leftarrow> write_string (writer_clear w) (str_chars ''CrabOS''); Some (w, ()) }) s1 = Some (s2, ())"
    "one_open s2" "p_column (w_cursor (sys_terminals s2 ! 0)) = 6" "arr_get (scr_vga (sys_screen s2)) 484 = Some cell" "ascii_character cell = CHR ''C''"
    using crabos_shown [OF s1(2)] by blast
  obtain s3 s4 where s3: "close_terminal 0 s2 = Some s3" "set_terminal_columns 0 80 s3 = Some s4" "test_ready s4"
    using close_first [OF s2(2)] s2(3) by auto
  have "layout (sys_desktop s2) = Some [Some (3, 4, 74), None]" using s2(2) by (simp add: one_open_def)
  then have "rendered_vga_matches_console s = Some s4"
    using s1(1) s2(1,4,5) s3(1,2)
    by (simp add: rendered_vga_matches_console_def arr_get_def [of "[Some (3, 4, 74), None]"] as_usize_def rust_assert_def BUFFER_WIDTH_def)
  with s3(3) show ?thesis by blast
qed

lemma breakpoint_test_passes: "test_ready s \<Longrightarrow> \<exists>s'. test_breakpoint_exception stack_frame s = Some s' \<and> test_ready s'"
  unfolding test_breakpoint_exception_def breakpoint_handler_def by (rule println_ready)

text \<open>The page-fault handler gets all its lines onto the terminal before it halts.\<close>

lemma page_fault_reported: "test_ready s \<Longrightarrow> \<exists>s'. page_fault_handler address error_code stack_frame s = Some s' \<and> test_ready s'"
  unfolding page_fault_handler_def by (metis (no_types, lifting) Option.bind.simps(2) println_ready)

end
