(* ===== verification/Test_Keyboard.thy ===== *)
theory Test_Keyboard
  imports Run_Shell
begin

text \<open>
  The unit test of \<^verbatim>\<open>src/src/task/keyboard.rs\<close>, which checks the console's keyboard layout. What it needs of the crate
  \<open>pc-keyboard\<close> is the contract \<open>ansi_keyboard\<close>: how the four keys of the test change the modifiers and that a
  key is translated by the layout the keyboard was made with. The contract is interpreted on a small
  executable keyboard.
\<close>

section \<open>The test\<close>

text \<open>The closure \<open>decode\<close> of the test; \<open>unwrap\<close> panics on a scancode that the decoder rejects.\<close>

definition decode_unwrap :: "('k, 'e, 'm) decoder_ops \<Rightarrow> u8 \<Rightarrow> 'k \<Rightarrow> ('k \<times> DecodedKey option) option" where
  "decode_unwrap D scancode keyboard = (case kb_add_byte D keyboard scancode of
      (keyboard, Inr (Some event)) \<Rightarrow> Some (kb_process D keyboard event)
    | (keyboard, Inr None) \<Rightarrow> Some (keyboard, None)
    | (_, Inl _) \<Rightarrow> None)"

definition ansi_backslash_pipe_and_control_keys_decode :: "('k, 'e, 'm) decoder_ops \<Rightarrow> unit option" where
  "ansi_backslash_pipe_and_control_keys_decode D = do {
     let keyboard = decoder D;
     (keyboard, key) \<leftarrow> decode_unwrap D 0x2b keyboard;
     rust_assert (key = Some (Unicode 0x5c));
     (keyboard, _) \<leftarrow> decode_unwrap D 0xab keyboard;
     (keyboard, _) \<leftarrow> decode_unwrap D 0x2a keyboard;
     (keyboard, key) \<leftarrow> decode_unwrap D 0x2b keyboard;
     rust_assert (key = Some (Unicode 0x7c));
     (keyboard, _) \<leftarrow> decode_unwrap D 0xab keyboard;
     (keyboard, _) \<leftarrow> decode_unwrap D 0xaa keyboard;
     (keyboard, _) \<leftarrow> decode_unwrap D 0x1d keyboard;
     (keyboard, key) \<leftarrow> decode_unwrap D 0x2e keyboard;
     rust_assert (key = Some (Unicode 0x03));
     (keyboard, _) \<leftarrow> decode_unwrap D 0xae keyboard;
     (keyboard, _) \<leftarrow> decode_unwrap D 0x9d keyboard;
     (keyboard, key) \<leftarrow> decode_unwrap D 0x2e keyboard;
     rust_assert (key = Some (Unicode 0x63))
   }"

section \<open>The contract of the decoder\<close>

text \<open>A keyboard is seen as its layout, its treatment of Ctrl and its modifiers. \<open>letter_c\<close> is the code of
  the key C; \<open>plain\<close>, \<open>shift\<close> and \<open>ctrl\<close> are the modifiers with nothing, with Shift and with Ctrl pressed.\<close>

locale ansi_keyboard =
  fixes D :: "('k, 'e, 'm) decoder_ops" and seen :: "'k \<Rightarrow> 'm keyboard_layout \<times> HandleControl \<times> 'm"
    and letter_c :: KeyCode and plain shift ctrl :: 'm
  assumes new_seen: "seen (kb_new D L control) = (L, control, plain)"
    and press_oem7: "seen k = (L, control, m) \<Longrightarrow> \<exists>k'. decode_unwrap D 0x2b k = Some (k', Some (L KC_Oem7 m control)) \<and> seen k' = seen k"
    and press_c: "seen k = (L, control, m) \<Longrightarrow> \<exists>k'. decode_unwrap D 0x2e k = Some (k', Some (L letter_c m control)) \<and> seen k' = seen k"
    and release_oem7: "\<exists>k' r. decode_unwrap D 0xab k = Some (k', r) \<and> seen k' = seen k"
    and release_c: "\<exists>k' r. decode_unwrap D 0xae k = Some (k', r) \<and> seen k' = seen k"
    and press_shift: "seen k = (L, control, plain) \<Longrightarrow> \<exists>k' r. decode_unwrap D 0x2a k = Some (k', r) \<and> seen k' = (L, control, shift)"
    and release_shift: "seen k = (L, control, shift) \<Longrightarrow> \<exists>k' r. decode_unwrap D 0xaa k = Some (k', r) \<and> seen k' = (L, control, plain)"
    and press_ctrl: "seen k = (L, control, plain) \<Longrightarrow> \<exists>k' r. decode_unwrap D 0x1d k = Some (k', r) \<and> seen k' = (L, control, ctrl)"
    and release_ctrl: "seen k = (L, control, ctrl) \<Longrightarrow> \<exists>k' r. decode_unwrap D 0x9d k = Some (k', r) \<and> seen k' = (L, control, plain)"
    and us104_oem5: "kb_us104 D KC_Oem5 plain control = Unicode 0x5c" "kb_us104 D KC_Oem5 shift control = Unicode 0x7c"
    and us104_c: "kb_us104 D letter_c ctrl MapLettersToUnicode = Unicode 0x03" "kb_us104 D letter_c plain control = Unicode 0x63"
    and letter_c_key: "letter_c \<noteq> KC_Oem7"
begin

lemma test_passes: "ansi_backslash_pipe_and_control_keys_decode D = Some ()"
proof -
  let ?L = "map_keycode (kb_us104 D)" and ?M = MapLettersToUnicode
  have k0: "seen (decoder D) = (?L, ?M, plain)" by (simp add: decoder_def new_seen)
  have oem7: "?L KC_Oem7 m ?M = kb_us104 D KC_Oem5 m ?M" and c: "?L letter_c m ?M = kb_us104 D letter_c m ?M" for m
    using letter_c_key by (simp_all add: map_keycode_def)
  obtain k1 where k1: "decode_unwrap D 0x2b (decoder D) = Some (k1, Some (Unicode 0x5c))" "seen k1 = (?L, ?M, plain)"
    using press_oem7 [OF k0] oem7 us104_oem5(1) k0 by auto
  obtain k2 r2 where k2: "decode_unwrap D 0xab k1 = Some (k2, r2)" "seen k2 = (?L, ?M, plain)" using release_oem7 [of k1] k1(2) by auto
  obtain k3 r3 where k3: "decode_unwrap D 0x2a k2 = Some (k3, r3)" "seen k3 = (?L, ?M, shift)" using press_shift [OF k2(2)] by auto
  obtain k4 where k4: "decode_unwrap D 0x2b k3 = Some (k4, Some (Unicode 0x7c))" "seen k4 = (?L, ?M, shift)"
    using press_oem7 [OF k3(2)] oem7 us104_oem5(2) k3(2) by auto
  obtain k5 r5 where k5: "decode_unwrap D 0xab k4 = Some (k5, r5)" "seen k5 = (?L, ?M, shift)" using release_oem7 [of k4] k4(2) by auto
  obtain k6 r6 where k6: "decode_unwrap D 0xaa k5 = Some (k6, r6)" "seen k6 = (?L, ?M, plain)" using release_shift [OF k5(2)] by auto
  obtain k7 r7 where k7: "decode_unwrap D 0x1d k6 = Some (k7, r7)" "seen k7 = (?L, ?M, ctrl)" using press_ctrl [OF k6(2)] by auto
  obtain k8 where k8: "decode_unwrap D 0x2e k7 = Some (k8, Some (Unicode 0x03))" "seen k8 = (?L, ?M, ctrl)"
    using press_c [OF k7(2)] c us104_c(1) k7(2) by auto
  obtain k9 r9 where k9: "decode_unwrap D 0xae k8 = Some (k9, r9)" "seen k9 = (?L, ?M, ctrl)" using release_c [of k8] k8(2) by auto
  obtain k10 r10 where k10: "decode_unwrap D 0x9d k9 = Some (k10, r10)" "seen k10 = (?L, ?M, plain)" using release_ctrl [OF k9(2)] by auto
  obtain k11 where "decode_unwrap D 0x2e k10 = Some (k11, Some (Unicode 0x63))" using press_c [OF k10(2)] c us104_c(2) by auto
  with k1(1) k2(1) k3(1) k4(1) k5(1) k6(1) k7(1) k8(1) k9(1) k10(1) show ?thesis
    by (simp add: ansi_backslash_pipe_and_control_keys_decode_def rust_assert_def)
qed

end

section \<open>An executable keyboard\<close>

text \<open>Modifiers are a pair of flags (Shift, Ctrl); an event is a scancode.\<close>

definition us_layout :: "(bool \<times> bool) keyboard_layout" where
  "us_layout key m control = (case (key, m) of
      (KC_Oem5, (shift, _)) \<Rightarrow> Unicode (if shift then 0x7c else 0x5c)
    | (KC_Other n, (_, ctrl)) \<Rightarrow> Unicode (if ctrl \<and> control = MapLettersToUnicode then n - 0x60 else n)
    | (k, _) \<Rightarrow> RawKey k)"

definition simple_keyboard :: "((bool \<times> bool) keyboard_layout \<times> HandleControl \<times> bool \<times> bool, u8, bool \<times> bool) decoder_ops" where
  "simple_keyboard = \<lparr>kb_us104 = us_layout, kb_new = (\<lambda>L control. (L, control, False, False)),
     kb_add_byte = (\<lambda>k b. (k, Inr (Some b))),
     kb_process = (\<lambda>(L, control, shift, ctrl) b.
        if b = 0x2a then ((L, control, True, ctrl), None) else if b = 0xaa then ((L, control, False, ctrl), None)
        else if b = 0x1d then ((L, control, shift, True), None) else if b = 0x9d then ((L, control, shift, False), None)
        else if b = 0x2b then ((L, control, shift, ctrl), Some (L KC_Oem7 (shift, ctrl) control))
        else if b = 0x2e then ((L, control, shift, ctrl), Some (L (KC_Other 0x63) (shift, ctrl) control))
        else ((L, control, shift, ctrl), None))\<rparr>"

interpretation simple_keyboard: ansi_keyboard simple_keyboard id "KC_Other 0x63" "(False, False)" "(True, False)" "(False, True)"
  by unfold_locales (auto simp: simple_keyboard_def decode_unwrap_def us_layout_def)

end
