(* ===== verification/Test_Harness.thy ===== *)
theory Test_Harness
  imports Boot Test_Shell Test_Vga Test_Keyboard
begin

text \<open>
  The test build: the serial port (\<^verbatim>\<open>src/src/serial.rs\<close>), the test runner, the panic handler of the test build and the
  entry point of \<^verbatim>\<open>src/src/lib.rs\<close>. The serial port's driver is a parameter: it takes a text and returns its new
  state, or nothing when writing fails; \<open>_print\<close> then panics with the port locked, and the panic handler
  waits for that lock (theory \<^verbatim>\<open>Lock_Use\<close>), so the run hangs. A write to the exit port ends the emulator.
\<close>

section \<open>Serial port and exit port\<close>

type_synonym 'u uart = "'u \<Rightarrow> char list \<Rightarrow> 'u option"

definition serial_print :: "'u uart \<Rightarrow> char list \<Rightarrow> 'u \<Rightarrow> 'u option" where
  "serial_print U text u = U u text"

definition serial_println :: "'u uart \<Rightarrow> char list \<Rightarrow> 'u \<Rightarrow> 'u option" where
  "serial_println U text u = serial_print U (text @ [CHR 0x0A]) u"

datatype QemuExitCode = Success | Failed

primrec exit_code_u32 :: "QemuExitCode \<Rightarrow> u32" where
  "exit_code_u32 Success = 0x10"
| "exit_code_u32 Failed = 0x11"

text \<open>How a test run ends: the emulator is stopped with a value written to port 0xf4, or the run hangs.\<close>

datatype 'u test_end = Exit u32 'u | Hung

definition exit_qemu :: "QemuExitCode \<Rightarrow> 'u \<Rightarrow> 'u test_end" where
  "exit_qemu exit_code u = Exit (exit_code_u32 exit_code) u"

section \<open>Test runner\<close>

definition test_panic_handler :: "'u uart \<Rightarrow> char list \<Rightarrow> 'u \<Rightarrow> 'u test_end" where
  "test_panic_handler U info u = (case do {
       u \<leftarrow> serial_println U (''[failed]'' @ [CHR 0x0A]) u;
       serial_println U (''Error: '' @ info @ [CHR 0x0A]) u
     } of None \<Rightarrow> Hung | Some u \<Rightarrow> exit_qemu Failed u)"

text \<open>A test is its name, the message of its panic, and its effect on the console state.\<close>

record unit_test =
  ut_name :: "char list"
  ut_panic :: "char list"
  ut_run :: "System \<Rightarrow> System option"

text \<open>\<open>Testable::run\<close>: either the state after the test, or the end of the whole run.\<close>

definition testable_run :: "'u uart \<Rightarrow> unit_test \<Rightarrow> System \<times> 'u \<Rightarrow> 'u test_end + System \<times> 'u" where
  "testable_run U test su = (case su of (s, u) \<Rightarrow>
     (case serial_print U (ut_name test @ ''...'' @ [CHR 0x09]) u of
        None \<Rightarrow> Inl Hung
      | Some u \<Rightarrow> (case ut_run test s of
          None \<Rightarrow> Inl (test_panic_handler U (ut_panic test) u)
        | Some s \<Rightarrow> (case serial_println U ''[ok]'' u of None \<Rightarrow> Inl Hung | Some u \<Rightarrow> Inr (s, u)))))"

fun run_tests :: "'u uart \<Rightarrow> unit_test list \<Rightarrow> System \<times> 'u \<Rightarrow> 'u test_end + System \<times> 'u" where
  "run_tests U [] su = Inr su"
| "run_tests U (test # tests) su = (case testable_run U test su of Inl r \<Rightarrow> Inl r | Inr su \<Rightarrow> run_tests U tests su)"

definition test_runner :: "'u uart \<Rightarrow> unit_test list \<Rightarrow> System \<Rightarrow> 'u \<Rightarrow> 'u test_end" where
  "test_runner U tests s u =
     (case serial_println U (''Running '' @ show_nat (length tests) @ '' tests'') u of
        None \<Rightarrow> Hung
      | Some u \<Rightarrow> (case run_tests U tests (s, u) of Inl r \<Rightarrow> r | Inr (_, u) \<Rightarrow> exit_qemu Success u))"

text \<open>The tests of the library in the order of its modules. Those of the parsers and of the editor do
  not touch the console.\<close>

definition pure_test :: "unit option \<Rightarrow> System \<Rightarrow> System option" where
  "pure_test t s = map_option (\<lambda>_. s) t"

definition lib_tests :: "('k, 'e, 'm) decoder_ops \<Rightarrow> (u32 \<Rightarrow> cpuid_result) \<Rightarrow> char list \<Rightarrow> (char list \<Rightarrow> char list) \<Rightarrow> unit_test list" where
  "lib_tests D cpuid stack_frame message = map (\<lambda>(name, run). \<lparr>ut_name = name, ut_panic = message name, ut_run = run\<rparr>)
    [(''crab_os::interrupts::test_breakpoint_exception'', test_breakpoint_exception stack_frame),
     (''crab_os::net::web::parses_http_url_and_renders_html'', pure_test parses_http_url_and_renders_html),
     (''crab_os::shell::editor_insertion_deletion_and_capacity'', pure_test editor_insertion_deletion_and_capacity),
     (''crab_os::shell::history_eviction_duplicates_and_draft_restore'', pure_test history_eviction_duplicates_and_draft_restore),
     (''crab_os::shell::arguments_preserve_quotes_and_reject_incomplete_input'',
       pure_test arguments_preserve_quotes_and_reject_incomplete_input),
     (''crab_os::system::cpu_detection_and_empty_memory_map'', pure_test (cpu_detection_and_empty_memory_map cpuid)),
     (''crab_os::task::keyboard::ansi_backslash_pipe_and_control_keys_decode'',
       pure_test (ansi_backslash_pipe_and_control_keys_decode D)),
     (''crab_os::vga_buffer::output_wraps_and_scrolls'', writer_test output_wraps_and_scrolls),
     (''crab_os::vga_buffer::editing_erases_wrapped_text_and_preserves_prompt'',
       writer_test editing_erases_wrapped_text_and_preserves_prompt),
     (''crab_os::vga_buffer::rendered_vga_matches_console'', rendered_vga_matches_console),
     (''crab_os::vga_buffer::editing_at_bottom_after_scrollback_ring_wrap'',
       writer_test editing_at_bottom_after_scrollback_ring_wrap)]"

text \<open>\<open>test_kernel_main\<close>: board, heap, tests. A panic of the initialisation is reported like that of a test.
  The halt loop is reached only when the emulator has no exit port.\<close>

definition test_kernel_main :: "('g, 'h, 'm, 'a, 'p, 'n) Platform \<Rightarrow> 'u uart \<Rightarrow> char list \<Rightarrow> unit_test list
    \<Rightarrow> ('g, 'h, 'm, 'p, 'n) PowerOn \<Rightarrow> 'u \<Rightarrow> 'u test_end" where
  "test_kernel_main pf U info tests po u = (case do {
       crab_init (pf_gdt pf) (pf_board pf) (po_stack po) (po_cpu po);
       boot_heap pf po
     } of None \<Rightarrow> test_panic_handler U info u
        | Some _ \<Rightarrow> test_runner U tests (system_new (po_vga po)) u)"

section \<open>Lemmas\<close>

text \<open>A port on which writing always succeeds.\<close>

definition reliable :: "'u uart \<Rightarrow> bool" where
  "reliable U \<longleftrightarrow> (\<forall>u text. U u text \<noteq> None)"

lemma serial_reliable:
  assumes "reliable U"
  shows "\<exists>u'. serial_print U text u = Some u'" "\<exists>u'. serial_println U text u = Some u'"
  using assms by (auto simp: reliable_def serial_print_def serial_println_def)

lemma test_panic_exits:
  assumes "reliable U"
  shows "\<exists>u'. test_panic_handler U info u = Exit 0x11 u'"
proof -
  obtain u1 where u1: "serial_println U (''[failed]'' @ [CHR 0x0A]) u = Some u1" using serial_reliable(2) [OF assms] by blast
  obtain u2 where "serial_println U (''Error: '' @ info @ [CHR 0x0A]) u1 = Some u2" using serial_reliable(2) [OF assms] by blast
  with u1 show ?thesis by (simp add: test_panic_handler_def exit_qemu_def)
qed

lemma testable_run_reports:
  assumes "reliable U"
  shows "case ut_run test s of
      None \<Rightarrow> \<exists>u'. testable_run U test (s, u) = Inl (Exit 0x11 u')
    | Some s' \<Rightarrow> \<exists>u'. testable_run U test (s, u) = Inr (s', u')"
proof -
  obtain u1 where u1: "serial_print U (ut_name test @ ''...'' @ [CHR 0x09]) u = Some u1" using serial_reliable(1) [OF assms] by blast
  obtain u2 where "serial_println U ''[ok]'' u1 = Some u2" using serial_reliable(2) [OF assms] by blast
  with u1 test_panic_exits [OF assms, of "ut_panic test" u1] show ?thesis by (auto simp: testable_run_def split: option.split)
qed

lemma run_tests_report:
  "reliable U \<Longrightarrow> case for_each ut_run tests s of
      None \<Rightarrow> \<exists>u'. run_tests U tests (s, u) = Inl (Exit 0x11 u')
    | Some s' \<Rightarrow> \<exists>u'. run_tests U tests (s, u) = Inr (s', u')"
proof (induction tests arbitrary: s u)
  case (Cons test tests)
  note r = testable_run_reports [OF Cons.prems, of test s u]
  show ?case
  proof (cases "ut_run test s")
    case (Some s1)
    then obtain u1 where "testable_run U test (s, u) = Inr (s1, u1)" using r by auto
    with Cons.IH [OF Cons.prems, of s1 u1] Some show ?thesis by (auto split: option.splits)
  qed (use r in auto)
qed simp

lemma pure_test_passes: "t = Some () \<Longrightarrow> test_ready s \<Longrightarrow> \<exists>s'. pure_test t s = Some s' \<and> test_ready s'"
  by (simp add: pure_test_def)

lemmas console_tests_pass = breakpoint_test_passes rendered_test_passes
  writer_test_passes [OF _ output_test_passes] writer_test_passes [OF _ editing_test_passes] writer_test_passes [OF _ bottom_test_passes]

lemma lib_test_passes:
  assumes "ansi_keyboard D seen letter_c plain shift ctrl" "test \<in> set (lib_tests D cpuid stack_frame message)" "test_ready s"
  shows "\<exists>s'. ut_run test s = Some s' \<and> test_ready s'"
proof -
  note pure = pure_test_passes [OF _ assms(3)]
  have kb: "ansi_backslash_pipe_and_control_keys_decode D = Some ()" by (rule ansi_keyboard.test_passes [OF assms(1)])
  show ?thesis
    using assms(2) console_tests_pass [OF assms(3)] pure [OF web_test_passes] pure [OF editor_test_passes] pure [OF history_test_passes]
      pure [OF arguments_test_passes] pure [OF system_test_passes] pure [OF kb]
    unfolding lib_tests_def by auto
qed

lemma test_runner_end:
  assumes "reliable U"
  shows "\<exists>u'. test_runner U tests s u =
    Exit (exit_code_u32 (if for_each ut_run tests s = None then Failed else Success)) u'"
proof -
  obtain u1 where "serial_println U (''Running '' @ show_nat (length tests) @ '' tests'') u = Some u1"
    using serial_reliable(2) [OF assms] by blast
  with run_tests_report [OF assms, of tests s u1] show ?thesis
    by (auto simp: test_runner_def exit_qemu_def split: option.splits)
qed

section \<open>Properties\<close>

text \<open>C27: The test runner reports the truth. On a serial port that accepts its output, a run of any tests
  from any state ends with exactly one write to the exit port: \<open>Success\<close> if all tests, run one after the
  other, return, and \<open>Failed\<close> as soon as one of them panics.\<close>

theorem test_runner_reports:
  assumes "reliable U"
  shows "\<exists>u'. test_runner U tests s u =
    Exit (exit_code_u32 (if for_each ut_run tests s = None then Failed else Success)) u'"
  by (rule test_runner_end [OF assms])

text \<open>For the witnesses: a port that keeps a transcript.\<close>

definition transcript :: "char list uart" where
  "transcript u text = Some (u @ text)"

lemma transcript_reliable: "reliable transcript"
  by (simp add: reliable_def transcript_def)

definition broken_test :: unit_test where
  "broken_test = \<lparr>ut_name = ''crab_os::broken'', ut_panic = ''panicked'', ut_run = pure_test (rust_assert (line_insert line_new (CHR 0xFF) = None))\<rparr>"

theorem test_runner_reports_witness:
  "\<exists>u'. test_runner transcript [broken_test] (system_new []) [] = Exit 0x11 u'"
proof -
  have "for_each ut_run [broken_test] (system_new []) = None"
    by (simp add: broken_test_def pure_test_def rust_assert_def line_insert_def is_ascii_graphic_def)
  with test_runner_reports [OF transcript_reliable, of "[broken_test]" "system_new []" "[]"] show ?thesis by simp
qed

text \<open>C14: The kernel passes its own tests. On a board as documented whose heap can be mapped, with a
  keyboard decoder as documented and without mouse input, the test kernel boots, every one of the
  library's eleven tests returns, and the run ends with the exit code for success, whatever the processor
  identifies itself as and whatever the stack frame's text is.\<close>

theorem repository_tests_pass:
  assumes "descriptor_table (pf_gdt pf) used descriptor" "board (pf_board pf) chips delay"
    "po_stack po + STACK_SIZE < 2 ^ 47" "kb_output (chips (cpu_hw (po_cpu po))) = []"
    "boot_heap pf po \<noteq> None" "length (po_vga po) = 2000"
    "ansi_keyboard D seen letter_c plain shift ctrl" "reliable U"
  shows "\<exists>u'. test_kernel_main pf U info (lib_tests D (pf_cpuid pf) stack_frame message) po u = Exit 0x10 u'"
proof -
  let ?tests = "lib_tests D (pf_cpuid pf) stack_frame message" and ?s = "system_new (po_vga po)"
  obtain c where c: "crab_init (pf_gdt pf) (pf_board pf) (po_stack po) (po_cpu po) = Some c"
    using crab_init_spec [OF assms(1,2,3,4)] by blast
  obtain s' where "for_each ut_run ?tests ?s = Some s'"
    using for_each_inv [of test_ready ?s ?tests ut_run] test_ready_boot [OF assms(6)] lib_test_passes [OF assms(7)] by blast
  then have "\<exists>u'. test_runner U ?tests ?s u = Exit 0x10 u'" using test_runner_end [OF assms(8), of ?tests ?s u] by simp
  then show ?thesis using c assms(5) by (auto simp: test_kernel_main_def)
qed

theorem repository_tests_pass_witness:
  "\<exists>u'. test_kernel_main example_platform transcript ''panicked'' (lib_tests simple_keyboard (pf_cpuid example_platform) ''InterruptStackFrame'' id)
      example_power_on [] = Exit 0x10 u'"
proof -
  have h: "boot_heap example_platform example_power_on \<noteq> None"
    using example_heap by (auto simp: boot_heap_def example_platform_def example_power_on_def)
  have p: "pf_gdt example_platform = list_table" "pf_board example_platform = slow_board" by (simp_all add: example_platform_def)
  have a: "po_stack example_power_on + STACK_SIZE < 2 ^ 47" "kb_output (fst (cpu_hw (po_cpu example_power_on))) = []"
    "length (po_vga example_power_on) = 2000"
    by (simp_all add: example_power_on_def STACK_SIZE_def example_cpu_def example_chips_def)
  show ?thesis
    by (rule repository_tests_pass [of example_platform, unfolded p, OF list_table.descriptor_table_axioms slow_board.board_axioms a(1,2) h a(3)
        simple_keyboard.ansi_keyboard_axioms transcript_reliable])
qed

end
