(* ===== verification/Spec2Isabelle.thy ===== *)
theory Spec2Isabelle
  imports Alloc_Bump Alloc_Fixed_Heap Machine_Overflow Lock_Use Test_Harness
begin

text \<open>
  \<^bold>\<open>CrabOS: a verification development for the kernel under\<close> \<^verbatim>\<open>src/src\<close>.

  \<^bold>\<open>The program.\<close> CrabOS is a 64-bit kernel with a text-mode desktop. \<^verbatim>\<open>main.rs\<close> brings the board, the heap
  and the network card up and starts an executor (\<^verbatim>\<open>task/executor.rs\<close>) with two tasks: the shell task
  (\<^verbatim>\<open>task/keyboard.rs\<close>), which decodes the input events that interrupt handlers (\<^verbatim>\<open>interrupts.rs\<close>) put into a
  bounded queue and drives up to two shells (\<^verbatim>\<open>shell.rs\<close>), and a redraw worker (\<^verbatim>\<open>desktop.rs\<close>), which repaints
  the screen when the mouse asks for it. The shells write to terminals with a scrollback, which a
  compositor draws into the video memory (\<^verbatim>\<open>vga_buffer.rs\<close>); their commands read the clock, the heap
  counter, the PCI bus (\<^verbatim>\<open>pci.rs\<close>) and fetch pages over an e1000 card (\<^verbatim>\<open>net/\<close>).

  \<^bold>\<open>Conventions.\<close> A model of a function that can panic returns an option, \<open>None\<close> being the panic (failed
  index, failed assertion, overflow of checked arithmetic, \<open>expect\<close>); a Rust \<open>Result\<close> is a sum. State is
  passed explicitly. Words have the width of the source where wrap-around or bits matter; lengths and
  addresses are naturals with the checks of \<open>usize\<close> written out (\<open>usize_add\<close>, \<open>usize_sub\<close>). Theory
  \<^verbatim>\<open>Prelude\<close> holds these operations, the loop combinator \<open>for_each\<close> and the rules collected in
  \<open>panic_simps\<close>.

  \<^bold>\<open>Theories, in the order of dependence.\<close>

  \<^item> \<^verbatim>\<open>Shell_Line\<close>, \<^verbatim>\<open>Shell_History\<close>, \<^verbatim>\<open>Shell_Args\<close>: the line editor, the history ring and the argument parser of
    \<^verbatim>\<open>shell.rs\<close>. Editing refines a pair of strings; the ring holds the newest commands and browsing returns
    to the draft; the in-place parser agrees with a reference tokeniser and inverts quoting.
  \<^item> \<^verbatim>\<open>Vga_Writer\<close>, \<^verbatim>\<open>Vga_Render\<close>, \<^verbatim>\<open>Console\<close>: the terminal of \<^verbatim>\<open>vga_buffer.rs\<close> with its ring of lines, which refines an
    unbounded grid; the compositor, whose differential copy always equals a full repaint (\<open>picture\<close>); and
    the operations that combine them with the desktop. \<open>with_writer\<close> has two critical sections; the mouse
    bytes that arrive before each of them are part of the state.
  \<^item> \<^verbatim>\<open>Desktop\<close>: the state, mouse packets, dragging, layout, opening and closing of \<^verbatim>\<open>desktop.rs\<close>, with an
    invariant that every sequence of bytes and requests keeps.
  \<^item> \<^verbatim>\<open>Alloc_Base\<close>, \<^verbatim>\<open>Alloc_Bump\<close>, \<^verbatim>\<open>Alloc_List\<close>, \<^verbatim>\<open>Alloc_Fixed\<close>: the allocators of \<^verbatim>\<open>allocator/\<close>. The contract is the locale
    \<open>heap_allocator\<close> (blocks aligned, inside the heap, disjoint); the three allocators interpret it, the
    fixed-size one over any fallback heap that does. A free list is the list of its blocks there.
  \<^item> \<^verbatim>\<open>Heap_Memory\<close>, \<^verbatim>\<open>Alloc_List_Heap\<close>, \<^verbatim>\<open>Alloc_Fixed_Heap\<close>: the same allocators on the bytes of the heap, with free lists
    that are threaded through the free blocks (locale \<open>intrusive_list\<close>) and followed by their references. They
    simulate the operations on lists and satisfy a stronger contract, the locale \<open>memory_allocator\<close>: what a
    client writes into its blocks stays there and never damages a free list.
  \<^item> \<^verbatim>\<open>Web\<close>, \<^verbatim>\<open>Timer\<close>, \<^verbatim>\<open>System_Info\<close>: URLs, requests and page rendering; the clock; the machine facts.
  \<^item> \<^verbatim>\<open>Shell\<close>, \<^verbatim>\<open>Shell_Safety\<close>, \<^verbatim>\<open>Shell_Properties\<close>: every key and every command of the shell on the console.
  \<^item> \<^verbatim>\<open>Keyboard\<close>, \<^verbatim>\<open>Run_Shell\<close>, \<^verbatim>\<open>Run_Shell_Safety\<close>: the input queue and stream, the body of \<open>run_shell\<close>, and the invariant of
    shells, terminals, desktop and queue.
  \<^item> \<^verbatim>\<open>Executor\<close>: both executors over arbitrary futures, and the sleeping protocol as a step relation.
  \<^item> \<^verbatim>\<open>Machine\<close>, \<^verbatim>\<open>Machine_Safety\<close>, \<^verbatim>\<open>Machine_Overflow\<close>: the running kernel, the executor with its two tasks under arbitrary
    interrupts, as a labelled step relation (\<open>machine_step\<close>, \<open>machine_run\<close>). Its invariant says that a task is
    queued, running, or registered with nothing to do, and that the screen is up to date or a repaint is
    due. From it follow that a sleeping kernel has nothing to do, that it answers within a bounded
    number of steps, and where the only panic comes from.
  \<^item> \<^verbatim>\<open>Memory\<close>, \<^verbatim>\<open>Pci\<close>, \<^verbatim>\<open>E1000\<close>, \<^verbatim>\<open>E1000_Rings\<close>, \<^verbatim>\<open>Net\<close>: frames, address translation and heap mapping; the PCI scan; the
    card's descriptor rings, which behave as two bounded queues; initialisation and \<open>fetch\<close>.
  \<^item> \<^verbatim>\<open>Board\<close>, \<^verbatim>\<open>Boot\<close>: descriptor and interrupt tables, the programming of timer, mouse and interrupt controllers,
    \<open>init\<close> of \<^verbatim>\<open>lib.rs\<close>, and \<open>kernel_main\<close>, which ends in the state from which the running kernel is verified.
  \<^item> \<^verbatim>\<open>Locks\<close>, \<^verbatim>\<open>Lock_Use\<close>: what the functions of all files do to the spin locks and to the interrupt flag, as lists
    of actions (\<open>f_acts\<close> for the function \<open>f\<close>), run on a processor that can be interrupted wherever the flag
    allows it (\<open>lock_step\<close>). A discipline that is checked by evaluation (\<open>safe\<close>) is proved sound for all handlers
    that keep their contract (locale \<open>interrupt_handlers\<close>); the kernel keeps both, so it never deadlocks. The
    panic handlers are run from the locks that are held where the panic occurs.
  \<^item> \<^verbatim>\<open>Test_Shell\<close>, \<^verbatim>\<open>Test_Vga\<close>, \<^verbatim>\<open>Test_Keyboard\<close>, \<^verbatim>\<open>Test_Harness\<close>: the eleven unit tests of the repository as definitions over the
    model, the exception handlers, the serial port and the test runner. The specifications of the
    components imply that every test passes; the runner reports what happened.

  \<^bold>\<open>Parameters and contracts.\<close> Code and hardware outside the repository are records of operations, and
  what the kernel relies on are the assumptions of locales, each interpreted on an executable instance
  that the witnesses use: \<open>array_queue\<close> and \<open>atomic_waker\<close> (queues and wakers of the crates), \<open>paging\<close> and
  \<open>page_mapper\<close> (page tables), \<open>pci_host\<close>, \<open>nic\<close>, \<open>net_stack\<close> and \<open>request_stream\<close> (bus, card, protocol stack),
  \<open>descriptor_table\<close> and \<open>board\<close> (segment table, ports), \<open>ansi_keyboard\<close> (the scancode decoder, for its test only), \<open>memory_allocator\<close> (the fallback heap).
  The CPUID instruction needs no laws; the serial port's driver either succeeds or fails. Properties name these contracts as hypotheses; their conclusions speak of the model only.

  \<^bold>\<open>Loops.\<close> Loops over data are structural. Waiting loops are partial functions into options whose
  termination is proved: by the length of the queue (\<open>drain_queue\<close>, \<open>run_ready_tasks\<close>), by the free list (\<open>find_from\<close>), by the clock (the loops
  of \<open>fetch\<close>), by a countdown of the controller (\<open>wait_output\<close>, \<open>wait_input\<close>). The card's reset loop has the bound
  of the source, 100000. There is no fuel. The bound 4031 of the running kernel is 20 for each of at
  most 100 events, 100 queued tasks and one repaint, plus 11 steps to get to sleep.

  \<^bold>\<open>Granularity.\<close> In the running kernel an interrupt may arrive between any two accesses of the tasks to the
  input queue, to a waker or to the redraw flag; handling one event and painting the screen are single
  steps. Interrupts inside the handling of a key are covered by the schedule of \<open>Console\<close>, where a click
  between two console calls is shown to panic; that these are the only points inside a console call
  is a lemma on its actions (\<open>with_writer_interrupt_points\<close>).

  \<^bold>\<open>What the development found.\<close> Mouse packets during repaints, or events during polls, can overflow the queue
  of ready tasks; a click during a key stroke can panic the redraw; a byte waiting at start-up is taken
  for the keyboard controller's configuration; eight packets queued at once stop the network card; the
  linked-list allocator loses the padding in front of aligned blocks and panics on huge requests; a
  less-than sign in a script hides the rest of a page; a resize keeps the draft although the
  documentation says it is cleared. A panic inside a console call, or in a click handler that finds the
  ready queue full, is never reported: its handler waits for a lock that the panicking code holds.

  \<^bold>\<open>Not modelled.\<close> The two port writes that hide the hardware cursor, the final halt loops, the texts of
  panics and of the processor's stack frame (parameters), the allocations behind boxed futures and the
  constructors of wakers, which only wrap a task's number. The volatile accesses to video memory and
  card are the operations of the models. The functional models do not mention locks: by the theorems
  on locks, taking one never waits.
\<close>

end
